(* ===== verification/Prelude.thy ===== *)
theory Prelude
  imports Complex_Main "HOL-Library.Word"
begin

text \<open>
  What the components share: the types that stand for Python's values, error results, slices,
  little-endian integers, and UTF-8, each with the lemmas the component theories use.

  \<^item> \<open>bytes\<close> is a list of 8-bit words.
  \<^item> \<open>ustr\<close> is a Python \<open>str\<close>: the list of its code points. \<open>lit\<close> turns an ASCII literal into one.
  \<^item> \<open>'e + 'a\<close> is the result of code that can raise: \<open>Inl\<close> the exception, \<open>Inr\<close> the value.
  \<^item> \<open>slice a b xs\<close> is \<open>xs[a:b]\<close> for non-negative bounds.
\<close>

section \<open>Collections of facts\<close>

named_theorems codec_simps \<open>evaluation of byte codecs\<close>
named_theorems inv_intros \<open>introduction rules of component invariants\<close>

section \<open>Types\<close>

type_synonym byte = "8 word"
type_synonym bytes = "byte list"
type_synonym ustr = "nat list"

definition lit :: "string \<Rightarrow> ustr" where
  "lit s = map of_char s"

definition asc :: "string \<Rightarrow> bytes" where
  "asc s = map of_char s"

lemma lit_simps [simp]: "lit [] = []" "lit (c # s) = of_char c # lit s"
  by (simp_all add: lit_def)

lemma asc_simps [simp]: "asc [] = []" "asc (c # s) = of_char c # asc s"
  by (simp_all add: asc_def)

lemma length_lit [simp]: "length (lit s) = length s"
  by (simp add: lit_def)

lemma length_asc [simp]: "length (asc s) = length s"
  by (simp add: asc_def)

lemma lit_append: "lit (s @ t) = lit s @ lit t"
  by (simp add: lit_def)

section \<open>Results\<close>

definition bindE :: "('e + 'a) \<Rightarrow> ('a \<Rightarrow> 'e + 'b) \<Rightarrow> 'e + 'b" where
  "bindE r f = (case r of Inl e \<Rightarrow> Inl e | Inr x \<Rightarrow> f x)"

definition guardE :: "bool \<Rightarrow> 'e \<Rightarrow> 'e + unit" where
  "guardE ok e = (if ok then Inr () else Inl e)"

lemma bindE_simps [simp]: "bindE (Inl e) f = Inl e" "bindE (Inr x) f = f x"
  by (simp_all add: bindE_def)

lemma bindE_eq_Inr: "bindE r f = Inr y \<longleftrightarrow> (\<exists>x. r = Inr x \<and> f x = Inr y)"
  by (cases r) auto

lemma bindE_eq_Inl: "bindE r f = Inl e \<longleftrightarrow> r = Inl e \<or> (\<exists>x. r = Inr x \<and> f x = Inl e)"
  by (cases r) auto

lemma guardE_simps [simp]:
  "guardE True e = Inr ()" "guardE False e = Inl e"
  "guardE b e = Inr u \<longleftrightarrow> b" "guardE b e = Inl e' \<longleftrightarrow> \<not> b \<and> e' = e"
  by (auto simp: guardE_def)

fun mapE :: "('a \<Rightarrow> 'e + 'b) \<Rightarrow> 'a list \<Rightarrow> 'e + 'b list" where
  "mapE f [] = Inr []"
| "mapE f (x # xs) = bindE (f x) (\<lambda>y. bindE (mapE f xs) (\<lambda>ys. Inr (y # ys)))"

lemma mapE_Inr_length: "mapE f xs = Inr ys \<Longrightarrow> length ys = length xs"
  by (induction xs arbitrary: ys) (auto simp: bindE_eq_Inr)

section \<open>Slices\<close>

definition slice :: "nat \<Rightarrow> nat \<Rightarrow> 'a list \<Rightarrow> 'a list" where
  "slice a b xs = take (b - a) (drop a xs)"

lemma length_slice [simp]: "length (slice a b xs) = min (b - a) (length xs - a)"
  by (simp add: slice_def min.commute)

lemma slice_append_left: "b \<le> length xs \<Longrightarrow> slice a b (xs @ ys) = slice a b xs"
  by (auto simp: slice_def)

lemma slice_split: "a \<le> b \<Longrightarrow> b \<le> c \<Longrightarrow> slice a c xs = slice a b xs @ slice b c xs"
proof -
  assume "a \<le> b" "b \<le> c"
  then have "take (c - a) (drop a xs) = take ((b - a) + (c - b)) (drop a xs)" by simp
  also have "\<dots> = take (b - a) (drop a xs) @ take (c - b) (drop (b - a) (drop a xs))"
    by (simp only: take_add)
  finally show ?thesis using \<open>a \<le> b\<close> by (simp add: slice_def)
qed

lemma slice_all [simp]: "length xs \<le> b \<Longrightarrow> slice 0 b xs = xs"
  by (simp add: slice_def)

lemma slice_self [simp]: "slice a a xs = []"
  by (simp add: slice_def)

section \<open>Little-endian integers\<close>

fun le_bytes :: "nat \<Rightarrow> nat \<Rightarrow> bytes" where
  "le_bytes 0 n = []"
| "le_bytes (Suc k) n = word_of_nat (n mod 256) # le_bytes k (n div 256)"

fun le_nat :: "bytes \<Rightarrow> nat" where
  "le_nat [] = 0"
| "le_nat (b # bs) = unat b + 256 * le_nat bs"

lemma length_le_bytes [simp]: "length (le_bytes k n) = k"
  by (induction k arbitrary: n) simp_all

lemma unat_word_of_nat_byte: "unat (word_of_nat (n mod 256) :: byte) = n mod 256"
  by (simp add: unat_of_nat)

lemma le_nat_le_bytes: "le_nat (le_bytes k n) = n mod 256 ^ k"
proof (induction k arbitrary: n)
  case (Suc k)
  have "n mod (256 * 256 ^ k) = 256 * (n div 256 mod 256 ^ k) + n mod 256"
    by (rule mod_mult2_eq)
  then show ?case using Suc by (simp only: le_bytes.simps le_nat.simps unat_word_of_nat_byte) simp
qed simp

lemma le_nat_le_bytes_id [simp]: "n < 256 ^ k \<Longrightarrow> le_nat (le_bytes k n) = n"
  by (simp add: le_nat_le_bytes)

lemma unat_byte_less [simp]: "unat (b :: byte) < 256"
  using unsigned_less [of b] by simp

lemma byte_horner_less: "n < m \<Longrightarrow> unat (b :: byte) + 256 * n < 256 * m"
proof -
  assume "n < m"
  have "unat b < 256" by simp
  with \<open>n < m\<close> show ?thesis by (metis Suc_leI add_mult_distrib2 add_less_mono1 less_le_trans
      mult_Suc_right mult_le_mono2)
qed

lemma le_nat_bound: "le_nat bs < 256 ^ length bs"
  by (induction bs) (simp_all add: byte_horner_less)

lemma le_bytes_le_nat: "le_bytes (length bs) (le_nat bs) = bs"
proof (induction bs)
  case (Cons b bs)
  have b: "unat b < 256" by simp
  have "(unat b + 256 * le_nat bs) mod 256 = unat b" using b by simp
  moreover have "(unat b + 256 * le_nat bs) div 256 = le_nat bs" using b by simp
  ultimately show ?case using Cons by simp
qed simp

lemma le_nat_inj: "length xs = length ys \<Longrightarrow> le_nat xs = le_nat ys \<longleftrightarrow> xs = ys"
  by (metis le_bytes_le_nat)

section \<open>UTF-8\<close>

text \<open>
  \<open>str.encode()\<close>: \<open>None\<close> where Python raises \<open>UnicodeEncodeError\<close>, that is on a lone surrogate
  (a \<open>str\<close> from \<open>json.loads\<close> can hold one).
\<close>

definition utf8_char :: "nat \<Rightarrow> bytes option" where
  "utf8_char c =
     (if c < 128 then Some [word_of_nat c]
      else if c < 2048 then Some [word_of_nat (192 + c div 64), word_of_nat (128 + c mod 64)]
      else if 55296 \<le> c \<and> c < 57344 then None
      else if c < 65536 then Some [word_of_nat (224 + c div 4096),
             word_of_nat (128 + c div 64 mod 64), word_of_nat (128 + c mod 64)]
      else if c < 1114112 then Some [word_of_nat (240 + c div 262144),
             word_of_nat (128 + c div 4096 mod 64), word_of_nat (128 + c div 64 mod 64),
             word_of_nat (128 + c mod 64)]
      else None)"

fun utf8 :: "ustr \<Rightarrow> bytes option" where
  "utf8 [] = Some []"
| "utf8 (c # s) = (case utf8_char c of None \<Rightarrow> None
                   | Some b \<Rightarrow> (case utf8 s of None \<Rightarrow> None | Some bs \<Rightarrow> Some (b @ bs)))"

definition ascii :: "ustr \<Rightarrow> bool" where
  "ascii s \<longleftrightarrow> (\<forall>c \<in> set s. c < 128)"

lemma ascii_simps [simp]:
  "ascii []" "ascii (c # s) \<longleftrightarrow> c < 128 \<and> ascii s" "ascii (s @ t) \<longleftrightarrow> ascii s \<and> ascii t"
  by (auto simp: ascii_def)

lemma utf8_ascii: "ascii s \<Longrightarrow> utf8 s = Some (map word_of_nat s)"
  by (induction s) (auto simp: utf8_char_def)

lemma utf8_append:
  "utf8 (s @ t) = (case utf8 s of None \<Rightarrow> None
     | Some a \<Rightarrow> (case utf8 t of None \<Rightarrow> None | Some b \<Rightarrow> Some (a @ b)))"
  by (induction s) (auto split: option.splits)

lemma utf8_char_nonempty: "utf8_char c = Some b \<Longrightarrow> b \<noteq> []"
  by (auto simp: utf8_char_def split: if_splits)

lemma utf8_length: "utf8 s = Some b \<Longrightarrow> length s \<le> length b"
proof (induction s arbitrary: b)
  case (Cons c s)
  from Cons.prems obtain x y where "utf8_char c = Some x" "utf8 s = Some y" "b = x @ y"
    by (auto split: option.splits)
  then show ?case using Cons.IH [of y] utf8_char_nonempty [of c x] by (cases x) auto
qed simp

section \<open>Lists\<close>

lemma foldl_invariant:
  assumes "P s" and "\<And>s x. P s \<Longrightarrow> x \<in> set xs \<Longrightarrow> P (f s x)"
  shows "P (foldl f s xs)"
  using assms by (induction xs arbitrary: s) auto

lemma in_set_butlast_or_last: "x \<in> set xs \<Longrightarrow> x = last xs \<or> x \<in> set (butlast xs)"
  by (induction xs) auto

end
