(* ===== verification/Crc16.thy ===== *)
theory Crc16
  imports Prelude
begin

unbundle bit_operations_syntax

text \<open>
  CRC-16/CCITT-FALSE (\<open>wire/codec/crc16.py\<close>): \<open>binascii.crc_hqx\<close> is the shift register with
  polynomial 0x1021, and \<open>crc16\<close> seeds it with 0xFFFF. The C++ \<open>Crc16\<close> reads a 256-entry table;
  it is proved equal. The register is linear and invertible, so changing one byte of the input
  always changes the checksum.
\<close>

section \<open>The Python side\<close>

definition crc_bit :: "16 word \<Rightarrow> 16 word" where
  "crc_bit c = (if bit c 15 then push_bit 1 c XOR 0x1021 else push_bit 1 c)"

definition crc_byte :: "16 word \<Rightarrow> byte \<Rightarrow> 16 word" where
  "crc_byte c b = (crc_bit ^^ 8) (c XOR push_bit 8 (ucast b))"

definition crc_hqx :: "bytes \<Rightarrow> 16 word \<Rightarrow> 16 word" where
  "crc_hqx data crc = foldl crc_byte crc data"

definition crc16 :: "bytes \<Rightarrow> 16 word" where
  "crc16 data = crc_hqx data 0xFFFF"

section \<open>The C++ side\<close>

definition crc_table :: "byte \<Rightarrow> 16 word" where
  "crc_table i = (crc_bit ^^ 8) (push_bit 8 (ucast i))"

definition crc_table_step :: "16 word \<Rightarrow> byte \<Rightarrow> 16 word" where
  "crc_table_step c b =
     push_bit 8 c XOR crc_table (ucast ((drop_bit 8 c XOR ucast b) AND 0xFF))"

definition crc16_cpp :: "bytes \<Rightarrow> 16 word" where
  "crc16_cpp data = foldl crc_table_step 0xFFFF data"

section \<open>Linearity and injectivity of the register\<close>

lemma xor_eq_0_iff_word: "a XOR b = 0 \<longleftrightarrow> a = (b :: 'a::len word)"
proof
  assume zero: "a XOR b = 0"
  show "a = b"
  proof (rule bit_word_eqI)
    fix n
    have "\<not> bit (a XOR b) n" using zero by simp
    then show "bit a n = bit b n" by (simp add: bit_xor_iff)
  qed
qed simp

lemma bit_push_bit_1: "bit (push_bit 1 (c :: 16 word)) n \<longleftrightarrow> n < 16 \<and> 0 < n \<and> bit c (n - 1)"
  by (simp only: bit_push_bit_iff) auto

lemma bit_poly: "bit (0x1021 :: 16 word) n \<Longrightarrow> n < 16"
  by (drule bit_imp_le_length) simp

lemma bit_crc_bit:
  "bit (crc_bit c) n \<longleftrightarrow> n < 16 \<and> (0 < n \<and> bit c (n - 1)) \<noteq> (bit c 15 \<and> bit (0x1021 :: 16 word) n)"
  unfolding crc_bit_def
  by (cases "bit c 15") (auto simp only: if_True if_False bit_xor_iff bit_push_bit_1
      dest: bit_poly split: if_splits)

lemma crc_bit_xor: "crc_bit (a XOR b) = crc_bit a XOR crc_bit b"
  by (rule bit_word_eqI) (auto simp: bit_crc_bit bit_xor_iff)

lemma crc_bit_eq_0: "crc_bit x = 0 \<Longrightarrow> x = 0"
proof (rule ccontr)
  assume zero: "crc_bit x = 0" and "x \<noteq> 0"
  show False
  proof (cases "bit x 15")
    case True
    then have "bit (crc_bit x) 0" by (simp add: bit_crc_bit)
    with zero show False by simp
  next
    case False
    from \<open>x \<noteq> 0\<close> obtain n where n: "bit x n"
      using bit_word_eqI [of x 0] by auto
    have "n < 16" using bit_imp_le_length [OF n] by simp
    moreover have "n \<noteq> 15" using n False by auto
    ultimately have "n < 15" by simp
    with n False have "bit (crc_bit x) (Suc n)" by (simp add: bit_crc_bit)
    with zero show False by simp
  qed
qed

lemma crc_bit_inj: "crc_bit a = crc_bit b \<longleftrightarrow> a = b"
proof
  assume "crc_bit a = crc_bit b"
  then have "crc_bit (a XOR b) = 0" by (simp add: crc_bit_xor)
  then have "a XOR b = 0" by (rule crc_bit_eq_0)
  then show "a = b" by (simp add: xor_eq_0_iff_word)
qed simp

lemma crc_bits_xor: "(crc_bit ^^ n) (a XOR b) = (crc_bit ^^ n) a XOR (crc_bit ^^ n) b"
  by (induction n) (simp_all add: crc_bit_xor)

lemma crc_bits_inj: "(crc_bit ^^ n) a = (crc_bit ^^ n) b \<longleftrightarrow> a = b"
  by (induction n) (simp_all add: crc_bit_inj)

lemma xor_left_cancel: "c XOR a = c XOR b \<longleftrightarrow> (a :: 'a::len word) = b"
proof
  assume "c XOR a = c XOR b"
  then have "(c XOR a) XOR (c XOR b) = 0" by simp
  then have "a XOR b = 0" by (simp add: ac_simps)
  then show "a = b" by (simp add: xor_eq_0_iff_word)
qed simp

lemma crc_byte_state_inj: "crc_byte c b = crc_byte d b \<longleftrightarrow> c = d"
  using xor_left_cancel [of "push_bit 8 (ucast b)" c d]
  by (simp add: crc_byte_def crc_bits_inj xor.commute)

lemma shifted_byte_inj:
  "push_bit 8 (ucast a :: 16 word) = push_bit 8 (ucast b) \<longleftrightarrow> (a :: byte) = b"
proof
  assume eq: "push_bit 8 (ucast a :: 16 word) = push_bit 8 (ucast b)"
  show "a = b"
  proof (rule bit_word_eqI)
    fix n assume n: "n < LENGTH(8)"
    have "bit (push_bit 8 (ucast a :: 16 word)) (n + 8) = bit (push_bit 8 (ucast b :: 16 word)) (n + 8)"
      using eq by simp
    with n show "bit a n = bit b n" by (simp add: bit_push_bit_iff bit_ucast_iff)
  qed
qed simp

lemma crc_byte_data_inj: "crc_byte c a = crc_byte c b \<longleftrightarrow> a = b"
  by (simp add: crc_byte_def crc_bits_inj xor_left_cancel shifted_byte_inj)

lemma crc_fold_inj: "foldl crc_byte c data = foldl crc_byte d data \<longleftrightarrow> c = d"
  by (induction data arbitrary: c d) (simp_all add: crc_byte_state_inj)

lemma crc_hqx_append: "crc_hqx (xs @ ys) c = crc_hqx ys (crc_hqx xs c)"
  by (simp add: crc_hqx_def)

text \<open>One byte changed anywhere in the covered bytes: another checksum.\<close>

lemma crc16_one_byte:
  assumes "k < length data" "b \<noteq> data ! k"
  shows "crc16 (data[k := b]) \<noteq> crc16 data"
proof -
  let ?pre = "take k data" and ?post = "drop (Suc k) data"
  have old: "data = ?pre @ data ! k # ?post" using assms(1) by (rule id_take_nth_drop)
  have new: "data[k := b] = ?pre @ b # ?post" using assms(1) by (rule upd_conv_take_nth_drop)
  have "crc16 (?pre @ b # ?post) \<noteq> crc16 (?pre @ data ! k # ?post)"
    using assms(2) by (simp add: crc16_def crc_hqx_def crc_fold_inj crc_byte_data_inj)
  then show ?thesis using old new by simp
qed

section \<open>The table\<close>

lemma crc_bits_small:
  assumes "\<And>n. bit (x :: 16 word) n \<Longrightarrow> n < 8" and "k \<le> 8"
  shows "(crc_bit ^^ k) x = push_bit k x"
  using assms(2)
proof (induction k)
  case (Suc k)
  have "\<not> bit (push_bit k x) 15"
    using assms(1) [of "15 - k"] Suc.prems by (auto simp: bit_push_bit_iff)
  with Suc show ?case by (simp add: crc_bit_def push_bit_push_bit)
qed simp

lemma mask_8: "(0xFF :: 16 word) = mask 8"
  by (simp add: mask_eq_exp_minus_1)

lemma crc_split:
  "c XOR push_bit 8 (ucast b) =
     (c AND 0xFF) XOR push_bit 8 (ucast (ucast ((drop_bit 8 c XOR ucast b) AND 0xFF :: 16 word) :: byte))"
  unfolding mask_8
  by (rule bit_word_eqI)
    (auto simp: bit_xor_iff bit_and_iff bit_push_bit_iff bit_drop_bit_eq bit_ucast_iff bit_mask_iff)

lemma crc_table_step_eq: "crc_table_step c b = crc_byte c b"
proof -
  have lo: "(crc_bit ^^ 8) (c AND 0xFF) = push_bit 8 (c AND 0xFF)"
    unfolding mask_8 by (rule crc_bits_small) (auto simp: bit_and_iff bit_mask_iff)
  have shift: "push_bit 8 (c AND 0xFF) = push_bit 8 c"
    unfolding mask_8
    by (rule bit_word_eqI) (auto simp: bit_and_iff bit_push_bit_iff bit_mask_iff)
  have "crc_byte c b = (crc_bit ^^ 8) (c AND 0xFF) XOR
      crc_table (ucast ((drop_bit 8 c XOR ucast b) AND 0xFF))"
    unfolding crc_byte_def crc_table_def by (subst crc_split) (rule crc_bits_xor)
  then show ?thesis by (simp only: lo shift crc_table_step_def)
qed

lemma crc16_cpp_eq: "crc16_cpp data = crc16 data"
proof -
  have "crc_table_step = crc_byte" by (intro ext) (rule crc_table_step_eq)
  then show ?thesis by (simp add: crc16_cpp_def crc16_def crc_hqx_def)
qed

text \<open>The check value that \<open>crc16.py\<close> asserts at import.\<close>

lemma crc16_check_value: "crc16 (asc ''123456789'') = 0x29B1"
  by code_simp

end
