(* ===== verification/Cobs.thy ===== *)
theory Cobs
  imports Prelude
begin

text \<open>
  COBS. \<open>cpp/src/codec/cobs.cc\<close> is the codec this repository holds; the Python side calls the
  \<open>cobs\<close> package, which is a parameter of the Python model. The interface both sides rely on is the
  locale \<open>cobs_codec\<close>; \<open>cpp_cobs\<close> is its interpretation on the C++ code.
\<close>

section \<open>The encoder\<close>

text \<open>
  \<open>CobsEncode\<close> writes into one buffer: \<open>done\<close> is what lies before \<open>code_ptr\<close>, \<open>blk\<close> what lies after
  the placeholder byte at \<open>code_ptr\<close>. \<open>*code_ptr = code\<close> therefore completes \<open>done @ [code] @ blk\<close>.
\<close>

record cobs_state =
  cobs_done :: bytes
  cobs_blk :: bytes
  cobs_code :: byte
  cobs_open :: bool

definition cobs_init :: cobs_state where
  "cobs_init = \<lparr>cobs_done = [], cobs_blk = [], cobs_code = 1, cobs_open = True\<rparr>"

definition cobs_flush :: "cobs_state \<Rightarrow> byte \<Rightarrow> bytes \<Rightarrow> bool \<Rightarrow> cobs_state" where
  "cobs_flush s c b op =
     \<lparr>cobs_done = cobs_done s @ c # b, cobs_blk = [], cobs_code = 1, cobs_open = op\<rparr>"

definition cobs_step :: "cobs_state \<Rightarrow> byte \<Rightarrow> cobs_state" where
  "cobs_step s b =
     (if b = 0 then cobs_flush s (cobs_code s) (cobs_blk s) True
      else let blk = cobs_blk s @ [b]; code = cobs_code s + 1
           in if code = 0xFF then cobs_flush s code blk False
              else s\<lparr>cobs_blk := blk, cobs_code := code, cobs_open := True\<rparr>)"

definition cobs_encode_cpp :: "bytes \<Rightarrow> bytes" where
  "cobs_encode_cpp data =
     (let s = foldl cobs_step cobs_init data
      in if cobs_open s then cobs_done s @ cobs_code s # cobs_blk s else cobs_done s)"

section \<open>The decoder\<close>

text \<open>
  \<open>CobsDecode\<close> advances \<open>i\<close> by the code byte; the argument here is the input from \<open>i\<close> on.
  \<open>None\<close> is the C++ \<open>false\<close>.
\<close>

function cobs_decode_cpp :: "bytes \<Rightarrow> bytes option" where
  "cobs_decode_cpp [] = Some []"
| "cobs_decode_cpp (c # rest) =
     (if c = 0 then None
      else let n = unat c - 1; blk = take n rest; rest' = drop n rest
           in if length rest < n then None
              else if 0 \<in> set blk then None
              else (case cobs_decode_cpp rest' of None \<Rightarrow> None
                    | Some out \<Rightarrow>
                        Some (blk @ (if rest' \<noteq> [] \<and> c \<noteq> 0xFF then [0] else []) @ out)))"
  by pat_completeness auto
termination
  by (relation "measure length") auto

declare cobs_decode_cpp.simps(2) [simp del]

section \<open>The encoder's invariant\<close>

text \<open>
  \<open>cobs_prefix p d\<close>: \<open>p\<close> is a run of complete blocks that another block follows, and decodes to \<open>d\<close>.
\<close>

definition cobs_prefix :: "bytes \<Rightarrow> bytes \<Rightarrow> bool" where
  "cobs_prefix p d \<longleftrightarrow>
     (\<forall>r. r \<noteq> [] \<longrightarrow> cobs_decode_cpp (p @ r) = map_option (\<lambda>x. d @ x) (cobs_decode_cpp r))"

lemma cobs_prefix_Nil: "cobs_prefix [] []"
  by (simp add: cobs_prefix_def option.map_ident)

lemma decode_last_block:
  assumes "unat c = Suc (length b)" "0 \<notin> set b"
  shows "cobs_decode_cpp (c # b) = Some b"
proof -
  have "c \<noteq> 0" using assms(1) by auto
  with assms show ?thesis by (simp add: cobs_decode_cpp.simps(2))
qed

lemma decode_inner_block:
  assumes "unat c = Suc (length b)" "0 \<notin> set b" "r \<noteq> []"
  shows "cobs_decode_cpp (c # b @ r) =
           map_option (\<lambda>x. b @ (if c \<noteq> 0xFF then [0] else []) @ x) (cobs_decode_cpp r)"
proof -
  have "c \<noteq> 0" using assms(1) by auto
  with assms show ?thesis
    by (simp add: cobs_decode_cpp.simps(2) split: option.splits)
qed

lemma cobs_prefix_block:
  assumes "cobs_prefix p d" "unat c = Suc (length b)" "0 \<notin> set b"
  shows "cobs_prefix (p @ c # b) (d @ b @ (if c \<noteq> 0xFF then [0] else []))"
  unfolding cobs_prefix_def
proof (intro allI impI)
  fix r :: bytes assume "r \<noteq> []"
  have "cobs_decode_cpp ((p @ c # b) @ r) = map_option (\<lambda>x. d @ x) (cobs_decode_cpp (c # b @ r))"
    using assms(1) [unfolded cobs_prefix_def, rule_format, of "c # b @ r"] by simp
  also have "\<dots> = map_option (\<lambda>x. (d @ b @ (if c \<noteq> 0xFF then [0] else [])) @ x) (cobs_decode_cpp r)"
    using decode_inner_block [OF assms(2,3) \<open>r \<noteq> []\<close>] by (simp add: option.map_comp comp_def)
  finally show "cobs_decode_cpp ((p @ c # b) @ r) =
      map_option (\<lambda>x. (d @ b @ (if c \<noteq> 0xFF then [0] else [])) @ x) (cobs_decode_cpp r)" .
qed

lemma cobs_prefix_last:
  assumes "cobs_prefix p d" "unat c = Suc (length b)" "0 \<notin> set b"
  shows "cobs_decode_cpp (p @ c # b) = Some (d @ b)"
  using assms(1) [unfolded cobs_prefix_def, rule_format, of "c # b"]
    decode_last_block [OF assms(2,3)] by simp

definition cobs_inv :: "bytes \<Rightarrow> cobs_state \<Rightarrow> bool" where
  "cobs_inv d s \<longleftrightarrow>
     (\<exists>p. cobs_prefix (cobs_done s) p \<and> d = p @ cobs_blk s)
     \<and> unat (cobs_code s) = Suc (length (cobs_blk s)) \<and> length (cobs_blk s) < 254
     \<and> 0 \<notin> set (cobs_blk s) \<and> 0 \<notin> set (cobs_done s)
     \<and> (\<not> cobs_open s \<longrightarrow> cobs_decode_cpp (cobs_done s) = Some d)
     \<and> length (cobs_done s) \<le>
         (length d - length (cobs_blk s)) + (length d - length (cobs_blk s)) div 254"

lemma cobs_inv_init: "cobs_inv [] cobs_init"
  by (simp add: cobs_inv_def cobs_init_def cobs_prefix_Nil)

lemma cobs_invE:
  assumes "cobs_inv d s"
  obtains p where "cobs_prefix (cobs_done s) p" "d = p @ cobs_blk s"
    "unat (cobs_code s) = Suc (length (cobs_blk s))" "length (cobs_blk s) < 254"
    "0 \<notin> set (cobs_blk s)" "0 \<notin> set (cobs_done s)"
    "length (cobs_done s) \<le> length p + length p div 254"
proof -
  from assms obtain p where "cobs_prefix (cobs_done s) p" "d = p @ cobs_blk s"
    by (auto simp only: cobs_inv_def)
  with assms show thesis by (intro that [of p]) (simp_all add: cobs_inv_def)
qed

lemma cobs_flush_zero:
  assumes inv: "cobs_inv d s"
  shows "cobs_inv (d @ [0]) (cobs_flush s (cobs_code s) (cobs_blk s) True)"
proof -
  from inv obtain p where p: "cobs_prefix (cobs_done s) p" "d = p @ cobs_blk s"
    and code: "unat (cobs_code s) = Suc (length (cobs_blk s))" and short: "length (cobs_blk s) < 254"
    and nz: "0 \<notin> set (cobs_blk s)" "0 \<notin> set (cobs_done s)"
    and len: "length (cobs_done s) \<le> length p + length p div 254"
    by (rule cobs_invE)
  have "cobs_code s \<noteq> 0xFF" using code short by auto
  then have "cobs_prefix (cobs_done s @ cobs_code s # cobs_blk s) (d @ [0])"
    using cobs_prefix_block [OF p(1) code nz(1)] p(2) by simp
  moreover have "cobs_code s \<noteq> 0" using code by auto
  moreover have "length p div 254 \<le> Suc (length p + length (cobs_blk s)) div 254"
    by (rule div_le_mono) simp
  ultimately show ?thesis using p(2) nz len by (auto simp: cobs_inv_def cobs_flush_def)
qed

lemma cobs_flush_full:
  assumes inv: "cobs_inv d s" and b: "b \<noteq> 0" and full: "cobs_code s = 0xFE"
  shows "cobs_inv (d @ [b]) (cobs_flush s 0xFF (cobs_blk s @ [b]) False)"
proof -
  from inv obtain p where p: "cobs_prefix (cobs_done s) p" "d = p @ cobs_blk s"
    and code: "unat (cobs_code s) = Suc (length (cobs_blk s))"
    and "0 \<notin> set (cobs_blk s)" and nz0: "0 \<notin> set (cobs_done s)"
    and len: "length (cobs_done s) \<le> length p + length p div 254"
    by (rule cobs_invE)
  then have nz: "0 \<notin> set (cobs_blk s @ [b])" using b by simp
  have k: "length (cobs_blk s) = 253" using code full by simp
  then have code': "unat (0xFF :: byte) = Suc (length (cobs_blk s @ [b]))" by simp
  have "cobs_prefix (cobs_done s @ 0xFF # cobs_blk s @ [b]) (d @ [b])"
    using cobs_prefix_block [OF p(1) code' nz] p(2) by simp
  moreover have "cobs_decode_cpp (cobs_done s @ 0xFF # cobs_blk s @ [b]) = Some (d @ [b])"
    using cobs_prefix_last [OF p(1) code' nz] p(2) by simp
  ultimately show ?thesis
    using p(2) nz nz0 len k by (auto simp: cobs_inv_def cobs_flush_def)
qed

lemma cobs_step_inv:
  assumes inv: "cobs_inv d s"
  shows "cobs_inv (d @ [b]) (cobs_step s b)"
proof (cases "b = 0 \<or> cobs_code s = 0xFE")
  case True
  then show ?thesis using inv
    by (auto simp: cobs_step_def Let_def cobs_flush_zero cobs_flush_full)
next
  case False
  have k: "unat (cobs_code s) < 255" using inv by (auto simp: cobs_inv_def)
  then have "unat (cobs_code s + 1) = Suc (unat (cobs_code s))"
    by (simp add: unat_word_ariths)
  moreover have "unat (cobs_code s) \<noteq> unat (0xFE :: byte)"
    using False by (metis word_unat_eq_iff)
  ultimately show ?thesis using inv False k
    by (auto simp: cobs_inv_def cobs_step_def Let_def)
qed

lemma cobs_fold_inv: "cobs_inv d s \<Longrightarrow> cobs_inv (d @ e) (foldl cobs_step s e)"
proof (induction e arbitrary: d s)
  case (Cons b e)
  have "cobs_inv ((d @ [b]) @ e) (foldl cobs_step (cobs_step s b) e)"
    by (rule Cons.IH) (rule cobs_step_inv [OF Cons.prems])
  then show ?case by simp
qed simp

section \<open>The codec's laws\<close>

lemma cobs_final_inv: "cobs_inv d (foldl cobs_step cobs_init d)"
  using cobs_fold_inv [OF cobs_inv_init, of d] by simp

lemma cpp_cobs_roundtrip: "cobs_decode_cpp (cobs_encode_cpp d) = Some d"
proof -
  let ?s = "foldl cobs_step cobs_init d"
  show ?thesis
  proof (cases "cobs_open ?s")
    case True
    from cobs_final_inv [of d] show ?thesis
      by (rule cobs_invE) (use True cobs_prefix_last in \<open>auto simp: cobs_encode_cpp_def Let_def\<close>)
  next
    case False
    then show ?thesis
      using cobs_final_inv [of d] by (simp add: cobs_inv_def cobs_encode_cpp_def Let_def)
  qed
qed

lemma cpp_cobs_no_zero: "0 \<notin> set (cobs_encode_cpp d)"
proof -
  from cobs_final_inv [of d] show ?thesis
    by (rule cobs_invE) (auto simp: cobs_encode_cpp_def Let_def)
qed

lemma cobs_encode_nonempty: "cobs_encode_cpp d \<noteq> []"
proof
  assume "cobs_encode_cpp d = []"
  then have "\<not> cobs_open (foldl cobs_step cobs_init d)"
    and empty: "cobs_done (foldl cobs_step cobs_init d) = []"
    by (auto simp: cobs_encode_cpp_def Let_def split: if_splits)
  with cobs_final_inv [of d] have "d = []" by (simp add: cobs_inv_def)
  then have "cobs_encode_cpp d = [1]" by (simp add: cobs_encode_cpp_def cobs_init_def)
  then show False using \<open>cobs_encode_cpp d = []\<close> by simp
qed

text \<open>
  The C++ buffer has \<open>n + n / 254 + 2\<close> bytes. Counting the placeholder, the writer never needs more,
  after any prefix of the input: no write through \<open>p\<close> leaves the buffer.
\<close>

definition cobs_buffer_bytes :: "nat \<Rightarrow> nat" where
  "cobs_buffer_bytes n = n + n div 254 + 2"

definition cobs_written :: "cobs_state \<Rightarrow> nat" where
  "cobs_written s = length (cobs_done s) + 1 + length (cobs_blk s)"

lemma cobs_written_bound:
  assumes "k \<le> length d"
  shows "cobs_written (foldl cobs_step cobs_init (take k d)) < cobs_buffer_bytes (length d)"
proof -
  let ?s = "foldl cobs_step cobs_init (take k d)"
  from cobs_final_inv [of "take k d"] obtain p where
    d: "take k d = p @ cobs_blk ?s" and
    len: "length (cobs_done ?s) \<le> length p + length p div 254"
    by (rule cobs_invE)
  have le: "length p + length (cobs_blk ?s) \<le> length d"
    using arg_cong [OF d, of length] assms by simp
  then have "length p div 254 \<le> length d div 254" by (intro div_le_mono) simp
  with len le show ?thesis by (simp add: cobs_written_def cobs_buffer_bytes_def)
qed

section \<open>The reference encoding\<close>

text \<open>
  Canonical COBS, the encoding that \<open>cobs.cc\<close> says the Python side has and it matches byte for byte: the input
  is cut at its zeros, and a longer run every 254 bytes; a block is its length and one, then its bytes. A
  block of 254 bytes stands for no zero, so nothing follows one that ends the input.
\<close>

function cobs_reference :: "bytes \<Rightarrow> bytes" where
  "cobs_reference d =
     (let run = takeWhile (\<lambda>b. b \<noteq> 0) d in
      if 254 \<le> length run
      then 255 # take 254 run @ (if drop 254 d = [] then [] else cobs_reference (drop 254 d))
      else word_of_nat (Suc (length run)) # run @
        (case drop (length run) d of [] \<Rightarrow> [] | z # rest \<Rightarrow> cobs_reference rest))"
  by auto
termination
proof (relation "measure length")
  show "wf (measure length)" by simp
next
  fix d run :: bytes
  assume "run = takeWhile (\<lambda>b. b \<noteq> 0) d" "254 \<le> length run" "drop 254 d \<noteq> []"
  then show "(drop 254 d, d) \<in> measure length" by (cases d) simp_all
next
  fix d run rest :: bytes and z
  assume "drop (length run) d = z # rest"
  from arg_cong [OF this, of length] show "(rest, d) \<in> measure length" by simp
qed

declare cobs_reference.simps [simp del]

lemma takeWhile_run: "0 \<notin> set b \<Longrightarrow> takeWhile (\<lambda>b. b \<noteq> 0) (b @ e) = b @ takeWhile (\<lambda>b. b \<noteq> 0) (e :: bytes)"
  by (induction b) auto

lemma reference_short: "0 \<notin> set b \<Longrightarrow> length b < 254 \<Longrightarrow> cobs_reference b = word_of_nat (Suc (length b)) # b"
proof -
  assume "0 \<notin> set b" "length b < 254"
  moreover have "takeWhile (\<lambda>b. b \<noteq> 0) b = b" using takeWhile_run [of b "[]"] \<open>0 \<notin> set b\<close> by simp
  ultimately show ?thesis by (subst cobs_reference.simps) (simp add: Let_def del: takeWhile_eq_all_conv)
qed

lemma reference_zero:
  "0 \<notin> set b \<Longrightarrow> length b < 254 \<Longrightarrow>
     cobs_reference (b @ 0 # e) = word_of_nat (Suc (length b)) # b @ cobs_reference e"
  using takeWhile_run [of b "0 # e"] by (subst cobs_reference.simps) simp

lemma reference_full:
  "0 \<notin> set b \<Longrightarrow> length b = 254 \<Longrightarrow> cobs_reference (b @ e) = 255 # b @ (if e = [] then [] else cobs_reference e)"
  using takeWhile_run [of b e] by (subst cobs_reference.simps) simp

text \<open>The encoder finishes a block it has begun as the reference encodes its bytes with what follows.\<close>

definition cobs_finish :: "cobs_state \<Rightarrow> bytes" where
  "cobs_finish s = (if cobs_open s then cobs_done s @ cobs_code s # cobs_blk s else cobs_done s)"

definition cobs_begun :: "cobs_state \<Rightarrow> bool" where
  "cobs_begun s \<longleftrightarrow> cobs_code s = word_of_nat (Suc (length (cobs_blk s))) \<and> length (cobs_blk s) < 254
     \<and> 0 \<notin> set (cobs_blk s) \<and> (\<not> cobs_open s \<longrightarrow> cobs_blk s = [])"

lemma cobs_finish_reference:
  "cobs_begun s \<Longrightarrow> cobs_finish (foldl cobs_step s e)
     = cobs_done s @ (if e = [] \<and> \<not> cobs_open s then [] else cobs_reference (cobs_blk s @ e))"
proof (induction e arbitrary: s)
  case Nil
  then show ?case by (simp add: cobs_finish_def cobs_begun_def reference_short)
next
  case (Cons b e)
  then have c: "cobs_code s = word_of_nat (Suc (length (cobs_blk s)))" "length (cobs_blk s) < 254"
    "0 \<notin> set (cobs_blk s)" by (simp_all add: cobs_begun_def)
  have code: "cobs_code s + 1 = word_of_nat (Suc (Suc (length (cobs_blk s))))" by (simp add: c(1))
  have "unat (word_of_nat n :: byte) = n" if "n < 256" for n
    using unat_word_of_nat_byte [of n] that by simp
  from this [of "Suc (Suc (length (cobs_blk s)))"] c(2)
  have "unat (cobs_code s + 1) = Suc (Suc (length (cobs_blk s)))" unfolding code by simp
  then have full: "cobs_code s + 1 = 0xFF \<longleftrightarrow> length (cobs_blk s) = 253"
    by (auto simp: word_unat_eq_iff)
  consider "b = 0" | "b \<noteq> 0" "length (cobs_blk s) = 253" | "b \<noteq> 0" "length (cobs_blk s) < 253"
    using c(2) by linarith
  then show ?case
  proof cases
    case 1
    then have "cobs_begun (cobs_step s b)" by (simp add: cobs_step_def cobs_flush_def cobs_begun_def)
    from Cons.IH [OF this] show ?thesis using 1 c by (simp add: cobs_step_def cobs_flush_def reference_zero)
  next
    case 2
    then have "cobs_begun (cobs_step s b)" by (simp add: cobs_step_def cobs_flush_def cobs_begun_def full)
    from Cons.IH [OF this] show ?thesis
      using 2 c full reference_full [of "cobs_blk s @ [b]" e] by (simp add: cobs_step_def cobs_flush_def)
  next
    case 3
    then have "cobs_begun (cobs_step s b)" using c(3) code full
      by (simp add: cobs_step_def cobs_begun_def)
    from Cons.IH [OF this] show ?thesis using 3 full by (simp add: cobs_step_def)
  qed
qed

lemma cpp_cobs_reference: "cobs_encode_cpp d = cobs_reference d"
  using cobs_finish_reference [of cobs_init d]
  by (simp add: cobs_encode_cpp_def cobs_finish_def cobs_begun_def cobs_init_def Let_def)

section \<open>The interface\<close>

text \<open>What every user of a COBS codec relies on (\<open>docs/protocol/framing.md\<close> section 3.2).\<close>

locale cobs_codec =
  fixes enc :: "bytes \<Rightarrow> bytes"
    and dec :: "bytes \<Rightarrow> bytes option"
  assumes dec_enc: "dec (enc d) = Some d"
    and enc_no_zero: "0 \<notin> set (enc d)"
    and enc_nonempty: "enc d \<noteq> []"
begin

lemma enc_inj: "enc a = enc b \<Longrightarrow> a = b"
  by (metis dec_enc option.inject)

end

interpretation cpp_cobs: cobs_codec cobs_encode_cpp cobs_decode_cpp
  by unfold_locales (simp_all add: cpp_cobs_roundtrip cpp_cobs_no_zero cobs_encode_nonempty)

end
