(* ===== verification/Frame.thy ===== *)
theory Frame
  imports Crc16 Cobs
begin

text \<open>
  The core frame codec (\<open>wire/codec/frame.py\<close>), the COBS wrapper (\<open>wire/codec/cobs.py\<close>) and the
  neutral \<open>Message\<close> (\<open>wire/message.py\<close>).

  Code that is not in the repository enters as fields of \<open>wire_ext\<close>: the \<open>cobs\<close> package and the
  generated protobuf \<open>Header\<close> class. \<open>wire_ext_ok\<close> states what is documented of them: COBS decodes
  what it encoded and never emits a zero byte; a serialized header parses back to itself. \<open>None\<close> of
  \<open>header_ser\<close> stands for the \<open>ValueError\<close> of a field setter (a value outside the field's range).
\<close>

section \<open>The data\<close>

record timestamp =
  ts_seconds :: int
  ts_nanos :: int

record sync_point =
  sp_authority_epoch :: int
  sp_grid_generation :: int
  sp_frame_index :: int

record header =
  h_stream_id :: int
  h_seq :: int
  h_timestamp :: timestamp
  h_keyframe :: bool
  h_clock_authority_epoch :: int
  h_clock_revision :: int
  h_sync_point :: "sync_point option"

record message =
  m_stream_id :: int
  m_payload :: bytes
  m_seq :: int
  m_timestamp :: timestamp
  m_clock_authority_epoch :: int
  m_clock_revision :: int
  m_sync_point :: "sync_point option"
  m_keyframe :: bool

definition default_message :: message where
  "default_message =
     \<lparr>m_stream_id = 0, m_payload = [], m_seq = 0, m_timestamp = \<lparr>ts_seconds = 0, ts_nanos = 0\<rparr>,
      m_clock_authority_epoch = 0, m_clock_revision = 0, m_sync_point = None, m_keyframe = False\<rparr>"

record wire_ext =
  pkg_cobs_encode :: "bytes \<Rightarrow> bytes"
  pkg_cobs_decode :: "bytes \<Rightarrow> bytes option"
  header_ser :: "header \<Rightarrow> bytes option"
  header_parse :: "bytes \<Rightarrow> header option"

definition wire_ext_ok :: "wire_ext \<Rightarrow> bool" where
  "wire_ext_ok E \<longleftrightarrow> cobs_codec (pkg_cobs_encode E) (pkg_cobs_decode E)
     \<and> (\<forall>h b. header_ser E h = Some b \<longrightarrow> header_parse E b = Some h)"

lemma wire_ext_header: "wire_ext_ok E \<Longrightarrow> header_ser E h = Some b \<Longrightarrow> header_parse E b = Some h"
  by (simp add: wire_ext_ok_def)

lemma wire_ext_cobs: "wire_ext_ok E \<Longrightarrow> cobs_codec (pkg_cobs_encode E) (pkg_cobs_decode E)"
  by (simp add: wire_ext_ok_def)

section \<open>The operations\<close>

definition cobs_encode :: "wire_ext \<Rightarrow> bytes \<Rightarrow> bytes" where
  "cobs_encode E data = pkg_cobs_encode E data"

definition cobs_decode :: "wire_ext \<Rightarrow> bytes \<Rightarrow> bytes option" where
  "cobs_decode E encoded = pkg_cobs_decode E encoded"

datatype frame_error =
    HeaderValueError
  | HeaderTooLarge nat
  | FrameTooShort nat
  | HeaderLenExceeds nat nat
  | CrcMismatch nat nat
  | HeaderParseFailed

definition encode_frame :: "wire_ext \<Rightarrow> header \<Rightarrow> bytes \<Rightarrow> frame_error + bytes" where
  "encode_frame E header payload =
     (case header_ser E header of
        None \<Rightarrow> Inl HeaderValueError
      | Some header_bytes \<Rightarrow>
          let header_len = length header_bytes in
          if header_len > 0xFF then Inl (HeaderTooLarge header_len)
          else let prefix = [word_of_nat header_len];
                   covered = prefix @ header_bytes @ payload;
                   crc = le_bytes 2 (unat (crc16 covered))
               in Inr (covered @ crc))"

definition decode_frame :: "wire_ext \<Rightarrow> bytes \<Rightarrow> frame_error + header \<times> bytes" where
  "decode_frame E buf =
     (if length buf < 3 then Inl (FrameTooShort (length buf))
      else let header_len = unat (buf ! 0); payload_end = 1 + header_len in
        if payload_end + 2 > length buf then Inl (HeaderLenExceeds header_len (length buf))
        else let covered = take (length buf - 2) buf;
                 got_crc = le_nat (slice (length buf - 2) (length buf) buf);
                 want_crc = unat (crc16 covered)
          in if got_crc \<noteq> want_crc then Inl (CrcMismatch got_crc want_crc)
             else (case header_parse E (slice 1 payload_end buf) of
                     None \<Rightarrow> Inl HeaderParseFailed
                   | Some header \<Rightarrow> Inr (header, slice payload_end (length buf - 2) buf)))"

definition to_header :: "message \<Rightarrow> header" where
  "to_header m =
     \<lparr>h_stream_id = m_stream_id m, h_seq = m_seq m, h_timestamp = m_timestamp m,
      h_keyframe = m_keyframe m, h_clock_authority_epoch = m_clock_authority_epoch m,
      h_clock_revision = m_clock_revision m, h_sync_point = m_sync_point m\<rparr>"

definition from_header :: "header \<Rightarrow> bytes \<Rightarrow> message" where
  "from_header h payload =
     \<lparr>m_stream_id = h_stream_id h, m_payload = payload, m_seq = h_seq h,
      m_timestamp = h_timestamp h, m_clock_authority_epoch = h_clock_authority_epoch h,
      m_clock_revision = h_clock_revision h, m_sync_point = h_sync_point h,
      m_keyframe = h_keyframe h\<rparr>"

definition encode_message :: "wire_ext \<Rightarrow> message \<Rightarrow> frame_error + bytes" where
  "encode_message E m = encode_frame E (to_header m) (m_payload m)"

definition decode_message :: "wire_ext \<Rightarrow> bytes \<Rightarrow> frame_error + message" where
  "decode_message E frame =
     bindE (decode_frame E frame) (\<lambda>(header, payload). Inr (from_header header payload))"

text \<open>
  \<open>Message.stamped\<close>: \<open>Timestamp.FromNanoseconds\<close> is protobuf code, the argument \<open>from_ns\<close>; a
  message payload is serialized by its own class before, so the payload is its bytes here.
\<close>

definition stamped :: "(int \<Rightarrow> timestamp) \<Rightarrow> bytes \<Rightarrow> int \<Rightarrow> int \<Rightarrow> int \<Rightarrow> message" where
  "stamped from_ns payload t_ns seq stream_id =
     default_message\<lparr>m_stream_id := stream_id, m_payload := payload, m_seq := seq,
                     m_timestamp := from_ns t_ns\<rparr>"

section \<open>Round trips\<close>

lemma from_to_header [simp]: "from_header (to_header m) (m_payload m) = m"
  by (simp add: from_header_def to_header_def)

lemma encode_frameE:
  assumes "encode_frame E h p = Inr f"
  obtains hb where "header_ser E h = Some hb" "length hb \<le> 255"
    "f = (word_of_nat (length hb) # hb @ p) @ le_bytes 2 (unat (crc16 (word_of_nat (length hb) # hb @ p)))"
  using assms by (auto simp: encode_frame_def Let_def split: option.splits if_splits)

lemma length_encode_frame:
  "encode_frame E h p = Inr f \<Longrightarrow> length f \<le> length p + 258"
  by (erule encode_frameE) simp

lemma crc_le_bytes: "le_nat (le_bytes 2 (unat (c :: 16 word))) = unat c"
proof -
  have "unat c < 2 ^ LENGTH(16)" by (rule unsigned_less)
  then show ?thesis by (intro le_nat_le_bytes_id) simp
qed

lemma decode_encode_frame:
  assumes E: "wire_ext_ok E" and enc: "encode_frame E h p = Inr f"
  shows "decode_frame E f = Inr (h, p)"
proof -
  from enc obtain hb where ser: "header_ser E h = Some hb" and len: "length hb \<le> 255"
    and f: "f = (word_of_nat (length hb) # hb @ p)
        @ le_bytes 2 (unat (crc16 (word_of_nat (length hb) # hb @ p)))"
    by (rule encode_frameE)
  let ?c = "word_of_nat (length hb) # hb @ p"
  have u: "unat (word_of_nat (length hb) :: byte) = length hb"
    using len by (simp add: unat_of_nat)
  have n: "length f - 2 = length ?c" by (simp add: f)
  have 1: "take (length f - 2) f = ?c" unfolding n by (simp add: f)
  have 2: "slice (length f - 2) (length f) f = le_bytes 2 (unat (crc16 ?c))"
    unfolding n by (simp add: slice_def f)
  have 3: "slice 1 (1 + length hb) f = hb" by (simp add: slice_def f)
  have 4: "slice (1 + length hb) (length f - 2) f = p"
    unfolding n by (simp add: slice_def f)
  have 5: "f ! 0 = word_of_nat (length hb)" by (simp add: f)
  have "\<not> length f < 3" "\<not> 1 + length hb + 2 > length f" by (simp_all add: f)
  then show ?thesis
    unfolding decode_frame_def Let_def 5 u 1 2 3 4 crc_le_bytes
    using wire_ext_header [OF E ser] by simp
qed

lemma decode_encode_message:
  "wire_ext_ok E \<Longrightarrow> encode_message E m = Inr f \<Longrightarrow> decode_message E f = Inr m"
  by (simp add: encode_message_def decode_message_def decode_encode_frame)

section \<open>Corruption\<close>

lemma decode_frame_crc:
  assumes "decode_frame E f = Inr r"
  shows "3 \<le> length f" "le_nat (drop (length f - 2) f) = unat (crc16 (take (length f - 2) f))"
proof -
  show "3 \<le> length f" using assms by (auto simp: decode_frame_def split: if_splits)
  then have "slice (length f - 2) (length f) f = drop (length f - 2) f"
    by (simp add: slice_def)
  then show "le_nat (drop (length f - 2) f) = unat (crc16 (take (length f - 2) f))"
    using assms by (auto simp: decode_frame_def Let_def split: if_splits)
qed

lemma decode_frame_one_byte:
  assumes ok: "decode_frame E f = Inr r" and k: "k < length f" "b \<noteq> f ! k"
  shows "\<exists>e. decode_frame E (f[k := b]) = Inl e"
proof (rule ccontr)
  assume "\<nexists>e. decode_frame E (f[k := b]) = Inl e"
  then obtain r' where ok': "decode_frame E (f[k := b]) = Inr r'"
    by (cases "decode_frame E (f[k := b])") auto
  let ?n = "length f - 2"
  note crc = decode_frame_crc [OF ok] and crc' = decode_frame_crc [OF ok', simplified]
  show False
  proof (cases "k < ?n")
    case True
    then have "drop ?n (f[k := b]) = drop ?n f" by simp
    then have "crc16 (take ?n (f[k := b])) = crc16 (take ?n f)"
      using crc(2) crc'(2) by (simp add: word_unat_eq_iff)
    moreover have "crc16 ((take ?n f)[k := b]) \<noteq> crc16 (take ?n f)"
      using True k by (intro crc16_one_byte) simp_all
    ultimately show False by (simp add: take_update_swap)
  next
    case False
    then have "take ?n (f[k := b]) = take ?n f" by simp
    then have "le_nat (drop ?n (f[k := b])) = le_nat (drop ?n f)"
      using crc(2) crc'(2) by simp
    then have "drop ?n (f[k := b]) = drop ?n f" by (simp add: le_nat_inj)
    then have "f[k := b] = f"
      using \<open>take ?n (f[k := b]) = take ?n f\<close> by (metis append_take_drop_id)
    then show False using k by (metis nth_list_update_eq)
  qed
qed

section \<open>A concrete environment\<close>

text \<open>
  For closed evaluations: the repository's C++ COBS codec, and a fixed-width header encoding with the
  field ranges of \<open>header.proto\<close> in place of the generated class.
\<close>

definition fixed_header_ser :: "header \<Rightarrow> bytes option" where
  "fixed_header_ser h =
     (let fields = [(4, h_stream_id h), (4, h_seq h), (8, ts_seconds (h_timestamp h)),
                    (4, ts_nanos (h_timestamp h)), (1, if h_keyframe h then 1 else 0),
                    (8, h_clock_authority_epoch h), (4, h_clock_revision h)]
                   @ (case h_sync_point h of None \<Rightarrow> []
                      | Some s \<Rightarrow> [(8, sp_authority_epoch s), (8, sp_grid_generation s),
                                   (8, sp_frame_index s)])
      in if list_all (\<lambda>(k, x). 0 \<le> x \<and> x < 256 ^ k) fields
         then Some (concat (map (\<lambda>(k, x). le_bytes k (nat x)) fields)) else None)"

definition le_field :: "nat \<Rightarrow> nat \<Rightarrow> bytes \<Rightarrow> int" where
  "le_field pos k b = int (le_nat (slice pos (pos + k) b))"

definition fixed_header_parse :: "bytes \<Rightarrow> header option" where
  "fixed_header_parse b =
     (if length b = 33 \<or> length b = 57
      then Some \<lparr>h_stream_id = le_field 0 4 b, h_seq = le_field 4 4 b,
             h_timestamp = \<lparr>ts_seconds = le_field 8 8 b, ts_nanos = le_field 16 4 b\<rparr>,
             h_keyframe = (le_field 20 1 b = 1), h_clock_authority_epoch = le_field 21 8 b,
             h_clock_revision = le_field 29 4 b,
             h_sync_point = (if length b = 33 then None
               else Some \<lparr>sp_authority_epoch = le_field 33 8 b,
                          sp_grid_generation = le_field 41 8 b, sp_frame_index = le_field 49 8 b\<rparr>)\<rparr>
      else None)"

definition cpp_ext :: wire_ext where
  "cpp_ext = \<lparr>pkg_cobs_encode = cobs_encode_cpp, pkg_cobs_decode = cobs_decode_cpp,
              header_ser = fixed_header_ser, header_parse = fixed_header_parse\<rparr>"

lemma le_field_at:
  assumes "length pre = pos" "0 \<le> x" "x < 256 ^ k"
  shows "le_field pos k (pre @ le_bytes k (nat x) @ post) = x"
proof -
  have "nat x < 256 ^ k" using assms(2,3) by (simp add: nat_less_iff)
  then show ?thesis using assms by (simp add: le_field_def slice_def)
qed

lemma fixed_header_roundtrip: "fixed_header_ser h = Some b \<Longrightarrow> fixed_header_parse b = Some h"
proof -
  assume ser: "fixed_header_ser h = Some b"
  let ?f = "\<lambda>k x. le_bytes k (nat x)"
  obtain sid sq sec nan key ep rev sp where h: "h = \<lparr>h_stream_id = sid, h_seq = sq,
      h_timestamp = \<lparr>ts_seconds = sec, ts_nanos = nan\<rparr>, h_keyframe = key,
      h_clock_authority_epoch = ep, h_clock_revision = rev, h_sync_point = sp\<rparr>"
    by (metis header.cases timestamp.cases)
  define q :: int where "q = (if key then 1 else 0)"
  define tail where "tail = (case sp of None \<Rightarrow> []
    | Some s \<Rightarrow> ?f 8 (sp_authority_epoch s) @ ?f 8 (sp_grid_generation s) @ ?f 8 (sp_frame_index s))"
  have rng: "0 \<le> sid" "sid < 256 ^ 4" "0 \<le> sq" "sq < 256 ^ 4" "0 \<le> sec" "sec < 256 ^ 8"
      "0 \<le> nan" "nan < 256 ^ 4" "0 \<le> ep" "ep < 256 ^ 8" "0 \<le> rev" "rev < 256 ^ 4"
      "0 \<le> q" "q < 256 ^ 1"
    and b: "b = ?f 4 sid @ ?f 4 sq @ ?f 8 sec @ ?f 4 nan @ ?f 1 q @ ?f 8 ep @ ?f 4 rev @ tail"
    and srng: "\<And>s. sp = Some s \<Longrightarrow> 0 \<le> sp_authority_epoch s \<and> sp_authority_epoch s < 256 ^ 8
      \<and> 0 \<le> sp_grid_generation s \<and> sp_grid_generation s < 256 ^ 8
      \<and> 0 \<le> sp_frame_index s \<and> sp_frame_index s < 256 ^ 8"
    using ser unfolding h fixed_header_ser_def Let_def tail_def q_def
    by (auto split: option.splits if_splits)
  have fields: "le_field 0 4 b = sid" "le_field 4 4 b = sq" "le_field 8 8 b = sec"
      "le_field 16 4 b = nan" "le_field 20 1 b = q" "le_field 21 8 b = ep" "le_field 29 4 b = rev"
    unfolding b
    using le_field_at [of "[]" 0 sid 4] le_field_at [of "?f 4 sid" 4 sq 4]
      le_field_at [of "?f 4 sid @ ?f 4 sq" 8 sec 8]
      le_field_at [of "?f 4 sid @ ?f 4 sq @ ?f 8 sec" 16 nan 4]
      le_field_at [of "?f 4 sid @ ?f 4 sq @ ?f 8 sec @ ?f 4 nan" 20 q 1]
      le_field_at [of "?f 4 sid @ ?f 4 sq @ ?f 8 sec @ ?f 4 nan @ ?f 1 q" 21 ep 8]
      le_field_at [of "?f 4 sid @ ?f 4 sq @ ?f 8 sec @ ?f 4 nan @ ?f 1 q @ ?f 8 ep" 29 rev 4] rng
    by (simp_all del: power_numeral le_bytes.simps)
  let ?pre = "?f 4 sid @ ?f 4 sq @ ?f 8 sec @ ?f 4 nan @ ?f 1 q @ ?f 8 ep @ ?f 4 rev"
  have key: "(q = 1) = key" by (simp add: q_def)
  show ?thesis
  proof (cases sp)
    case None
    then have "length b = 33" by (simp add: b tail_def del: le_bytes.simps)
    then show ?thesis using fields None key by (simp add: fixed_header_parse_def h)
  next
    case (Some s)
    have "length b = 57" by (simp add: b tail_def Some del: le_bytes.simps)
    moreover have "le_field 33 8 b = sp_authority_epoch s"
      "le_field 41 8 b = sp_grid_generation s" "le_field 49 8 b = sp_frame_index s"
      using le_field_at [of ?pre 33 "sp_authority_epoch s" 8]
        le_field_at [of "?pre @ ?f 8 (sp_authority_epoch s)" 41 "sp_grid_generation s" 8]
        le_field_at [of "?pre @ ?f 8 (sp_authority_epoch s) @ ?f 8 (sp_grid_generation s)" 49
          "sp_frame_index s" 8 "[]"] srng [OF Some]
      by (simp_all add: b tail_def Some del: power_numeral le_bytes.simps)
    ultimately show ?thesis using fields Some key by (simp add: fixed_header_parse_def h)
  qed
qed

lemma cpp_ext_ok: "wire_ext_ok cpp_ext"
  by (simp add: wire_ext_ok_def cpp_ext_def fixed_header_roundtrip
      cpp_cobs.cobs_codec_axioms)

end
