(* ===== verification/Control.thy ===== *)
theory Control
  imports Frame
begin

text \<open>
  The reserved stream ids and the command builders of \<open>wire/control.py\<close>. A \<open>Command\<close> is a protobuf
  message with a oneof body; \<open>NoBody\<close> is the unset oneof, which is no command at all on the wire.
  Serialization is protobuf code, an argument where it is used.
\<close>

definition DEVICE_INFO :: int where "DEVICE_INFO = 1"
definition HEARTBEAT :: int where "HEARTBEAT = 3"
definition COMMAND :: int where "COMMAND = 4"
definition OTA :: int where "OTA = 5"
definition DIAG :: int where "DIAG = 7"
definition FIRST_DYNAMIC :: int where "FIRST_DYNAMIC = 16"

lemmas stream_ids = DEVICE_INFO_def HEARTBEAT_def COMMAND_def OTA_def DIAG_def FIRST_DYNAMIC_def

definition LINK_LOCAL_CONTROL :: "int set" where
  "LINK_LOCAL_CONTROL = {HEARTBEAT}"

record policy_rule =
  rule_topic :: ustr
  rule_drop :: bool

datatype command_body =
    NoBody
  | SetStreamPolicy "policy_rule list"
  | ListRecordings (lr_limit: int) (lr_cursor: ustr) (lr_session: ustr)
  | OpenRecordingFile (of_session: ustr) (of_file: ustr) (of_offset: int) (of_expect_size: int)
      (of_expect_mtime_ns: int) (of_expect_object_version: int) (of_expect_generation: int)
  | DeleteRecording (dr_session: ustr)

record command =
  cmd_command_id :: int
  cmd_target_device :: ustr
  cmd_body :: command_body

definition command_message :: "(command \<Rightarrow> bytes) \<Rightarrow> command \<Rightarrow> message" where
  "command_message ser cmd = default_message\<lparr>m_stream_id := COMMAND, m_payload := ser cmd\<rparr>"

definition set_stream_policy_command :: "ustr list \<Rightarrow> ustr \<Rightarrow> int \<Rightarrow> command" where
  "set_stream_policy_command topics target_device command_id =
     \<lparr>cmd_command_id = command_id, cmd_target_device = target_device,
      cmd_body = SetStreamPolicy (map (\<lambda>t. \<lparr>rule_topic = t, rule_drop = True\<rparr>) topics)\<rparr>"

text \<open>A command stream id is never a data stream id, and only the heartbeat stays on its hop.\<close>

lemma control_ids_reserved:
  "i \<in> {DEVICE_INFO, HEARTBEAT, COMMAND, OTA, DIAG} \<Longrightarrow> i < FIRST_DYNAMIC"
  by (auto simp: stream_ids)

lemma end_to_end_not_link_local:
  "i \<in> {DEVICE_INFO, COMMAND, OTA, DIAG} \<Longrightarrow> i \<notin> LINK_LOCAL_CONTROL"
  by (auto simp: stream_ids LINK_LOCAL_CONTROL_def)

end
