(* ===== verification/Framing.thy ===== *)
theory Framing
  imports Frame
begin

text \<open>
  Delimited frames on a byte stream (\<open>transport/framing.py\<close>). \<open>extract_frames\<close> keeps the code's
  cursor loop; it is proved equal to \<open>split_frames\<close>, which cuts the buffer at each zero byte. What a
  reader of a link needs from a frame format is the locale \<open>link_codec\<close>, and the properties of the
  stream (no dependence on chunk boundaries, lossless delivery, resynchronisation after garbage) are
  proved in it once.
\<close>

section \<open>The code\<close>

definition frame_bytes :: "wire_ext \<Rightarrow> message \<Rightarrow> frame_error + bytes" where
  "frame_bytes E msg =
     bindE (encode_frame E (to_header msg) (m_payload msg)) (\<lambda>f. Inr (cobs_encode E f @ [0]))"

fun index_of :: "'a \<Rightarrow> 'a list \<Rightarrow> nat option" where
  "index_of a [] = None"
| "index_of a (x # xs) = (if x = a then Some 0 else map_option Suc (index_of a xs))"

text \<open>\<open>bytearray.find(b"\x00", pos)\<close>; \<open>None\<close> is the code's \<open>-1\<close>.\<close>

definition find_zero :: "bytes \<Rightarrow> nat \<Rightarrow> nat option" where
  "find_zero buf pos = map_option (\<lambda>k. pos + k) (index_of 0 (drop pos buf))"

lemma index_of_bound: "index_of a xs = Some k \<Longrightarrow> k < length xs"
  by (induction xs arbitrary: k) (auto split: if_splits)

text \<open>One encoded run between delimiters; any exception of the two decoders drops it.\<close>

definition deframe :: "wire_ext \<Rightarrow> bytes \<Rightarrow> message option" where
  "deframe E encoded =
     (case cobs_decode E encoded of
        None \<Rightarrow> None
      | Some core \<Rightarrow> (case decode_frame E core of
                        Inl _ \<Rightarrow> None
                      | Inr (h, payload) \<Rightarrow> Some (from_header h payload)))"

function extract_loop :: "wire_ext \<Rightarrow> bytes \<Rightarrow> nat \<Rightarrow> message list \<Rightarrow> message list \<times> nat" where
  "extract_loop E rx_buf pos msgs =
     (case find_zero rx_buf pos of
        None \<Rightarrow> (msgs, pos)
      | Some delim \<Rightarrow>
          let encoded = slice pos delim rx_buf; pos' = delim + 1 in
          if encoded = [] then extract_loop E rx_buf pos' msgs
          else (case deframe E encoded of
                  None \<Rightarrow> extract_loop E rx_buf pos' msgs
                | Some m \<Rightarrow> extract_loop E rx_buf pos' (msgs @ [m])))"
  by pat_completeness auto
termination
  by (relation "measure (\<lambda>(E, buf, pos, msgs). length buf - pos)")
    (auto simp: find_zero_def dest: index_of_bound)

declare extract_loop.simps [simp del]

definition extract_frames :: "wire_ext \<Rightarrow> bytes \<Rightarrow> message list \<times> bytes" where
  "extract_frames E rx_buf =
     (let (msgs, pos) = extract_loop E rx_buf 0 []
      in (msgs, if pos \<noteq> 0 then drop pos rx_buf else rx_buf))"

text \<open>\<open>read_frames\<close>: the messages yielded over a list of chunks, and the bytes left in \<open>buf\<close>.\<close>

fun read_frames_from :: "wire_ext \<Rightarrow> bytes \<Rightarrow> bytes list \<Rightarrow> message list \<times> bytes" where
  "read_frames_from E buf [] = ([], buf)"
| "read_frames_from E buf (chunk # chunks) =
     (let buf = (if chunk \<noteq> [] then buf @ chunk else buf);
          (msgs, buf) = extract_frames E buf;
          (more, buf) = read_frames_from E buf chunks
      in (msgs @ more, buf))"

definition read_frames :: "wire_ext \<Rightarrow> bytes list \<Rightarrow> message list" where
  "read_frames E chunks = fst (read_frames_from E [] chunks)"

section \<open>The buffer cut at its zero bytes\<close>

definition one_frame :: "(bytes \<Rightarrow> 'm option) \<Rightarrow> bytes \<Rightarrow> 'm list" where
  "one_frame d e = (if e = [] then [] else case d e of None \<Rightarrow> [] | Some m \<Rightarrow> [m])"

function split_frames :: "(bytes \<Rightarrow> 'm option) \<Rightarrow> bytes \<Rightarrow> 'm list \<times> bytes" where
  "split_frames d buf =
     (case index_of 0 buf of
        None \<Rightarrow> ([], buf)
      | Some k \<Rightarrow> let (ms, rest) = split_frames d (drop (Suc k) buf)
                  in (one_frame d (take k buf) @ ms, rest))"
  by pat_completeness auto
termination
  by (relation "measure (\<lambda>(d, buf). length buf)") (auto dest: index_of_bound)

declare split_frames.simps [simp del]

lemma index_of_None: "index_of a xs = None \<longleftrightarrow> a \<notin> set xs"
  by (induction xs) auto

lemma index_of_append: "a \<notin> set xs \<Longrightarrow> index_of a (xs @ a # ys) = Some (length xs)"
  by (induction xs) auto

lemma index_of_SomeD:
  "index_of a xs = Some k \<Longrightarrow> a \<notin> set (take k xs) \<and> k < length xs \<and> xs ! k = a"
  by (induction xs arbitrary: k) (auto split: if_splits)

lemma split_frames_partial: "0 \<notin> set r \<Longrightarrow> split_frames d r = ([], r)"
  by (subst split_frames.simps) (simp add: index_of_None [THEN iffD2])

lemma split_frames_Cons:
  "0 \<notin> set e \<Longrightarrow> split_frames d (e @ 0 # bs) =
     (one_frame d e @ fst (split_frames d bs), snd (split_frames d bs))"
  by (subst split_frames.simps) (simp add: index_of_append split: prod.splits)

text \<open>Every buffer is a partial frame, or a run, a delimiter and a shorter buffer.\<close>

lemma buffer_induct [case_names partial delimited]:
  assumes "\<And>r. 0 \<notin> set r \<Longrightarrow> P r"
    and "\<And>e bs. 0 \<notin> set e \<Longrightarrow> P bs \<Longrightarrow> P (e @ 0 # bs)"
  shows "P (buf :: bytes)"
proof (induction buf rule: length_induct)
  case (1 buf)
  show ?case
  proof (cases "0 \<in> set buf")
    case True
    then obtain e bs where "buf = e @ 0 # bs" "0 \<notin> set e" by (metis split_list_first)
    then show ?thesis using 1 assms(2) [of e bs] by simp
  qed (rule assms(1))
qed

lemma split_frames_rest: "0 \<notin> set (snd (split_frames d buf))"
  by (induction buf rule: buffer_induct) (simp_all add: split_frames_partial split_frames_Cons)

lemma split_frames_suffix: "\<exists>p. buf = p @ snd (split_frames d buf)"
proof (induction buf rule: buffer_induct)
  case (delimited e bs)
  then obtain p where p: "bs = p @ snd (split_frames d bs)" by blast
  have "e @ 0 # bs = (e @ 0 # p) @ snd (split_frames d bs)" by (subst p) simp
  then show ?case using delimited(1) by (intro exI [of _ "e @ 0 # p"]) (simp add: split_frames_Cons)
qed (simp add: split_frames_partial)

text \<open>Appending bytes later gives the same frames as having had them at once.\<close>

lemma split_frames_append:
  "split_frames d (a @ b) =
     (fst (split_frames d a) @ fst (split_frames d (snd (split_frames d a) @ b)),
      snd (split_frames d (snd (split_frames d a) @ b)))"
  by (induction a rule: buffer_induct) (simp_all add: split_frames_partial split_frames_Cons)

section \<open>The code computes the cut\<close>

lemma extract_loop_split:
  "extract_loop E buf pos msgs =
     (msgs @ fst (split_frames (deframe E) (drop pos buf)),
      max pos (length buf - length (snd (split_frames (deframe E) (drop pos buf)))))"
proof (induction E buf pos msgs rule: extract_loop.induct)
  case (1 E buf pos msgs)
  show ?case
  proof (cases "index_of 0 (drop pos buf)")
    case None
    then have "0 \<notin> set (drop pos buf)" by (simp add: index_of_None)
    then show ?thesis
      by (simp add: extract_loop.simps [of E buf pos msgs] find_zero_def None split_frames_partial)
  next
    case (Some k)
    have k: "k < length buf - pos" using index_of_bound [OF Some] by simp
    let ?e = "take k (drop pos buf)"
    have e: "slice pos (pos + k) buf = ?e" by (simp add: slice_def)
    have split: "split_frames (deframe E) (drop pos buf) =
        (one_frame (deframe E) ?e @ fst (split_frames (deframe E) (drop (Suc (pos + k)) buf)),
         snd (split_frames (deframe E) (drop (Suc (pos + k)) buf)))"
      by (subst split_frames.simps) (simp add: Some add.commute split: prod.splits)
    have len: "length (snd (split_frames (deframe E) (drop (Suc (pos + k)) buf)))
        \<le> length buf - Suc (pos + k)"
      using split_frames_suffix [of "drop (Suc (pos + k)) buf" "deframe E"]
      by (metis length_append length_drop le_add2)
    have z: "find_zero buf pos = Some (pos + k)" by (simp add: find_zero_def Some)
    define nxt where "nxt = split_frames (deframe E) (drop (Suc (pos + k)) buf)"
    have IH: "extract_loop E buf (Suc (pos + k)) ms =
        (ms @ fst nxt, max (Suc (pos + k)) (length buf - length (snd nxt)))"
      if "ms = msgs @ one_frame (deframe E) ?e" for ms
    proof (cases "?e = []")
      case True
      then have "ms = msgs" using that by (simp add: one_frame_def)
      then show ?thesis using "1.IH"(1) [OF z refl refl] True e by (simp add: nxt_def)
    next
      case False
      then show ?thesis
        using "1.IH"(2) [OF z refl refl] "1.IH"(3) [OF z refl refl] that e
        by (cases "deframe E ?e") (simp_all add: nxt_def one_frame_def)
    qed
    have "extract_loop E buf pos msgs = extract_loop E buf (Suc (pos + k)) (msgs @ one_frame (deframe E) ?e)"
      by (simp add: extract_loop.simps [of E buf pos msgs] z Let_def e one_frame_def split: option.split)
    also have "\<dots> = ((msgs @ one_frame (deframe E) ?e) @ fst nxt, length buf - length (snd nxt))"
      using IH [OF refl] len k by (simp add: nxt_def max_def)
    finally show ?thesis using split len k by (simp add: nxt_def max_def)
  qed
qed

lemma extract_frames_split: "extract_frames E buf = split_frames (deframe E) buf"
proof -
  obtain p where p: "buf = p @ snd (split_frames (deframe E) buf)"
    using split_frames_suffix by blast
  then have "length buf - length (snd (split_frames (deframe E) buf)) = length p"
    by (metis add_diff_cancel_right' length_append)
  moreover have "drop (length p) buf = snd (split_frames (deframe E) buf)"
    using p by (metis append_eq_conv_conj)
  ultimately show ?thesis
    by (cases p) (auto simp: extract_frames_def extract_loop_split prod_eq_iff)
qed

lemma read_frames_from_split:
  "0 \<notin> set buf \<Longrightarrow>
   read_frames_from E buf chunks = split_frames (deframe E) (buf @ concat chunks)"
proof (induction chunks arbitrary: buf)
  case (Cons c cs)
  have "(if c \<noteq> [] then buf @ c else buf) = buf @ c" by simp
  then show ?case
    using Cons.IH [OF split_frames_rest [of "deframe E" "buf @ c"]]
      split_frames_append [of "deframe E" "buf @ c" "concat cs"]
    by (simp add: extract_frames_split case_prod_beta Let_def)
qed (simp add: split_frames_partial)

lemma read_frames_split: "read_frames E chunks = fst (split_frames (deframe E) (concat chunks))"
  by (simp add: read_frames_def read_frames_from_split)

section \<open>The interface of a frame format\<close>

locale link_codec =
  fixes frame :: "'m \<Rightarrow> 'e + bytes"
    and unframe :: "bytes \<Rightarrow> 'm option"
  assumes frame_shape:
    "frame m = Inr f \<Longrightarrow> \<exists>e. f = e @ [0] \<and> e \<noteq> [] \<and> 0 \<notin> set e \<and> unframe e = Some m"
begin

lemma split_one: "frame m = Inr f \<Longrightarrow>
   split_frames unframe (f @ bs) = (m # fst (split_frames unframe bs), snd (split_frames unframe bs))"
  by (drule frame_shape) (auto simp: split_frames_Cons one_frame_def)

lemma split_all: "mapE frame ms = Inr fs \<Longrightarrow>
   split_frames unframe (concat fs @ bs)
     = (ms @ fst (split_frames unframe bs), snd (split_frames unframe bs))"
  by (induction ms arbitrary: fs) (auto simp: bindE_eq_Inr split_one)

text \<open>Garbage costs at most the frame it runs into: after the next delimiter all is delivered.\<close>

lemma split_resync:
  assumes "mapE frame ms = Inr fs"
  shows "fst (split_frames unframe (garbage @ 0 # concat fs))
           = fst (split_frames unframe (garbage @ [0])) @ ms"
proof -
  have "snd (split_frames unframe (garbage @ [0])) = []"
    using split_frames_append [of unframe garbage "[0]"]
      split_frames_Cons [OF split_frames_rest, of unframe unframe garbage "[]"]
    by (simp add: split_frames_partial)
  moreover have "split_frames unframe (concat fs) = (ms, [])"
    using split_all [OF assms, of "[]"] by (simp add: split_frames_partial)
  moreover have "garbage @ 0 # concat fs = (garbage @ [0]) @ concat fs" by simp
  ultimately show ?thesis
    using split_frames_append [of unframe "garbage @ [0]" "concat fs"] by simp
qed

end

text \<open>The provider: the code's own frames, over any correct environment.\<close>

lemma frame_link_codec:
  assumes E: "wire_ext_ok E"
  shows "link_codec (frame_bytes E) (deframe E)"
proof
  fix m f assume "frame_bytes E m = Inr f"
  then obtain core where core: "encode_frame E (to_header m) (m_payload m) = Inr core"
    and f: "f = cobs_encode E core @ [0]"
    by (auto simp: frame_bytes_def bindE_eq_Inr)
  note cobs_facts = cobs_codec.dec_enc [OF wire_ext_cobs [OF E]]
    cobs_codec.enc_no_zero [OF wire_ext_cobs [OF E]] cobs_codec.enc_nonempty [OF wire_ext_cobs [OF E]]
  from f core cobs_facts show "\<exists>e. f = e @ [0] \<and> e \<noteq> [] \<and> 0 \<notin> set e \<and> deframe E e = Some m"
    by (auto simp: deframe_def cobs_encode_def cobs_decode_def decode_encode_frame [OF E core])
qed

interpretation cpp_link: link_codec "frame_bytes cpp_ext" "deframe cpp_ext"
  by (rule frame_link_codec) (rule cpp_ext_ok)

end
