(* ===== verification/Registry.thy ===== *)
theory Registry
  imports Control Framing "HOL-Library.AList" "HOL-Library.Sublist"
begin

text \<open>
  The topic and schema table of a peer: \<open>routing/channel.py\<close>, \<open>routing/registry.py\<close> and the reader
  loop of \<open>stream.py\<close>. \<open>_by_id\<close> is an association list in insertion order (a Python dict),
  \<open>_topic_to_id\<close> a map, \<open>_own_ids\<close> a set. Python's iteration order over that set is not specified:
  it is the argument \<open>order\<close>.

  \<open>DeviceInfo\<close> parsing and serialization and the descriptor pool are fields of \<open>reg_ext\<close>. The methods
  take any extension of the record, as the Python methods take any subclass; \<open>accept\<close> takes the
  \<open>on_announce\<close> it dispatches to, which a subclass overrides.
\<close>

section \<open>Channels\<close>

record channel =
  ch_id :: int
  ch_topic :: ustr
  ch_encoding :: ustr
  ch_schema_name :: ustr
  ch_schema :: bytes
  ch_schema_encoding :: ustr

record device_info =
  di_device_name :: ustr
  di_equipment_type :: ustr
  di_channels :: "channel list"
  di_firmware_version :: ustr
  di_hardware_revision :: ustr
  di_serial :: ustr
  di_boot_unix_seconds :: int

record reg_ext =
  fds :: "ustr \<Rightarrow> bytes option"
  dinfo_ser :: "device_info \<Rightarrow> bytes"
  dinfo_parse :: "bytes \<Rightarrow> device_info option"

definition reg_ext_ok :: "reg_ext \<Rightarrow> bool" where
  "reg_ext_ok X \<longleftrightarrow> (\<forall>d. dinfo_parse X (dinfo_ser X d) = Some d)"

definition PROTOBUF :: ustr where "PROTOBUF = lit ''protobuf''"

datatype registry_error = DuplicateTopicError ustr int int | RegKeyError

record routed =
  rt_message :: "message option"
  rt_channel :: "channel option"

text \<open>\<open>file_descriptor_set\<close> raises \<open>KeyError\<close> on a type the pool does not know.\<close>

definition file_descriptors :: "reg_ext \<Rightarrow> ustr \<Rightarrow> registry_error + bytes" where
  "file_descriptors X name = (case fds X name of None \<Rightarrow> Inl RegKeyError | Some b \<Rightarrow> Inr b)"

definition make_channel :: "reg_ext \<Rightarrow> ustr \<Rightarrow> ustr \<Rightarrow> int \<Rightarrow> registry_error + channel" where
  "make_channel X topic schema_name stream_id =
     bindE (file_descriptors X schema_name) (\<lambda>schema. Inr
       \<lparr>ch_id = stream_id, ch_topic = topic, ch_encoding = PROTOBUF, ch_schema_name = schema_name,
        ch_schema = schema, ch_schema_encoding = PROTOBUF\<rparr>)"

section \<open>The registry\<close>

definition DEVICE_INFO_TOPIC :: ustr where
  "DEVICE_INFO_TOPIC = lit ''/device_info''"

definition DEVICE_INFO_SCHEMA :: ustr where
  "DEVICE_INFO_SCHEMA = lit ''visio_schema.v1.service.device_info.DeviceInfo''"

record registry =
  r_device_name :: ustr
  r_equipment_type :: ustr
  r_firmware_version :: ustr
  r_hardware_revision :: ustr
  r_serial :: ustr
  r_boot_unix_seconds :: int
  r_by_id :: "(int \<times> channel) list"
  r_topic_to_id :: "ustr \<rightharpoonup> int"
  r_own_ids :: "int set"
  r_next_id :: int
  r_dropped_unmapped :: nat
  r_device_info_channel :: channel

definition alloc :: "'a registry_scheme \<Rightarrow> int \<times> 'a registry_scheme" where
  "alloc r = (r_next_id r, r\<lparr>r_next_id := r_next_id r + 1\<rparr>)"

definition declare_channel ::
  "ustr \<Rightarrow> ustr \<Rightarrow> bytes \<Rightarrow> ustr \<Rightarrow> ustr \<Rightarrow> 'a registry_scheme \<Rightarrow> int \<times> 'a registry_scheme" where
  "declare_channel topic schema_name schema encoding schema_encoding r =
     (case r_topic_to_id r topic of
        Some existing \<Rightarrow> (existing, r)
      | None \<Rightarrow>
          let (cid, r) = alloc r;
              ch = \<lparr>ch_id = cid, ch_topic = topic, ch_encoding = encoding,
                    ch_schema_name = schema_name, ch_schema = schema,
                    ch_schema_encoding = schema_encoding\<rparr>
          in (cid, r\<lparr>r_by_id := AList.update cid ch (r_by_id r),
                     r_topic_to_id := (r_topic_to_id r)(topic \<mapsto> cid),
                     r_own_ids := insert cid (r_own_ids r)\<rparr>))"

definition declare_output ::
  "reg_ext \<Rightarrow> ustr \<Rightarrow> ustr \<Rightarrow> 'a registry_scheme \<Rightarrow> registry_error + int \<times> 'a registry_scheme" where
  "declare_output X topic schema_name r =
     bindE (file_descriptors X schema_name) (\<lambda>schema.
       Inr (declare_channel topic schema_name schema PROTOBUF PROTOBUF r))"

definition local_id_for :: "'a registry_scheme \<Rightarrow> ustr \<Rightarrow> registry_error + int" where
  "local_id_for r topic =
     (case r_topic_to_id r topic of None \<Rightarrow> Inl RegKeyError | Some i \<Rightarrow> Inr i)"

definition own_channels ::
  "(int set \<Rightarrow> int list) \<Rightarrow> 'a registry_scheme \<Rightarrow> registry_error + channel list" where
  "own_channels order r =
     mapE (\<lambda>cid. case map_of (r_by_id r) cid of None \<Rightarrow> Inl RegKeyError | Some ch \<Rightarrow> Inr ch)
          (order (r_own_ids r))"

definition learn :: "channel \<Rightarrow> 'a registry_scheme \<Rightarrow> registry_error + 'a registry_scheme" where
  "learn ch r =
     (let store = r\<lparr>r_by_id := AList.update (ch_id ch) ch (r_by_id r),
                    r_topic_to_id := (r_topic_to_id r)(ch_topic ch \<mapsto> ch_id ch)\<rparr>
      in case r_topic_to_id r (ch_topic ch) of
           Some existing \<Rightarrow>
             if existing \<noteq> ch_id ch
             then Inl (DuplicateTopicError (ch_topic ch) existing (ch_id ch))
             else Inr store
         | None \<Rightarrow> Inr store)"

definition forget_one :: "'a registry_scheme \<Rightarrow> int \<Rightarrow> 'a registry_scheme" where
  "forget_one r cid =
     (let r1 = (case map_of (r_by_id r) cid of
                  None \<Rightarrow> r
                | Some ch \<Rightarrow>
                    let r' = r\<lparr>r_by_id := AList.delete cid (r_by_id r)\<rparr>
                    in if r_topic_to_id r' (ch_topic ch) = Some cid
                       then r'\<lparr>r_topic_to_id := (r_topic_to_id r')(ch_topic ch := None)\<rparr>
                       else r')
      in r1\<lparr>r_own_ids := r_own_ids r1 - {cid}\<rparr>)"

definition forget :: "int list \<Rightarrow> 'a registry_scheme \<Rightarrow> 'a registry_scheme" where
  "forget ids r = foldl forget_one r ids"

definition resolve :: "'a registry_scheme \<Rightarrow> int \<Rightarrow> channel option" where
  "resolve r stream_id =
     (if stream_id = DEVICE_INFO then Some (r_device_info_channel r)
      else map_of (r_by_id r) stream_id)"

definition channels :: "'a registry_scheme \<Rightarrow> channel list" where
  "channels r = map snd (r_by_id r)"

definition has_own_outputs :: "'a registry_scheme \<Rightarrow> bool" where
  "has_own_outputs r \<longleftrightarrow> r_own_ids r \<noteq> {}"

definition self_info ::
  "(int set \<Rightarrow> int list) \<Rightarrow> 'a registry_scheme \<Rightarrow> registry_error + device_info" where
  "self_info order r =
     bindE (own_channels order r) (\<lambda>chs. Inr
       \<lparr>di_device_name = r_device_name r, di_equipment_type = r_equipment_type r,
        di_channels = chs, di_firmware_version = r_firmware_version r,
        di_hardware_revision = r_hardware_revision r, di_serial = r_serial r,
        di_boot_unix_seconds = r_boot_unix_seconds r\<rparr>)"

definition learn_or_log :: "'a registry_scheme \<Rightarrow> channel \<Rightarrow> 'a registry_scheme" where
  "learn_or_log r ch = (case learn ch r of Inl _ \<Rightarrow> r | Inr r' \<Rightarrow> r')"

definition on_announce :: "reg_ext \<Rightarrow> bytes \<Rightarrow> 'a registry_scheme \<Rightarrow> 'a registry_scheme" where
  "on_announce X payload r =
     (case dinfo_parse X payload of
        None \<Rightarrow> r
      | Some di \<Rightarrow> foldl learn_or_log r (di_channels di))"

definition accept ::
  "(bytes \<Rightarrow> 'a registry_scheme \<Rightarrow> 'a registry_scheme) \<Rightarrow> message \<Rightarrow> 'a registry_scheme
     \<Rightarrow> routed \<times> 'a registry_scheme" where
  "accept announce msg r =
     (let sid = m_stream_id msg in
      if sid = DEVICE_INFO
      then (\<lparr>rt_message = None, rt_channel = None\<rparr>, announce (m_payload msg) r)
      else if sid < FIRST_DYNAMIC then (\<lparr>rt_message = Some msg, rt_channel = None\<rparr>, r)
      else case map_of (r_by_id r) sid of
             None \<Rightarrow> (\<lparr>rt_message = None, rt_channel = None\<rparr>,
                      r\<lparr>r_dropped_unmapped := r_dropped_unmapped r + 1\<rparr>)
           | Some ch \<Rightarrow> (\<lparr>rt_message = Some msg, rt_channel = Some ch\<rparr>, r))"

text \<open>\<open>accept\<close> never returns a channel without a message, so the second case below is dead.\<close>

fun resolved ::
  "(bytes \<Rightarrow> 'a registry_scheme \<Rightarrow> 'a registry_scheme) \<Rightarrow> message list \<Rightarrow> 'a registry_scheme
     \<Rightarrow> (message \<times> channel) list \<times> 'a registry_scheme" where
  "resolved announce [] r = ([], r)"
| "resolved announce (m # ms) r =
     (let (rt, r) = accept announce m r; (rows, r) = resolved announce ms r
      in (case rt_channel rt of
            None \<Rightarrow> rows
          | Some ch \<Rightarrow> (case rt_message rt of None \<Rightarrow> rows | Some msg \<Rightarrow> (msg, ch) # rows), r))"

text \<open>The constructor's \<open>channels\<close> argument: a \<open>Channel\<close> or a (topic, schema name) pair.\<close>

datatype channel_entry = EntryChannel channel | EntryPair ustr ustr

definition or_protobuf :: "ustr \<Rightarrow> ustr" where
  "or_protobuf s = (if s = [] then PROTOBUF else s)"

fun declare_entry :: "reg_ext \<Rightarrow> channel_entry \<Rightarrow> 'a registry_scheme
    \<Rightarrow> registry_error + int \<times> 'a registry_scheme" where
  "declare_entry X (EntryChannel c) r =
     Inr (declare_channel (ch_topic c) (ch_schema_name c) (ch_schema c)
            (or_protobuf (ch_encoding c)) (or_protobuf (ch_schema_encoding c)) r)"
| "declare_entry X (EntryPair topic schema_name) r = declare_output X topic schema_name r"

fun declare_entries :: "reg_ext \<Rightarrow> channel_entry list \<Rightarrow> 'a registry_scheme
    \<Rightarrow> registry_error + 'a registry_scheme" where
  "declare_entries X [] r = Inr r"
| "declare_entries X (e # es) r =
     bindE (declare_entry X e r) (\<lambda>(_, r). declare_entries X es r)"

definition init_registry :: "reg_ext \<Rightarrow> ustr \<Rightarrow> ustr \<Rightarrow> ustr \<Rightarrow> ustr \<Rightarrow> int \<Rightarrow> ustr
    \<Rightarrow> channel_entry list \<Rightarrow> registry_error + registry" where
  "init_registry X device_name firmware_version hardware_revision serial boot_unix_seconds
     equipment_type entries =
     bindE (file_descriptors X DEVICE_INFO_SCHEMA) (\<lambda>schema.
       declare_entries X entries
         \<lparr>r_device_name = device_name, r_equipment_type = equipment_type,
          r_firmware_version = firmware_version, r_hardware_revision = hardware_revision,
          r_serial = serial, r_boot_unix_seconds = boot_unix_seconds,
          r_by_id = [], r_topic_to_id = Map.empty, r_own_ids = {}, r_next_id = FIRST_DYNAMIC,
          r_dropped_unmapped = 0,
          r_device_info_channel =
            \<lparr>ch_id = DEVICE_INFO, ch_topic = DEVICE_INFO_TOPIC, ch_encoding = PROTOBUF,
             ch_schema_name = DEVICE_INFO_SCHEMA, ch_schema = schema,
             ch_schema_encoding = PROTOBUF\<rparr>\<rparr>)"

section \<open>The invariant\<close>

text \<open>
  A live channel is stored under its own id and its topic leads back to that id, so live topics are
  unique. (The other direction, that every topic of \<open>_topic_to_id\<close> is live, does not hold: see
  \<open>stale_topic_blocks_relearn\<close>.) Own outputs are live and were drawn from the allocator.
\<close>

definition reg_inv :: "'a registry_scheme \<Rightarrow> bool" where
  "reg_inv r \<longleftrightarrow>
     distinct (map fst (r_by_id r))
     \<and> (\<forall>i ch. map_of (r_by_id r) i = Some ch \<longrightarrow>
           ch_id ch = i \<and> r_topic_to_id r (ch_topic ch) = Some i)
     \<and> (\<forall>i \<in> r_own_ids r. map_of (r_by_id r) i \<noteq> None \<and> FIRST_DYNAMIC \<le> i \<and> i < r_next_id r)
     \<and> FIRST_DYNAMIC \<le> r_next_id r"

lemma reg_inv_live:
  "reg_inv r \<Longrightarrow> map_of (r_by_id r) i = Some ch \<Longrightarrow>
     ch_id ch = i \<and> r_topic_to_id r (ch_topic ch) = Some i"
  by (simp add: reg_inv_def)

lemma reg_inv_unique_topic:
  "reg_inv r \<Longrightarrow> map_of (r_by_id r) i = Some a \<Longrightarrow> map_of (r_by_id r) j = Some b \<Longrightarrow>
     ch_topic a = ch_topic b \<Longrightarrow> i = j"
  by (metis option.inject reg_inv_live)

lemma map_of_AList_delete: "map_of (AList.delete k al) = (map_of al)(k := None)"
  by (simp add: AList.delete_conv')

lemma map_of_AList_update: "map_of (AList.update k v al) = (map_of al)(k \<mapsto> v)"
  by (simp add: AList.update_conv')

lemmas reg_map_simps = map_of_AList_delete map_of_AList_update
  AList.distinct_update AList.distinct_delete

lemma store_inv:
  assumes inv: "reg_inv r" and free: "r_topic_to_id r (ch_topic ch) \<in> {None, Some (ch_id ch)}"
  shows "reg_inv (r\<lparr>r_by_id := AList.update (ch_id ch) ch (r_by_id r),
                    r_topic_to_id := (r_topic_to_id r)(ch_topic ch \<mapsto> ch_id ch)\<rparr>)"
proof -
  have "r_topic_to_id r (ch_topic c) = Some i" "ch_id c = i" "ch_topic c \<noteq> ch_topic ch"
    if "map_of (r_by_id r) i = Some c" "i \<noteq> ch_id ch" for i c
    using reg_inv_live [OF inv that(1)] free that(2) by auto
  then show ?thesis using inv by (auto simp: reg_inv_def reg_map_simps)
qed

lemma learn_inv [inv_intros]: "reg_inv r \<Longrightarrow> learn ch r = Inr r' \<Longrightarrow> reg_inv r'"
  by (auto simp: learn_def Let_def split: option.splits if_splits intro!: store_inv)

lemma learn_or_log_inv [inv_intros]: "reg_inv r \<Longrightarrow> reg_inv (learn_or_log r ch)"
  by (auto simp: learn_or_log_def split: sum.splits intro: inv_intros)

lemma reg_inv_dropped: "reg_inv r \<Longrightarrow> reg_inv (r\<lparr>r_dropped_unmapped := n\<rparr>)"
  by (simp add: reg_inv_def del: map_of_eq_Some_iff Some_eq_map_of_iff)

lemma forget_one_inv [inv_intros]:
  assumes inv: "reg_inv r"
  shows "reg_inv (forget_one r cid)"
proof (cases "map_of (r_by_id r) cid")
  case None
  then show ?thesis using inv
    by (auto simp: reg_inv_def forget_one_def simp del: map_of_eq_Some_iff Some_eq_map_of_iff)
next
  case (Some ch)
  have "r_topic_to_id r (ch_topic ch) = Some cid" by (rule conjunct2 [OF reg_inv_live [OF inv Some]])
  moreover have "ch_topic c \<noteq> ch_topic ch" if "map_of (r_by_id r) i = Some c" "i \<noteq> cid" for i c
    using reg_inv_unique_topic [OF inv that(1) Some] that(2) by blast
  ultimately show ?thesis using inv Some
    by (auto simp: reg_inv_def forget_one_def Let_def reg_map_simps
        simp del: map_of_eq_Some_iff Some_eq_map_of_iff)
qed

lemma forget_inv [inv_intros]: "reg_inv r \<Longrightarrow> reg_inv (forget ids r)"
  unfolding forget_def by (rule foldl_invariant) (simp_all add: forget_one_inv)

lemma alloc_inv: "reg_inv r \<Longrightarrow> reg_inv (snd (alloc r))"
  by (fastforce simp: reg_inv_def alloc_def)

lemma declare_channel_inv [inv_intros]:
  assumes "reg_inv r"
  shows "reg_inv (snd (declare_channel topic sn s e se r))"
proof (cases "r_topic_to_id r topic")
  case None
  let ?r = "snd (alloc r)"
  let ?ch = "\<lparr>ch_id = r_next_id r, ch_topic = topic, ch_encoding = e, ch_schema_name = sn,
              ch_schema = s, ch_schema_encoding = se\<rparr>"
  have "reg_inv (?r\<lparr>r_by_id := AList.update (ch_id ?ch) ?ch (r_by_id ?r),
                    r_topic_to_id := (r_topic_to_id ?r)(ch_topic ?ch \<mapsto> ch_id ?ch)\<rparr>)"
    using alloc_inv [OF assms] None by (intro store_inv) (simp_all add: alloc_def)
  moreover have "FIRST_DYNAMIC \<le> r_next_id r" using assms by (simp add: reg_inv_def)
  ultimately show ?thesis
    by (simp add: declare_channel_def None alloc_def reg_inv_def reg_map_simps)
qed (simp add: assms declare_channel_def)

lemma on_announce_inv [inv_intros]: "reg_inv r \<Longrightarrow> reg_inv (on_announce X p r)"
  unfolding on_announce_def
  by (auto split: option.splits intro!: foldl_invariant [where P = reg_inv] learn_or_log_inv)

lemma declare_entry_channel:
  "declare_entry X e r = Inr p \<Longrightarrow> \<exists>topic sn s enc senc. p = declare_channel topic sn s enc senc r"
  by (cases e) (simp_all add: declare_output_def bindE_eq_Inr, blast+)

lemma declare_entries_inv: "reg_inv r \<Longrightarrow> declare_entries X es r = Inr r' \<Longrightarrow> reg_inv r'"
proof (induction es arbitrary: r)
  case (Cons e es)
  from Cons.prems(2) obtain p where d: "declare_entry X e r = Inr p"
    and rest: "declare_entries X es (snd p) = Inr r'"
    by (auto simp: bindE_eq_Inr)
  have "reg_inv (snd p)"
    using declare_entry_channel [OF d] declare_channel_inv [OF Cons.prems(1)] by auto
  then show ?case using rest by (rule Cons.IH)
qed simp

lemma empty_registry_inv:
  "r_by_id r = [] \<Longrightarrow> r_own_ids r = {} \<Longrightarrow> r_next_id r = FIRST_DYNAMIC \<Longrightarrow> reg_inv r"
  by (simp add: reg_inv_def)

lemma init_registry_inv:
  "init_registry X n fw hw s b et es = Inr r \<Longrightarrow> reg_inv r"
  unfolding init_registry_def bindE_eq_Inr
  by (elim exE conjE) (rule declare_entries_inv [OF empty_registry_inv], simp_all)

section \<open>What the operations do\<close>

lemma learn_resolves:
  "learn ch r = Inr r' \<Longrightarrow> map_of (r_by_id r') = (map_of (r_by_id r))(ch_id ch \<mapsto> ch)"
  by (auto simp: learn_def Let_def map_of_AList_update split: option.splits if_splits)

lemma learn_keeps:
  "learn ch r = Inr r' \<Longrightarrow> r_own_ids r' = r_own_ids r \<and> r_next_id r' = r_next_id r
     \<and> r_dropped_unmapped r' = r_dropped_unmapped r"
  by (auto simp: learn_def Let_def split: option.splits if_splits)

lemma learn_fails_iff:
  "(\<exists>e. learn ch r = Inl e) \<longleftrightarrow> (\<exists>i. r_topic_to_id r (ch_topic ch) = Some i \<and> i \<noteq> ch_id ch)"
  by (auto simp: learn_def Let_def split: option.splits)

text \<open>A second id for a live topic is refused.\<close>

lemma learn_duplicate:
  "reg_inv r \<Longrightarrow> map_of (r_by_id r) i = Some old \<Longrightarrow> ch_topic ch = ch_topic old \<Longrightarrow> ch_id ch \<noteq> i \<Longrightarrow>
     learn ch r = Inl (DuplicateTopicError (ch_topic ch) i (ch_id ch))"
  by (simp add: learn_def reg_inv_live)

lemma forget_one_by_id: "map_of (r_by_id (forget_one r cid)) = (map_of (r_by_id r))(cid := None)"
  by (auto simp: forget_one_def Let_def map_of_AList_delete fun_eq_iff split: option.splits)

text \<open>After a link drop the topic is free for the id it comes back with.\<close>

lemma forget_frees_topic:
  "reg_inv r \<Longrightarrow> map_of (r_by_id r) i = Some old \<Longrightarrow> r_topic_to_id (forget_one r i) (ch_topic old) = None"
  by (simp add: forget_one_def Let_def reg_inv_live)

lemma forget_one_keeps:
  "r_next_id (forget_one r i) = r_next_id r"
  "r_dropped_unmapped (forget_one r i) = r_dropped_unmapped r"
  "r_own_ids (forget_one r i) = r_own_ids r - {i}"
  by (auto simp: forget_one_def Let_def split: option.splits)

lemma relearn_after_forget:
  assumes "reg_inv r" "map_of (r_by_id r) i = Some old" "ch_topic ch = ch_topic old"
  shows "\<exists>r'. learn ch (forget_one r i) = Inr r'"
  using forget_frees_topic [OF assms(1,2)] assms(3) by (simp add: learn_def)

lemma declare_idempotent:
  "declare_channel t sn s e se (snd (declare_channel t sn' s' e' se' r))
     = (fst (declare_channel t sn' s' e' se' r), snd (declare_channel t sn' s' e' se' r))"
  by (auto simp: declare_channel_def alloc_def split: option.splits prod.splits)

text \<open>Own outputs are always resolvable, so \<open>self_info\<close> never raises \<open>KeyError\<close>.\<close>

lemma mapE_total: "(\<And>x. x \<in> set xs \<Longrightarrow> \<exists>y. f x = Inr y) \<Longrightarrow> \<exists>ys. mapE f xs = Inr ys"
proof (induction xs)
  case (Cons x xs)
  then obtain y ys where "f x = Inr y" "mapE f xs = Inr ys" by fastforce
  then show ?case by simp
qed simp

lemma self_info_total:
  assumes "reg_inv r" "set (order (r_own_ids r)) = r_own_ids r"
  shows "\<exists>di. self_info order r = Inr di"
proof -
  have "\<exists>ch. map_of (r_by_id r) i = Some ch" if "i \<in> set (order (r_own_ids r))" for i
    using assms that by (auto simp: reg_inv_def)
  then have "\<exists>chs. own_channels order r = Inr chs"
    unfolding own_channels_def by (intro mapE_total) fastforce
  then show ?thesis by (auto simp: self_info_def)
qed

section \<open>The consumer's interface\<close>

text \<open>
  What \<open>accept\<close> and \<open>resolved\<close> rely on in the \<open>on_announce\<close> they dispatch to. The base registry
  and the relay registry both provide it.
\<close>

locale announce_handler =
  fixes announce :: "bytes \<Rightarrow> 'a registry_scheme \<Rightarrow> 'a registry_scheme"
    and inv :: "'a registry_scheme \<Rightarrow> bool"
  assumes announce_inv: "inv r \<Longrightarrow> inv (announce p r)"
    and announce_dropped: "r_dropped_unmapped (announce p r) = r_dropped_unmapped r"
    and inv_reg: "inv r \<Longrightarrow> reg_inv r"
    and inv_dropped: "inv r \<Longrightarrow> inv (r\<lparr>r_dropped_unmapped := n\<rparr>)"
begin

lemma accept_inv: "inv r \<Longrightarrow> inv (snd (accept announce m r))"
  by (auto simp: accept_def Let_def announce_inv inv_dropped split: option.splits)

lemma resolved_inv: "inv r \<Longrightarrow> inv (snd (resolved announce ms r))"
proof (induction ms arbitrary: r)
  case (Cons m ms)
  then show ?case using accept_inv [OF Cons.prems, of m]
    by (auto split: prod.splits option.splits) fastforce+
qed simp

lemma accept_channel:
  "inv r \<Longrightarrow> accept announce m r = (rt, r') \<Longrightarrow> rt_channel rt = Some ch \<Longrightarrow>
     rt_message rt = Some m \<and> ch_id ch = m_stream_id m \<and> FIRST_DYNAMIC \<le> m_stream_id m"
  using inv_reg [of r]
  by (auto simp: accept_def Let_def reg_inv_live split: if_splits option.splits)

text \<open>Every row pairs a data message with the channel of its own id, in arrival order.\<close>

lemma resolved_rows:
  "inv r \<Longrightarrow> (m, ch) \<in> set (fst (resolved announce ms r)) \<Longrightarrow>
     m \<in> set ms \<and> ch_id ch = m_stream_id m \<and> FIRST_DYNAMIC \<le> m_stream_id m"
proof (induction ms arbitrary: r)
  case (Cons x ms)
  obtain rt r1 where acc: "accept announce x r = (rt, r1)" by fastforce
  have "inv r1" using accept_inv [OF Cons.prems(1), of x] acc by simp
  note IH = Cons.IH [OF this]
  show ?case
    using Cons.prems(2) IH accept_channel [OF Cons.prems(1) acc]
    by (auto simp: acc split: prod.splits option.splits)
qed simp

lemma resolved_subseq: "inv r \<Longrightarrow> subseq (map fst (fst (resolved announce ms r))) ms"
proof (induction ms arbitrary: r)
  case (Cons x ms)
  obtain rt r1 where acc: "accept announce x r = (rt, r1)" by fastforce
  have "inv r1" using accept_inv [OF Cons.prems, of x] acc by simp
  note IH = Cons.IH [OF this]
  show ?case
    using IH accept_channel [OF Cons.prems acc]
    by (auto simp: acc split: prod.splits option.splits)
qed simp

text \<open>No data message disappears without being counted.\<close>

lemma resolved_accounting:
  "inv r \<Longrightarrow> length (fst (resolved announce ms r)) + r_dropped_unmapped (snd (resolved announce ms r))
     = length (filter (\<lambda>m. FIRST_DYNAMIC \<le> m_stream_id m) ms) + r_dropped_unmapped r"
proof (induction ms arbitrary: r)
  case (Cons x ms)
  obtain rt r1 where acc: "accept announce x r = (rt, r1)" by fastforce
  have inv1: "inv r1" using accept_inv [OF Cons.prems, of x] acc by simp
  have "length (case rt_channel rt of None \<Rightarrow> [] | Some ch \<Rightarrow> [()]) + r_dropped_unmapped r1
      = (if FIRST_DYNAMIC \<le> m_stream_id x then 1 else 0) + r_dropped_unmapped r"
    using acc by (auto simp: accept_def Let_def announce_dropped stream_ids
        split: if_splits option.splits)
  then show ?case
    using Cons.IH [OF inv1] accept_channel [OF Cons.prems acc]
    by (auto simp: acc split: prod.splits option.splits)
qed simp

end

lemma learn_or_log_dropped [simp]: "r_dropped_unmapped (learn_or_log r ch) = r_dropped_unmapped r"
  by (auto simp: learn_or_log_def learn_keeps split: sum.splits)

lemma on_announce_dropped: "r_dropped_unmapped (on_announce X p r) = r_dropped_unmapped r"
proof -
  have "r_dropped_unmapped (foldl learn_or_log r chs) = r_dropped_unmapped r" for chs
    by (rule foldl_invariant [where P = "\<lambda>s. r_dropped_unmapped s = r_dropped_unmapped r"]) simp_all
  then show ?thesis by (simp add: on_announce_def split: option.splits)
qed

interpretation base_registry: announce_handler "on_announce X" reg_inv for X
  by unfold_locales (simp_all add: on_announce_inv on_announce_dropped reg_inv_dropped)

section \<open>Reading a serial device\<close>

text \<open>
  \<open>stream.py\<close>: \<open>_read_chunks\<close> over the results of \<open>read_some\<close> once the descriptor is readable
  (\<open>None\<close> EOF, \<open>[]\<close> would block), then framing and resolution. An fd below 0 is the \<open>OSError\<close>.
\<close>

fun read_chunks :: "bytes option list \<Rightarrow> bytes list" where
  "read_chunks [] = []"
| "read_chunks (None # rest) = []"
| "read_chunks (Some chunk # rest) =
     (if chunk \<noteq> [] then chunk # read_chunks rest else read_chunks rest)"

definition read_serial :: "wire_ext \<Rightarrow> reg_ext \<Rightarrow> int \<Rightarrow> bytes option list
    \<Rightarrow> unit + registry_error + (message \<times> channel) list" where
  "read_serial E X fd reads =
     (if fd < 0 then Inl ()
      else Inr (bindE (init_registry X [] [] [] [] 0 [] []) (\<lambda>r.
             Inr (fst (resolved (on_announce X) (read_frames E (read_chunks reads)) r)))))"

section \<open>Histories\<close>

text \<open>One call of the public interface; an operation that raises leaves the registry as it was.\<close>

datatype reg_op =
    OpDeclareChannel ustr ustr bytes ustr ustr | OpDeclareOutput ustr ustr
  | OpLearn channel | OpForget "int list" | OpAnnounce bytes | OpAccept message

fun reg_step :: "reg_ext \<Rightarrow> 'a registry_scheme \<Rightarrow> reg_op \<Rightarrow> 'a registry_scheme" where
  "reg_step X r (OpDeclareChannel t sn s e se) = snd (declare_channel t sn s e se r)"
| "reg_step X r (OpDeclareOutput t sn) =
     (case declare_output X t sn r of Inl _ \<Rightarrow> r | Inr (_, r') \<Rightarrow> r')"
| "reg_step X r (OpLearn ch) = (case learn ch r of Inl _ \<Rightarrow> r | Inr r' \<Rightarrow> r')"
| "reg_step X r (OpForget ids) = forget ids r"
| "reg_step X r (OpAnnounce p) = on_announce X p r"
| "reg_step X r (OpAccept m) = snd (accept (on_announce X) m r)"

lemma reg_step_inv:
  assumes inv: "reg_inv r"
  shows "reg_inv (reg_step X r op)"
proof (cases op)
  case (OpDeclareOutput t sn)
  then show ?thesis using inv declare_channel_inv [OF inv, of t sn]
    by (cases "file_descriptors X sn") (simp_all add: declare_output_def case_prod_beta)
next
  case (OpLearn ch)
  then show ?thesis using learn_or_log_inv [OF inv, of ch] by (simp add: learn_or_log_def)
qed (simp_all add: inv declare_channel_inv forget_inv on_announce_inv base_registry.accept_inv)

lemma reg_run_inv: "reg_inv r \<Longrightarrow> reg_inv (foldl (reg_step X) r ops)"
  by (rule foldl_invariant) (simp_all add: reg_step_inv)

section \<open>Announcing to a fresh consumer\<close>

lemma learn_or_log_fresh:
  assumes "reg_inv r" "distinct (map ch_id chs)" "distinct (map ch_topic chs)"
    "\<forall>ch \<in> set chs. r_topic_to_id r (ch_topic ch) = None"
  shows "map_of (r_by_id (foldl learn_or_log r chs))
     = (map_of (r_by_id r)) ++ map_of (rev (map (\<lambda>ch. (ch_id ch, ch)) chs))"
  using assms
proof (induction chs arbitrary: r)
  case (Cons ch chs)
  then obtain r' where l: "learn ch r = Inr r'" by (force simp: learn_def)
  have "r_topic_to_id r' = (r_topic_to_id r)(ch_topic ch \<mapsto> ch_id ch)"
    using l by (auto simp: learn_def Let_def split: option.splits if_splits)
  moreover have "\<forall>c \<in> set chs. ch_topic c \<noteq> ch_topic ch"
    using Cons.prems(3) by (simp add: image_iff) metis
  ultimately have "\<forall>c \<in> set chs. r_topic_to_id r' (ch_topic c) = None"
    using Cons.prems(4) by simp
  then have "map_of (r_by_id (foldl learn_or_log r' chs))
     = map_of (r_by_id r') ++ map_of (rev (map (\<lambda>c. (ch_id c, c)) chs))"
    using Cons learn_inv [OF Cons.prems(1) l] by simp
  then show ?case
    by (simp add: learn_or_log_def [of r] l learn_resolves [OF l] map_add_def fun_eq_iff
        split: option.splits)
qed simp

lemma own_channels_set:
  assumes "reg_inv r" "own_channels order r = Inr chs" "distinct (order (r_own_ids r))"
  shows "map ch_id chs = order (r_own_ids r)" "distinct (map ch_id chs)"
    "distinct (map ch_topic chs)"
    "\<forall>ch \<in> set chs. map_of (r_by_id r) (ch_id ch) = Some ch"
proof -
  have live: "map ch_id cs = ids \<and> (\<forall>ch \<in> set cs. map_of (r_by_id r) (ch_id ch) = Some ch)"
    if "mapE (\<lambda>cid. case map_of (r_by_id r) cid of None \<Rightarrow> Inl RegKeyError | Some ch \<Rightarrow> Inr ch) ids
          = Inr cs" for ids cs
    using that
  proof (induction ids arbitrary: cs)
    case (Cons i ids)
    then obtain c cs' where i: "map_of (r_by_id r) i = Some c" and
      rest: "mapE (\<lambda>cid. case map_of (r_by_id r) cid of None \<Rightarrow> Inl RegKeyError | Some ch \<Rightarrow> Inr ch) ids
          = Inr cs'" and cs: "cs = c # cs'"
      by (auto simp: bindE_eq_Inr split: option.splits)
    then show ?case using Cons.IH [OF rest] reg_inv_live [OF assms(1) i] by simp
  qed simp
  note l = live [OF assms(2) [unfolded own_channels_def]]
  show ids: "map ch_id chs = order (r_own_ids r)" using l by blast
  show d: "distinct (map ch_id chs)" using ids assms(3) by simp
  show live: "\<forall>ch \<in> set chs. map_of (r_by_id r) (ch_id ch) = Some ch" using l by blast
  have "inj_on ch_topic (set chs)"
  proof (rule inj_onI)
    fix a b assume ab: "a \<in> set chs" "b \<in> set chs" "ch_topic a = ch_topic b"
    then have "ch_id a = ch_id b" using reg_inv_unique_topic [OF assms(1)] live by blast
    then show "a = b" using ab live by (metis option.inject)
  qed
  moreover have "distinct chs" using d by (simp add: distinct_map)
  ultimately show "distinct (map ch_topic chs)" by (simp add: distinct_map)
qed

lemma map_of_rev_distinct:
  "distinct (map ch_id chs) \<Longrightarrow> ch \<in> set chs \<Longrightarrow>
     map_of (rev (map (\<lambda>c. (ch_id c, c)) chs)) (ch_id ch) = Some ch"
  by (rule map_of_is_SomeI) (auto simp: comp_def rev_map [symmetric])

lemma announce_fresh:
  assumes "reg_inv d" "distinct (order (r_own_ids d))" "self_info order d = Inr di"
    "dinfo_parse X p = Some di" "reg_inv r" "r_topic_to_id r = Map.empty" "ch \<in> set (di_channels di)"
  shows "map_of (r_by_id (on_announce X p r)) (ch_id ch) = Some ch"
proof -
  obtain chs where own: "own_channels order d = Inr chs" and di: "di_channels di = chs"
    using assms(3) by (auto simp: self_info_def bindE_eq_Inr)
  note o = own_channels_set [OF assms(1) own assms(2)]
  show ?thesis
    using learn_or_log_fresh [OF assms(5) o(2,3)] map_of_rev_distinct [OF o(2)] assms(4,6,7) di
    by (simp add: on_announce_def)
qed

section \<open>Properties\<close>

text \<open>An environment for the witnesses: every type has a schema, every announce reads as \<open>di\<close>.\<close>

definition sample_ext :: "device_info \<Rightarrow> reg_ext" where
  "sample_ext di = \<lparr>fds = \<lambda>_. Some [1], dinfo_ser = \<lambda>_. [], dinfo_parse = \<lambda>_. Some di\<rparr>"

definition sample_channel :: "int \<Rightarrow> ustr \<Rightarrow> channel" where
  "sample_channel i topic = \<lparr>ch_id = i, ch_topic = topic, ch_encoding = PROTOBUF,
     ch_schema_name = [], ch_schema = [], ch_schema_encoding = PROTOBUF\<rparr>"

definition sample_info :: device_info where
  "sample_info = \<lparr>di_device_name = [], di_equipment_type = [],
     di_channels = [sample_channel 16 (lit ''/a'')], di_firmware_version = [],
     di_hardware_revision = [], di_serial = [], di_boot_unix_seconds = 0\<rparr>"

definition sample_registry :: registry where
  "sample_registry = \<lparr>r_device_name = [], r_equipment_type = [], r_firmware_version = [],
     r_hardware_revision = [], r_serial = [], r_boot_unix_seconds = 0, r_by_id = [],
     r_topic_to_id = Map.empty, r_own_ids = {}, r_next_id = 16, r_dropped_unmapped = 0,
     r_device_info_channel = \<lparr>ch_id = 1, ch_topic = DEVICE_INFO_TOPIC, ch_encoding = PROTOBUF,
       ch_schema_name = DEVICE_INFO_SCHEMA, ch_schema = [1], ch_schema_encoding = PROTOBUF\<rparr>\<rparr>"

lemma sample_init: "init_registry (sample_ext di) [] [] [] [] 0 [] [] = Inr sample_registry"
  by (simp add: init_registry_def sample_ext_def file_descriptors_def sample_registry_def
      FIRST_DYNAMIC_def DEVICE_INFO_def)

text \<open>
  C8. Whatever a peer does with its registry after construction (declares outputs, learns, forgets,
  takes announces, accepts messages), each live channel sits under its own id, its topic leads to that
  id, and no two live ids carry the same topic.
\<close>

theorem registry_topics_unique:
  assumes "init_registry X n fw hw ser boot et entries = Inr r"
    and "s = foldl (reg_step X) r ops"
    and "map_of (r_by_id s) i = Some a" and "map_of (r_by_id s) j = Some b"
  shows "ch_id a = i \<and> local_id_for s (ch_topic a) = Inr i \<and> (ch_topic a = ch_topic b \<longrightarrow> i = j)"
proof -
  have "reg_inv s" using reg_run_inv [OF init_registry_inv [OF assms(1)]] assms(2) by simp
  then show ?thesis
    using reg_inv_live [of s i a] reg_inv_unique_topic [of s i a j b] assms(3,4)
    by (simp add: local_id_for_def)
qed

theorem registry_topics_unique_witness:
  "local_id_for (foldl (reg_step (sample_ext sample_info)) sample_registry
     [OpLearn (sample_channel 20 (lit ''/a'')), OpLearn (sample_channel 21 (lit ''/a''))])
     (lit ''/a'') = Inr 20"
  using registry_topics_unique [OF sample_init refl,
      of sample_info "[OpLearn (sample_channel 20 (lit ''/a'')), OpLearn (sample_channel 21 (lit ''/a''))]"
         20 "sample_channel 20 (lit ''/a'')" 20 "sample_channel 20 (lit ''/a'')"]
  by (simp add: learn_def sample_channel_def sample_registry_def)

text \<open>
  A peer's announce is enough to resolve it: after a fresh consumer has processed the
  \<open>DeviceInfo\<close> built by \<open>self_info\<close>, it resolves every one of the peer's own channel ids to that very
  channel (topic, schema, encoding), whatever order the peer's set of own ids is iterated in.
\<close>

theorem announce_resolves_own_channels:
  assumes "init_registry X n fw hw ser boot et entries = Inr d0"
    and "d = foldl (reg_step X) d0 ops"
    and "distinct (order (r_own_ids d))" and "set (order (r_own_ids d)) = r_own_ids d"
    and "self_info order d = Inr di" and "dinfo_parse X (dinfo_ser X di) = Some di"
    and "init_registry X n' fw' hw' ser' boot' et' [] = Inr consumer"
    and "ch \<in> set (di_channels di)"
  shows "resolve (on_announce X (dinfo_ser X di) consumer) (ch_id ch) = Some ch"
proof -
  have d: "reg_inv d" using reg_run_inv [OF init_registry_inv [OF assms(1)]] assms(2) by simp
  obtain chs where own: "own_channels order d = Inr chs" and chs: "di_channels di = chs"
    using assms(5) by (auto simp: self_info_def bindE_eq_Inr)
  obtain i where "i \<in> set (order (r_own_ids d))" "ch_id ch = i" "map_of (r_by_id d) i = Some ch"
    using own_channels_set [OF d own assms(3)] assms(8) chs by (metis image_eqI set_map)
  then have "ch_id ch \<noteq> DEVICE_INFO"
    using d assms(4) by (auto simp: reg_inv_def FIRST_DYNAMIC_def DEVICE_INFO_def)
  have "r_topic_to_id consumer = Map.empty"
    using assms(7) by (auto simp: init_registry_def bindE_eq_Inr)
  from announce_fresh [OF d assms(3,5,6) init_registry_inv [OF assms(7)] this assms(8)]
  show ?thesis using \<open>ch_id ch \<noteq> DEVICE_INFO\<close> by (simp add: resolve_def)
qed

definition sample_sender :: registry where
  "sample_sender = snd (declare_channel (lit ''/a'') [] [] PROTOBUF PROTOBUF sample_registry)"

theorem announce_resolves_own_channels_witness:
  "resolve (on_announce (sample_ext sample_info) (dinfo_ser (sample_ext sample_info) sample_info)
     sample_registry) 16 = Some (sample_channel 16 (lit ''/a''))"
proof -
  have d: "sample_sender = foldl (reg_step (sample_ext sample_info)) sample_registry
      [OpDeclareChannel (lit ''/a'') [] [] PROTOBUF PROTOBUF]"
    by (simp add: sample_sender_def)
  have o: "distinct ((\<lambda>_. [16]) (r_own_ids sample_sender))"
    "set ((\<lambda>_. [16]) (r_own_ids sample_sender)) = r_own_ids sample_sender"
    "self_info (\<lambda>_. [16]) sample_sender = Inr sample_info"
    "dinfo_parse (sample_ext sample_info) (dinfo_ser (sample_ext sample_info) sample_info)
       = Some sample_info" "sample_channel 16 (lit ''/a'') \<in> set (di_channels sample_info)"
    by (simp_all add: sample_sender_def sample_registry_def declare_channel_def alloc_def
        self_info_def own_channels_def sample_info_def sample_channel_def sample_ext_def)
  from announce_resolves_own_channels [OF sample_init d o(1-4) sample_init o(5)]
  show ?thesis by (simp add: sample_channel_def)
qed

text \<open>
  C13. A consumer accounts for every data message: over any sequence of messages and announces, rows
  produced plus unmapped drops counted equals data messages received, the rows are in arrival order,
  and each carries the channel of its own stream id.
\<close>

theorem consumer_accounts_for_data:
  assumes "init_registry X n fw hw ser boot et entries = Inr r"
    and "resolved (on_announce X) ms r = (rows, r')"
  shows "length rows + r_dropped_unmapped r'
           = length (filter (\<lambda>m. FIRST_DYNAMIC \<le> m_stream_id m) ms) + r_dropped_unmapped r
         \<and> subseq (map fst rows) ms \<and> (\<forall>(m, ch) \<in> set rows. ch_id ch = m_stream_id m)"
  using base_registry.resolved_accounting [OF init_registry_inv [OF assms(1)], of X ms]
    base_registry.resolved_subseq [OF init_registry_inv [OF assms(1)], of X ms]
    base_registry.resolved_rows [OF init_registry_inv [OF assms(1)], of _ _ X ms] assms(2)
  by auto

definition sample_message :: "int \<Rightarrow> bytes \<Rightarrow> message" where
  "sample_message i p = default_message\<lparr>m_stream_id := i, m_payload := p\<rparr>"

theorem consumer_accounts_for_data_witness:
  "\<exists>rows r'. resolved (on_announce (sample_ext sample_info))
       [sample_message 16 [7], sample_message 1 [], sample_message 16 [8]] sample_registry = (rows, r')
     \<and> length rows + r_dropped_unmapped r' = 2 \<and> r_dropped_unmapped sample_registry = 0"
proof -
  let ?ms = "[sample_message 16 [7], sample_message 1 [], sample_message 16 [8]]"
  obtain rows r' where
    run: "resolved (on_announce (sample_ext sample_info)) ?ms sample_registry = (rows, r')"
    by fastforce
  from consumer_accounts_for_data [OF sample_init run] run show ?thesis
    by (simp add: sample_registry_def sample_message_def default_message_def FIRST_DYNAMIC_def)
qed

text \<open>
  Learning a new topic for an id already in use leaves the old topic in the table, still leading to
  that id: forgetting the id does not remove it, so the old topic is refused ever after under any other
  id although nothing live carries it.
\<close>

theorem stale_topic_blocks_relearn:
  assumes "r_topic_to_id r (ch_topic a) = None" and "r_topic_to_id r (ch_topic b) = None"
    and "ch_id a = ch_id b" and "ch_topic a \<noteq> ch_topic b" and "ch_topic c = ch_topic a"
    and "ch_id c \<noteq> ch_id a"
  shows "\<exists>r1 r2. learn a r = Inr r1 \<and> learn b r1 = Inr r2
           \<and> map_of (r_by_id (forget [ch_id a] r2)) (ch_id a) = None
           \<and> learn c (forget [ch_id a] r2)
               = Inl (DuplicateTopicError (ch_topic a) (ch_id a) (ch_id c))"
  using assms
  by (auto simp: learn_def forget_def forget_one_def Let_def reg_map_simps)

theorem stale_topic_blocks_relearn_witness:
  "\<exists>r1 r2. learn (sample_channel 16 (lit ''/a'')) sample_registry = Inr r1
     \<and> learn (sample_channel 16 (lit ''/b'')) r1 = Inr r2 \<and> r_by_id (forget [16] r2) = []
     \<and> learn (sample_channel 17 (lit ''/a'')) (forget [16] r2)
         = Inl (DuplicateTopicError (lit ''/a'') 16 17)"
proof -
  let ?a = "sample_channel 16 (lit ''/a'')" and ?b = "sample_channel 16 (lit ''/b'')"
    and ?c = "sample_channel 17 (lit ''/a'')"
  have "r_topic_to_id sample_registry (ch_topic ?a) = None"
    "r_topic_to_id sample_registry (ch_topic ?b) = None" "ch_id ?a = ch_id ?b"
    "ch_topic ?a \<noteq> ch_topic ?b" "ch_topic ?c = ch_topic ?a" "ch_id ?c \<noteq> ch_id ?a"
    by (simp_all add: sample_registry_def sample_channel_def lit_def)
  from stale_topic_blocks_relearn [OF this]
  show ?thesis
    by (auto simp: sample_channel_def sample_registry_def learn_def forget_def forget_one_def Let_def)
qed

end
