(* ===== verification/RelayRegistry.thy ===== *)
theory RelayRegistry
  imports Registry
begin

text \<open>
  \<open>display/relay_registry.py\<close>: the registry of a relayed multiplex stream, where a re-announce from
  the device that owns a topic moves the topic to its new id and another device's claim is refused.
  \<open>_owner\<close> is a field added to the base registry's record, so the inherited operations apply as they
  are and \<open>accept\<close> dispatches to \<open>relay_on_announce\<close>.
\<close>

record relay_registry = registry +
  rl_owner :: "int \<rightharpoonup> ustr"

text \<open>One turn of the loop of \<open>on_announce\<close>: drop the stale id of a reconnected device, then learn.\<close>

definition relay_drop_stale :: "ustr \<Rightarrow> channel \<Rightarrow> relay_registry \<Rightarrow> relay_registry" where
  "relay_drop_stale dev ch r =
     (case r_topic_to_id r (ch_topic ch) of
        None \<Rightarrow> r
      | Some existing \<Rightarrow>
          if existing \<noteq> ch_id ch \<and> rl_owner r existing = Some dev
          then let r' = forget [existing] r in r'\<lparr>rl_owner := (rl_owner r')(existing := None)\<rparr>
          else r)"

definition relay_learn :: "ustr \<Rightarrow> relay_registry \<Rightarrow> channel \<Rightarrow> relay_registry" where
  "relay_learn dev r ch =
     (let r1 = relay_drop_stale dev ch r
      in case learn ch r1 of
           Inl _ \<Rightarrow> r1
         | Inr r2 \<Rightarrow> r2\<lparr>rl_owner := (rl_owner r2)(ch_id ch \<mapsto> dev)\<rparr>)"

definition relay_on_announce :: "reg_ext \<Rightarrow> bytes \<Rightarrow> relay_registry \<Rightarrow> relay_registry" where
  "relay_on_announce X payload r =
     (case dinfo_parse X payload of
        None \<Rightarrow> r
      | Some di \<Rightarrow> foldl (relay_learn (di_device_name di)) r (di_channels di))"

section \<open>The announce contract\<close>

lemma reg_inv_owner [simp]: "reg_inv (r\<lparr>rl_owner := f\<rparr>) = reg_inv r"
  by (simp add: reg_inv_def del: map_of_eq_Some_iff Some_eq_map_of_iff)

lemma relay_drop_stale_inv: "reg_inv r \<Longrightarrow> reg_inv (relay_drop_stale dev ch r)"
  by (simp add: relay_drop_stale_def Let_def forget_inv split: option.split)

lemma relay_drop_stale_dropped:
  "r_dropped_unmapped (relay_drop_stale dev ch r) = r_dropped_unmapped r"
  by (cases "r_topic_to_id r (ch_topic ch)")
     (simp_all add: relay_drop_stale_def forget_def forget_one_keeps Let_def)

lemma relay_learn_inv:
  assumes "reg_inv r"
  shows "reg_inv (relay_learn dev r ch)"
proof (cases "learn ch (relay_drop_stale dev ch r)")
  case (Inr r2)
  then show ?thesis using learn_inv [OF relay_drop_stale_inv [OF assms] Inr]
    by (simp add: relay_learn_def)
qed (simp add: relay_learn_def relay_drop_stale_inv [OF assms])

lemma relay_learn_dropped: "r_dropped_unmapped (relay_learn dev r ch) = r_dropped_unmapped r"
proof (cases "learn ch (relay_drop_stale dev ch r)")
  case (Inr r2)
  then show ?thesis using learn_keeps [OF Inr]
    by (simp add: relay_learn_def relay_drop_stale_dropped)
qed (simp add: relay_learn_def relay_drop_stale_dropped)

lemma relay_on_announce_inv: "reg_inv r \<Longrightarrow> reg_inv (relay_on_announce X p r)"
  unfolding relay_on_announce_def
  by (auto split: option.splits intro!: foldl_invariant [where P = reg_inv] relay_learn_inv)

lemma relay_on_announce_dropped:
  "r_dropped_unmapped (relay_on_announce X p r) = r_dropped_unmapped r"
proof -
  have "r_dropped_unmapped (foldl (relay_learn dev) r chs) = r_dropped_unmapped r" for dev chs
    by (rule foldl_invariant [where P = "\<lambda>s. r_dropped_unmapped s = r_dropped_unmapped r"])
       (simp_all add: relay_learn_dropped)
  then show ?thesis by (simp add: relay_on_announce_def split: option.splits)
qed

interpretation relay: announce_handler "relay_on_announce X" reg_inv for X
  by unfold_locales (simp_all add: relay_on_announce_inv relay_on_announce_dropped reg_inv_dropped)

section \<open>What an announce does\<close>

text \<open>
  The ids a device's announce may move: its topic is unknown, already at the announced id, or live at
  an id this device owns; the announced id is free or already carries the topic.
\<close>

definition movable :: "ustr \<Rightarrow> relay_registry \<Rightarrow> channel \<Rightarrow> bool" where
  "movable dev r ch \<longleftrightarrow>
     (case r_topic_to_id r (ch_topic ch) of
        None \<Rightarrow> True
      | Some e \<Rightarrow> e = ch_id ch \<or> rl_owner r e = Some dev
          \<and> (\<exists>c. map_of (r_by_id r) e = Some c \<and> ch_topic c = ch_topic ch))
     \<and> (\<forall>c. map_of (r_by_id r) (ch_id ch) = Some c \<longrightarrow> ch_topic c = ch_topic ch)"

lemma relay_learn_movable:
  assumes inv: "reg_inv r" and m: "movable dev r ch"
  shows "map_of (r_by_id (relay_learn dev r ch)) =
      (\<lambda>i. if i = ch_id ch then Some ch
           else if r_topic_to_id r (ch_topic ch) = Some i then None else map_of (r_by_id r) i)"
    "r_topic_to_id (relay_learn dev r ch) = (r_topic_to_id r)(ch_topic ch \<mapsto> ch_id ch)"
    "rl_owner (relay_learn dev r ch) (ch_id ch) = Some dev"
    "i \<noteq> ch_id ch \<Longrightarrow> r_topic_to_id r (ch_topic ch) \<noteq> Some i \<Longrightarrow>
       rl_owner (relay_learn dev r ch) i = rl_owner r i"
proof -
  define e where "e = r_topic_to_id r (ch_topic ch)"
  let ?r1 = "relay_drop_stale dev ch r"
  have r1: "map_of (r_by_id ?r1) = (\<lambda>i. if e = Some i \<and> i \<noteq> ch_id ch then None else map_of (r_by_id r) i)
      \<and> (\<forall>t. t \<noteq> ch_topic ch \<longrightarrow> r_topic_to_id ?r1 t = r_topic_to_id r t)
      \<and> r_topic_to_id ?r1 (ch_topic ch) \<in> {None, Some (ch_id ch)}
      \<and> (\<forall>i. e \<noteq> Some i \<longrightarrow> rl_owner ?r1 i = rl_owner r i)"
  proof (cases e)
    case (Some x)
    show ?thesis
    proof (cases "x = ch_id ch")
      case False
      then obtain c where "rl_owner r x = Some dev" "map_of (r_by_id r) x = Some c"
        "ch_topic c = ch_topic ch" "r_topic_to_id r (ch_topic ch) = Some x"
        using m Some by (auto simp: movable_def e_def)
      then show ?thesis using False Some
        by (auto simp: relay_drop_stale_def forget_def forget_one_def Let_def reg_map_simps fun_eq_iff)
    qed (use Some in \<open>auto simp: relay_drop_stale_def e_def fun_eq_iff\<close>)
  qed (auto simp: relay_drop_stale_def e_def)
  then obtain r2 where l: "learn ch ?r1 = Inr r2" by (auto simp: learn_def split: option.split)
  have r2: "map_of (r_by_id r2) = (map_of (r_by_id ?r1))(ch_id ch \<mapsto> ch)"
    "r_topic_to_id r2 = (r_topic_to_id ?r1)(ch_topic ch \<mapsto> ch_id ch)" "rl_owner r2 = rl_owner ?r1"
    using l learn_resolves [OF l] by (auto simp: learn_def Let_def split: option.splits if_splits)
  show "map_of (r_by_id (relay_learn dev r ch)) =
      (\<lambda>i. if i = ch_id ch then Some ch
           else if r_topic_to_id r (ch_topic ch) = Some i then None else map_of (r_by_id r) i)"
    using r1 r2 l by (auto simp: relay_learn_def e_def fun_eq_iff)
  show "r_topic_to_id (relay_learn dev r ch) = (r_topic_to_id r)(ch_topic ch \<mapsto> ch_id ch)"
    using r1 r2 l by (auto simp: relay_learn_def fun_eq_iff)
  show "rl_owner (relay_learn dev r ch) (ch_id ch) = Some dev" using l by (simp add: relay_learn_def)
  show "i \<noteq> ch_id ch \<Longrightarrow> r_topic_to_id r (ch_topic ch) \<noteq> Some i \<Longrightarrow>
       rl_owner (relay_learn dev r ch) i = rl_owner r i"
    using r1 r2 l by (simp add: relay_learn_def e_def)
qed

lemma movable_next:
  assumes inv: "reg_inv r" and m: "movable dev r ch" "movable dev r c"
    and ne: "ch_id c \<noteq> ch_id ch" "ch_topic c \<noteq> ch_topic ch"
  shows "movable dev (relay_learn dev r ch) c"
proof -
  note upd = relay_learn_movable [OF inv m(1)]
  have "rl_owner (relay_learn dev r ch) e = Some dev
      \<and> (\<exists>x. map_of (r_by_id (relay_learn dev r ch)) e = Some x \<and> ch_topic x = ch_topic c)"
    if t: "r_topic_to_id r (ch_topic c) = Some e" "e \<noteq> ch_id c" for e
  proof -
    obtain x where e: "rl_owner r e = Some dev" "map_of (r_by_id r) e = Some x" "ch_topic x = ch_topic c"
      using m(2) t by (auto simp: movable_def)
    have "e \<noteq> ch_id ch" using e m(1) ne by (auto simp: movable_def)
    moreover have "r_topic_to_id r (ch_topic ch) \<noteq> Some e"
      using e m(1) ne \<open>e \<noteq> ch_id ch\<close> by (auto simp: movable_def)
    ultimately show ?thesis using e upd(1) upd(4) [of e] by simp
  qed
  moreover have "ch_topic x = ch_topic c"
    if "map_of (r_by_id (relay_learn dev r ch)) (ch_id c) = Some x" for x
    using that m(2) ne by (auto simp: upd(1) movable_def split: if_splits)
  ultimately show ?thesis using ne by (simp add: movable_def upd(2) split: option.split) blast
qed

lemma relay_fold_keeps:
  assumes "reg_inv r" "\<forall>ch \<in> set chs. movable dev r ch"
    "distinct (map ch_id chs)" "distinct (map ch_topic chs)"
  shows "map_of (r_by_id r) i = Some c \<Longrightarrow> i \<notin> ch_id ` set chs \<Longrightarrow> ch_topic c \<notin> ch_topic ` set chs
         \<Longrightarrow> map_of (r_by_id (foldl (relay_learn dev) r chs)) i = Some c" (is "PROP ?keep")
    and "ch \<in> set chs \<Longrightarrow> map_of (r_by_id (foldl (relay_learn dev) r chs)) (ch_id ch) = Some ch"
      (is "PROP ?new")
proof -
  have "(\<forall>i c. map_of (r_by_id r) i = Some c \<longrightarrow> i \<notin> ch_id ` set chs \<longrightarrow> ch_topic c \<notin> ch_topic ` set chs
         \<longrightarrow> map_of (r_by_id (foldl (relay_learn dev) r chs)) i = Some c)
    \<and> (\<forall>ch \<in> set chs. map_of (r_by_id (foldl (relay_learn dev) r chs)) (ch_id ch) = Some ch)"
    using assms
  proof (induction chs arbitrary: r)
    case (Cons ch chs)
    let ?r = "relay_learn dev r ch"
    have m: "movable dev r ch" using Cons.prems by simp
    note upd = relay_learn_movable [OF Cons.prems(1) m]
    have d: "ch_id ch \<notin> ch_id ` set chs" "ch_topic ch \<notin> ch_topic ` set chs" using Cons.prems by auto
    have "\<forall>c \<in> set chs. movable dev ?r c"
    proof
      fix c assume "c \<in> set chs"
      then have "ch_id c \<noteq> ch_id ch" "ch_topic c \<noteq> ch_topic ch" using d by (auto simp: image_iff)
      then show "movable dev ?r c"
        using movable_next [OF Cons.prems(1) m] Cons.prems(2) \<open>c \<in> set chs\<close> by simp
    qed
    with Cons.IH [OF relay_learn_inv [OF Cons.prems(1)]] Cons.prems
    have IH: "\<And>i c. map_of (r_by_id ?r) i = Some c \<Longrightarrow> i \<notin> ch_id ` set chs \<Longrightarrow>
          ch_topic c \<notin> ch_topic ` set chs \<Longrightarrow>
          map_of (r_by_id (foldl (relay_learn dev) ?r chs)) i = Some c"
      "\<forall>c \<in> set chs. map_of (r_by_id (foldl (relay_learn dev) ?r chs)) (ch_id c) = Some c"
      by auto
    have "map_of (r_by_id ?r) i = Some c"
      if "map_of (r_by_id r) i = Some c" "i \<noteq> ch_id ch" "ch_topic c \<noteq> ch_topic ch" for i c
    proof -
      have "r_topic_to_id r (ch_topic ch) \<noteq> Some i"
        using m that by (auto simp: movable_def)
      then show ?thesis using that by (simp add: upd(1))
    qed
    moreover have "map_of (r_by_id ?r) (ch_id ch) = Some ch" by (simp add: upd(1))
    ultimately show ?case using IH d by simp
  qed simp
  then show "PROP ?keep" "PROP ?new" by blast+
qed

lemma relay_foreign_claim:
  assumes "r_topic_to_id r (ch_topic ch) = Some i" "i \<noteq> ch_id ch" "rl_owner r i \<noteq> Some dev"
  shows "relay_learn dev r ch = r"
  using assms by (simp add: relay_learn_def relay_drop_stale_def learn_def)

section \<open>A reconnect that permutes ids\<close>

text \<open>The state in which the announce gets stuck: \<open>b\<close>'s topic leads to an id that is not live.\<close>

definition swap_stuck :: "channel \<Rightarrow> channel \<Rightarrow> relay_registry \<Rightarrow> bool" where
  "swap_stuck a b r \<longleftrightarrow>
     map_of (r_by_id r) (ch_id a) = None \<and> map_of (r_by_id r) (ch_id b) = None
     \<and> r_topic_to_id r (ch_topic a) = None \<and> r_topic_to_id r (ch_topic b) = Some (ch_id a)
     \<and> rl_owner r (ch_id a) = None \<and> rl_owner r (ch_id b) = None"

lemma swap_stuck_step:
  assumes "ch_id a \<noteq> ch_id b" "ch_topic a \<noteq> ch_topic b" "swap_stuck a b r"
  shows "swap_stuck a b (foldl (relay_learn dev) r [a, b])"
  using assms
  by (simp add: swap_stuck_def relay_learn_def relay_drop_stale_def learn_def forget_def
      forget_one_def Let_def reg_map_simps)

lemma swap_first:
  assumes "ch_id a \<noteq> ch_id b" "ch_topic a \<noteq> ch_topic b"
    "map_of (r_by_id r) (ch_id b) = Some a0" "map_of (r_by_id r) (ch_id a) = Some b0"
    "ch_topic a0 = ch_topic a" "ch_topic b0 = ch_topic b"
    "r_topic_to_id r (ch_topic a) = Some (ch_id b)" "r_topic_to_id r (ch_topic b) = Some (ch_id a)"
    "rl_owner r (ch_id a) = Some dev" "rl_owner r (ch_id b) = Some dev"
  shows "swap_stuck a b (foldl (relay_learn dev) r [a, b])"
  using assms
  by (simp add: swap_stuck_def relay_learn_def relay_drop_stale_def learn_def forget_def
      forget_one_def Let_def reg_map_simps)

section \<open>Properties\<close>

definition sample_relay :: "(int \<times> ustr) list \<Rightarrow> ustr \<Rightarrow> relay_registry" where
  "sample_relay live dev = \<lparr>r_device_name = [], r_equipment_type = [], r_firmware_version = [],
     r_hardware_revision = [], r_serial = [], r_boot_unix_seconds = 0,
     r_by_id = map (\<lambda>(i, t). (i, sample_channel i t)) live,
     r_topic_to_id = map_of (map (\<lambda>(i, t). (t, i)) live), r_own_ids = {}, r_next_id = 16,
     r_dropped_unmapped = 0, r_device_info_channel = sample_channel 1 DEVICE_INFO_TOPIC,
     rl_owner = map_of (map (\<lambda>(i, t). (i, dev)) live)\<rparr>"

lemma sample_relay_inv: "reg_inv (sample_relay [(16, lit ''/a''), (17, lit ''/b'')] dev)"
  by (simp add: reg_inv_def sample_relay_def sample_channel_def lit_def FIRST_DYNAMIC_def
      del: map_of_eq_Some_iff Some_eq_map_of_iff split: if_splits)

definition relay_info :: "ustr \<Rightarrow> channel list \<Rightarrow> device_info" where
  "relay_info dev chs = \<lparr>di_device_name = dev, di_equipment_type = [], di_channels = chs,
     di_firmware_version = [], di_hardware_revision = [], di_serial = [], di_boot_unix_seconds = 0\<rparr>"

text \<open>
  A device's announce is authoritative for its own channels: if each announced topic is unknown,
  unmoved or live at an id the same device owns, and no announced id is live for another topic, then
  after the announce every announced channel is the one its id resolves to, and every live channel whose
  id and topic are not in the announce is untouched.
\<close>

theorem relay_announce_authoritative:
  assumes "reg_inv r" and "dinfo_parse X p = Some di"
    and "\<forall>ch \<in> set (di_channels di). movable (di_device_name di) r ch"
    and "distinct (map ch_id (di_channels di))" and "distinct (map ch_topic (di_channels di))"
  shows "(\<forall>ch \<in> set (di_channels di).
             map_of (r_by_id (relay_on_announce X p r)) (ch_id ch) = Some ch)
       \<and> (\<forall>i c. map_of (r_by_id r) i = Some c \<and> i \<notin> ch_id ` set (di_channels di)
             \<and> ch_topic c \<notin> ch_topic ` set (di_channels di)
           \<longrightarrow> map_of (r_by_id (relay_on_announce X p r)) i = Some c)"
  using relay_fold_keeps [OF assms(1,3,4,5)] assms(2) by (simp add: relay_on_announce_def)

theorem relay_announce_authoritative_witness:
  "map_of (r_by_id (relay_on_announce
       (sample_ext (relay_info [7] [sample_channel 20 (lit ''/a'')])) []
       (sample_relay [(16, lit ''/a''), (17, lit ''/b'')] [7]))) 20
     = Some (sample_channel 20 (lit ''/a''))"
proof -
  let ?di = "relay_info [7] [sample_channel 20 (lit ''/a'')]"
  let ?r = "sample_relay [(16, lit ''/a''), (17, lit ''/b'')] [7]"
  have "dinfo_parse (sample_ext ?di) [] = Some ?di"
    "\<forall>ch \<in> set (di_channels ?di). movable (di_device_name ?di) ?r ch"
    "distinct (map ch_id (di_channels ?di))" "distinct (map ch_topic (di_channels ?di))"
    by (simp_all add: sample_ext_def relay_info_def movable_def sample_relay_def sample_channel_def
        lit_def)
  from relay_announce_authoritative [OF sample_relay_inv this]
  show ?thesis by (simp add: relay_info_def sample_channel_def)
qed

text \<open>
  A reconnect that swaps two ids never settles: once a device owning two live channels announces
  them again with their ids exchanged, neither id is live after the announce, nor after any number of
  repetitions of the same announce, because forgetting the first stale id leaves the other topic's
  entry behind and every repetition frees and then refuses the same pair.
\<close>

theorem relay_swapped_ids_lost:
  assumes "ch_id a \<noteq> ch_id b" and "ch_topic a \<noteq> ch_topic b"
    and "map_of (r_by_id r) (ch_id b) = Some a0" and "map_of (r_by_id r) (ch_id a) = Some b0"
    and "ch_topic a0 = ch_topic a" and "ch_topic b0 = ch_topic b"
    and "r_topic_to_id r (ch_topic a) = Some (ch_id b)"
    and "r_topic_to_id r (ch_topic b) = Some (ch_id a)"
    and "rl_owner r (ch_id a) = Some dev" and "rl_owner r (ch_id b) = Some dev"
    and "dinfo_parse X p = Some di" and "di_device_name di = dev" and "di_channels di = [a, b]"
  shows "map_of (r_by_id (foldl (\<lambda>s q. relay_on_announce X q s) r (replicate (Suc n) p))) (ch_id a) = None
       \<and> map_of (r_by_id (foldl (\<lambda>s q. relay_on_announce X q s) r (replicate (Suc n) p))) (ch_id b) = None"
proof -
  have one: "relay_on_announce X p s = foldl (relay_learn dev) s [a, b]" for s
    using assms(11-13) by (simp add: relay_on_announce_def)
  have stuck: "swap_stuck a b (relay_on_announce X p r)"
    unfolding one by (rule swap_first [OF assms(1-10)])
  have "swap_stuck a b (foldl (\<lambda>s q. relay_on_announce X q s) s (replicate n p))"
    if "swap_stuck a b s" for s
    by (rule foldl_invariant [where P = "swap_stuck a b", OF that])
       (simp add: one swap_stuck_step [OF assms(1,2), simplified])
  from this [OF stuck] show ?thesis by (simp add: swap_stuck_def)
qed

theorem relay_swapped_ids_lost_witness:
  "map_of (r_by_id (foldl (\<lambda>s q. relay_on_announce
       (sample_ext (relay_info [7] [sample_channel 17 (lit ''/a''), sample_channel 16 (lit ''/b'')])) q s)
     (sample_relay [(16, lit ''/a''), (17, lit ''/b'')] [7]) (replicate 3 []))) 16 = None"
proof -
  let ?a = "sample_channel 17 (lit ''/a'')" and ?b = "sample_channel 16 (lit ''/b'')"
  let ?r = "sample_relay [(16, lit ''/a''), (17, lit ''/b'')] [7]"
  have h: "ch_id ?a \<noteq> ch_id ?b" "ch_topic ?a \<noteq> ch_topic ?b"
    "map_of (r_by_id ?r) (ch_id ?b) = Some (sample_channel 16 (lit ''/a''))"
    "map_of (r_by_id ?r) (ch_id ?a) = Some (sample_channel 17 (lit ''/b''))"
    "ch_topic (sample_channel 16 (lit ''/a'')) = ch_topic ?a"
    "ch_topic (sample_channel 17 (lit ''/b'')) = ch_topic ?b"
    "r_topic_to_id ?r (ch_topic ?a) = Some (ch_id ?b)" "r_topic_to_id ?r (ch_topic ?b) = Some (ch_id ?a)"
    "rl_owner ?r (ch_id ?a) = Some [7]" "rl_owner ?r (ch_id ?b) = Some [7]"
    by (simp_all add: sample_relay_def sample_channel_def lit_def)
  have "dinfo_parse (sample_ext (relay_info [7] [?a, ?b])) [] = Some (relay_info [7] [?a, ?b])"
    "di_device_name (relay_info [7] [?a, ?b]) = [7]" "di_channels (relay_info [7] [?a, ?b]) = [?a, ?b]"
    by (simp_all add: sample_ext_def relay_info_def)
  from relay_swapped_ids_lost [OF h this, of 2] show ?thesis
    by (simp add: sample_channel_def eval_nat_numeral)
qed

end
