(* ===== verification/Outbox.thy ===== *)
theory Outbox
  imports Prelude "HOL-Library.Sublist"
begin

text \<open>
  The contract of a bounded drop-oldest buffer, which \<open>QueueEndpoint\<close> and the outbox of
  \<open>FramedFdEndpoint\<close> both promise: an item is never refused, the oldest one makes room. The client's
  lemmas say what a consumer that stops draining finds: the freshest items, in order, every lost one
  counted.
\<close>

definition last_n :: "nat \<Rightarrow> 'a list \<Rightarrow> 'a list" where
  "last_n n xs = drop (length xs - n) xs"

lemma length_last_n [simp]: "length (last_n n xs) = min n (length xs)"
  by (simp add: last_n_def)

lemma last_n_all [simp]: "length xs \<le> n \<Longrightarrow> last_n n xs = xs"
  by (simp add: last_n_def)

lemma last_n_snoc: "0 < n \<Longrightarrow> last_n n (last_n n xs @ [x]) = last_n n (xs @ [x])"
  by (cases "length xs \<le> n") (auto simp: last_n_def Suc_diff_le drop_append)

locale drop_oldest =
  fixes enq :: "'x \<Rightarrow> 's \<Rightarrow> 's"
    and items :: "'s \<Rightarrow> 'x list"
    and dropped :: "'s \<Rightarrow> nat"
    and cap :: "'s \<Rightarrow> nat"
  assumes enq_items: "0 < cap s \<Longrightarrow> length (items s) \<le> cap s \<Longrightarrow>
      items (enq x s) = last_n (cap s) (items s @ [x])"
    and enq_dropped: "0 < cap s \<Longrightarrow> length (items s) \<le> cap s \<Longrightarrow>
      dropped (enq x s) = dropped s + (if length (items s) = cap s then 1 else 0)"
    and enq_cap: "cap (enq x s) = cap s"
begin

lemma bounded:
  "0 < cap s \<Longrightarrow> length (items s) \<le> cap s \<Longrightarrow>
     length (items (foldl (\<lambda>s x. enq x s) s xs)) \<le> cap s \<and> cap (foldl (\<lambda>s x. enq x s) s xs) = cap s"
  by (induction xs rule: rev_induct) (simp_all add: enq_items enq_cap)

lemma freshest:
  assumes "0 < cap s" "length (items s) \<le> cap s"
  shows "items (foldl (\<lambda>s x. enq x s) s xs) = last_n (cap s) (items s @ xs)"
proof (induction xs rule: rev_induct)
  case (snoc x xs)
  then show ?case
    using bounded [OF assms, of xs] enq_items [of "foldl (\<lambda>s x. enq x s) s xs" x] assms
    by (simp add: last_n_snoc)
qed (simp add: assms)

lemma accounted:
  assumes "0 < cap s" "length (items s) \<le> cap s"
  shows "length (items (foldl (\<lambda>s x. enq x s) s xs)) + dropped (foldl (\<lambda>s x. enq x s) s xs)
           = length (items s) + dropped s + length xs"
proof (induction xs rule: rev_induct)
  case (snoc x xs)
  have "min (cap s) (length (items (foldl (\<lambda>s x. enq x s) s xs)) + 1)
      + (if length (items (foldl (\<lambda>s x. enq x s) s xs)) = cap s then 1 else 0)
      = length (items (foldl (\<lambda>s x. enq x s) s xs)) + 1"
    using bounded [OF assms, of xs] by auto
  then show ?case
    using snoc bounded [OF assms, of xs] enq_items [of "foldl (\<lambda>s x. enq x s) s xs" x]
      enq_dropped [of "foldl (\<lambda>s x. enq x s) s xs" x] assms
    by simp
qed simp

end

end
