(* ===== verification/QueueEndpoint.thy ===== *)
theory QueueEndpoint
  imports Outbox Frame
begin

text \<open>
  \<open>transport/queue.py\<close>: the in-process consumer sink. A call returns the exception it raises, if any,
  and the state it leaves; each body under the lock is one step. \<open>max_depth\<close> is any Python int.
\<close>

datatype endpoint_error = IndexError | ValueError | EndpointClosed

record queue_endpoint =
  q_filter :: "int option"
  q_max_depth :: "int option"
  q_queue :: "message list"
  q_dropped :: nat

definition init_queue :: "int option \<Rightarrow> int option \<Rightarrow> queue_endpoint" where
  "init_queue stream_filter max_depth =
     \<lparr>q_filter = stream_filter, q_max_depth = max_depth, q_queue = [], q_dropped = 0\<rparr>"

text \<open>The \<open>while\<close> loop of \<open>send\<close>; \<open>popleft\<close> on an empty deque raises \<open>IndexError\<close>.\<close>

fun shed :: "int \<Rightarrow> message list \<Rightarrow> nat \<Rightarrow> endpoint_error option \<times> message list \<times> nat" where
  "shed depth [] dropped = (if depth \<le> 0 then Some IndexError else None, [], dropped)"
| "shed depth (m # q) dropped =
     (if depth \<le> int (length (m # q)) then shed depth q (dropped + 1) else (None, m # q, dropped))"

definition queue_send :: "message \<Rightarrow> queue_endpoint \<Rightarrow> endpoint_error option \<times> queue_endpoint" where
  "queue_send msg q =
     (if q_filter q \<noteq> None \<and> q_filter q \<noteq> Some (m_stream_id msg) then (None, q)
      else let (err, items, dropped) =
                 (case q_max_depth q of
                    None \<Rightarrow> (None, q_queue q, q_dropped q)
                  | Some depth \<Rightarrow> shed depth (q_queue q) (q_dropped q))
           in case err of
                Some e \<Rightarrow> (Some e, q\<lparr>q_queue := items, q_dropped := dropped\<rparr>)
              | None \<Rightarrow> (None, q\<lparr>q_queue := items @ [msg], q_dropped := dropped\<rparr>))"

definition pop_all :: "queue_endpoint \<Rightarrow> message list \<times> queue_endpoint" where
  "pop_all q = (q_queue q, q\<lparr>q_queue := []\<rparr>)"

text \<open>
  \<open>pop_batch\<close> releases the lock while it waits: \<open>waited\<close> is the state other threads leave when the
  condition variable wakes it or the time is up.
\<close>

definition pop_batch :: "(queue_endpoint \<Rightarrow> queue_endpoint) \<Rightarrow> queue_endpoint
    \<Rightarrow> message list \<times> queue_endpoint" where
  "pop_batch waited q =
     (let q = (if q_queue q = [] then waited q else q) in (q_queue q, q\<lparr>q_queue := []\<rparr>))"

definition queue_len :: "queue_endpoint \<Rightarrow> nat" where
  "queue_len q = length (q_queue q)"

section \<open>The drop-oldest contract\<close>

lemma shed_fits: "int (length q) < depth \<Longrightarrow> shed depth q d = (None, q, d)"
  by (cases q) auto

lemma shed_full: "int (length q) = depth \<Longrightarrow> q \<noteq> [] \<Longrightarrow> shed depth q d = (None, tl q, d + 1)"
  by (cases q) (auto simp: shed_fits)

text \<open>The depth of a queue that bounds (the contract's capacity); an unbounded queue has none.\<close>

definition queue_cap :: "queue_endpoint \<Rightarrow> nat" where
  "queue_cap q = (case q_max_depth q of None \<Rightarrow> 0 | Some d \<Rightarrow> nat d)"

text \<open>What reaches the queue past \<open>stream_filter\<close>.\<close>

definition wanted :: "queue_endpoint \<Rightarrow> message \<Rightarrow> bool" where
  "wanted q m \<longleftrightarrow> q_filter q = None \<or> q_filter q = Some (m_stream_id m)"

definition queue_put :: "message \<Rightarrow> queue_endpoint \<Rightarrow> queue_endpoint" where
  "queue_put m q = snd (queue_send m (q\<lparr>q_filter := None\<rparr>))\<lparr>q_filter := q_filter q\<rparr>"

lemma queue_put_filter [simp]: "q_filter (queue_put m q) = q_filter q"
  by (simp add: queue_put_def)

lemma queue_send_wanted: "wanted q m \<Longrightarrow> snd (queue_send m q) = queue_put m q"
  by (auto simp: wanted_def queue_put_def queue_send_def Let_def split: prod.split option.split)

lemma queue_send_unwanted: "\<not> wanted q m \<Longrightarrow> queue_send m q = (None, q)"
  by (auto simp: wanted_def queue_send_def)

interpretation queue: drop_oldest queue_put q_queue q_dropped queue_cap
proof
  fix s :: queue_endpoint and x
  assume cap: "0 < queue_cap s" and len: "length (q_queue s) \<le> queue_cap s"
  then obtain d where d: "q_max_depth s = Some d" "0 < d" "int (length (q_queue s)) \<le> d"
    by (auto simp: queue_cap_def split: option.splits)
  have "shed d (q_queue s) (q_dropped s) =
      (if int (length (q_queue s)) = d then (None, tl (q_queue s), q_dropped s + 1)
       else (None, q_queue s, q_dropped s))"
    using d shed_full [of "q_queue s" d] shed_fits [of "q_queue s" d] by fastforce
  then show "q_queue (queue_put x s) = last_n (queue_cap s) (q_queue s @ [x])"
    "q_dropped (queue_put x s) = q_dropped s + (if length (q_queue s) = queue_cap s then 1 else 0)"
    using d by (auto simp: queue_put_def queue_send_def queue_cap_def last_n_def drop_Suc
        nat_eq_iff tl_append split: list.split)
qed (auto simp: queue_put_def queue_send_def queue_cap_def Let_def split: prod.split option.split)

section \<open>Histories of a producer and a consumer\<close>

datatype queue_op = QSend message | QPopAll

fun queue_step :: "message list \<times> queue_endpoint \<Rightarrow> queue_op \<Rightarrow> message list \<times> queue_endpoint" where
  "queue_step (out, q) (QSend m) = (out, snd (queue_send m q))"
| "queue_step (out, q) QPopAll = (let (ms, q) = pop_all q in (out @ ms, q))"

fun sent :: "queue_op list \<Rightarrow> message list" where
  "sent [] = []"
| "sent (QSend m # ops) = m # sent ops"
| "sent (QPopAll # ops) = sent ops"

lemma sent_append [simp]: "sent (a @ b) = sent a @ sent b"
  by (induction a rule: sent.induct) auto

lemma queue_send_keeps:
  "q_filter (snd (queue_send m q)) = q_filter q \<and> q_max_depth (snd (queue_send m q)) = q_max_depth q"
  by (auto simp: queue_send_def Let_def split: prod.split option.split)

lemma shed_ok:
  "0 < depth \<Longrightarrow> \<exists>k. shed depth q d = (None, drop k q, d + k) \<and> k \<le> length q"
proof (induction q arbitrary: d)
  case (Cons m q)
  then obtain k where "shed depth q (d + 1) = (None, drop k q, d + 1 + k)" "k \<le> length q" by blast
  then show ?case
    by (cases "depth \<le> int (length (m # q))") (auto intro: exI [of _ "Suc k"] exI [of _ 0])
qed simp

text \<open>Everything sent and wanted is popped, queued or counted as dropped, in the order sent.\<close>

definition queue_hist :: "message list \<Rightarrow> message list \<times> queue_endpoint \<Rightarrow> bool" where
  "queue_hist ms s \<longleftrightarrow>
     subseq (fst s @ q_queue (snd s)) ms
     \<and> length (fst s) + length (q_queue (snd s)) + q_dropped (snd s) = length ms"

lemma queue_send_hist:
  assumes h: "queue_hist ms (out, q)" and d: "case q_max_depth q of None \<Rightarrow> True | Some d \<Rightarrow> 0 < d"
    and w: "wanted q m"
  shows "queue_hist (ms @ [m]) (out, snd (queue_send m q)) \<and> fst (queue_send m q) = None"
proof -
  obtain k where k: "k \<le> length (q_queue q)"
    and send: "queue_send m q = (None, q\<lparr>q_queue := drop k (q_queue q) @ [m], q_dropped := q_dropped q + k\<rparr>)"
  proof (cases "q_max_depth q")
    case None
    then show ?thesis using w that [of 0] by (auto simp: queue_send_def wanted_def)
  next
    case (Some d)
    then obtain k where "shed d (q_queue q) (q_dropped q) = (None, drop k (q_queue q), q_dropped q + k)"
      "k \<le> length (q_queue q)"
      using shed_ok assms(2) by fastforce
    then show ?thesis using w that [of k] Some by (auto simp: queue_send_def wanted_def)
  qed
  have "subseq (out @ drop k (q_queue q)) (out @ q_queue q)"
    by (rule list_emb_append_mono) (simp_all add: suffix_drop suffix_imp_subseq)
  with h have "subseq (out @ drop k (q_queue q)) ms"
    unfolding queue_hist_def by (metis fst_conv snd_conv subseq_order.order_trans)
  then have "subseq ((out @ drop k (q_queue q)) @ [m]) (ms @ [m])"
    by (rule list_emb_append_mono) simp
  then show ?thesis using h k by (simp add: queue_hist_def send)
qed

lemma queue_run_hist:
  assumes "case depth of None \<Rightarrow> True | Some d \<Rightarrow> 0 < d"
  shows "queue_hist (filter (wanted (init_queue flt depth)) (sent ops))
           (foldl queue_step ([], init_queue flt depth) ops)
         \<and> q_filter (snd (foldl queue_step ([], init_queue flt depth) ops)) = flt
         \<and> q_max_depth (snd (foldl queue_step ([], init_queue flt depth) ops)) = depth"
proof (induction ops rule: rev_induct)
  case Nil
  show ?case by (simp add: queue_hist_def init_queue_def)
next
  case (snoc op ops)
  obtain out q where s: "foldl queue_step ([], init_queue flt depth) ops = (out, q)" by fastforce
  show ?case
  proof (cases op)
    case (QSend m)
    have w: "wanted q m = wanted (init_queue flt depth) m"
      using snoc s by (simp add: wanted_def init_queue_def)
    show ?thesis
    proof (cases "wanted q m")
      case True
      then show ?thesis using queue_send_hist [OF _ _ True] snoc s assms w QSend
        by (simp add: queue_send_keeps)
    next
      case False
      then show ?thesis using snoc s w QSend queue_send_unwanted [OF False] by simp
    qed
  next
    case QPopAll
    then show ?thesis using snoc s by (simp add: pop_all_def queue_hist_def)
  qed
qed

section \<open>Properties\<close>

text \<open>
  The pull sink neither loses, repeats nor reorders silently: over any interleaving of sends and
  drains of a queue with no depth or a positive one, what was drained followed by what is queued is a
  subsequence of the sent messages that pass the filter, and drained, queued and counted drops add up to
  exactly those messages.
\<close>

theorem queue_conserves_messages:
  assumes "case depth of None \<Rightarrow> True | Some d \<Rightarrow> 0 < d"
    and "foldl queue_step ([], init_queue flt depth) ops = (out, q)"
  shows "subseq (out @ q_queue q) (filter (wanted (init_queue flt depth)) (sent ops))
     \<and> length out + queue_len q + q_dropped q
         = length (filter (wanted (init_queue flt depth)) (sent ops))"
  using queue_run_hist [OF assms(1), of flt ops] assms(2)
  by (simp add: queue_hist_def queue_len_def)

theorem queue_conserves_messages_witness:
  "\<exists>out q. foldl queue_step ([], init_queue None (Some 1))
        [QSend default_message, QSend (default_message\<lparr>m_seq := 1\<rparr>), QPopAll] = (out, q)
     \<and> length out + queue_len q + q_dropped q = 2"
proof -
  obtain out q where run: "foldl queue_step ([], init_queue None (Some 1))
      [QSend default_message, QSend (default_message\<lparr>m_seq := 1\<rparr>), QPopAll] = (out, q)" by fastforce
  have "case Some (1 :: int) of None \<Rightarrow> True | Some d \<Rightarrow> 0 < d" by simp
  from queue_conserves_messages [OF this run] run show ?thesis
    by (simp add: wanted_def init_queue_def)
qed

text \<open>
  A consumer that stalls finds the freshest messages: with a positive depth \<open>d\<close> and no drain, the
  queue holds exactly the last \<open>d\<close> of the messages sent.
\<close>

theorem queue_keeps_freshest:
  assumes "0 < d"
  shows "q_queue (foldl (\<lambda>q m. snd (queue_send m q)) (init_queue None (Some d)) ms) = last_n (nat d) ms"
proof -
  have "foldl (\<lambda>q m. snd (queue_send m q)) q ms = foldl (\<lambda>q m. queue_put m q) q ms"
    if "q_filter q = None" for q
    using that by (induction ms arbitrary: q) (simp_all add: queue_send_wanted wanted_def)
  then have "foldl (\<lambda>q m. snd (queue_send m q)) (init_queue None (Some d)) ms
      = foldl (\<lambda>q m. queue_put m q) (init_queue None (Some d)) ms"
    by (simp add: init_queue_def)
  then show ?thesis
    using queue.freshest [of "init_queue None (Some d)" ms] assms
    by (simp add: init_queue_def queue_cap_def)
qed

theorem queue_keeps_freshest_witness:
  "q_queue (foldl (\<lambda>q m. snd (queue_send m q)) (init_queue None (Some 2))
     [default_message, default_message\<lparr>m_seq := 1\<rparr>, default_message\<lparr>m_seq := 2\<rparr>])
   = [default_message\<lparr>m_seq := 1\<rparr>, default_message\<lparr>m_seq := 2\<rparr>]"
  using queue_keeps_freshest [of 2 "[default_message, default_message\<lparr>m_seq := 1\<rparr>, default_message\<lparr>m_seq := 2\<rparr>]"]
  by (simp add: last_n_def)

text \<open>
  A depth of zero or less makes every accepted send raise \<open>IndexError\<close>: nothing is ever queued.
\<close>

theorem queue_depth_zero_raises:
  assumes "d \<le> 0" and "wanted (init_queue flt (Some d)) m"
  shows "queue_send m (init_queue flt (Some d)) = (Some IndexError, init_queue flt (Some d))"
  using assms by (auto simp: queue_send_def wanted_def init_queue_def)

theorem queue_depth_zero_raises_witness:
  "queue_send default_message (init_queue None (Some 0)) = (Some IndexError, init_queue None (Some 0))"
  by (rule queue_depth_zero_raises) (simp_all add: wanted_def init_queue_def)

end
