(* ===== verification/FramedFd.thy ===== *)
theory FramedFd
  imports Framing QueueEndpoint
begin

text \<open>
  \<open>transport/framed_fd.py\<close>, \<open>transport/serial.py\<close> and \<open>read_some\<close>/\<open>write_some\<close> of \<open>transport/link.py\<close>:
  the framed byte link and its I/O thread. The operating system's answers (what \<open>os.read\<close>, \<open>os.write\<close>,
  \<open>select\<close> and the fd factory return) are arguments; the endpoint's fields are the record.

  Three fields are not in the code and no operation reads them: \<open>f_wire\<close>, the bytes the current
  connection took; \<open>f_begun\<close>, the frames taken off the outbox for it; \<open>f_heard\<close>, the bytes received on
  it. \<open>f_events\<close> logs the callbacks in the order they are made.
\<close>

section \<open>The descriptor\<close>

text \<open>A positive count, nothing to do now (\<open>EAGAIN\<close>), or any other \<open>OSError\<close>.\<close>

datatype write_result = Wrote nat | WriteBlocks | WriteError

datatype read_result = Got bytes | ReadBlocks | ReadError

definition write_some :: "write_result \<Rightarrow> int" where
  "write_some w = (case w of Wrote n \<Rightarrow> int n | WriteBlocks \<Rightarrow> 0 | WriteError \<Rightarrow> -1)"

definition read_some :: "read_result \<Rightarrow> bytes option" where
  "read_some r = (case r of Got chunk \<Rightarrow> if chunk = [] then None else Some chunk
                          | ReadBlocks \<Rightarrow> Some []
                          | ReadError \<Rightarrow> None)"

section \<open>The endpoint\<close>

datatype fd_event = Inbound message | Closed

record framed_fd =
  f_has_factory :: bool
  f_reopen_backoff_ns :: int
  f_next_reopen_ns :: int
  f_max_outbox :: int
  f_fd :: int
  f_outbox :: "bytes list"
  f_outbox_bytes :: int
  f_dropped :: nat
  f_inflight :: bytes
  f_rx :: bytes
  f_stop :: bool
  f_on_inbound :: bool
  f_on_closed :: bool
  f_events :: "fd_event list"
  f_wire :: bytes
  f_begun :: "bytes list"
  f_heard :: bytes

text \<open>Adopting a descriptor starts a connection.\<close>

definition adopt :: "int option \<Rightarrow> framed_fd \<Rightarrow> framed_fd" where
  "adopt fd s =
     (case fd of
        None \<Rightarrow> s\<lparr>f_fd := -1\<rparr>
      | Some n \<Rightarrow> if n < 0 then s\<lparr>f_fd := -1\<rparr>
                  else s\<lparr>f_fd := n, f_wire := [], f_begun := [], f_heard := []\<rparr>)"

text \<open>The constructor, with the descriptor its factory returns where there is one.\<close>

definition init_framed :: "int option \<Rightarrow> int option option \<Rightarrow> int \<Rightarrow> int \<Rightarrow> framed_fd" where
  "init_framed fd factory reopen_backoff_ns max_outbox_frames =
     (let s = \<lparr>f_has_factory = (factory \<noteq> None), f_reopen_backoff_ns = reopen_backoff_ns,
               f_next_reopen_ns = 0, f_max_outbox = max_outbox_frames, f_fd = -1, f_outbox = [],
               f_outbox_bytes = 0, f_dropped = 0, f_inflight = [], f_rx = [], f_stop = False,
               f_on_inbound = False, f_on_closed = False, f_events = [], f_wire = [], f_begun = [],
               f_heard = []\<rparr>
      in case factory of
           Some answer \<Rightarrow> adopt answer s
         | None \<Rightarrow> (case fd of None \<Rightarrow> s | Some _ \<Rightarrow> adopt fd s))"

definition DEFAULT_OUTBOX_FRAMES :: int where "DEFAULT_OUTBOX_FRAMES = 4096"

definition REOPEN_BACKOFF_NS :: int where "REOPEN_BACKOFF_NS = 500000000"

text \<open>\<open>SerialEndpoint\<close>: exactly one of a descriptor and a path, whose \<open>open\<close> gives \<open>opened\<close>.\<close>

definition init_serial :: "int option \<Rightarrow> ustr option \<Rightarrow> int \<Rightarrow> int option
    \<Rightarrow> endpoint_error + framed_fd" where
  "init_serial fd path opened max_outbox_frames =
     (if (fd = None) = (path = None) then Inl ValueError
      else if path \<noteq> None \<and> opened < 0 then Inl EndpointClosed
      else Inr (init_framed (if path \<noteq> None then Some opened else fd) None REOPEN_BACKOFF_NS
                  (case max_outbox_frames of None \<Rightarrow> DEFAULT_OUTBOX_FRAMES | Some n \<Rightarrow> n)))"

definition start :: "bool \<Rightarrow> bool \<Rightarrow> framed_fd \<Rightarrow> framed_fd" where
  "start on_inbound on_closed s =
     s\<lparr>f_on_inbound := on_inbound, f_on_closed := on_closed, f_stop := False\<rparr>"

definition stop :: "framed_fd \<Rightarrow> framed_fd" where
  "stop s = s\<lparr>f_stop := True, f_fd := -1\<rparr>"

datatype send_error = SendFrame frame_error | SendEndpoint endpoint_error

text \<open>The body of \<open>send\<close> under the lock, for a framed message.\<close>

definition enqueue :: "bytes \<Rightarrow> framed_fd \<Rightarrow> endpoint_error + framed_fd" where
  "enqueue framed s =
     bindE (if f_max_outbox s \<le> int (length (f_outbox s))
            then (case f_outbox s of
                    [] \<Rightarrow> Inl IndexError
                  | old # rest \<Rightarrow>
                      Inr (s\<lparr>f_outbox := rest,
                             f_outbox_bytes := f_outbox_bytes s - int (length old),
                             f_dropped := f_dropped s + 1\<rparr>))
            else Inr s)
       (\<lambda>s. Inr (s\<lparr>f_outbox := f_outbox s @ [framed],
                     f_outbox_bytes := f_outbox_bytes s + int (length framed)\<rparr>))"

definition send :: "wire_ext \<Rightarrow> message \<Rightarrow> framed_fd \<Rightarrow> send_error + framed_fd" where
  "send E msg s =
     (case frame_bytes E msg of
        Inl e \<Rightarrow> Inl (SendFrame e)
      | Inr framed \<Rightarrow> (case enqueue framed s of Inl e \<Rightarrow> Inl (SendEndpoint e) | Inr s' \<Rightarrow> Inr s'))"

definition link_up :: "framed_fd \<Rightarrow> bool" where
  "link_up s \<longleftrightarrow> 0 \<le> f_fd s"

definition pending_bytes :: "framed_fd \<Rightarrow> int" where
  "pending_bytes s = f_outbox_bytes s + int (length (f_inflight s))"

definition mark_link_dead :: "framed_fd \<Rightarrow> framed_fd" where
  "mark_link_dead s =
     s\<lparr>f_fd := -1, f_outbox := [], f_outbox_bytes := 0, f_inflight := [], f_rx := [],
       f_next_reopen_ns := 0\<rparr>"

definition reopen :: "int option \<Rightarrow> framed_fd \<Rightarrow> bool \<times> framed_fd" where
  "reopen answer s =
     (if \<not> f_has_factory s then (False, s)
      else let s = (case answer of
                      None \<Rightarrow> s
                    | Some fd \<Rightarrow> if 0 \<le> fd then (adopt (Some fd) s)\<lparr>f_rx := []\<rparr> else s)
           in (0 \<le> f_fd s, s))"

definition tick :: "int \<Rightarrow> int option \<Rightarrow> framed_fd \<Rightarrow> framed_fd" where
  "tick now_ns answer s =
     (if 0 \<le> f_fd s \<or> \<not> f_has_factory s then s
      else if now_ns < f_next_reopen_ns s then s
      else let (ok, s) = reopen answer s
           in if ok then s else s\<lparr>f_next_reopen_ns := now_ns + f_reopen_backoff_ns s\<rparr>)"

definition has_pending :: "framed_fd \<Rightarrow> bool" where
  "has_pending s \<longleftrightarrow> f_inflight s \<noteq> [] \<or> f_outbox s \<noteq> []"

text \<open>The two halves of a turn of \<open>_pump\<close>'s loop. The first says whether the loop goes on.\<close>

definition pump_write :: "write_result \<Rightarrow> framed_fd \<Rightarrow> bool \<times> framed_fd" where
  "pump_write w s =
     (let n = write_some w in
      if n < 0 then (False, mark_link_dead s)
      else if n = 0 then (False, s)
      else let s = s\<lparr>f_wire := f_wire s @ take (nat n) (f_inflight s),
                     f_inflight := drop (nat n) (f_inflight s)\<rparr>
           in (f_inflight s = [], s))"

definition pump_pop :: "framed_fd \<Rightarrow> framed_fd" where
  "pump_pop s =
     (case f_outbox s of
        [] \<Rightarrow> s
      | f # rest \<Rightarrow> s\<lparr>f_outbox := rest, f_inflight := f,
                      f_outbox_bytes := f_outbox_bytes s - int (length f),
                      f_begun := f_begun s @ [f]\<rparr>)"

text \<open>
  \<open>_pump\<close> against the answers \<open>ws\<close> to its writes (\<open>EAGAIN\<close> once they are used up). Each turn takes a
  frame off the outbox or returns.
\<close>

function pump_loop :: "write_result list \<Rightarrow> framed_fd \<Rightarrow> framed_fd" where
  "pump_loop ws s =
     (let (w, ws') = (case ws of [] \<Rightarrow> (WriteBlocks, []) | w # ws' \<Rightarrow> (w, ws'));
          (go, s1, ws1) = (if f_inflight s \<noteq> [] then let (go, s1) = pump_write w s in (go, s1, ws')
                           else (True, s, ws))
      in if \<not> go then s1
         else if f_outbox s1 = [] then s1
         else pump_loop ws1 (pump_pop s1))"
  by auto
termination
  by (relation "measure (\<lambda>(ws, s). length (f_outbox s))")
     (auto simp: pump_write_def pump_pop_def mark_link_dead_def Let_def
       split: if_splits list.splits prod.splits)

declare pump_loop.simps [simp del]

definition pump :: "write_result list \<Rightarrow> framed_fd \<Rightarrow> framed_fd" where
  "pump ws s = (if f_fd s < 0 then s else pump_loop ws s)"

definition read_inbound :: "wire_ext \<Rightarrow> read_result \<Rightarrow> framed_fd \<Rightarrow> framed_fd" where
  "read_inbound E r s =
     (case read_some r of
        None \<Rightarrow>
          if f_has_factory s then mark_link_dead s
          else s\<lparr>f_events := f_events s @ (if f_on_closed s then [Closed] else []), f_stop := True\<rparr>
      | Some chunk \<Rightarrow>
          if chunk \<noteq> []
          then let (msgs, rx) = extract_frames E (f_rx s @ chunk)
               in s\<lparr>f_rx := rx, f_heard := f_heard s @ chunk,
                    f_events := f_events s @ (if f_on_inbound s then map Inbound msgs else [])\<rparr>
          else s)"

text \<open>
  One turn of \<open>_loop\<close>: \<open>readable\<close> is the descriptor's presence in what \<open>select\<close> returned, \<open>stopped\<close>
  the stop event seen after it.
\<close>

record loop_input =
  li_readable :: bool
  li_stopped :: bool
  li_writes :: "write_result list"
  li_read :: read_result
  li_now_ns :: int
  li_factory :: "int option"

definition loop_turn :: "wire_ext \<Rightarrow> loop_input \<Rightarrow> framed_fd \<Rightarrow> framed_fd" where
  "loop_turn E i s =
     (if f_stop s then s
      else let fd = f_fd s;
               s = s\<lparr>f_stop := li_stopped i\<rparr>
           in if f_stop s then s
              else let s = pump (li_writes i) s;
                       s = (if 0 \<le> fd \<and> li_readable i then read_inbound E (li_read i) s else s)
                   in tick (li_now_ns i) (li_factory i) s)"

definition run_loop :: "wire_ext \<Rightarrow> loop_input list \<Rightarrow> framed_fd \<Rightarrow> framed_fd" where
  "run_loop E is s = foldl (\<lambda>s i. loop_turn E i s) s is"

section \<open>Steps and reachable states\<close>

text \<open>
  The steps of the I/O thread, each of which runs undisturbed (it holds the lock or touches only the
  thread's own fields). \<open>send\<close> comes from any thread between two of them.
\<close>

inductive fd_step :: "wire_ext \<Rightarrow> framed_fd \<Rightarrow> framed_fd \<Rightarrow> bool" for E where
  step_write: "0 \<le> f_fd s \<Longrightarrow> f_inflight s \<noteq> [] \<Longrightarrow> fd_step E s (snd (pump_write w s))"
| step_pop: "0 \<le> f_fd s \<Longrightarrow> f_inflight s = [] \<Longrightarrow> fd_step E s (pump_pop s)"
| step_read: "fd_step E s (read_inbound E r s)"
| step_tick: "fd_step E s (tick now answer s)"
| step_stop: "fd_step E s (s\<lparr>f_stop := b\<rparr>)"

inductive fd_reach :: "wire_ext \<Rightarrow> framed_fd \<Rightarrow> message list \<Rightarrow> framed_fd \<Rightarrow> bool" for E s0 where
  reach_init: "fd_reach E s0 [] s0"
| reach_send: "fd_reach E s0 sent_log s \<Longrightarrow> send E m s = Inr s' \<Longrightarrow> fd_reach E s0 (sent_log @ [m]) s'"
| reach_step: "fd_reach E s0 sent_log s \<Longrightarrow> fd_step E s s' \<Longrightarrow> fd_reach E s0 sent_log s'"

inductive_cases fd_stepE: "fd_step E s s'"

lemma reach_steps:
  assumes "(fd_step E)\<^sup>*\<^sup>* s s'" "fd_reach E s0 sent_log s"
  shows "fd_reach E s0 sent_log s'"
  using assms by (induction rule: rtranclp_induct) (auto intro: reach_step)

lemma pump_pop_fd [simp]: "f_fd (pump_pop s) = f_fd s"
  by (simp add: pump_pop_def split: list.split)

lemma pump_loop_steps: "0 \<le> f_fd s \<Longrightarrow> (fd_step E)\<^sup>*\<^sup>* s (pump_loop ws s)"
proof (induction "length (f_outbox s)" arbitrary: ws s rule: less_induct)
  case less
  define w where "w = (case ws of [] \<Rightarrow> WriteBlocks | w # _ \<Rightarrow> w)"
  define ws1 where "ws1 = (if f_inflight s \<noteq> [] then tl ws else ws)"
  define p where "p = (if f_inflight s \<noteq> [] then pump_write w s else (True, s))"
  have eq: "pump_loop ws s = (if \<not> fst p then snd p else if f_outbox (snd p) = [] then snd p
                              else pump_loop ws1 (pump_pop (snd p)))"
    by (subst pump_loop.simps) (auto simp: w_def ws1_def p_def case_prod_beta Let_def split: list.split)
  have s1: "(fd_step E)\<^sup>*\<^sup>* s (snd p)" using less.prems step_write [of s E w] by (auto simp: p_def)
  have go: "0 \<le> f_fd (snd p) \<and> f_inflight (snd p) = [] \<and> f_outbox (snd p) = f_outbox s" if "fst p"
    using less.prems that by (auto simp: p_def pump_write_def Let_def split: if_splits)
  show ?case
  proof (cases "fst p \<and> f_outbox (snd p) \<noteq> []")
    case True
    then have "length (f_outbox (pump_pop (snd p))) < length (f_outbox s)"
      using go by (auto simp: pump_pop_def split: list.split)
    then have "(fd_step E)\<^sup>*\<^sup>* (pump_pop (snd p)) (pump_loop ws1 (pump_pop (snd p)))"
      using less.hyps go True by simp
    moreover have "fd_step E (snd p) (pump_pop (snd p))" using go True by (intro step_pop) auto
    ultimately show ?thesis using s1 True eq by (auto intro: rtranclp_trans converse_rtranclp_into_rtranclp)
  qed (use eq s1 in auto)
qed

lemma pump_steps: "(fd_step E)\<^sup>*\<^sup>* s (pump ws s)"
  by (simp add: pump_def pump_loop_steps)

text \<open>A turn of the loop is a sequence of these steps, so what every reachable state has, it keeps.\<close>

lemma loop_turn_steps: "(fd_step E)\<^sup>*\<^sup>* s (loop_turn E i s)"
proof (cases "f_stop s \<or> li_stopped i")
  case True
  then show ?thesis using step_stop [of E s "li_stopped i"] by (auto simp: loop_turn_def)
next
  case False
  define s1 where "s1 = pump (li_writes i) (s\<lparr>f_stop := False\<rparr>)"
  define s2 where "s2 = (if 0 \<le> f_fd s \<and> li_readable i then read_inbound E (li_read i) s1 else s1)"
  have "fd_step E s (s\<lparr>f_stop := False\<rparr>)" by (rule step_stop)
  moreover have "(fd_step E)\<^sup>*\<^sup>* (s\<lparr>f_stop := False\<rparr>) s1" unfolding s1_def by (rule pump_steps)
  moreover have "(fd_step E)\<^sup>*\<^sup>* s1 s2" using step_read [of E s1] by (auto simp: s2_def)
  moreover have "fd_step E s2 (tick (li_now_ns i) (li_factory i) s2)" by (rule step_tick)
  ultimately have "(fd_step E)\<^sup>*\<^sup>* s (tick (li_now_ns i) (li_factory i) s2)"
    by (meson converse_rtranclp_into_rtranclp rtranclp.rtrancl_into_rtrancl rtranclp_trans)
  then show ?thesis using False unfolding s2_def s1_def
    by (simp add: loop_turn_def Let_def split del: if_split)
qed

lemma run_loop_steps: "(fd_step E)\<^sup>*\<^sup>* s (run_loop E is s)"
  unfolding run_loop_def
  by (induction "is" rule: rev_induct) (auto intro: rtranclp_trans loop_turn_steps)

section \<open>The outbox\<close>

definition put_framed :: "bytes \<Rightarrow> framed_fd \<Rightarrow> framed_fd" where
  "put_framed f s = (case enqueue f s of Inl _ \<Rightarrow> s | Inr s' \<Rightarrow> s')"

interpretation fd_outbox: drop_oldest put_framed f_outbox f_dropped "\<lambda>s. nat (f_max_outbox s)"
proof
  fix s :: framed_fd and x
  assume cap: "0 < nat (f_max_outbox s)" "length (f_outbox s) \<le> nat (f_max_outbox s)"
  have "f_outbox (put_framed x s) = (if length (f_outbox s) = nat (f_max_outbox s)
        then tl (f_outbox s) @ [x] else f_outbox s @ [x])
      \<and> f_dropped (put_framed x s) = f_dropped s
          + (if length (f_outbox s) = nat (f_max_outbox s) then 1 else 0)"
  proof (cases "f_outbox s")
    case Nil
    then show ?thesis using cap by (simp add: put_framed_def enqueue_def)
  next
    case (Cons y ys)
    then have "(f_max_outbox s \<le> int (length (f_outbox s))) = (length (f_outbox s) = nat (f_max_outbox s))"
      using cap by auto
    then show ?thesis using Cons by (simp add: put_framed_def enqueue_def)
  qed
  then show "f_outbox (put_framed x s) = last_n (nat (f_max_outbox s)) (f_outbox s @ [x])"
    "f_dropped (put_framed x s) = f_dropped s
       + (if length (f_outbox s) = nat (f_max_outbox s) then 1 else 0)"
    using cap by (cases "f_outbox s"; auto simp: last_n_def drop_Suc)+
qed (auto simp: put_framed_def enqueue_def bindE_def split: sum.split list.split)

definition outbox_inv :: "framed_fd \<Rightarrow> bool" where
  "outbox_inv s \<longleftrightarrow>
     f_outbox_bytes s = int (length (concat (f_outbox s)))
     \<and> int (length (f_outbox s)) \<le> max 0 (f_max_outbox s)"

lemma enqueue_outbox_inv: "outbox_inv s \<Longrightarrow> enqueue f s = Inr s' \<Longrightarrow> outbox_inv s'"
  by (auto simp: outbox_inv_def enqueue_def bindE_eq_Inr split: if_splits list.splits)

lemma send_enqueue:
  "send E m s = Inr s' \<Longrightarrow> \<exists>f. frame_bytes E m = Inr f \<and> enqueue f s = Inr s'"
  by (auto simp: send_def split: sum.splits)

lemma adopt_fields [simp]:
  "f_outbox (adopt a s) = f_outbox s" "f_outbox_bytes (adopt a s) = f_outbox_bytes s"
  "f_max_outbox (adopt a s) = f_max_outbox s" "f_inflight (adopt a s) = f_inflight s"
  "f_events (adopt a s) = f_events s" "f_has_factory (adopt a s) = f_has_factory s"
  "f_stop (adopt a s) = f_stop s" "f_on_closed (adopt a s) = f_on_closed s"
  "f_on_inbound (adopt a s) = f_on_inbound s"
  by (simp_all add: adopt_def split: option.split)

text \<open>What a reopen does to a state: nothing, an adoption, or a later retry time.\<close>

lemma tick_cases:
  obtains (same) "tick now a s = s" | (retry) t where "tick now a s = s\<lparr>f_next_reopen_ns := t\<rparr>"
  | (reopened) fd where "f_has_factory s" "f_fd s < 0" "0 \<le> fd"
      "tick now a s = (adopt (Some fd) s)\<lparr>f_rx := []\<rparr>"
proof (cases "0 \<le> f_fd s \<or> \<not> f_has_factory s \<or> now < f_next_reopen_ns s")
  case True
  then show thesis using same by (auto simp: tick_def)
next
  case False
  show thesis
  proof (cases "\<exists>fd. a = Some fd \<and> 0 \<le> fd")
    case True
    then show thesis using False reopened by (auto simp: tick_def reopen_def adopt_def)
  next
    case no: False
    then have "reopen a s = (False, s)" using False by (auto simp: reopen_def split: option.split)
    then show thesis using False retry by (auto simp: tick_def)
  qed
qed

lemma fd_step_outbox_inv: "fd_step E s s' \<Longrightarrow> outbox_inv s \<Longrightarrow> outbox_inv s'"
proof (induction rule: fd_step.induct)
  case (step_tick s now a)
  then show ?case by (cases rule: tick_cases [of now a s]) (auto simp: outbox_inv_def)
qed (auto simp: outbox_inv_def pump_write_def pump_pop_def mark_link_dead_def read_inbound_def Let_def
    split: if_splits list.splits option.splits prod.splits)

lemma init_framed_outbox_inv: "outbox_inv (init_framed fd fa b m)"
  by (auto simp: init_framed_def outbox_inv_def Let_def split: option.split)

lemma reach_outbox_inv: "fd_reach E s0 sent_log s \<Longrightarrow> outbox_inv s0 \<Longrightarrow> outbox_inv s"
  by (induction rule: fd_reach.induct)
     (auto dest!: send_enqueue intro: enqueue_outbox_inv fd_step_outbox_inv)

section \<open>What a connection carries\<close>

lemma mapE_list_all2: "mapE f xs = Inr ys \<longleftrightarrow> list_all2 (\<lambda>x y. f x = Inr y) xs ys"
  by (induction xs arbitrary: ys) (auto simp: bindE_eq_Inr list_all2_Cons1)

text \<open>
  Frames begun on the connection and waiting are those of sent messages in the order sent, and what the
  connection took is whole frames up to the one in flight. A dead link has nothing in flight.
\<close>

definition frames_of :: "wire_ext \<Rightarrow> bytes list \<Rightarrow> message list \<Rightarrow> bool" where
  "frames_of E fs sent_log \<longleftrightarrow> (\<exists>ms. mapE (frame_bytes E) ms = Inr fs \<and> subseq ms sent_log)"

definition stream_inv :: "wire_ext \<Rightarrow> message list \<Rightarrow> framed_fd \<Rightarrow> bool" where
  "stream_inv E sent_log s \<longleftrightarrow>
     frames_of E (f_begun s @ f_outbox s) sent_log
     \<and> (0 \<le> f_fd s \<longrightarrow> f_wire s @ f_inflight s = concat (f_begun s))
     \<and> (f_fd s < 0 \<longrightarrow> f_inflight s = [])"

lemma list_all2_subseq:
  "list_all2 P xs ys \<Longrightarrow> subseq gs ys \<Longrightarrow> \<exists>hs. subseq hs xs \<and> list_all2 P hs gs"
proof (induction arbitrary: gs rule: list_all2_induct)
  case (Cons x xs y ys)
  consider "subseq gs ys" | gs' where "gs = y # gs'" "subseq gs' ys"
    using Cons.prems by (cases gs) (auto split: if_splits elim: list_emb.cases)
  then show ?case
  proof cases
    case 1
    then show ?thesis using Cons.IH by (metis list_emb_Cons)
  next
    case 2
    then obtain hs where "subseq hs xs" "list_all2 P hs gs'" using Cons.IH by blast
    then show ?thesis using 2 Cons.hyps by (intro exI [of _ "x # hs"]) simp
  qed
qed (auto dest: list_emb_Nil2)

lemma frames_of_sub:
  "frames_of E fs sent_log \<Longrightarrow> subseq gs fs \<Longrightarrow> frames_of E gs sent_log"
  unfolding frames_of_def mapE_list_all2
  by (meson list_all2_subseq subseq_order.order_trans)

lemma frames_of_snoc:
  "frames_of E fs sent_log \<Longrightarrow> frame_bytes E m = Inr f \<Longrightarrow> frames_of E (fs @ [f]) (sent_log @ [m])"
  unfolding frames_of_def mapE_list_all2
  by (metis (mono_tags, lifting) list_all2_Nil2 list_all2_appendI list_all2_Cons list_emb_append_mono subseq_order.order_refl)

lemma enqueue_stream:
  "enqueue f s = Inr s' \<Longrightarrow> f_begun s' = f_begun s \<and> f_fd s' = f_fd s \<and> f_wire s' = f_wire s
     \<and> f_inflight s' = f_inflight s \<and> (\<exists>waiting. f_outbox s' = waiting @ [f] \<and> subseq waiting (f_outbox s))"
  by (auto simp: enqueue_def bindE_eq_Inr split: if_splits list.splits)

lemma send_stream_inv:
  assumes inv: "stream_inv E sent_log s" and "send E m s = Inr s'"
  shows "stream_inv E (sent_log @ [m]) s'"
proof -
  obtain f where f: "frame_bytes E m = Inr f" "enqueue f s = Inr s'"
    using send_enqueue [OF assms(2)] by blast
  then obtain waiting where w: "f_outbox s' = waiting @ [f]" "subseq waiting (f_outbox s)"
    and same: "f_begun s' = f_begun s" "f_fd s' = f_fd s" "f_wire s' = f_wire s"
      "f_inflight s' = f_inflight s"
    using enqueue_stream by blast
  have "frames_of E (f_begun s @ waiting) sent_log"
    by (rule frames_of_sub [of _ "f_begun s @ f_outbox s"])
       (use inv w(2) in \<open>simp_all add: stream_inv_def subseq_append'\<close>)
  from frames_of_snoc [OF this f(1)] show ?thesis using inv w(1) same by (simp add: stream_inv_def)
qed

lemma mark_link_dead_stream_inv: "stream_inv E sent_log s \<Longrightarrow> stream_inv E sent_log (mark_link_dead s)"
  by (auto simp: stream_inv_def mark_link_dead_def intro: frames_of_sub)

lemma fd_step_stream_inv:
  assumes "fd_step E s s'" "stream_inv E sent_log s"
  shows "stream_inv E sent_log s'"
  using assms
proof (induction rule: fd_step.induct)
  case (step_write s w)
  show ?case
  proof (cases "write_some w < 0")
    case True
    then show ?thesis using mark_link_dead_stream_inv [OF step_write.prems] by (simp add: pump_write_def)
  next
    case False
    then show ?thesis using step_write by (simp add: pump_write_def stream_inv_def Let_def)
  qed
next
  case (step_pop s)
  then show ?case by (auto simp: pump_pop_def stream_inv_def split: list.split)
next
  case (step_read s r)
  then show ?case using mark_link_dead_stream_inv [OF step_read.prems]
    by (auto simp: read_inbound_def stream_inv_def split: option.split prod.split)
next
  case (step_tick s now a)
  show ?case
  proof (cases rule: tick_cases [of now a s])
    case (reopened fd)
    have "frames_of E (f_outbox s) sent_log"
      by (rule frames_of_sub [of _ "f_begun s @ f_outbox s"])
         (use step_tick in \<open>auto simp: stream_inv_def\<close>)
    then show ?thesis using step_tick reopened by (auto simp: stream_inv_def adopt_def)
  qed (use step_tick in \<open>simp_all add: stream_inv_def\<close>)
next
  case (step_stop s b)
  then show ?case by (simp add: stream_inv_def)
qed

lemma reach_stream_inv:
  "fd_reach E s0 sent_log s \<Longrightarrow> stream_inv E [] s0 \<Longrightarrow> stream_inv E sent_log s"
  by (induction rule: fd_reach.induct) (auto intro: send_stream_inv fd_step_stream_inv)

lemma init_stream_inv: "stream_inv E [] (start a b (init_framed fd fa bo mx))"
  by (auto simp: init_framed_def adopt_def start_def stream_inv_def frames_of_def Let_def
      split: option.split intro: exI [of _ "[]"])

lemma split_frames_prefix: "prefix (fst (split_frames d a)) (fst (split_frames d (a @ b)))"
  using split_frames_append [of d a b] by simp

text \<open>What the peer makes of the bytes it got: sent messages, in order, none of them mangled.\<close>

lemma stream_decodes:
  assumes E: "wire_ext_ok E" and inv: "stream_inv E sent_log s" and up: "0 \<le> f_fd s"
  shows "subseq (fst (extract_frames E (f_wire s))) sent_log"
proof -
  have "frames_of E (f_begun s) sent_log"
    using inv by (auto simp: stream_inv_def intro: frames_of_sub)
  then obtain ms where ms: "mapE (frame_bytes E) ms = Inr (f_begun s)" "subseq ms sent_log"
    by (auto simp: frames_of_def)
  have "fst (split_frames (deframe E) (concat (f_begun s) @ [])) = ms"
    using link_codec.split_all [OF frame_link_codec [OF E] ms(1), of "[]"]
    by (simp add: split_frames_partial)
  moreover have "concat (f_begun s) = f_wire s @ f_inflight s"
    using inv up by (simp add: stream_inv_def)
  ultimately have "prefix (fst (split_frames (deframe E) (f_wire s))) ms"
    using split_frames_prefix [of "deframe E" "f_wire s" "f_inflight s"] by simp
  then show ?thesis
    using ms(2) by (auto simp: extract_frames_split intro: subseq_order.order_trans)
qed

section \<open>What a fixed link reports\<close>

fun inbound_of :: "fd_event list \<Rightarrow> message list" where
  "inbound_of [] = []"
| "inbound_of (Inbound m # es) = m # inbound_of es"
| "inbound_of (Closed # es) = inbound_of es"

lemma inbound_of_append [simp]: "inbound_of (a @ b) = inbound_of a @ inbound_of b"
  by (induction a rule: inbound_of.induct) auto

lemma inbound_of_map [simp]: "inbound_of (map Inbound ms) = ms"
  by (induction ms) auto

definition receive_inv :: "wire_ext \<Rightarrow> framed_fd \<Rightarrow> bool" where
  "receive_inv E s \<longleftrightarrow> \<not> f_has_factory s \<and> f_on_inbound s \<and>
     (0 \<le> f_fd s \<longrightarrow> split_frames (deframe E) (f_heard s) = (inbound_of (f_events s), f_rx s))"

lemma fd_step_receive_inv: "fd_step E s s' \<Longrightarrow> receive_inv E s \<Longrightarrow> receive_inv E s'"
proof (induction rule: fd_step.induct)
  case (step_read s r)
  show ?case
  proof (cases "read_some r")
    case (Some chunk)
    then show ?thesis
      using step_read split_frames_append [of "deframe E" "f_heard s" chunk]
      by (auto simp: read_inbound_def receive_inv_def extract_frames_split split: prod.split)
  qed (use step_read in \<open>auto simp: read_inbound_def receive_inv_def\<close>)
next
  case (step_tick s now a)
  then have "tick now a s = s" by (simp add: tick_def receive_inv_def)
  then show ?case using step_tick by simp
qed (auto simp: receive_inv_def pump_write_def pump_pop_def mark_link_dead_def Let_def
    split: list.split)

lemma send_receive_inv: "send E m s = Inr s' \<Longrightarrow> receive_inv E s \<Longrightarrow> receive_inv E s'"
  by (auto dest!: send_enqueue simp: enqueue_def bindE_eq_Inr receive_inv_def split: if_splits list.splits)

lemma reach_receive_inv: "fd_reach E s0 sent_log s \<Longrightarrow> receive_inv E s0 \<Longrightarrow> receive_inv E s"
  by (induction rule: fd_reach.induct) (auto intro: send_receive_inv fd_step_receive_inv)

lemma init_receive_inv: "receive_inv E (start True b (init_framed (Some fd) None bo mx))"
  by (simp add: init_framed_def adopt_def start_def receive_inv_def split_frames_partial Let_def)

text \<open>A close is reported by a fixed link only, once, and nothing comes after it.\<close>

definition closed_inv :: "framed_fd \<Rightarrow> bool" where
  "closed_inv s \<longleftrightarrow> Closed \<notin> set (f_events s)
     \<or> \<not> f_has_factory s \<and> f_stop s \<and> (\<exists>es. f_events s = es @ [Closed] \<and> Closed \<notin> set es)"

lemma tick_events [simp]: "f_events (tick now a s) = f_events s" "f_stop (tick now a s) = f_stop s"
  "f_has_factory (tick now a s) = f_has_factory s"
  by (cases rule: tick_cases [of now a s]; simp)+

lemma pump_pop_events [simp]: "f_events (pump_pop s) = f_events s"
  "f_has_factory (pump_pop s) = f_has_factory s"
  by (simp_all add: pump_pop_def split: list.split)

lemma pump_write_events [simp]: "f_events (snd (pump_write w s)) = f_events s"
  "f_has_factory (snd (pump_write w s)) = f_has_factory s"
  by (simp_all add: pump_write_def mark_link_dead_def Let_def)

lemma pump_loop_events: "f_events (pump_loop ws s) = f_events s \<and> f_has_factory (pump_loop ws s) = f_has_factory s"
proof (induction "length (f_outbox s)" arbitrary: ws s rule: less_induct)
  case less
  define w where "w = (case ws of [] \<Rightarrow> WriteBlocks | w # _ \<Rightarrow> w)"
  define p where "p = (if f_inflight s \<noteq> [] then pump_write w s else (True, s))"
  have eq: "pump_loop ws s = (if \<not> fst p then snd p else if f_outbox (snd p) = [] then snd p
      else pump_loop (if f_inflight s \<noteq> [] then tl ws else ws) (pump_pop (snd p)))"
    by (subst pump_loop.simps) (auto simp: w_def p_def case_prod_beta Let_def split: list.split)
  have "f_outbox (snd p) = f_outbox s" if "fst p"
    using that by (auto simp: p_def pump_write_def Let_def split: if_splits)
  then have "length (f_outbox (pump_pop (snd p))) < length (f_outbox s)" if "fst p" "f_outbox (snd p) \<noteq> []"
    using that by (auto simp: pump_pop_def split: list.split)
  then show ?case using less.hyps unfolding eq by (auto simp: p_def)
qed

lemma pump_events [simp]: "f_events (pump ws s) = f_events s" "f_has_factory (pump ws s) = f_has_factory s"
  by (simp_all add: pump_def pump_loop_events)

lemma loop_turn_closed_inv: "closed_inv s \<Longrightarrow> closed_inv (loop_turn E i s)"
  by (cases "read_some (li_read i)")
     (auto simp: loop_turn_def closed_inv_def read_inbound_def mark_link_dead_def Let_def
       split: prod.split)

lemma run_loop_closed_inv: "closed_inv s \<Longrightarrow> closed_inv (run_loop E is s)"
  unfolding run_loop_def by (rule foldl_invariant) (simp_all add: loop_turn_closed_inv)

section \<open>Concrete frames\<close>

text \<open>The frame of a short message under the environment of the C++ codecs.\<close>

definition fixed_head :: "int \<Rightarrow> bytes" where
  "fixed_head i = le_bytes 4 (nat i) @ le_bytes 4 0 @ le_bytes 8 0 @ le_bytes 4 0 @ le_bytes 1 0
     @ le_bytes 8 0 @ le_bytes 4 0"

definition crc_tail :: "bytes \<Rightarrow> bytes" where
  "crc_tail b = le_bytes 2 (unat (crc16 b))"

lemma sample_encodes:
  assumes "0 \<le> i" "i < 256"
  obtains f where "frame_bytes cpp_ext (default_message\<lparr>m_stream_id := i, m_payload := p\<rparr>) = Inr f"
    "encode_message cpp_ext (default_message\<lparr>m_stream_id := i, m_payload := p\<rparr>)
       = Inr ((33 # fixed_head i @ p) @ crc_tail (33 # fixed_head i @ p))"
proof -
  let ?m = "default_message\<lparr>m_stream_id := i, m_payload := p\<rparr>"
  have "fixed_header_ser (to_header ?m) = Some (fixed_head i)"
    using assms by (simp add: fixed_header_ser_def to_header_def default_message_def fixed_head_def)
  moreover have "length (fixed_head i) = 33" by (simp add: fixed_head_def del: le_bytes.simps)
  ultimately have "encode_message cpp_ext ?m
      = Inr ((33 # fixed_head i @ p) @ crc_tail (33 # fixed_head i @ p))"
    by (simp add: encode_message_def encode_frame_def cpp_ext_def crc_tail_def default_message_def Let_def)
  then show ?thesis by (intro that) (simp_all add: frame_bytes_def encode_message_def)
qed

section \<open>Properties\<close>

lemma init_framed_events: "f_events (init_framed fd fa bo mx) = []"
  by (simp add: init_framed_def Let_def split: option.split)

text \<open>
  C4. What reaches the peer is sent messages in order: however sends from other threads interleave with
  the I/O thread's writes, partial writes, drops, deaths and reopens, the bytes the current connection
  took decode to a subsequence of the messages sent, never a mangled or reordered one.
\<close>

theorem framed_link_delivers_in_order:
  assumes "wire_ext_ok E"
    and "fd_reach E (start inb cl (init_framed fd factory backoff depth)) sent_log s"
    and "link_up s"
  shows "subseq (fst (extract_frames E (f_wire s))) sent_log"
  using stream_decodes [OF assms(1) reach_stream_inv [OF assms(2) init_stream_inv]] assms(3)
  by (simp add: link_up_def)

text \<open>
  A connection with an outbox of one frame: of two messages sent at once the first is dropped, the second goes
  out in two writes, and of a third one byte has left when the link blocks.
\<close>

definition sent_sample :: "byte \<Rightarrow> message" where
  "sent_sample b = default_message\<lparr>m_stream_id := 16, m_payload := [b]\<rparr>"

definition sample_turn :: "write_result list \<Rightarrow> loop_input" where
  "sample_turn ws = \<lparr>li_readable = False, li_stopped = False, li_writes = ws, li_read = ReadBlocks,
     li_now_ns = 0, li_factory = None\<rparr>"

lemma sample_connection:
  assumes "frame_bytes cpp_ext (sent_sample 1) = Inr h" "frame_bytes cpp_ext (sent_sample 2) = Inr f"
    "frame_bytes cpp_ext (sent_sample 3) = Inr g" "2 \<le> length f" "2 \<le> length g"
  defines "s0 \<equiv> start True True (init_framed (Some 3) None 0 1)"
  shows "\<exists>s1 s2 s3. send cpp_ext (sent_sample 1) s0 = Inr s1 \<and> send cpp_ext (sent_sample 2) s1 = Inr s2
     \<and> send cpp_ext (sent_sample 3) (run_loop cpp_ext [sample_turn [Wrote 1], sample_turn [Wrote (length f)]] s2) = Inr s3
     \<and> f_dropped s3 = 1 \<and> f_wire (run_loop cpp_ext [sample_turn [Wrote 1]] s3) = f @ take 1 g
     \<and> link_up (run_loop cpp_ext [sample_turn [Wrote 1]] s3)"
proof -
  define s1 where "s1 = s0\<lparr>f_outbox := [h], f_outbox_bytes := int (length h)\<rparr>"
  define s2 where "s2 = s0\<lparr>f_outbox := [f], f_outbox_bytes := int (length f), f_dropped := 1\<rparr>"
  have sends: "send cpp_ext (sent_sample 1) s0 = Inr s1" "send cpp_ext (sent_sample 2) s1 = Inr s2"
    using assms(1,2)
    by (simp_all add: send_def enqueue_def s0_def s1_def s2_def start_def init_framed_def adopt_def)
  define t where "t = s0\<lparr>f_dropped := 1, f_wire := f, f_begun := [f]\<rparr>"
  have long: "drop (Suc 0) f \<noteq> []" "drop (Suc 0) g \<noteq> []" "f \<noteq> []" "g \<noteq> []" "\<not> length f \<le> Suc 0"
    "\<not> length g \<le> Suc 0" "take (Suc 0) f @ drop (Suc 0) f = f"
    using assms(4,5) append_take_drop_id [of "Suc 0" f] by auto
  have turn1: "loop_turn cpp_ext (sample_turn [Wrote 1]) s2
      = s0\<lparr>f_dropped := 1, f_wire := take 1 f, f_begun := [f], f_inflight := drop 1 f\<rparr>"
    using long
    by (simp add: Let_def loop_turn_def pump_def pump_loop.simps pump_write_def write_some_def pump_pop_def tick_def
        s2_def s0_def start_def init_framed_def adopt_def sample_turn_def)
  moreover have "loop_turn cpp_ext (sample_turn [Wrote (length f)])
      (s0\<lparr>f_dropped := 1, f_wire := take 1 f, f_begun := [f], f_inflight := drop 1 f\<rparr>) = t"
    using long
    by (simp add: Let_def loop_turn_def pump_def pump_loop.simps pump_write_def write_some_def pump_pop_def tick_def
        t_def s0_def start_def init_framed_def adopt_def sample_turn_def)
  ultimately have run: "run_loop cpp_ext [sample_turn [Wrote 1], sample_turn [Wrote (length f)]] s2 = t"
    by (simp add: run_loop_def)
  define s3 where "s3 = t\<lparr>f_outbox := [g], f_outbox_bytes := int (length g)\<rparr>"
  have "send cpp_ext (sent_sample 3) t = Inr s3"
    using assms(3)
    by (simp add: send_def enqueue_def t_def s3_def s0_def start_def init_framed_def adopt_def)
  moreover have "loop_turn cpp_ext (sample_turn [Wrote 1]) s3
      = t\<lparr>f_wire := f @ take 1 g, f_begun := [f, g], f_inflight := drop 1 g\<rparr>"
    using long
    by (simp add: Let_def loop_turn_def pump_def pump_loop.simps pump_write_def write_some_def pump_pop_def tick_def
        s3_def t_def s0_def start_def init_framed_def adopt_def sample_turn_def)
  ultimately have "send cpp_ext (sent_sample 3) t = Inr s3 \<and> f_dropped s3 = 1
      \<and> f_wire (run_loop cpp_ext [sample_turn [Wrote 1]] s3) = f @ take 1 g
      \<and> link_up (run_loop cpp_ext [sample_turn [Wrote 1]] s3)"
    by (simp add: run_loop_def s3_def t_def s0_def start_def init_framed_def adopt_def link_up_def)
  then show ?thesis unfolding run [symmetric] using sends by blast
qed

theorem framed_link_delivers_in_order_witness:
  "\<exists>f s1 s2 s3 s. frame_bytes cpp_ext (sent_sample 2) = Inr f
     \<and> send cpp_ext (sent_sample 1) (start True True (init_framed (Some 3) None 0 1)) = Inr s1
     \<and> send cpp_ext (sent_sample 2) s1 = Inr s2
     \<and> send cpp_ext (sent_sample 3) (run_loop cpp_ext [sample_turn [Wrote 1], sample_turn [Wrote (length f)]] s2) = Inr s3
     \<and> run_loop cpp_ext [sample_turn [Wrote 1]] s3 = s
     \<and> f_dropped s3 = 1 \<and> length (f_wire s) = Suc (length f)
     \<and> fst (extract_frames cpp_ext (f_wire s)) = [sent_sample 2]
     \<and> subseq (fst (extract_frames cpp_ext (f_wire s))) [sent_sample 1, sent_sample 2, sent_sample 3]"
proof -
  let ?start = "start True True (init_framed (Some 3) None 0 1)"
  have "\<exists>f. frame_bytes cpp_ext (sent_sample b) = Inr f" for b
    using sample_encodes [of 16 "[b]"] by (auto simp: sent_sample_def)
  then obtain h f g where frames: "frame_bytes cpp_ext (sent_sample 1) = Inr h"
    "frame_bytes cpp_ext (sent_sample 2) = Inr f" "frame_bytes cpp_ext (sent_sample 3) = Inr g"
    by meson
  obtain e e' where e: "f = e @ [0]" "e \<noteq> []" "g = e' @ [0]" "e' \<noteq> []" "0 \<notin> set e'"
    using cpp_link.frame_shape [OF frames(2)] cpp_link.frame_shape [OF frames(3)] by auto
  then have len: "2 \<le> length f" "2 \<le> length g" by (cases e; cases e'; simp)+
  obtain s1 s2 s3 where run: "send cpp_ext (sent_sample 1) ?start = Inr s1" "send cpp_ext (sent_sample 2) s1 = Inr s2"
    "send cpp_ext (sent_sample 3) (run_loop cpp_ext [sample_turn [Wrote 1], sample_turn [Wrote (length f)]] s2) = Inr s3"
    "f_dropped s3 = 1" "f_wire (run_loop cpp_ext [sample_turn [Wrote 1]] s3) = f @ take 1 g"
    "link_up (run_loop cpp_ext [sample_turn [Wrote 1]] s3)"
    using sample_connection [OF frames len] by blast
  let ?s = "run_loop cpp_ext [sample_turn [Wrote 1]] s3"
  have "fd_reach cpp_ext ?start [sent_sample 1, sent_sample 2] s2"
    using reach_send [OF reach_send [OF reach_init run(1)] run(2)] by simp
  from reach_send [OF reach_steps [OF run_loop_steps this] run(3)]
  have "fd_reach cpp_ext ?start [sent_sample 1, sent_sample 2, sent_sample 3] s3" by simp
  from framed_link_delivers_in_order [OF cpp_ext_ok reach_steps [OF run_loop_steps this] run(6)]
  have "subseq (fst (extract_frames cpp_ext (f_wire ?s))) [sent_sample 1, sent_sample 2, sent_sample 3]" .
  moreover have "fst (extract_frames cpp_ext (f_wire ?s)) = [sent_sample 2]"
  proof -
    have "0 \<notin> set (take 1 g)" using e(3-5) by (cases e') auto
    then show ?thesis
      using cpp_link.split_all [of "[sent_sample 2]" "[f]" "take 1 g"] frames(2) run(5)
      by (simp add: extract_frames_split split_frames_partial)
  qed
  moreover have "length (f_wire ?s) = Suc (length f)" using run(5) len by simp
  ultimately show ?thesis using frames(2) run(1-4) by blast
qed

text \<open>
  The outbox is bounded and its byte count exact: in every reachable state it holds at most
  \<open>max_outbox_frames\<close> frames, and \<open>pending_bytes\<close> is the size of what is queued and in flight.
\<close>

theorem outbox_bounded_and_counted:
  assumes "fd_reach E (start inb cl (init_framed fd factory backoff depth)) sent_log s"
  shows "int (length (f_outbox s)) \<le> max 0 (f_max_outbox s)
       \<and> pending_bytes s = int (length (concat (f_outbox s) @ f_inflight s))"
proof -
  have "outbox_inv (start inb cl (init_framed fd factory backoff depth))"
    using init_framed_outbox_inv by (simp add: start_def outbox_inv_def)
  with reach_outbox_inv [OF assms] show ?thesis by (simp add: outbox_inv_def pending_bytes_def)
qed

theorem outbox_bounded_and_counted_witness:
  "pending_bytes (tick 7 None (start True True (init_framed None (Some None) 5 2))) = 0"
proof -
  let ?s = "start True True (init_framed None (Some None) 5 2)"
  have "fd_reach cpp_ext ?s [] (tick 7 None ?s)" by (rule reach_step [OF reach_init step_tick])
  from outbox_bounded_and_counted [OF this] show ?thesis
    by (simp add: start_def init_framed_def adopt_def tick_def reopen_def)
qed

text \<open>
  A fixed link hands on every message it receives, once and in order: while the link is up, the
  messages passed to \<open>on_inbound\<close> are exactly the complete frames of the bytes received, however the
  reads cut them and whatever is sent or dropped meanwhile.
\<close>

theorem fixed_link_receives_all:
  assumes "fd_reach E (start True cl (init_framed (Some fd) None backoff depth)) sent_log s"
    and "link_up s"
  shows "inbound_of (f_events s) = fst (extract_frames E (f_heard s))"
  using reach_receive_inv [OF assms(1) init_receive_inv] assms(2)
  by (simp add: receive_inv_def link_up_def extract_frames_split)

theorem fixed_link_receives_all_witness:
  "inbound_of (f_events (read_inbound cpp_ext (Got [1, 0, 5])
      (start True True (init_framed (Some 3) None 0 2))))
     = fst (extract_frames cpp_ext [1, 0, 5])"
proof -
  let ?s = "start True True (init_framed (Some 3) None 0 2)"
  have "fd_reach cpp_ext ?s [] (read_inbound cpp_ext (Got [1, 0, 5]) ?s)"
    by (rule reach_step [OF reach_init step_read])
  moreover have "link_up (read_inbound cpp_ext (Got [1, 0, 5]) ?s)"
    by (simp add: link_up_def read_inbound_def read_some_def start_def init_framed_def adopt_def
        split: prod.split)
  moreover have "f_heard (read_inbound cpp_ext (Got [1, 0, 5]) ?s) = [1, 0, 5]"
    by (simp add: read_inbound_def read_some_def start_def init_framed_def adopt_def
        split: prod.split)
  ultimately show ?thesis using fixed_link_receives_all by metis
qed

text \<open>
  \<open>on_closed\<close> is called at most once however the loop runs, and an endpoint that can reopen never
  calls it.
\<close>

theorem closed_reported_once:
  "count_list (f_events (run_loop E inputs (start inb cl (init_framed fd factory backoff depth)))) Closed
       \<le> (if f_has_factory (run_loop E inputs (start inb cl (init_framed fd factory backoff depth)))
          then 0 else 1)"
proof -
  have none: "count_list es Closed = 0" if "Closed \<notin> set es" for es
    using that by (simp add: count_list_0_iff)
  have "closed_inv (run_loop E inputs (start inb cl (init_framed fd factory backoff depth)))"
    by (rule run_loop_closed_inv) (simp add: closed_inv_def start_def init_framed_events)
  then show ?thesis by (auto simp: closed_inv_def none)
qed

lemma dead_fixed_quiet:
  assumes "\<not> f_has_factory s" "f_fd s < 0"
  shows "f_events (run_loop E is s) = f_events s \<and> f_fd (run_loop E is s) < 0
    \<and> \<not> f_has_factory (run_loop E is s)"
proof (induction "is" rule: rev_induct)
  case (snoc i "is")
  then show ?case
    by (simp add: run_loop_def loop_turn_def pump_def Let_def tick_def)
qed (simp add: run_loop_def assms)

text \<open>
  A fixed link that dies on a write and not on a read is never reported: the descriptor is gone
  after that turn, and however the loop goes on, no callback is ever made again.
\<close>

theorem write_death_unreported:
  assumes "\<not> f_has_factory s" and "0 \<le> f_fd s" and "f_inflight s \<noteq> []" and "\<not> f_stop s"
    and "\<not> li_stopped i" and "\<not> li_readable i" and "li_writes i = WriteError # ws"
  shows "f_fd (loop_turn E i s) = -1 \<and> f_events (run_loop E (i # later) s) = f_events s"
proof -
  have turn: "loop_turn E i s = mark_link_dead s"
    using assms
    by (simp add: loop_turn_def pump_def pump_loop.simps [of "WriteError # ws"] pump_write_def
        write_some_def tick_def mark_link_dead_def)
  then show ?thesis
    using dead_fixed_quiet [of "mark_link_dead s" E later] assms(1)
    by (simp add: run_loop_def mark_link_dead_def)
qed

theorem write_death_unreported_witness:
  "f_events (run_loop cpp_ext
      [\<lparr>li_readable = False, li_stopped = False, li_writes = [WriteError], li_read = ReadBlocks,
        li_now_ns = 0, li_factory = None\<rparr>]
      ((start True True (init_framed (Some 3) None 0 2))\<lparr>f_inflight := [1, 0]\<rparr>)) = []"
proof -
  let ?s = "(start True True (init_framed (Some 3) None 0 2))\<lparr>f_inflight := [1, 0]\<rparr>"
  let ?i = "\<lparr>li_readable = False, li_stopped = False, li_writes = [WriteError], li_read = ReadBlocks,
        li_now_ns = 0, li_factory = None\<rparr>"
  have "\<not> f_has_factory ?s" "0 \<le> f_fd ?s" "f_inflight ?s \<noteq> []" "\<not> f_stop ?s" "f_events ?s = []"
    by (simp_all add: start_def init_framed_def adopt_def)
  with write_death_unreported [of ?s ?i "[]" cpp_ext "[]"] show ?thesis by simp
qed

end
