(* ===== verification/Ota.thy ===== *)
theory Ota
  imports Prelude
begin

text \<open>
  The OTA driver, \<open>wire/ota.py\<close>: message builders, \<open>negotiate_chunk\<close> and \<open>relay\<close>.

  The driver owns no connection. \<open>ota_env\<close> is everything outside it, acting on a world of any type
  \<open>'w\<close>: the \<open>send\<close>, \<open>recv\<close>, \<open>quiesce\<close> and \<open>clock\<close> callables and protobuf serialization. The closures'
  shared \<open>st\<close> and the locals that survive into \<open>except\<close> and \<open>finally\<close> are one record, passed through
  programs that return, raise or run out of fuel. Time is a real number: float rounding is not
  modelled. An outcome's \<open>detail\<close> is prose; it is kept as the figures the text is formatted from.

  Five fields of the state are read by no operation: \<open>rs_sent\<close> (each message that went out, with the
  bytes acknowledged then), \<open>rs_quieted_log\<close> (each \<open>quiesce\<close> call made), \<open>rs_heard\<close> (each status parsed
  while the chunk size is negotiated), \<open>rs_now\<close> (the last reading of the clock) and \<open>rs_broken\<close> (whether
  a call has raised an \<open>OSError\<close>).
\<close>

section \<open>Constants and messages\<close>

definition VENC_MAGIC :: bytes where "VENC_MAGIC = asc ''VENC''"
definition RKFW_MAGIC :: bytes where "RKFW_MAGIC = asc ''RKFW''"
definition DEFAULT_SESSION_ID :: int where "DEFAULT_SESSION_ID = 0xCA11"
definition RIG_TERMINAL_SESSION :: int where "RIG_TERMINAL_SESSION = 0xB1D"
definition TCP_WINDOW_BYTES :: int where "TCP_WINDOW_BYTES = 2 * 1024 * 1024"
definition TCP_CHUNK_BYTES :: int where "TCP_CHUNK_BYTES = 32 * 1024"
definition MAX_CHUNK_BYTES :: int where "MAX_CHUNK_BYTES = 60 * 1024"
definition USB_WINDOW_BYTES :: int where "USB_WINDOW_BYTES = 8 * 1024"
definition USB_CHUNK_BYTES :: int where "USB_CHUNK_BYTES = 4 * 1024"
definition MIN_CHUNK_BYTES :: int where "MIN_CHUNK_BYTES = 8 * 1024"
definition QUERY_WAIT_S :: real where "QUERY_WAIT_S = 3 / 2"
definition STALL_TIMEOUT_S :: real where "STALL_TIMEOUT_S = 45"
definition SOFT_RETRY_S :: real where "SOFT_RETRY_S = 6"
definition COMMIT_WAIT_S :: real where "COMMIT_WAIT_S = 8"
definition DEADLINE_S :: real where "DEADLINE_S = 900"

lemmas ota_constants = TCP_WINDOW_BYTES_def TCP_CHUNK_BYTES_def MAX_CHUNK_BYTES_def
  USB_WINDOW_BYTES_def USB_CHUNK_BYTES_def MIN_CHUNK_BYTES_def

datatype ota_body =
    Begin (bg_total_bytes: int) (bg_chunk_bytes: int) (bg_fw_version: ustr) (bg_board: ustr)
  | Chunk (ck_offset: int) (ck_data: bytes)
  | Commit
  | Abort (ab_reason: ustr)
  | Query

record ota_message =
  om_session_id :: int
  om_target_device :: ustr
  om_body :: ota_body

definition ota_message :: "int \<Rightarrow> ustr \<Rightarrow> ota_body \<Rightarrow> ota_message" where
  "ota_message session_id target_device body =
     \<lparr>om_session_id = session_id, om_target_device = target_device, om_body = body\<rparr>"

text \<open>\<open>OtaStatus.State\<close>; every state \<open>fold\<close> does not name is \<open>StateOther\<close> with its number.\<close>

datatype ota_state = StateStaged | StateSuccess | StateNeedsResume | StateFailed | StateOther nat

record ota_status =
  os_session_id :: int
  os_state :: ota_state
  os_bytes_received :: int
  os_error_code :: ustr
  os_error_message :: ustr
  os_max_chunk_bytes :: int

text \<open>\<open>bundle_error\<close>: why the bytes are not a bundle. The magic of the second message is \<open>raw[:4]\<close>.\<close>

datatype bundle_fault = RawUpdateImage | NotAVencBundle bytes

definition bundle_error :: "bytes \<Rightarrow> bundle_fault option" where
  "bundle_error raw =
     (if take 4 raw = VENC_MAGIC then None
      else if take 4 raw = RKFW_MAGIC then Some RawUpdateImage
      else Some (NotAVencBundle (take 4 raw)))"

definition next_session_id :: "int \<Rightarrow> int \<Rightarrow> int" where
  "next_session_id now_ms seq = (now_ms mod 2 ^ 32) * 2 ^ 16 + seq mod 2 ^ 16"

section \<open>Outcomes\<close>

datatype reason =
    OK_STAGED | OK_SUCCESS | OK_STAGED_NO_TRANSFER | OK_COMMITTED_UNCONFIRMED
  | OK_LINK_AFTER_COMMIT | FAIL_DEVICE | FAIL_STALLED | FAIL_DEADLINE | FAIL_TOO_LOSSY
  | FAIL_LINK_DROPPED | OK_UPLOAD_ONLY

fun reason_value :: "reason \<Rightarrow> nat" where
  "reason_value OK_STAGED = 0"
| "reason_value OK_SUCCESS = 1"
| "reason_value OK_STAGED_NO_TRANSFER = 2"
| "reason_value OK_COMMITTED_UNCONFIRMED = 3"
| "reason_value OK_LINK_AFTER_COMMIT = 4"
| "reason_value FAIL_DEVICE = 5"
| "reason_value FAIL_STALLED = 6"
| "reason_value FAIL_DEADLINE = 7"
| "reason_value FAIL_TOO_LOSSY = 8"
| "reason_value FAIL_LINK_DROPPED = 9"
| "reason_value OK_UPLOAD_ONLY = 13"

text \<open>An \<open>IntEnum\<close> member is compared by its number.\<close>

instantiation reason :: linorder
begin

definition less_eq_reason :: "reason \<Rightarrow> reason \<Rightarrow> bool" where
  "less_eq_reason a b \<longleftrightarrow> reason_value a \<le> reason_value b"

definition less_reason :: "reason \<Rightarrow> reason \<Rightarrow> bool" where
  "less_reason a b \<longleftrightarrow> reason_value a < reason_value b"

instance
proof
  fix a b c :: reason
  show "(a < b) = (a \<le> b \<and> \<not> b \<le> a)" by (auto simp: less_eq_reason_def less_reason_def)
  show "a \<le> a" by (simp add: less_eq_reason_def)
  show "a \<le> b \<Longrightarrow> b \<le> c \<Longrightarrow> a \<le> c" by (simp add: less_eq_reason_def)
  show "a \<le> b \<Longrightarrow> b \<le> a \<Longrightarrow> a = b" by (cases a; cases b; simp add: less_eq_reason_def)
  show "a \<le> b \<or> b \<le> a" by (auto simp: less_eq_reason_def)
qed

end

record ota_progress =
  pg_sent :: int
  pg_acked :: int
  pg_total :: int
  pg_resumes :: int
  pg_state :: ustr

datatype detail =
    ExceededDeadline real int | TooLossy int int | Stalled int int int | DeviceSaid ustr
  | StagedNoTransfer | UploadedOnly | Success | Staged | CommittedUnconfirmed
  | LinkDroppedAfterCommit | LinkDropped

record outcome =
  oc_ok :: bool
  oc_detail :: detail
  oc_acked :: int
  oc_total :: int
  oc_resumes :: int
  oc_reason :: reason

section \<open>The driver's world and programs\<close>

text \<open>
  \<open>e_send\<close> says whether the call returned (\<open>False\<close>: it raised an \<open>OSError\<close>), \<open>e_recv\<close> and
  \<open>e_quiesce\<close> give the exception on the left; \<open>e_parse\<close> is \<open>ParseFromString\<close>, \<open>None\<close> its
  \<open>DecodeError\<close>. \<open>e_timeout\<close> of the pauses in \<open>pump\<close> is the argument passed to \<open>recv\<close>.
\<close>

datatype ota_exn = OSError | DecodeError

record 'w ota_env =
  e_ser :: "ota_message \<Rightarrow> bytes"
  e_parse :: "bytes \<Rightarrow> ota_status option"
  e_send :: "bytes \<Rightarrow> 'w \<Rightarrow> bool \<times> 'w"
  e_recv :: "real \<Rightarrow> 'w \<Rightarrow> (unit + bytes option) \<times> 'w"
  e_clock :: "'w \<Rightarrow> real \<times> 'w"
  e_quiesce :: "bool \<Rightarrow> 'w \<Rightarrow> (unit + bool) \<times> 'w"

text \<open>
  The image: \<open>bytes\<close>, or an \<open>ImageSource\<close> with its own length and \<open>read\<close>, whose \<open>OSError\<close> is on the left.
\<close>

record ota_image =
  im_len :: int
  im_read :: "int \<Rightarrow> int \<Rightarrow> unit + bytes"

definition py_index :: "nat \<Rightarrow> int \<Rightarrow> nat" where
  "py_index n i = nat (if i < 0 then max 0 (i + int n) else min i (int n))"

text \<open>The Python slice \<open>xs[i:j]\<close>, negative indices included.\<close>

definition py_slice :: "'a list \<Rightarrow> int \<Rightarrow> int \<Rightarrow> 'a list" where
  "py_slice xs i j = slice (py_index (length xs) i) (py_index (length xs) j) xs"

definition bytes_image :: "bytes \<Rightarrow> ota_image" where
  "bytes_image b = \<lparr>im_len = int (length b), im_read = (\<lambda>offset len. Inr (py_slice b offset (offset + len)))\<rparr>"

record relay_args =
  ra_image :: ota_image
  ra_fw_version :: ustr
  ra_board :: ustr
  ra_target_device :: ustr
  ra_session_id :: int
  ra_window :: int
  ra_chunk :: int
  ra_chunk_cap :: int
  ra_negotiate :: bool
  ra_commit :: bool
  ra_query_wait :: real
  ra_stall_timeout :: real
  ra_soft_retry :: real
  ra_commit_wait :: real
  ra_deadline_s :: real
  ra_max_resumes :: "int option"
  ra_quiesce :: bool

record 'w relay_state =
  rs_world :: 'w
  rs_acked :: int
  rs_staged :: bool
  rs_succeeded :: bool
  rs_failed :: "ustr option"
  rs_resume_to :: "int option"
  rs_committed :: bool
  rs_cursor :: int
  rs_last_ack :: int
  rs_last_log :: int
  rs_resumes :: int
  rs_chunk :: int
  rs_max_resumes :: int
  rs_t_start :: real
  rs_last_progress :: real
  rs_last_soft :: real
  rs_quieted :: bool
  rs_progress :: "ota_progress list"
  rs_sent :: "(ota_message \<times> int) list"
  rs_quieted_log :: "bool list"
  rs_heard :: "ota_status list"
  rs_now :: real
  rs_broken :: bool

type_synonym ('w, 'a) prog = "'w relay_state \<Rightarrow> ((ota_exn + 'a) \<times> 'w relay_state) option"

definition ret :: "'a \<Rightarrow> ('w, 'a) prog" where
  "ret x s = Some (Inr x, s)"

definition bindP :: "('w, 'a) prog \<Rightarrow> ('a \<Rightarrow> ('w, 'b) prog) \<Rightarrow> ('w, 'b) prog" where
  "bindP m f s = (case m s of
       None \<Rightarrow> None
     | Some (Inl e, s') \<Rightarrow> Some (Inl e, s')
     | Some (Inr x, s') \<Rightarrow> f x s')"

definition modify :: "('w relay_state \<Rightarrow> 'w relay_state) \<Rightarrow> ('w, unit) prog" where
  "modify f s = Some (Inr (), f s)"

definition send_op :: "'w ota_env \<Rightarrow> ota_message \<Rightarrow> ('w, unit) prog" where
  "send_op E m s =
     (let (ok, w) = e_send E (e_ser E m) (rs_world s)
      in Some (if ok then (Inr (), s\<lparr>rs_world := w, rs_sent := rs_sent s @ [(m, rs_acked s)]\<rparr>)
               else (Inl OSError, s\<lparr>rs_world := w, rs_broken := True\<rparr>)))"

definition recv_op :: "'w ota_env \<Rightarrow> real \<Rightarrow> ('w, bytes option) prog" where
  "recv_op E timeout s =
     (let (r, w) = e_recv E timeout (rs_world s)
      in Some (case r of Inl _ \<Rightarrow> (Inl OSError, s\<lparr>rs_world := w, rs_broken := True\<rparr>)
                       | Inr raw \<Rightarrow> (Inr raw, s\<lparr>rs_world := w\<rparr>)))"

definition clock_op :: "'w ota_env \<Rightarrow> ('w, real) prog" where
  "clock_op E s = (let (t, w) = e_clock E (rs_world s) in Some (Inr t, s\<lparr>rs_world := w, rs_now := t\<rparr>))"

definition quiesce_op :: "'w ota_env \<Rightarrow> bool \<Rightarrow> ('w, bool) prog" where
  "quiesce_op E on s =
     (let (r, w) = e_quiesce E on (rs_world s)
      in Some (case r of
            Inl _ \<Rightarrow> (Inl OSError, s\<lparr>rs_world := w, rs_quieted_log := rs_quieted_log s @ [on], rs_broken := True\<rparr>)
          | Inr acked \<Rightarrow> (Inr acked, s\<lparr>rs_world := w, rs_quieted_log := rs_quieted_log s @ [on]\<rparr>)))"

definition image_op :: "relay_args \<Rightarrow> int \<Rightarrow> int \<Rightarrow> ('w, bytes) prog" where
  "image_op A offset n s = Some (case im_read (ra_image A) offset n of
       Inl _ \<Rightarrow> (Inl OSError, s\<lparr>rs_broken := True\<rparr>)
     | Inr data \<Rightarrow> (Inr data, s))"

section \<open>Negotiating the chunk size\<close>

text \<open>Loops take a bound on their turns and give \<open>None\<close> when it is used up.\<close>

definition ours :: "int \<Rightarrow> ota_status \<Rightarrow> bool" where
  "ours session_id s \<longleftrightarrow> os_session_id s = 0 \<or> os_session_id s = session_id"

fun take_advert :: "int \<Rightarrow> int \<Rightarrow> ota_status \<Rightarrow> int" where
  "take_advert session_id smallest s =
     (if \<not> ours session_id s then smallest
      else if os_max_chunk_bytes s \<noteq> 0
      then if smallest = 0 then os_max_chunk_bytes s else min smallest (os_max_chunk_bytes s)
      else smallest)"

fun negotiate_loop :: "'w ota_env \<Rightarrow> int \<Rightarrow> real \<Rightarrow> nat \<Rightarrow> int \<Rightarrow> ('w, int) prog" where
  "negotiate_loop E session_id deadline 0 smallest = (\<lambda>_. None)"
| "negotiate_loop E session_id deadline (Suc n) smallest =
     bindP (clock_op E) (\<lambda>now.
       if \<not> now < deadline then ret smallest
       else bindP (clock_op E) (\<lambda>now. bindP (recv_op E (max 0 (deadline - now))) (\<lambda>raw.
         case raw of
           None \<Rightarrow> negotiate_loop E session_id deadline n smallest
         | Some b \<Rightarrow> (case e_parse E b of
               None \<Rightarrow> (\<lambda>s. Some (Inl DecodeError, s))
             | Some status \<Rightarrow> bindP (modify (\<lambda>s. s\<lparr>rs_heard := rs_heard s @ [status]\<rparr>)) (\<lambda>_.
                 negotiate_loop E session_id deadline n (take_advert session_id smallest status))))))"

definition agreed_chunk :: "int \<Rightarrow> int \<Rightarrow> int \<Rightarrow> int" where
  "agreed_chunk want cap smallest =
     (let out = (if smallest = 0 then want else max MIN_CHUNK_BYTES (min smallest MAX_CHUNK_BYTES))
      in if cap \<noteq> 0 then min out cap else out)"

definition negotiate_chunk :: "'w ota_env \<Rightarrow> nat \<Rightarrow> int \<Rightarrow> int \<Rightarrow> int \<Rightarrow> ustr \<Rightarrow> real \<Rightarrow> ('w, int) prog" where
  "negotiate_chunk E fuel want cap session_id target_device query_wait =
     bindP (send_op E (ota_message session_id target_device Query)) (\<lambda>_.
     bindP (clock_op E) (\<lambda>now.
     bindP (negotiate_loop E session_id (now + query_wait) fuel 0) (\<lambda>smallest.
     ret (agreed_chunk want cap smallest))))"

section \<open>Folding statuses\<close>

definition no_session :: ustr where "no_session = lit ''no_session''"
definition device_failed :: ustr where "device_failed = lit ''device reported FAILED''"

definition fold_status :: "int \<Rightarrow> ota_status \<Rightarrow> 'w relay_state \<Rightarrow> 'w relay_state" where
  "fold_status session_id s st =
     (if \<not> ours session_id s then st
      else if os_state s = StateStaged
      then st\<lparr>rs_staged := True, rs_acked := max (rs_acked st) (os_bytes_received s)\<rparr>
      else if os_state s = StateSuccess then st\<lparr>rs_succeeded := True\<rparr>
      else if os_state s = StateNeedsResume
      then if \<not> (rs_staged st \<or> rs_succeeded st) then st\<lparr>rs_resume_to := Some (os_bytes_received s)\<rparr>
           else st
      else if os_error_code s \<noteq> [] \<or> os_state s = StateFailed
      then if (rs_staged st \<or> rs_succeeded st) \<and> (os_error_code s = [] \<or> os_error_code s = no_session)
           then st
           else st\<lparr>rs_failed := Some (if os_error_message s \<noteq> [] then os_error_message s
                                      else if os_error_code s \<noteq> [] then os_error_code s
                                      else device_failed)\<rparr>
      else st\<lparr>rs_acked := max (rs_acked st) (os_bytes_received s)\<rparr>)"

definition fold_op :: "'w ota_env \<Rightarrow> int \<Rightarrow> bytes \<Rightarrow> ('w, unit) prog" where
  "fold_op E session_id raw s =
     (case e_parse E raw of
        None \<Rightarrow> Some (Inl DecodeError, s)
      | Some status \<Rightarrow> Some (Inr (), fold_status session_id status s))"

fun drain :: "'w ota_env \<Rightarrow> int \<Rightarrow> nat \<Rightarrow> bytes option \<Rightarrow> ('w, unit) prog" where
  "drain E session_id n None = ret ()"
| "drain E session_id 0 (Some raw) = (\<lambda>_. None)"
| "drain E session_id (Suc n) (Some raw) =
     bindP (fold_op E session_id raw) (\<lambda>_. bindP (recv_op E 0) (drain E session_id n))"

definition pump :: "'w ota_env \<Rightarrow> int \<Rightarrow> nat \<Rightarrow> real \<Rightarrow> ('w, unit) prog" where
  "pump E session_id fuel timeout = bindP (recv_op E timeout) (drain E session_id fuel)"

section \<open>The relay\<close>

definition relay_msg :: "relay_args \<Rightarrow> ota_body \<Rightarrow> ota_message" where
  "relay_msg A body = ota_message (ra_session_id A) (ra_target_device A) body"

definition emit :: "relay_args \<Rightarrow> int \<Rightarrow> ustr \<Rightarrow> ('w, unit) prog" where
  "emit A sent state = modify (\<lambda>s. s\<lparr>rs_progress := rs_progress s @
     [\<lparr>pg_sent = sent, pg_acked = rs_acked s, pg_total = im_len (ra_image A),
       pg_resumes = rs_resumes s, pg_state = state\<rparr>]\<rparr>)"

text \<open>\<open>abort\<close> swallows the \<open>OSError\<close> of its \<open>send\<close>.\<close>

definition abort :: "'w ota_env \<Rightarrow> relay_args \<Rightarrow> ustr \<Rightarrow> ('w, unit) prog" where
  "abort E A why s =
     (case send_op E (relay_msg A (Abort why)) s of
        None \<Rightarrow> None
      | Some (_, s') \<Rightarrow> Some (Inr (), s'))"

definition finish :: "relay_args \<Rightarrow> bool \<Rightarrow> detail \<Rightarrow> reason \<Rightarrow> ('w, outcome) prog" where
  "finish A ok d why s =
     Some (Inr \<lparr>oc_ok = ok, oc_detail = d, oc_acked = rs_acked s, oc_total = im_len (ra_image A),
                oc_resumes = rs_resumes s, oc_reason = why\<rparr>, s)"

definition gets :: "('w relay_state \<Rightarrow> 'a) \<Rightarrow> ('w, 'a) prog" where
  "gets f s = Some (Inr (f s), s)"

datatype turn = Continue | Break | Return outcome

definition return_op :: "('w, outcome) prog \<Rightarrow> ('w, turn) prog" where
  "return_op m = bindP m (\<lambda>r. ret (Return r))"

text \<open>The tail of a turn: the stall clock, the soft retry and the progress report.\<close>

definition after_pump :: "'w ota_env \<Rightarrow> relay_args \<Rightarrow> ('w, turn) prog" where
  "after_pump E A =
     bindP (clock_op E) (\<lambda>now. bindP (gets id) (\<lambda>s.
       let report = bindP (gets id) (\<lambda>s.
             if rs_cursor s - rs_last_log s \<ge> 4 * 1024 * 1024
             then bindP (modify (\<lambda>s. s\<lparr>rs_last_log := rs_cursor s\<rparr>)) (\<lambda>_.
                  bindP (emit A (rs_cursor s) (lit ''sending'')) (\<lambda>_. ret Continue))
             else ret Continue)
       in if rs_acked s > rs_last_ack s
          then bindP (modify (\<lambda>s. s\<lparr>rs_last_ack := rs_acked s, rs_last_progress := now,
                                      rs_last_soft := now\<rparr>)) (\<lambda>_. report)
          else if now - rs_last_progress s > ra_stall_timeout A
          then bindP (abort E A (lit ''stall'')) (\<lambda>_.
               return_op (finish A False
                 (Stalled (rs_acked s div 1024) (rs_acked s * 100 div max (im_len (ra_image A)) 1)
                    (rs_resumes s)) FAIL_STALLED))
          else if now - rs_last_soft s > ra_soft_retry A \<and> rs_resume_to s = None
               \<and> rs_cursor s > rs_acked s
          then bindP (modify (\<lambda>s. s\<lparr>rs_last_soft := now, rs_resume_to := Some (rs_acked s)\<rparr>)) (\<lambda>_. report)
          else report))"

text \<open>Send the next chunk if it fits the window, or wait, or be done.\<close>

definition send_turn :: "'w ota_env \<Rightarrow> relay_args \<Rightarrow> nat \<Rightarrow> ('w, turn) prog" where
  "send_turn E A fuel =
     bindP (gets id) (\<lambda>s.
       let total = im_len (ra_image A); cursor = rs_cursor s;
           n = min (rs_chunk s) (total - cursor)
       in if cursor < total \<and> (cursor - rs_acked s) + n \<le> ra_window A
          then bindP (image_op A cursor n) (\<lambda>data.
               bindP (send_op E (relay_msg A (Chunk cursor data))) (\<lambda>_.
               bindP (modify (\<lambda>s. s\<lparr>rs_cursor := rs_cursor s + n\<rparr>)) (\<lambda>_.
               bindP (pump E (ra_session_id A) fuel 0) (\<lambda>_. after_pump E A))))
          else if cursor \<ge> total \<and> rs_acked s \<ge> total then ret Break
          else bindP (pump E (ra_session_id A) fuel (1 / 20)) (\<lambda>_. after_pump E A))"

definition resume_turn :: "'w ota_env \<Rightarrow> relay_args \<Rightarrow> int \<Rightarrow> ('w, turn) prog" where
  "resume_turn E A resume_to =
     bindP (modify (\<lambda>s. s\<lparr>rs_resumes := rs_resumes s + 1\<rparr>)) (\<lambda>_. bindP (gets id) (\<lambda>s.
       if rs_resumes s > rs_max_resumes s
       then bindP (abort E A (lit ''too lossy'')) (\<lambda>_.
            return_op (finish A False (TooLossy (rs_resumes s) (rs_acked s div 1024)) FAIL_TOO_LOSSY))
       else bindP (modify (\<lambda>s. s\<lparr>rs_cursor := resume_to, rs_resume_to := None\<rparr>)) (\<lambda>_. ret Continue)))"

definition main_turn :: "'w ota_env \<Rightarrow> relay_args \<Rightarrow> nat \<Rightarrow> ('w, turn) prog" where
  "main_turn E A fuel =
     bindP (gets id) (\<lambda>s.
       if rs_failed s \<noteq> None \<or> rs_succeeded s \<or> rs_staged s then ret Break
       else bindP (clock_op E) (\<lambda>now.
         if now - rs_t_start s > ra_deadline_s A
         then bindP (abort E A (lit ''deadline'')) (\<lambda>_.
              return_op (finish A False (ExceededDeadline (ra_deadline_s A) (rs_acked s div 1024))
                           FAIL_DEADLINE))
         else case rs_resume_to s of
                Some r \<Rightarrow> resume_turn E A r
              | None \<Rightarrow> send_turn E A fuel))"

fun main_loop :: "'w ota_env \<Rightarrow> relay_args \<Rightarrow> nat \<Rightarrow> nat \<Rightarrow> ('w, outcome option) prog" where
  "main_loop E A fuel 0 = (\<lambda>_. None)"
| "main_loop E A fuel (Suc n) =
     bindP (main_turn E A fuel) (\<lambda>t. case t of
         Continue \<Rightarrow> main_loop E A fuel n
       | Break \<Rightarrow> ret None
       | Return r \<Rightarrow> ret (Some r))"

fun commit_loop :: "'w ota_env \<Rightarrow> relay_args \<Rightarrow> nat \<Rightarrow> real \<Rightarrow> nat \<Rightarrow> ('w, unit) prog" where
  "commit_loop E A fuel deadline 0 = (\<lambda>_. None)"
| "commit_loop E A fuel deadline (Suc n) =
     bindP (gets id) (\<lambda>s.
       if rs_staged s \<or> rs_succeeded s \<or> rs_failed s \<noteq> None then ret ()
       else bindP (clock_op E) (\<lambda>now.
         if \<not> now < deadline then ret ()
         else bindP (pump E (ra_session_id A) fuel (1 / 20)) (\<lambda>_.
              commit_loop E A fuel deadline n)))"

text \<open>The commit's verdict: \<open>STAGED\<close> routinely races the reboot, so silence counts as committed.\<close>

definition await_verdict :: "'w ota_env \<Rightarrow> relay_args \<Rightarrow> nat \<Rightarrow> ('w, outcome) prog" where
  "await_verdict E A fuel =
     bindP (clock_op E) (\<lambda>now.
     bindP (commit_loop E A fuel (now + min (ra_stall_timeout A) (ra_commit_wait A)) fuel) (\<lambda>_.
     bindP (gets id) (\<lambda>s.
       case rs_failed s of
         Some why \<Rightarrow> finish A False (DeviceSaid why) FAIL_DEVICE
       | None \<Rightarrow>
           if rs_succeeded s then finish A True Success OK_SUCCESS
           else if rs_staged s then finish A True Staged OK_STAGED
           else finish A True CommittedUnconfirmed OK_COMMITTED_UNCONFIRMED)))"

definition commit_phase :: "'w ota_env \<Rightarrow> relay_args \<Rightarrow> nat \<Rightarrow> ('w, outcome) prog" where
  "commit_phase E A fuel =
     bindP (gets id) (\<lambda>s. bindP (emit A (rs_cursor s) (lit ''committing'')) (\<lambda>_.
     bindP (send_op E (relay_msg A Commit)) (\<lambda>_.
     bindP (modify (\<lambda>s. s\<lparr>rs_committed := True\<rparr>)) (\<lambda>_. await_verdict E A fuel))))"

definition after_loop :: "'w ota_env \<Rightarrow> relay_args \<Rightarrow> nat \<Rightarrow> ('w, outcome) prog" where
  "after_loop E A fuel =
     bindP (gets id) (\<lambda>s.
       case rs_failed s of
         Some why \<Rightarrow> finish A False (DeviceSaid why) FAIL_DEVICE
       | None \<Rightarrow>
           if rs_staged s then finish A True StagedNoTransfer OK_STAGED_NO_TRANSFER
           else if \<not> ra_commit A
           then bindP (abort E A (lit ''no-flash'')) (\<lambda>_. finish A True UploadedOnly OK_UPLOAD_ONLY)
           else commit_phase E A fuel)"

definition derived_resumes :: "int \<Rightarrow> int \<Rightarrow> int" where
  "derived_resumes len chunk = 2 * (len div max chunk 1 + 2) + 16"

definition choose_chunk :: "'w ota_env \<Rightarrow> relay_args \<Rightarrow> nat \<Rightarrow> ('w, unit) prog" where
  "choose_chunk E A fuel =
     (if ra_negotiate A
      then bindP (negotiate_chunk E fuel (ra_chunk A) (ra_chunk_cap A) (ra_session_id A)
                    (ra_target_device A) (ra_query_wait A)) (\<lambda>c. modify (\<lambda>s. s\<lparr>rs_chunk := c\<rparr>))
      else if ra_chunk_cap A \<noteq> 0
      then modify (\<lambda>s. s\<lparr>rs_chunk := min (rs_chunk s) (ra_chunk_cap A)\<rparr>)
      else ret ())"

definition begin_session :: "'w ota_env \<Rightarrow> relay_args \<Rightarrow> nat \<Rightarrow> ('w, unit) prog" where
  "begin_session E A fuel =
     bindP (gets id) (\<lambda>s.
     bindP (send_op E (relay_msg A (Begin (im_len (ra_image A)) (rs_chunk s) (ra_fw_version A) (ra_board A)))) (\<lambda>_.
     bindP (case ra_max_resumes A of
              None \<Rightarrow> modify (\<lambda>s. s\<lparr>rs_max_resumes := derived_resumes (im_len (ra_image A)) (rs_chunk s)\<rparr>)
            | Some _ \<Rightarrow> ret ()) (\<lambda>_.
     bindP (clock_op E) (\<lambda>now.
     bindP (modify (\<lambda>s. s\<lparr>rs_t_start := now, rs_last_progress := now, rs_last_soft := now\<rparr>)) (\<lambda>_.
     bindP (emit A 0 (lit ''begin'')) (\<lambda>_.
     pump E (ra_session_id A) fuel 0))))))"

definition open_session :: "'w ota_env \<Rightarrow> relay_args \<Rightarrow> nat \<Rightarrow> ('w, unit) prog" where
  "open_session E A fuel = bindP (choose_chunk E A fuel) (\<lambda>_. begin_session E A fuel)"

definition transfer :: "'w ota_env \<Rightarrow> relay_args \<Rightarrow> nat \<Rightarrow> ('w, outcome) prog" where
  "transfer E A fuel =
     bindP (open_session E A fuel) (\<lambda>_.
     bindP (main_loop E A fuel fuel) (\<lambda>r. case r of
         Some out \<Rightarrow> ret out
       | None \<Rightarrow> after_loop E A fuel))"

definition relay_try :: "'w ota_env \<Rightarrow> relay_args \<Rightarrow> nat \<Rightarrow> ('w, outcome) prog" where
  "relay_try E A fuel =
     bindP (if ra_quiesce A
            then bindP (quiesce_op E True) (\<lambda>acked. modify (\<lambda>s. s\<lparr>rs_quieted := acked\<rparr>))
            else ret ()) (\<lambda>_. transfer E A fuel)"

text \<open>The \<open>except OSError\<close> clause.\<close>

definition link_dropped :: "relay_args \<Rightarrow> ('w, outcome) prog" where
  "link_dropped A =
     bindP (gets id) (\<lambda>s.
       if rs_staged s \<or> rs_committed s
       then finish A True LinkDroppedAfterCommit OK_LINK_AFTER_COMMIT
       else finish A False LinkDropped FAIL_LINK_DROPPED)"

definition catching :: "relay_args \<Rightarrow> ('w, outcome) prog \<Rightarrow> ('w, outcome) prog" where
  "catching A m s = (case m s of
       None \<Rightarrow> None
     | Some (Inl OSError, s') \<Rightarrow> link_dropped A s'
     | Some (r, s') \<Rightarrow> Some (r, s'))"

text \<open>The \<open>finally\<close> clause: \<open>quiesce(False)\<close> on every exit; its \<open>OSError\<close> is swallowed.\<close>

definition restoring :: "'w ota_env \<Rightarrow> ('w, outcome) prog \<Rightarrow> ('w, outcome) prog" where
  "restoring E m s = (case m s of
       None \<Rightarrow> None
     | Some (r, s') \<Rightarrow>
         if rs_quieted s'
         then (case quiesce_op E False s' of None \<Rightarrow> None | Some (_, s'') \<Rightarrow> Some (r, s''))
         else Some (r, s'))"

definition init_relay :: "relay_args \<Rightarrow> 'w \<Rightarrow> 'w relay_state" where
  "init_relay A w =
     \<lparr>rs_world = w, rs_acked = 0, rs_staged = False, rs_succeeded = False, rs_failed = None,
      rs_resume_to = None, rs_committed = False, rs_cursor = 0, rs_last_ack = 0, rs_last_log = 0,
      rs_resumes = 0, rs_chunk = ra_chunk A,
      rs_max_resumes = (case ra_max_resumes A of None \<Rightarrow> 0 | Some n \<Rightarrow> n),
      rs_t_start = 0, rs_last_progress = 0, rs_last_soft = 0, rs_quieted = False,
      rs_progress = [], rs_sent = [], rs_quieted_log = [], rs_heard = [], rs_now = 0, rs_broken = False\<rparr>"

definition relay :: "'w ota_env \<Rightarrow> nat \<Rightarrow> relay_args \<Rightarrow> 'w
    \<Rightarrow> ((ota_exn + outcome) \<times> 'w relay_state) option" where
  "relay E fuel A w = restoring E (catching A (relay_try E A fuel)) (init_relay A w)"

end
