(* ===== verification/OtaSafety.thy ===== *)
theory OtaSafety
  imports Ota
begin

text \<open>
  What the OTA relay never does, whatever the link, the device and the clock do. Programs are reasoned
  about by their weakest preconditions, which \<open>simp\<close> computes through straight-line code; what every step
  of a transfer keeps is the contract \<open>transfer_invariant\<close>, interpreted on each safety property.
\<close>

section \<open>Weakest preconditions\<close>

definition wp :: "('w, 'a) prog \<Rightarrow> ('a \<Rightarrow> 'w relay_state \<Rightarrow> bool)
    \<Rightarrow> (ota_exn \<Rightarrow> 'w relay_state \<Rightarrow> bool) \<Rightarrow> 'w relay_state \<Rightarrow> bool" where
  "wp m Q R s = (case m s of
       None \<Rightarrow> True
     | Some (Inl e, s') \<Rightarrow> R e s'
     | Some (Inr x, s') \<Rightarrow> Q x s')"

named_theorems wp_simps

lemma wp_ret [wp_simps]: "wp (ret x) Q R s = Q x s"
  by (simp add: wp_def ret_def)

lemma wp_bind [wp_simps]: "wp (bindP m f) Q R s = wp m (\<lambda>x. wp (f x) Q R) R s"
  by (simp add: wp_def bindP_def split: option.split sum.split prod.split)

lemma wp_modify [wp_simps]: "wp (modify f) Q R s = Q () (f s)"
  by (simp add: wp_def modify_def)

lemma wp_gets [wp_simps]: "wp (gets f) Q R s = Q (f s) s"
  by (simp add: wp_def gets_def)

lemma wp_if [wp_simps]: "wp (if b then m else m') Q R s = (if b then wp m Q R s else wp m' Q R s)"
  by simp

lemma wp_finish [wp_simps]:
  "wp (finish A ok d why) Q R s =
     Q \<lparr>oc_ok = ok, oc_detail = d, oc_acked = rs_acked s, oc_total = im_len (ra_image A),
        oc_resumes = rs_resumes s, oc_reason = why\<rparr> s"
  by (simp add: wp_def finish_def)

lemma wp_send [wp_simps]:
  "wp (send_op E m) Q R s =
     (if fst (e_send E (e_ser E m) (rs_world s))
      then Q () (s\<lparr>rs_world := snd (e_send E (e_ser E m) (rs_world s)),
                   rs_sent := rs_sent s @ [(m, rs_acked s)]\<rparr>)
      else R OSError (s\<lparr>rs_world := snd (e_send E (e_ser E m) (rs_world s)), rs_broken := True\<rparr>))"
  by (simp add: wp_def send_op_def case_prod_beta)

lemma wp_recv [wp_simps]:
  "wp (recv_op E t) Q R s =
     (case fst (e_recv E t (rs_world s)) of
        Inl _ \<Rightarrow> R OSError (s\<lparr>rs_world := snd (e_recv E t (rs_world s)), rs_broken := True\<rparr>)
      | Inr raw \<Rightarrow> Q raw (s\<lparr>rs_world := snd (e_recv E t (rs_world s))\<rparr>))"
  by (simp add: wp_def recv_op_def case_prod_beta split: sum.split)

lemma wp_clock [wp_simps]:
  "wp (clock_op E) Q R s =
     Q (fst (e_clock E (rs_world s)))
       (s\<lparr>rs_world := snd (e_clock E (rs_world s)), rs_now := fst (e_clock E (rs_world s))\<rparr>)"
  by (simp add: wp_def clock_op_def case_prod_beta)

lemma wp_image [wp_simps]:
  "wp (image_op A offset n) Q R s =
     (case im_read (ra_image A) offset n of
        Inl _ \<Rightarrow> R OSError (s\<lparr>rs_broken := True\<rparr>) | Inr data \<Rightarrow> Q data s)"
  by (simp add: wp_def image_op_def split: sum.split)

lemma wp_abort [wp_simps]:
  "wp (abort E A why) Q R s =
     (if fst (e_send E (e_ser E (relay_msg A (Abort why))) (rs_world s))
      then Q () (s\<lparr>rs_world := snd (e_send E (e_ser E (relay_msg A (Abort why))) (rs_world s)),
                   rs_sent := rs_sent s @ [(relay_msg A (Abort why), rs_acked s)]\<rparr>)
      else Q () (s\<lparr>rs_world := snd (e_send E (e_ser E (relay_msg A (Abort why))) (rs_world s)), rs_broken := True\<rparr>))"
  by (simp add: wp_def abort_def send_op_def case_prod_beta)

lemma wp_fold [wp_simps]:
  "wp (fold_op E sid raw) Q R s =
     (case e_parse E raw of None \<Rightarrow> R DecodeError s | Some st \<Rightarrow> Q () (fold_status sid st s))"
  by (simp add: wp_def fold_op_def split: option.split)

lemma wp_fuel [wp_simps]: "wp (\<lambda>_. None) Q R s"
  by (simp add: wp_def)

lemma wp_raise [wp_simps]: "wp (\<lambda>s. Some (Inl e, s)) Q R s = R e s"
  by (simp add: wp_def)

lemma wp_emit [wp_simps]:
  "wp (emit A sent state) Q R s = Q () (s\<lparr>rs_progress := rs_progress s @
     [\<lparr>pg_sent = sent, pg_acked = rs_acked s, pg_total = im_len (ra_image A),
       pg_resumes = rs_resumes s, pg_state = state\<rparr>]\<rparr>)"
  by (simp add: emit_def wp_modify)

lemma wp_quiesce [wp_simps]:
  "wp (quiesce_op E on) Q R s =
     (case fst (e_quiesce E on (rs_world s)) of
        Inl _ \<Rightarrow> R OSError (s\<lparr>rs_world := snd (e_quiesce E on (rs_world s)),
                               rs_quieted_log := rs_quieted_log s @ [on], rs_broken := True\<rparr>)
      | Inr acked \<Rightarrow> Q acked (s\<lparr>rs_world := snd (e_quiesce E on (rs_world s)),
                               rs_quieted_log := rs_quieted_log s @ [on]\<rparr>))"
  by (simp add: wp_def quiesce_op_def case_prod_beta split: sum.split)

lemma wp_catching [wp_simps]:
  "wp (catching A m) Q R s =
     wp m Q (\<lambda>e s. case e of OSError \<Rightarrow> wp (link_dropped A) Q R s | DecodeError \<Rightarrow> R DecodeError s) s"
  by (simp add: wp_def catching_def split: option.split sum.split prod.split ota_exn.split)

lemma wp_link_dropped [wp_simps]:
  "wp (link_dropped A) Q R s =
     (if rs_staged s \<or> rs_committed s
      then wp (finish A True LinkDroppedAfterCommit OK_LINK_AFTER_COMMIT) Q R s
      else wp (finish A False LinkDropped FAIL_LINK_DROPPED) Q R s)"
  by (simp add: link_dropped_def wp_simps)

text \<open>What \<open>finally\<close> leaves.\<close>

definition restored :: "'w ota_env \<Rightarrow> 'w relay_state \<Rightarrow> 'w relay_state" where
  "restored E s = (if rs_quieted s
     then (case fst (e_quiesce E False (rs_world s)) of
         Inl _ \<Rightarrow> s\<lparr>rs_world := snd (e_quiesce E False (rs_world s)),
                    rs_quieted_log := rs_quieted_log s @ [False], rs_broken := True\<rparr>
       | Inr _ \<Rightarrow> s\<lparr>rs_world := snd (e_quiesce E False (rs_world s)),
                    rs_quieted_log := rs_quieted_log s @ [False]\<rparr>)
     else s)"

lemma wp_restoring [wp_simps]:
  "wp (restoring E m) Q R s = wp m (\<lambda>x s. Q x (restored E s)) (\<lambda>e s. R e (restored E s)) s"
  by (auto simp: wp_def restoring_def restored_def quiesce_op_def case_prod_beta
      split: option.split sum.split)

lemma wp_mono:
  "wp m Q R s \<Longrightarrow> (\<And>x s. Q x s \<Longrightarrow> Q' x s) \<Longrightarrow> (\<And>e s. R e s \<Longrightarrow> R' e s) \<Longrightarrow> wp m Q' R' s"
  by (auto simp: wp_def split: option.splits sum.splits)


section \<open>What every step of a transfer keeps\<close>

text \<open>A message that may go out at any time: a query or an abort.\<close>

definition plain :: "ota_body \<Rightarrow> bool" where
  "plain b \<longleftrightarrow> (case b of Query \<Rightarrow> True | Abort _ \<Rightarrow> True | _ \<Rightarrow> False)"

lemma plain_simps [simp]: "plain (Abort x)" "plain Query" "\<not> plain Commit"
  "\<not> plain (Chunk o1 d1)" "\<not> plain (Begin a b c d)"
  by (simp_all add: plain_def)

text \<open>What an outcome reports of the state it was made in.\<close>

definition reports :: "relay_args \<Rightarrow> outcome \<Rightarrow> 'w relay_state \<Rightarrow> bool" where
  "reports A r s \<longleftrightarrow> oc_acked r = rs_acked s \<and> oc_total r = im_len (ra_image A)
     \<and> oc_resumes r = rs_resumes s"

text \<open>The three ways of giving up, each with what happened and the figures of its message.\<close>

definition stalled :: "relay_args \<Rightarrow> 'w relay_state \<Rightarrow> bool" where
  "stalled A s \<longleftrightarrow> ra_stall_timeout A < rs_now s - rs_last_progress s \<and> rs_acked s \<le> rs_last_ack s"

definition overdue :: "relay_args \<Rightarrow> 'w relay_state \<Rightarrow> bool" where
  "overdue A s \<longleftrightarrow> ra_deadline_s A < rs_now s - rs_t_start s"

definition too_lossy :: "'w relay_state \<Rightarrow> bool" where
  "too_lossy s \<longleftrightarrow> rs_max_resumes s < rs_resumes s"

definition gave_up :: "relay_args \<Rightarrow> outcome \<Rightarrow> 'w relay_state \<Rightarrow> bool" where
  "gave_up A r s \<longleftrightarrow> \<not> oc_ok r \<and> reports A r s
     \<and> (oc_reason r = FAIL_STALLED \<and> stalled A s
          \<and> oc_detail r = Stalled (rs_acked s div 1024)
              (rs_acked s * 100 div max (im_len (ra_image A)) 1) (rs_resumes s)
        \<or> oc_reason r = FAIL_DEADLINE \<and> overdue A s
          \<and> oc_detail r = ExceededDeadline (ra_deadline_s A) (rs_acked s div 1024)
        \<or> oc_reason r = FAIL_TOO_LOSSY \<and> too_lossy s
          \<and> oc_detail r = TooLossy (rs_resumes s) (rs_acked s div 1024))"

definition all_acked :: "relay_args \<Rightarrow> 'w relay_state \<Rightarrow> bool" where
  "all_acked A s \<longleftrightarrow> im_len (ra_image A) \<le> rs_cursor s \<and> im_len (ra_image A) \<le> rs_acked s"

definition may_commit :: "relay_args \<Rightarrow> 'w relay_state \<Rightarrow> bool" where
  "may_commit A s \<longleftrightarrow> rs_failed s \<noteq> None \<or> rs_succeeded s \<or> rs_staged s \<or> all_acked A s"

text \<open>
  The chunk size of a transfer: the smallest of the sizes the devices of this session advertised while
  they were asked, within the bounds a device may talk the sender into, or the caller's own where none
  did; and never more than the cap of the link.
\<close>

definition adverts :: "relay_args \<Rightarrow> ota_status list \<Rightarrow> int list" where
  "adverts A heard = map os_max_chunk_bytes
     (filter (\<lambda>st. (os_session_id st = 0 \<or> os_session_id st = ra_session_id A) \<and> os_max_chunk_bytes st \<noteq> 0) heard)"

definition agreed_size :: "relay_args \<Rightarrow> ota_status list \<Rightarrow> int" where
  "agreed_size A heard =
     (let bytes1 = (if adverts A heard = [] then ra_chunk A
                  else max MIN_CHUNK_BYTES (min (Min (set (adverts A heard))) MAX_CHUNK_BYTES))
      in if ra_chunk_cap A = 0 then bytes1 else min bytes1 (ra_chunk_cap A))"

text \<open>The size is settled, and the devices were asked where the caller wants that.\<close>

definition asked :: "relay_args \<Rightarrow> 'w relay_state \<Rightarrow> bool" where
  "asked A s \<longleftrightarrow> (\<exists>a. (relay_msg A Query, a) \<in> set (rs_sent s))"

definition settled :: "relay_args \<Rightarrow> 'w relay_state \<Rightarrow> bool" where
  "settled A s \<longleftrightarrow> rs_chunk s = agreed_size A (rs_heard s) \<and> (ra_negotiate A \<longrightarrow> asked A s)"

text \<open>Before a session is open nothing depends on the size.\<close>

definition unopened :: "'w relay_state \<Rightarrow> bool" where
  "unopened s \<longleftrightarrow> (\<forall>(m, a) \<in> set (rs_sent s). plain (om_body m))"

definition at_start :: "relay_args \<Rightarrow> 'w relay_state \<Rightarrow> bool" where
  "at_start A s \<longleftrightarrow> unopened s \<and> rs_heard s = [] \<and> rs_chunk s = ra_chunk A"

lemma relay_msg_body [simp]: "om_body (relay_msg A b) = b"
  by (simp add: relay_msg_def ota_message_def)

lemma settled_kept:
  "settled A s \<Longrightarrow> rs_chunk s' = rs_chunk s \<Longrightarrow> rs_heard s' = rs_heard s \<Longrightarrow> set (rs_sent s) \<subseteq> set (rs_sent s')
     \<Longrightarrow> settled A s'"
  by (auto simp: settled_def asked_def)

lemma fold_status_keeps [simp]:
  "rs_heard (fold_status sid st s) = rs_heard s" "rs_now (fold_status sid st s) = rs_now s"
  "rs_broken (fold_status sid st s) = rs_broken s"
  "rs_committed (fold_status sid st s) = rs_committed s" "rs_sent (fold_status sid st s) = rs_sent s"
  "rs_world (fold_status sid st s) = rs_world s" "rs_cursor (fold_status sid st s) = rs_cursor s"
  "rs_chunk (fold_status sid st s) = rs_chunk s" "rs_resumes (fold_status sid st s) = rs_resumes s"
  "rs_max_resumes (fold_status sid st s) = rs_max_resumes s"
  "rs_quieted (fold_status sid st s) = rs_quieted s"
  "rs_quieted_log (fold_status sid st s) = rs_quieted_log s"
  "rs_t_start (fold_status sid st s) = rs_t_start s"
  by (simp_all add: fold_status_def)

lemma unopened_simps [simp]:
  "unopened (s\<lparr>rs_world := w\<rparr>) = unopened s" "unopened (s\<lparr>rs_now := t\<rparr>) = unopened s"
  "unopened (s\<lparr>rs_heard := h\<rparr>) = unopened s" "unopened (s\<lparr>rs_broken := br\<rparr>) = unopened s"
  "asked A (s\<lparr>rs_world := w\<rparr>) = asked A s" "asked A (s\<lparr>rs_now := t\<rparr>) = asked A s"
  "asked A (s\<lparr>rs_heard := h\<rparr>) = asked A s"
  by (simp_all add: unopened_def asked_def)

definition smallest_of :: "relay_args \<Rightarrow> ota_status list \<Rightarrow> int" where
  "smallest_of A heard = (if adverts A heard = [] then 0 else Min (set (adverts A heard)))"

lemma smallest_of_zero: "smallest_of A heard = 0 \<longleftrightarrow> adverts A heard = []"
proof -
  have "Min (set (adverts A heard)) \<noteq> 0" if "adverts A heard \<noteq> []"
  proof -
    have "Min (set (adverts A heard)) \<in> set (adverts A heard)" using that by (intro Min_in) auto
    moreover have "0 \<notin> set (adverts A heard)" by (auto simp: adverts_def)
    ultimately show ?thesis by metis
  qed
  then show ?thesis by (simp add: smallest_of_def)
qed

lemma smallest_of_snoc:
  "take_advert (ra_session_id A) (smallest_of A heard) st = smallest_of A (heard @ [st])"
proof (cases "(os_session_id st = 0 \<or> os_session_id st = ra_session_id A) \<and> os_max_chunk_bytes st \<noteq> 0")
  case True
  then have "adverts A (heard @ [st]) = adverts A heard @ [os_max_chunk_bytes st]" by (simp add: adverts_def)
  then show ?thesis using True smallest_of_zero [of A heard]
    by (auto simp: smallest_of_def ours_def min.commute)
next
  case False
  then have "adverts A (heard @ [st]) = adverts A heard" by (simp add: adverts_def)
  then show ?thesis using False by (auto simp: smallest_of_def ours_def)
qed

lemma agreed_chunk_smallest:
  "agreed_chunk (ra_chunk A) (ra_chunk_cap A) (smallest_of A heard) = agreed_size A heard"
  using smallest_of_zero [of A heard]
  by (auto simp: agreed_chunk_def agreed_size_def Let_def smallest_of_def)

locale pump_invariant =
  fixes E :: "'w ota_env" and A :: relay_args and I :: "'w relay_state \<Rightarrow> bool"
  assumes i_world: "I s \<Longrightarrow> I (s\<lparr>rs_world := w\<rparr>)"
    and i_now: "I s \<Longrightarrow> I (s\<lparr>rs_now := t\<rparr>)"
    and i_broken: "I s \<Longrightarrow> I (s\<lparr>rs_broken := b\<rparr>)"
    and i_fold: "I s \<Longrightarrow> I (fold_status (ra_session_id A) st s)"
begin

lemmas i_ghosts = i_world i_now i_broken i_fold

lemma drain_keeps: "I s \<Longrightarrow> wp (drain E (ra_session_id A) n raw) (\<lambda>_. I) (\<lambda>_. I) s"
proof (induction n arbitrary: raw s)
  case 0
  then show ?case by (cases raw) (simp_all add: wp_simps)
next
  case (Suc n)
  then show ?case
    by (cases raw) (auto simp: wp_simps i_ghosts split: option.split sum.split)
qed

lemma pump_keeps: "I s \<Longrightarrow> wp (pump E (ra_session_id A) n t) (\<lambda>_. I) (\<lambda>_. I) s"
  unfolding pump_def by (simp add: wp_simps i_ghosts drain_keeps split: sum.split)

lemmas pump_then = wp_mono [OF pump_keeps]

end

text \<open>What every part of a transfer may do to the state.\<close>

locale quiet_invariant = pump_invariant +
  assumes i_plain: "I s \<Longrightarrow> plain b \<Longrightarrow>
      I (s\<lparr>rs_sent := rs_sent s @ [(relay_msg A b, rs_acked s)]\<rparr>)"
    and i_cursor: "I s \<Longrightarrow> I (s\<lparr>rs_cursor := c\<rparr>)"
    and i_resume_to: "I s \<Longrightarrow> I (s\<lparr>rs_resume_to := r\<rparr>)"
    and i_resumes: "I s \<Longrightarrow> I (s\<lparr>rs_resumes := k\<rparr>)"
    and i_max_resumes: "I s \<Longrightarrow> I (s\<lparr>rs_max_resumes := k\<rparr>)"
    and i_last_ack: "I s \<Longrightarrow> I (s\<lparr>rs_last_ack := c\<rparr>)"
    and i_last_log: "I s \<Longrightarrow> I (s\<lparr>rs_last_log := c\<rparr>)"
    and i_t_start: "I s \<Longrightarrow> I (s\<lparr>rs_t_start := t\<rparr>)"
    and i_last_progress: "I s \<Longrightarrow> I (s\<lparr>rs_last_progress := t\<rparr>)"
    and i_last_soft: "I s \<Longrightarrow> I (s\<lparr>rs_last_soft := t\<rparr>)"
    and i_progress: "I s \<Longrightarrow> I (s\<lparr>rs_progress := p\<rparr>)"
begin

lemma i_message: "I s \<Longrightarrow> plain b \<Longrightarrow> l = rs_sent s \<Longrightarrow> a = rs_acked s \<Longrightarrow>
    I (s\<lparr>rs_sent := l @ [(relay_msg A b, a)]\<rparr>)"
  by (simp add: i_plain)

lemmas i_all = i_ghosts i_message i_cursor i_resume_to i_resumes i_max_resumes i_last_ack i_last_log
  i_t_start i_last_progress i_last_soft i_progress

end

text \<open>A transfer whose chunk size is settled.\<close>

locale step_invariant = quiet_invariant +
  assumes i_chunk: "I s \<Longrightarrow> rs_cursor s < im_len (ra_image A) \<Longrightarrow>
      im_read (ra_image A) (rs_cursor s) (min (rs_chunk s) (im_len (ra_image A) - rs_cursor s)) = Inr data \<Longrightarrow>
      rs_cursor s - rs_acked s + min (rs_chunk s) (im_len (ra_image A) - rs_cursor s) \<le> ra_window A \<Longrightarrow>
      I (s\<lparr>rs_sent := rs_sent s @ [(relay_msg A (Chunk (rs_cursor s) data), rs_acked s)]\<rparr>)"
    and i_begin: "I s \<Longrightarrow> I (s\<lparr>rs_sent := rs_sent s @
      [(relay_msg A (Begin (im_len (ra_image A)) (rs_chunk s) (ra_fw_version A) (ra_board A)), rs_acked s)]\<rparr>)"
begin

lemma i_chunk_sent: "I s \<Longrightarrow> rs_cursor s < im_len (ra_image A) \<Longrightarrow>
    im_read (ra_image A) (rs_cursor s) (min (rs_chunk s) (im_len (ra_image A) - rs_cursor s)) = Inr data \<Longrightarrow>
    rs_cursor s - rs_acked s + min (rs_chunk s) (im_len (ra_image A) - rs_cursor s) \<le> ra_window A \<Longrightarrow>
    I (s\<lparr>rs_world := w, rs_sent := rs_sent s @ [(relay_msg A (Chunk (rs_cursor s) data), rs_acked s)]\<rparr>)"
  using i_chunk [OF i_world [of s w]] by simp

lemma i_begin_sent: "I s \<Longrightarrow> l = rs_sent s \<Longrightarrow> a = rs_acked s \<Longrightarrow> c = rs_chunk s \<Longrightarrow>
    I (s\<lparr>rs_sent := l @ [(relay_msg A (Begin (im_len (ra_image A)) c (ra_fw_version A) (ra_board A)), a)]\<rparr>)"
  by (simp add: i_begin)

lemma after_pump_keeps: "I s \<Longrightarrow>
    wp (after_pump E A) (\<lambda>t s. I s \<and> t \<noteq> Break \<and> (\<forall>r. t = Return r \<longrightarrow> gave_up A r s)) (\<lambda>_. I) s"
  unfolding after_pump_def return_op_def
  by (simp add: wp_simps Let_def i_all gave_up_def reports_def stalled_def)

text \<open>A turn breaks out of the loop only when the device has spoken or every byte is acknowledged.\<close>

lemma send_turn_keeps: "I s \<Longrightarrow>
    wp (send_turn E A n) (\<lambda>t s. I s \<and> (t = Break \<longrightarrow> all_acked A s)
      \<and> (\<forall>r. t = Return r \<longrightarrow> gave_up A r s)) (\<lambda>_. I) s"
  unfolding send_turn_def
  by (auto simp: wp_simps Let_def i_ghosts all_acked_def split: sum.split
      intro!: pump_then [where n = n] wp_mono [OF after_pump_keeps] i_cursor i_chunk_sent)

lemma resume_turn_keeps: "I s \<Longrightarrow>
    wp (resume_turn E A r) (\<lambda>t s. I s \<and> t \<noteq> Break \<and> (\<forall>r. t = Return r \<longrightarrow> gave_up A r s)) (\<lambda>_. I) s"
  unfolding resume_turn_def return_op_def
  by (simp add: wp_simps i_all gave_up_def reports_def too_lossy_def)

lemma main_turn_keeps: "I s \<Longrightarrow>
    wp (main_turn E A n)
      (\<lambda>t s. I s \<and> (t = Break \<longrightarrow> may_commit A s) \<and> (\<forall>r. t = Return r \<longrightarrow> gave_up A r s))
      (\<lambda>_. I) s"
  unfolding main_turn_def return_op_def may_commit_def
  by (auto simp: wp_simps i_all gave_up_def reports_def overdue_def split: option.split
      intro!: wp_mono [OF send_turn_keeps] wp_mono [OF resume_turn_keeps])

lemma main_loop_keeps: "I s \<Longrightarrow>
    wp (main_loop E A n k)
      (\<lambda>r s. I s \<and> (r = None \<longrightarrow> may_commit A s) \<and> (\<forall>x. r = Some x \<longrightarrow> gave_up A x s)) (\<lambda>_. I) s"
  by (induction k arbitrary: s)
     (auto simp: wp_simps split: turn.split intro!: wp_mono [OF main_turn_keeps])

lemma begin_session_keeps: "I s \<Longrightarrow> wp (begin_session E A n) (\<lambda>_. I) (\<lambda>_. I) s"
  unfolding begin_session_def
  by (auto simp: wp_simps i_all i_begin_sent split: option.split intro!: pump_keeps)

end

text \<open>A whole transfer: the size may change until the session is opened.\<close>

locale transfer_invariant = quiet_invariant +
  assumes i_chunk_settled: "I s \<Longrightarrow> settled A s \<Longrightarrow> rs_cursor s < im_len (ra_image A) \<Longrightarrow>
      im_read (ra_image A) (rs_cursor s) (min (rs_chunk s) (im_len (ra_image A) - rs_cursor s)) = Inr data \<Longrightarrow>
      rs_cursor s - rs_acked s + min (rs_chunk s) (im_len (ra_image A) - rs_cursor s) \<le> ra_window A \<Longrightarrow>
      I (s\<lparr>rs_sent := rs_sent s @ [(relay_msg A (Chunk (rs_cursor s) data), rs_acked s)]\<rparr>)"
    and i_begin_settled: "I s \<Longrightarrow> settled A s \<Longrightarrow> I (s\<lparr>rs_sent := rs_sent s @
      [(relay_msg A (Begin (im_len (ra_image A)) (rs_chunk s) (ra_fw_version A) (ra_board A)), rs_acked s)]\<rparr>)"
    and i_size: "I s \<Longrightarrow> unopened s \<Longrightarrow> I (s\<lparr>rs_chunk := c\<rparr>)"
    and i_heard: "I s \<Longrightarrow> unopened s \<Longrightarrow> I (s\<lparr>rs_heard := h\<rparr>)"
begin

lemma steps: "step_invariant A (\<lambda>s. I s \<and> settled A s)"
  by unfold_locales
     (auto simp: i_all i_plain i_chunk_settled i_begin_settled elim!: settled_kept)

lemma negotiate_loop_keeps:
  "I s \<Longrightarrow> unopened s \<Longrightarrow> asked A s \<Longrightarrow> k = smallest_of A (rs_heard s) \<Longrightarrow>
    wp (negotiate_loop E (ra_session_id A) d n k)
      (\<lambda>k s. I s \<and> unopened s \<and> asked A s \<and> k = smallest_of A (rs_heard s)) (\<lambda>_. I) s"
proof (induction n arbitrary: k s)
  case (Suc n)
  show ?case
    using Suc.prems
    by (auto simp: wp_simps i_ghosts i_heard smallest_of_snoc simp del: take_advert.simps
        split: option.split sum.split intro!: Suc.IH)
qed (simp add: wp_simps)

lemma negotiate_chunk_keeps:
  assumes "I s" "at_start A s"
  shows "wp (negotiate_chunk E n (ra_chunk A) (ra_chunk_cap A) (ra_session_id A) (ra_target_device A) q)
      (\<lambda>c s. I s \<and> unopened s \<and> asked A s \<and> c = agreed_size A (rs_heard s)) (\<lambda>_. I) s"
proof -
  let ?s = "\<lambda>w t. s\<lparr>rs_sent := rs_sent s @ [(relay_msg A Query, rs_acked s)], rs_world := w, rs_now := t\<rparr>"
  have "I (?s w t)" for w t
    using i_now [OF i_world [OF i_plain [OF assms(1), of Query], of w], of t] by simp
  moreover have "unopened (?s w t)" "asked A (?s w t)" "smallest_of A (rs_heard (?s w t)) = 0" for w t
    using assms(2) by (auto simp: at_start_def unopened_def asked_def smallest_of_def adverts_def)
  ultimately have "wp (negotiate_loop E (ra_session_id A) d n 0)
      (\<lambda>k. wp (ret (agreed_chunk (ra_chunk A) (ra_chunk_cap A) k))
         (\<lambda>c s. I s \<and> unopened s \<and> asked A s \<and> c = agreed_size A (rs_heard s)) (\<lambda>_. I))
      (\<lambda>_. I) (?s w t)" for d w t
    by (intro wp_mono [OF negotiate_loop_keeps]) (auto simp: agreed_chunk_smallest wp_ret)
  then show ?thesis unfolding negotiate_chunk_def
    using assms(1) by (auto simp: wp_simps i_all relay_msg_def [symmetric])
qed

lemma choose_chunk_keeps:
  assumes "I s" "at_start A s"
  shows "wp (choose_chunk E A n) (\<lambda>_ s. I s \<and> settled A s) (\<lambda>_. I) s"
proof (cases "ra_negotiate A")
  case True
  then show ?thesis
    by (auto simp: choose_chunk_def wp_simps settled_def asked_def i_size
        intro!: wp_mono [OF negotiate_chunk_keeps [OF assms]])
next
  case False
  then show ?thesis using assms i_size [of s]
    by (auto simp: choose_chunk_def wp_simps settled_def at_start_def agreed_size_def adverts_def)
qed

lemma open_session_keeps: "I s \<Longrightarrow> at_start A s \<Longrightarrow>
    wp (open_session E A n) (\<lambda>_ s. I s \<and> settled A s) (\<lambda>_. I) s"
  unfolding open_session_def
  by (auto simp: wp_simps intro!: wp_mono [OF choose_chunk_keeps]
      wp_mono [OF step_invariant.begin_session_keeps [OF steps]])

text \<open>The commit phase starts with every byte acknowledged, or with a device that said \<open>SUCCESS\<close>.\<close>

lemma before_commit_keeps: "I s \<Longrightarrow> at_start A s \<Longrightarrow>
    wp (bindP (open_session E A n) (\<lambda>_. main_loop E A n n))
      (\<lambda>r s. I s \<and> (r = None \<longrightarrow> may_commit A s) \<and> (\<forall>x. r = Some x \<longrightarrow> gave_up A x s)) (\<lambda>_. I) s"
  by (auto simp: wp_simps intro!: wp_mono [OF open_session_keeps]
      wp_mono [OF step_invariant.main_loop_keeps [OF steps]])

end

section \<open>How a relay ends\<close>

definition commit_sent :: "relay_args \<Rightarrow> 'w relay_state \<Rightarrow> bool" where
  "commit_sent A s \<longleftrightarrow> (\<exists>a. (relay_msg A Commit, a) \<in> set (rs_sent s))"

definition uncommitted :: "relay_args \<Rightarrow> 'w relay_state \<Rightarrow> bool" where
  "uncommitted A s \<longleftrightarrow> \<not> rs_committed s \<and> \<not> commit_sent A s"

text \<open>
  What each reason of an outcome says of the state the relay ended in. An upload that is not to be
  committed ends with every byte acknowledged, or early if the device reports \<open>SUCCESS\<close> by itself.
\<close>

definition ends :: "relay_args \<Rightarrow> outcome \<Rightarrow> 'w relay_state \<Rightarrow> bool" where
  "ends A r s \<longleftrightarrow> reports A r s \<and>
     (case oc_reason r of
        OK_STAGED \<Rightarrow> oc_ok r \<and> commit_sent A s \<and> rs_staged s \<and> \<not> rs_succeeded s \<and> rs_failed s = None
          \<and> oc_detail r = Staged
      | OK_SUCCESS \<Rightarrow> oc_ok r \<and> commit_sent A s \<and> rs_succeeded s \<and> rs_failed s = None \<and> oc_detail r = Success
      | OK_STAGED_NO_TRANSFER \<Rightarrow> oc_ok r \<and> \<not> commit_sent A s \<and> rs_staged s \<and> rs_failed s = None
          \<and> oc_detail r = StagedNoTransfer
      | OK_COMMITTED_UNCONFIRMED \<Rightarrow> oc_ok r \<and> commit_sent A s \<and> \<not> rs_staged s \<and> \<not> rs_succeeded s
          \<and> rs_failed s = None \<and> oc_detail r = CommittedUnconfirmed
      | OK_LINK_AFTER_COMMIT \<Rightarrow> oc_ok r \<and> (commit_sent A s \<or> rs_staged s) \<and> rs_broken s
          \<and> oc_detail r = LinkDroppedAfterCommit
      | FAIL_DEVICE \<Rightarrow> \<not> oc_ok r \<and> (\<exists>why. rs_failed s = Some why \<and> oc_detail r = DeviceSaid why)
      | FAIL_STALLED \<Rightarrow> gave_up A r s \<and> stalled A s \<and> \<not> commit_sent A s
      | FAIL_DEADLINE \<Rightarrow> gave_up A r s \<and> overdue A s \<and> \<not> commit_sent A s
      | FAIL_TOO_LOSSY \<Rightarrow> gave_up A r s \<and> too_lossy s \<and> \<not> commit_sent A s
      | FAIL_LINK_DROPPED \<Rightarrow> \<not> oc_ok r \<and> \<not> commit_sent A s \<and> \<not> rs_staged s \<and> rs_broken s
          \<and> oc_detail r = LinkDropped
      | OK_UPLOAD_ONLY \<Rightarrow> oc_ok r \<and> \<not> commit_sent A s \<and> \<not> ra_commit A \<and> rs_failed s = None
          \<and> (all_acked A s \<or> rs_succeeded s) \<and> oc_detail r = UploadedOnly)"

lemma relay_msg_eq [simp]: "(relay_msg A b = relay_msg A c) = (b = c)"
  by (simp add: relay_msg_def ota_message_def)

lemma commit_sent_simps [simp]:
  "commit_sent A (s\<lparr>rs_world := w\<rparr>) = commit_sent A s"
  "commit_sent A (s\<lparr>rs_now := t\<rparr>) = commit_sent A s"
  "commit_sent A (s\<lparr>rs_broken := br\<rparr>) = commit_sent A s"
  "commit_sent A (s\<lparr>rs_committed := c\<rparr>) = commit_sent A s"
  "commit_sent A (s\<lparr>rs_progress := p\<rparr>) = commit_sent A s"
  "commit_sent A (s\<lparr>rs_quieted := q\<rparr>) = commit_sent A s"
  "commit_sent A (s\<lparr>rs_quieted_log := ql\<rparr>) = commit_sent A s"
  "commit_sent A (s\<lparr>rs_sent := l @ [(relay_msg A b, a)]\<rparr>)
     = (b = Commit \<or> commit_sent A (s\<lparr>rs_sent := l\<rparr>))"
  by (auto simp: commit_sent_def)

lemmas ends_finish = ends_def [of A "\<lparr>oc_ok = ok, oc_detail = d, oc_acked = a, oc_total = t,
    oc_resumes = r, oc_reason = why\<rparr>" for A ok d a t r why]

text \<open>Acknowledged bytes never go down, and what the device has confirmed stays confirmed.\<close>

lemma fold_status_mono:
  "rs_acked s \<le> rs_acked (fold_status sid st s)"
  "rs_staged s \<Longrightarrow> rs_staged (fold_status sid st s)"
  "rs_succeeded s \<Longrightarrow> rs_succeeded (fold_status sid st s)"
  by (simp_all add: fold_status_def)

lemma restored_simps [simp]:
  "commit_sent A (restored E s) = commit_sent A s" "reports A r (restored E s) = reports A r s"
  "all_acked A (restored E s) = all_acked A s" "rs_staged (restored E s) = rs_staged s"
  "rs_succeeded (restored E s) = rs_succeeded s" "rs_failed (restored E s) = rs_failed s"
  "stalled A (restored E s) = stalled A s" "overdue A (restored E s) = overdue A s"
  "too_lossy (restored E s) = too_lossy s" "rs_acked (restored E s) = rs_acked s"
  "rs_resumes (restored E s) = rs_resumes s" "rs_broken s \<Longrightarrow> rs_broken (restored E s)"
  by (simp_all add: restored_def reports_def all_acked_def commit_sent_def stalled_def overdue_def
      too_lossy_def split: sum.split)

lemma ends_restored: "ends A r s \<Longrightarrow> ends A r (restored E s)"
  by (cases "oc_reason r") (simp_all add: ends_def gave_up_def)

text \<open>An \<open>OSError\<close> comes from a call that raised one.\<close>

definition marks :: "('w, 'a) prog \<Rightarrow> bool" where
  "marks m \<longleftrightarrow> (\<forall>s s'. m s = Some (Inl OSError, s') \<longrightarrow> rs_broken s')"

named_theorems marks

lemma marks_bind [marks]: "marks m \<Longrightarrow> (\<And>x. marks (f x)) \<Longrightarrow> marks (bindP m f)"
  by (auto simp: marks_def bindP_def split: option.splits sum.splits)

lemma marks_basic [marks]: "marks (ret x)" "marks (modify g)" "marks (gets h)" "marks (send_op E m)"
  "marks (recv_op E t)" "marks (clock_op E)" "marks (quiesce_op E b)" "marks (image_op A offset n)"
  "marks (fold_op E sid raw)" "marks (emit A n st)" "marks (abort E A msg)" "marks (finish A ok d rsn)"
  "marks (\<lambda>_. None)" "marks (\<lambda>s. Some (Inl DecodeError, s))"
  by (auto simp: marks_def ret_def modify_def gets_def send_op_def recv_op_def clock_op_def quiesce_op_def
      image_op_def fold_op_def emit_def abort_def finish_def case_prod_beta split: sum.splits option.splits if_splits)

lemma marks_if [marks]: "marks m \<Longrightarrow> marks m' \<Longrightarrow> marks (if b then m else m')"
  by simp

lemma marks_option [marks]: "marks m \<Longrightarrow> (\<And>x. marks (f x)) \<Longrightarrow> marks (case v of None \<Rightarrow> m | Some x \<Rightarrow> f x)"
  by (simp split: option.split)

lemma marks_turn [marks]: "marks m \<Longrightarrow> marks m' \<Longrightarrow> (\<And>r. marks (f r)) \<Longrightarrow>
    marks (case t of Continue \<Rightarrow> m | Break \<Rightarrow> m' | Return r \<Rightarrow> f r)"
  by (simp split: turn.split)

lemma marks_drain [marks]: "marks (drain E sid n raw)"
  by (induction n arbitrary: raw; case_tac raw) (auto intro!: marks)

lemma marks_pump [marks]: "marks (pump E sid n t)"
  unfolding pump_def by (intro marks)

lemma marks_negotiate [marks]: "marks (negotiate_loop E sid d n k)"
  by (induction n arbitrary: k) (auto intro!: marks)

lemma marks_turns [marks]: "marks (after_pump E A)" "marks (send_turn E A n)" "marks (resume_turn E A r)"
  unfolding after_pump_def send_turn_def resume_turn_def return_op_def Let_def by (intro marks)+

lemma marks_main_turn [marks]: "marks (main_turn E A n)"
  unfolding main_turn_def return_op_def by (intro marks)

lemma marks_loops [marks]: "marks (main_loop E A n k)" "marks (commit_loop E A n d k)"
  by (induction k) (auto intro!: marks)

lemma marks_transfer: "marks (transfer E A n)"
  unfolding transfer_def open_session_def choose_chunk_def negotiate_chunk_def begin_session_def
    after_loop_def commit_phase_def await_verdict_def
  by (intro marks)

lemma wp_marks: "marks m \<Longrightarrow> wp m Q R s \<Longrightarrow> wp m Q (\<lambda>e s. R e s \<and> (e = OSError \<longrightarrow> rs_broken s)) s"
  by (auto simp: marks_def wp_def split: option.splits sum.splits)

locale commit_invariant = transfer_invariant +
  assumes i_commit: "I s \<Longrightarrow> all_acked A s \<or> rs_succeeded s \<Longrightarrow>
      I (s\<lparr>rs_sent := rs_sent s @ [(relay_msg A Commit, rs_acked s)]\<rparr>)"
    and i_committed: "I s \<Longrightarrow> commit_sent A s \<Longrightarrow> I (s\<lparr>rs_committed := True\<rparr>)"
begin

lemma pre_commit: "transfer_invariant A (\<lambda>s. I s \<and> uncommitted A s)"
  by unfold_locales
     (auto simp: i_all i_chunk_settled i_begin_settled i_plain i_size i_heard uncommitted_def commit_sent_def)

lemma post_commit: "pump_invariant A (\<lambda>s. I s \<and> commit_sent A s \<and> rs_committed s)"
  by unfold_locales (auto simp: i_ghosts commit_sent_def)

lemma commit_loop_keeps: "I s \<and> commit_sent A s \<and> rs_committed s \<Longrightarrow>
    wp (commit_loop E A n d k) (\<lambda>_ s. I s \<and> commit_sent A s \<and> rs_committed s)
      (\<lambda>_ s. I s \<and> commit_sent A s \<and> rs_committed s) s"
proof (induction k arbitrary: s)
  case (Suc k)
  then show ?case
    using pump_invariant.pump_then [OF post_commit, of "s\<lparr>rs_world := w, rs_now := t\<rparr>" for w t]
    by (auto simp: wp_simps i_ghosts commit_sent_def)
qed (simp add: wp_simps)

lemma await_verdict_keeps: "I s \<and> commit_sent A s \<and> rs_committed s \<Longrightarrow>
    wp (await_verdict E A n) (\<lambda>r s. I s \<and> ends A r s)
      (\<lambda>_ s. I s \<and> commit_sent A s \<and> rs_committed s) s"
  unfolding await_verdict_def
  by (auto simp: wp_simps i_ghosts commit_sent_def ends_def reports_def split: option.split
      intro!: wp_mono [OF commit_loop_keeps])

lemma commit_phase_keeps:
  assumes I: "I s" and u: "uncommitted A s" and acked: "all_acked A s \<or> rs_succeeded s"
  shows "wp (commit_phase E A n) (\<lambda>r s. I s \<and> ends A r s)
      (\<lambda>_ s. I s \<and> commit_sent A s = rs_committed s) s"
proof -
  let ?s = "\<lambda>p w. s\<lparr>rs_progress := p, rs_world := w,
      rs_sent := rs_sent s @ [(relay_msg A Commit, rs_acked s)]\<rparr>"
  have sent: "I (?s p w)" for p w
    using i_commit [OF i_world [OF i_progress [OF I, of p], of w]] acked by (simp add: all_acked_def)
  have "I (?s p w\<lparr>rs_committed := True\<rparr>)" for p w
    by (rule i_committed [OF sent]) simp
  then have "wp (await_verdict E A n) (\<lambda>r s. I s \<and> ends A r s)
      (\<lambda>_ s. I s \<and> commit_sent A s = rs_committed s) (?s p w\<lparr>rs_committed := True\<rparr>)" for p w
    by (intro wp_mono [OF await_verdict_keeps]) auto
  then show ?thesis
    unfolding commit_phase_def
    using u by (simp add: wp_simps I i_ghosts i_progress uncommitted_def commit_sent_def)
qed

lemma after_loop_keeps:
  assumes I: "I s" "uncommitted A s" "may_commit A s"
  shows "wp (after_loop E A n) (\<lambda>r s. I s \<and> ends A r s)
      (\<lambda>_ s. I s \<and> commit_sent A s = rs_committed s) s"
proof (cases "rs_failed s = None \<and> \<not> rs_staged s \<and> ra_commit A")
  case True
  then show ?thesis using I commit_phase_keeps [of s n]
    by (simp add: after_loop_def wp_simps may_commit_def disj_commute)
next
  case False
  then show ?thesis using I unfolding after_loop_def
    by (auto simp: wp_simps i_all uncommitted_def ends_finish reports_def may_commit_def all_acked_def
        split: option.split)
qed

lemma transfer_keeps:
  assumes "I s" "uncommitted A s" "at_start A s"
  shows "wp (transfer E A n) (\<lambda>r s. I s \<and> ends A r s) (\<lambda>_ s. I s \<and> commit_sent A s = rs_committed s) s"
proof -
  have "transfer E A n = bindP (bindP (open_session E A n) (\<lambda>_. main_loop E A n n))
      (\<lambda>r. case r of Some out \<Rightarrow> ret out | None \<Rightarrow> after_loop E A n)"
    by (auto simp: transfer_def bindP_def fun_eq_iff split: option.split sum.split)
  moreover have "ends A r s" if "gave_up A r s" "uncommitted A s" for r s
    using that by (auto simp: gave_up_def ends_def uncommitted_def)
  moreover have "wp (bindP (open_session E A n) (\<lambda>_. main_loop E A n n))
      (\<lambda>r. wp (case r of Some out \<Rightarrow> ret out | None \<Rightarrow> after_loop E A n)
         (\<lambda>r s. I s \<and> ends A r s) (\<lambda>_ s. I s \<and> commit_sent A s = rs_committed s))
      (\<lambda>_ s. I s \<and> commit_sent A s = rs_committed s) s"
    by (rule wp_mono [OF transfer_invariant.before_commit_keeps [OF pre_commit]])
       (use assms calculation in \<open>auto simp: wp_ret after_loop_keeps uncommitted_def split: option.split\<close>)
  ultimately show ?thesis by (simp add: wp_bind)
qed

end

locale relay_invariant = commit_invariant +
  assumes i_quieted: "I s \<Longrightarrow> I (s\<lparr>rs_quieted := b\<rparr>)"
    and i_quieted_log: "I s \<Longrightarrow> I (s\<lparr>rs_quieted_log := l\<rparr>)"
begin

lemma relay_keeps:
  assumes "I s" "uncommitted A s" "at_start A s"
  shows "wp (restoring E (catching A (relay_try E A n))) (\<lambda>r s. I s \<and> ends A r s) (\<lambda>_. I) s"
proof -
  have res: "I (restored E s)" if "I s" for s
    using that by (simp add: restored_def i_ghosts i_quieted_log split: sum.split)
  have drop: "wp (link_dropped A) (\<lambda>r s. I (restored E s) \<and> ends A r (restored E s)) R s"
    if "I s" "commit_sent A s = rs_committed s" "rs_broken s" for s R
    using that by (auto simp: wp_simps ends_finish reports_def res intro!: ends_restored)
  have after: "wp (transfer E A n) (\<lambda>r s. I (restored E s) \<and> ends A r (restored E s))
      (\<lambda>e s. case e of OSError \<Rightarrow> wp (link_dropped A)
                  (\<lambda>r s. I (restored E s) \<and> ends A r (restored E s)) (\<lambda>_ s. I (restored E s)) s
             | DecodeError \<Rightarrow> I (restored E s)) s" if "I s" "uncommitted A s" "at_start A s" for s
    using that by (intro wp_mono [OF wp_marks [OF marks_transfer transfer_keeps]])
      (auto simp: res drop ends_restored split: ota_exn.split)
  have at_start_kept: "at_start A (s\<lparr>rs_world := w, rs_quieted_log := l, rs_quieted := q\<rparr>)" for w l q
    using assms(3) by (simp add: at_start_def unopened_def)
  show ?thesis
    unfolding relay_try_def
    using assms
    by (auto simp: wp_simps i_ghosts i_quieted_log i_quieted uncommitted_def at_start_kept
        split: sum.split simp del: wp_link_dropped intro!: after drop)
qed

end

section \<open>The safety properties as invariants\<close>

text \<open>A commit went out with every byte acknowledged, or after the device said \<open>SUCCESS\<close>.\<close>

definition commit_inv :: "relay_args \<Rightarrow> 'w relay_state \<Rightarrow> bool" where
  "commit_inv A s \<longleftrightarrow> (\<forall>(m, a) \<in> set (rs_sent s).
     om_body m = Commit \<longrightarrow> im_len (ra_image A) \<le> a \<or> rs_succeeded s)"

interpretation commit_safe: relay_invariant E A "commit_inv A" for E A
  by unfold_locales (auto simp: commit_inv_def all_acked_def fold_status_mono(3) plain_def)







text \<open>The transfer itself never touches the quiesce.\<close>

interpretation quiesce_kept: commit_invariant E A "\<lambda>s. rs_quieted s = q \<and> rs_quieted_log s = l" for E A q l
  by unfold_locales simp_all

lemma transfer_quiesce:
  assumes "uncommitted A s" "at_start A s"
  shows "wp (transfer E A n) (\<lambda>_ t. rs_quieted t = rs_quieted s \<and> rs_quieted_log t = rs_quieted_log s)
     (\<lambda>_ t. rs_quieted t = rs_quieted s \<and> rs_quieted_log t = rs_quieted_log s) s"
  by (rule wp_mono [OF quiesce_kept.transfer_keeps [of s "rs_quieted s" "rs_quieted_log s"]])
     (simp_all add: assms)

section \<open>Concrete relays\<close>

text \<open>
  A scripted link for the witnesses: \<open>recv\<close> gives the answers in turn and then nothing, the clock goes
  up by one at each reading, every send succeeds. A payload \<open>[k, n]\<close> is a status of state \<open>k\<close> with \<open>n\<close>
  bytes received.
\<close>

type_synonym script = "bytes option list \<times> real"

definition script_status :: "bytes \<Rightarrow> ota_status option" where
  "script_status b =
     (if length b \<noteq> 2 then None
      else Some \<lparr>os_session_id = 0,
        os_state = (if b ! 0 = 1 then StateSuccess else if b ! 0 = 2 then StateStaged
                    else if b ! 0 = 3 then StateNeedsResume else StateOther 0),
        os_bytes_received = uint (b ! 1), os_error_code = [], os_error_message = [],
        os_max_chunk_bytes = 0\<rparr>)"

definition script_env :: "bool \<Rightarrow> script ota_env" where
  "script_env acks = \<lparr>e_ser = (\<lambda>_. []), e_parse = script_status, e_send = (\<lambda>_ w. (True, w)),
     e_recv = (\<lambda>_ (q, t). case q of [] \<Rightarrow> (Inr None, (q, t)) | r # q' \<Rightarrow> (Inr r, (q', t))),
     e_clock = (\<lambda>(q, t). (t, (q, t + 1))),
     e_quiesce = (\<lambda>_ w. (Inr acks, w))\<rparr>"

definition script_args :: relay_args where
  "script_args = \<lparr>ra_image = bytes_image [10, 20, 30], ra_fw_version = [], ra_board = [],
     ra_target_device = [], ra_session_id = DEFAULT_SESSION_ID, ra_window = 100, ra_chunk = 2,
     ra_chunk_cap = 0, ra_negotiate = False, ra_commit = True, ra_query_wait = 1, ra_stall_timeout = 45,
     ra_soft_retry = 6, ra_commit_wait = 8, ra_deadline_s = 900, ra_max_resumes = None,
     ra_quiesce = True\<rparr>"

text \<open>Two chunks, both acknowledged, a commit and a \<open>STAGED\<close>.\<close>

definition script_input :: script where
  "script_input = ([None, None, Some [0, 2], None, Some [0, 3], None, Some [2, 3], None], 0)"

lemma script_run: "(case relay (script_env True) 9 script_args script_input of
    Some (Inr r, s) \<Rightarrow> oc_reason r = OK_STAGED \<and> oc_ok r \<and> oc_acked r = 3 \<and>
      map (om_body \<circ> fst) (rs_sent s) =
        [Begin 3 2 [] [], Chunk 0 [10, 20], Chunk 2 [30], Commit]
  | _ \<Rightarrow> False)"
  by code_simp

text \<open>An image whose source cannot be read ends the relay as a link that dropped.\<close>

lemma unreadable_image_blames_the_link: "(case relay (script_env True) 9
      (script_args\<lparr>ra_image := \<lparr>im_len = 3, im_read = (\<lambda>_ _. Inl ())\<rparr>\<rparr>) ([], 0) of
    Some (Inr r, s) \<Rightarrow> oc_reason r = FAIL_LINK_DROPPED \<and> oc_detail r = LinkDropped
  | _ \<Rightarrow> False)"
  by code_simp

section \<open>Properties\<close>

lemma init_uncommitted: "uncommitted A (init_relay A w)"
  by (simp add: uncommitted_def commit_sent_def init_relay_def)

lemma init_at_start: "at_start A (init_relay A w)"
  by (simp add: at_start_def unopened_def init_relay_def)




lemma script_result:
  "\<exists>r s. relay (script_env True) 9 script_args script_input = Some (Inr r, s)
    \<and> oc_reason r = OK_STAGED \<and> oc_ok r
    \<and> map (om_body \<circ> fst) (rs_sent s) = [Begin 3 2 [] [], Chunk 0 [10, 20], Chunk 2 [30], Commit]"
  using script_run by (auto split: option.splits sum.splits) (metis obj_sumE)

lemma sent_body:
  assumes "map (om_body \<circ> fst) l = bs" "b \<in> set bs"
  shows "\<exists>m a. (m, a) \<in> set l \<and> om_body m = b"
proof -
  have "b \<in> set (map (om_body \<circ> fst) l)" using assms by simp
  then show ?thesis by auto
qed





text \<open>
  C2. A commit is never sent early: if a commit went out, then at that moment every byte of the image was
  acknowledged, or the device had reported \<open>SUCCESS\<close> of its own accord.
\<close>

theorem ota_commit_after_all_acked:
  assumes "relay E n A w = Some (res, s)" and "(m, acked) \<in> set (rs_sent s)" and "om_body m = Commit"
  shows "im_len (ra_image A) \<le> acked \<or> rs_succeeded s"
proof -
  have "commit_inv A (init_relay A w)" by (simp add: commit_inv_def init_relay_def)
  from commit_safe.relay_keeps [OF this init_uncommitted init_at_start, of E n] assms(1)
  have "commit_inv A s" unfolding relay_def wp_def by (auto split: sum.splits)
  then show ?thesis using assms(2,3) by (auto simp: commit_inv_def)
qed

theorem ota_commit_after_all_acked_witness:
  "\<exists>r s m a. relay (script_env True) 9 script_args script_input = Some (Inr r, s)
    \<and> (m, a) \<in> set (rs_sent s) \<and> om_body m = Commit
    \<and> (im_len (ra_image script_args) \<le> a \<or> rs_succeeded s)"
proof -
  obtain r s where run: "relay (script_env True) 9 script_args script_input = Some (Inr r, s)"
    and log: "map (om_body \<circ> fst) (rs_sent s) = [Begin 3 2 [] [], Chunk 0 [10, 20], Chunk 2 [30], Commit]"
    using script_result by (elim exE conjE) (rule that)
  obtain m a where m: "(m, a) \<in> set (rs_sent s)" "om_body m = Commit"
    using sent_body [OF log, of Commit] by auto
  show ?thesis using run m ota_commit_after_all_acked [OF run m] by blast
qed



text \<open>
  The link is put back exactly when the quiesce was acknowledged: on every way out of the relay,
  \<open>quiesce(False)\<close> has been called after \<open>quiesce(True)\<close> if that call returned true; if it returned false
  or raised, which also happens when only the device's answer was lost, it is never called.
\<close>

theorem ota_quiesce_restored_if_acked:
  assumes "relay E n A w = Some (res, s)"
  shows "rs_quieted_log s =
    (if \<not> ra_quiesce A then []
     else if fst (e_quiesce E True w) = Inr True then [True, False] else [True])"
proof -
  let ?s = "init_relay A w"
  let ?w = "snd (e_quiesce E True w)"
  let ?Q = "\<lambda>l s. rs_quieted_log (restored E s) = l"
  have keep: "wp (transfer E A n) (\<lambda>_. ?Q l)
      (\<lambda>e s. case e of OSError \<Rightarrow> wp (link_dropped A) (\<lambda>_. ?Q l) (\<lambda>_. ?Q l) s
             | DecodeError \<Rightarrow> ?Q l s) t"
    if "uncommitted A t" "at_start A t" "l = rs_quieted_log t @ (if rs_quieted t then [False] else [])" for t l
    by (rule wp_mono [OF transfer_quiesce [OF that(1,2)]])
       (use that in \<open>auto simp: restored_def wp_link_dropped wp_finish split: ota_exn.split sum.split\<close>)
  have start: "uncommitted A ?s" "at_start A ?s" "rs_quieted ?s = False" "rs_quieted_log ?s = []" "rs_world ?s = w"
    by (rule init_uncommitted, rule init_at_start) (simp_all add: init_relay_def)
  have "wp (restoring E (catching A (relay_try E A n)))
      (\<lambda>_ s. rs_quieted_log s = (if \<not> ra_quiesce A then []
         else if fst (e_quiesce E True w) = Inr True then [True, False] else [True]))
      (\<lambda>_ s. rs_quieted_log s = (if \<not> ra_quiesce A then []
         else if fst (e_quiesce E True w) = Inr True then [True, False] else [True])) ?s"
  proof (cases "ra_quiesce A")
    case False
    then show ?thesis using keep [OF start(1,2), of "[]"] start
      by (simp add: wp_restoring wp_catching relay_try_def wp_bind wp_ret)
  next
    case True
    have after: "uncommitted A (?s\<lparr>rs_world := ?w, rs_quieted_log := [True], rs_quieted := b\<rparr>)"
      "at_start A (?s\<lparr>rs_world := ?w, rs_quieted_log := [True], rs_quieted := b\<rparr>)" for b
      using start(1,2) by (simp_all add: uncommitted_def at_start_def unopened_def)
    show ?thesis
    proof (cases "fst (e_quiesce E True w)")
      case (Inl u)
      then show ?thesis using True start
        by (simp add: wp_restoring wp_catching relay_try_def wp_bind wp_quiesce wp_link_dropped
            wp_finish restored_def)
    next
      case (Inr b)
      then show ?thesis
        using True start keep [OF after(1) [of True] after(2), of "[True, False]"] keep [OF after(1) [of False] after(2), of "[True]"]
        by (cases b) (simp_all add: wp_restoring wp_catching relay_try_def wp_bind wp_quiesce wp_modify)
    qed
  qed
  then show ?thesis using assms unfolding relay_def wp_def by (auto split: sum.splits)
qed

theorem ota_quiesce_restored_if_acked_witness:
  "\<exists>r s. relay (script_env True) 9 script_args script_input = Some (Inr r, s)
    \<and> rs_quieted_log s = [True, False]"
proof -
  obtain r s where run: "relay (script_env True) 9 script_args script_input = Some (Inr r, s)"
    using script_result by blast
  have "ra_quiesce script_args" "fst (e_quiesce (script_env True) True script_input) = Inr True"
    by (simp_all add: script_env_def script_args_def)
  with ota_quiesce_restored_if_acked [OF run] run show ?thesis by auto
qed

text \<open>
  A \<open>SUCCESS\<close> status that arrives before any byte is sent ends the transfer as a success: the relay
  sends no chunk, commits an image the device never received, and reports \<open>OK_SUCCESS\<close> with zero bytes
  acknowledged; with \<open>commit\<close> off it reports that every byte was uploaded.
\<close>

theorem ota_early_success_commits_nothing:
  "(case relay (script_env True) 5 script_args ([Some [1, 0], None], 0) of
      Some (Inr r, s) \<Rightarrow> oc_ok r \<and> oc_reason r = OK_SUCCESS \<and> oc_acked r = 0
        \<and> map (om_body \<circ> fst) (rs_sent s) = [Begin 3 2 [] [], Commit]
    | _ \<Rightarrow> False)
   \<and> (case relay (script_env True) 5 (script_args\<lparr>ra_commit := False\<rparr>) ([Some [1, 0], None], 0) of
      Some (Inr r, s) \<Rightarrow> oc_ok r \<and> oc_reason r = OK_UPLOAD_ONLY \<and> oc_acked r = 0
        \<and> map (om_body \<circ> fst) (rs_sent s) = [Begin 3 2 [] [], Abort (lit ''no-flash'')]
    | _ \<Rightarrow> False)"
  by (intro conjI; code_simp)

end
