(* ===== verification/OtaTermination.thy ===== *)
theory OtaTermination
  imports OtaSafety
begin

text \<open>
  The OTA relay returns. Its loops are bounded by the clock (the overall deadline, the query wait, the
  commit wait) and by the statuses that are waiting at once, so it returns when the clock advances and
  \<open>recv\<close> does not produce statuses without end; the fuel that suffices is given.
\<close>

section \<open>Total weakest preconditions\<close>

definition twp :: "('w, 'a) prog \<Rightarrow> ('a \<Rightarrow> 'w relay_state \<Rightarrow> bool) \<Rightarrow> 'w relay_state \<Rightarrow> bool" where
  "twp m Q s \<longleftrightarrow> (case m s of
       None \<Rightarrow> False
     | Some (Inl e, s') \<Rightarrow> True
     | Some (Inr x, s') \<Rightarrow> Q x s')"

named_theorems twp_simps

lemma twp_ret [twp_simps]: "twp (ret x) Q s = Q x s"
  by (simp add: twp_def ret_def)

lemma twp_bind [twp_simps]: "twp (bindP m f) Q s = twp m (\<lambda>x. twp (f x) Q) s"
  by (simp add: twp_def bindP_def split: option.split sum.split prod.split)

lemma twp_modify [twp_simps]: "twp (modify f) Q s = Q () (f s)"
  by (simp add: twp_def modify_def)

lemma twp_gets [twp_simps]: "twp (gets f) Q s = Q (f s) s"
  by (simp add: twp_def gets_def)

lemma twp_if [twp_simps]: "twp (if b then m else m') Q s = (if b then twp m Q s else twp m' Q s)"
  by simp

lemma twp_raise [twp_simps]: "twp (\<lambda>s. Some (Inl e, s)) Q s"
  by (simp add: twp_def)

lemma twp_finish: "(\<And>r. Q r s) \<Longrightarrow> twp (finish A ok d why) Q s"
  by (simp add: twp_def finish_def)

lemma twp_send: "(\<And>w' l. w' = snd (e_send E (e_ser E m) (rs_world s)) \<Longrightarrow>
    Q () (s\<lparr>rs_world := w', rs_sent := l\<rparr>)) \<Longrightarrow> twp (send_op E m) Q s"
  by (auto simp: twp_def send_op_def case_prod_beta)

lemma twp_clock [twp_simps]: "twp (clock_op E) Q s =
    Q (fst (e_clock E (rs_world s)))
      (s\<lparr>rs_world := snd (e_clock E (rs_world s)), rs_now := fst (e_clock E (rs_world s))\<rparr>)"
  by (simp add: twp_def clock_op_def case_prod_beta)

lemma twp_image [twp_simps]: "twp (image_op A offset n) Q s =
    (case im_read (ra_image A) offset n of Inl _ \<Rightarrow> True | Inr data \<Rightarrow> Q data s)"
  by (simp add: twp_def image_op_def split: sum.split)

lemma twp_recv [twp_simps]: "twp (recv_op E t) Q s =
    (case fst (e_recv E t (rs_world s)) of
       Inl _ \<Rightarrow> True
     | Inr raw \<Rightarrow> Q raw (s\<lparr>rs_world := snd (e_recv E t (rs_world s))\<rparr>))"
  by (simp add: twp_def recv_op_def case_prod_beta split: sum.split)

lemma twp_fold [twp_simps]: "twp (fold_op E sid raw) Q s =
    (case e_parse E raw of None \<Rightarrow> True | Some st \<Rightarrow> Q () (fold_status sid st s))"
  by (simp add: twp_def fold_op_def split: option.split)

lemma twp_emit [twp_simps]: "twp (emit A n st) Q s = Q () (s\<lparr>rs_progress := rs_progress s @
     [\<lparr>pg_sent = n, pg_acked = rs_acked s, pg_total = im_len (ra_image A),
       pg_resumes = rs_resumes s, pg_state = st\<rparr>]\<rparr>)"
  by (simp add: emit_def twp_modify)

lemma twp_abort: "(\<And>w l b. Q () (s\<lparr>rs_world := w, rs_sent := l, rs_broken := b\<rparr>)) \<Longrightarrow> twp (abort E A why) Q s"
proof -
  assume q: "\<And>w l b. Q () (s\<lparr>rs_world := w, rs_sent := l, rs_broken := b\<rparr>)"
  have "Q () (s\<lparr>rs_world := w, rs_broken := b\<rparr>)" "Q () (s\<lparr>rs_world := w, rs_sent := l\<rparr>)" for w l b
    using q [where l = "rs_sent s" and w = w and b = b] q [where l = l and w = w and b = "rs_broken s"]
    by simp_all
  then show ?thesis by (auto simp: twp_def abort_def send_op_def case_prod_beta)
qed

lemma twp_mono: "twp m Q s \<Longrightarrow> (\<And>x s. Q x s \<Longrightarrow> Q' x s) \<Longrightarrow> twp m Q' s"
  by (auto simp: twp_def split: option.splits sum.splits)

section \<open>A clock that advances and a link that dries up\<close>

definition clock_advances :: "'w ota_env \<Rightarrow> ('w \<Rightarrow> real) \<Rightarrow> real \<Rightarrow> bool" where
  "clock_advances E now \<delta> \<longleftrightarrow> 0 < \<delta>
     \<and> (\<forall>w. fst (e_clock E w) = now w \<and> now w + \<delta> \<le> now (snd (e_clock E w)))
     \<and> (\<forall>b w. now w \<le> now (snd (e_send E b w)))
     \<and> (\<forall>t w. now w \<le> now (snd (e_recv E t w)))"

text \<open>Of \<open>n\<close> consecutive polls one finds no status waiting.\<close>

fun dries_up :: "'w ota_env \<Rightarrow> nat \<Rightarrow> real \<Rightarrow> 'w \<Rightarrow> bool" where
  "dries_up E 0 t w = False"
| "dries_up E (Suc n) t w =
     (case e_recv E t w of (Inr (Some _), w') \<Rightarrow> dries_up E n 0 w' | _ \<Rightarrow> True)"

lemma clock_recv: "clock_advances E now \<delta> \<Longrightarrow> now w \<le> now (snd (e_recv E t w))"
  and clock_send: "clock_advances E now \<delta> \<Longrightarrow> now w \<le> now (snd (e_send E b w))"
  and clock_read: "clock_advances E now \<delta> \<Longrightarrow> fst (e_clock E w) = now w"
  and clock_tick: "clock_advances E now \<delta> \<Longrightarrow> now w + \<delta> \<le> now (snd (e_clock E w))"
  and clock_step: "clock_advances E now \<delta> \<Longrightarrow> 0 < \<delta>"
  by (simp_all add: clock_advances_def)

definition later :: "('w \<Rightarrow> real) \<Rightarrow> 'w relay_state \<Rightarrow> 'w relay_state \<Rightarrow> bool" where
  "later now s s' \<longleftrightarrow> now (rs_world s) \<le> now (rs_world s') \<and> rs_t_start s' = rs_t_start s"

lemma drain_returns:
  assumes c: "clock_advances E now \<delta>"
  shows "(case raw of None \<Rightarrow> True | Some _ \<Rightarrow> dries_up E n 0 (rs_world s)) \<Longrightarrow>
     twp (drain E sid n raw) (\<lambda>_. later now s) s"
proof (induction n arbitrary: raw s)
  case (Suc n)
  show ?case
  proof (cases raw)
    case (Some b)
    let ?w = "snd (e_recv E 0 (rs_world s))"
    have "twp (drain E sid n r) (\<lambda>_. later now s) (fold_status sid st s\<lparr>rs_world := ?w\<rparr>)"
      if "fst (e_recv E 0 (rs_world s)) = Inr r" for r st
      using Suc.prems Some that clock_recv [OF c, of "rs_world s" 0]
      by (intro twp_mono [OF Suc.IH]) (auto simp: later_def split: option.splits prod.splits)
    then show ?thesis by (auto simp: Some twp_simps split: option.split sum.split)
  qed (simp add: twp_simps later_def)
qed (auto simp: twp_simps later_def split: option.splits)

lemma dries_up_mono: "dries_up E n t w \<Longrightarrow> n \<le> m \<Longrightarrow> dries_up E m t w"
proof (induction n arbitrary: m t w)
  case (Suc n)
  then show ?case by (cases m) (auto split: prod.splits sum.splits option.splits)
qed simp

lemma pump_returns:
  assumes c: "clock_advances E now \<delta>" and d: "\<forall>t w. dries_up E B t w" and n: "B \<le> Suc n"
  shows "twp (pump E sid n t) (\<lambda>_. later now s) s"
proof -
  have dry: "dries_up E (Suc n) t (rs_world s)" by (rule dries_up_mono [OF _ n]) (simp add: d)
  have "twp (drain E sid n r) (\<lambda>_. later now s) (s\<lparr>rs_world := snd (e_recv E t (rs_world s))\<rparr>)"
    if "fst (e_recv E t (rs_world s)) = Inr r" for r
    using dry that clock_recv [OF c, of "rs_world s" t]
    by (intro twp_mono [OF drain_returns [OF c]]) (auto simp: later_def split: option.splits prod.splits)
  then show ?thesis by (simp add: pump_def twp_simps split: sum.split)
qed

section \<open>The loops\<close>

lemma negotiate_loop_returns:
  assumes c: "clock_advances E now \<delta>"
  shows "deadline - now (rs_world s) < real n * \<delta> \<Longrightarrow>
     twp (negotiate_loop E sid deadline (Suc n) k) (\<lambda>_. later now s) s"
proof (induction n arbitrary: s k)
  case 0
  then show ?case using clock_tick [OF c, of "rs_world s"] clock_step [OF c]
    by (simp add: twp_simps clock_read [OF c] later_def)
next
  case (Suc n)
  let ?w = "snd (e_clock E (snd (e_clock E (rs_world s))))"
  note t = clock_tick [OF c, of "rs_world s"] clock_tick [OF c, of "snd (e_clock E (rs_world s))"]
    clock_step [OF c]
  have step: "twp (negotiate_loop E sid deadline (Suc n) k) (\<lambda>_. later now s)
      s1" if "rs_world s1 = snd (e_recv E r ?w)" "rs_t_start s1 = rs_t_start s" for r k s1
    using that Suc.prems t clock_recv [OF c, of ?w r]
    by (intro twp_mono [OF Suc.IH]) (auto simp: later_def algebra_simps)
  then show ?case using t
    by (subst negotiate_loop.simps)
       (auto simp: twp_simps later_def split: sum.split option.split simp del: negotiate_loop.simps)
qed

lemma commit_loop_returns:
  assumes c: "clock_advances E now \<delta>" and d: "\<forall>t w. dries_up E B t w" and n: "B \<le> Suc n"
  shows "deadline - now (rs_world s) < real k * \<delta> \<Longrightarrow>
     twp (commit_loop E A n deadline (Suc k)) (\<lambda>_ _. True) s"
proof (induction k arbitrary: s)
  case 0
  then show ?case by (simp add: twp_simps clock_read [OF c])
next
  case (Suc k)
  have "twp (pump E (ra_session_id A) n (1 / 20)) (\<lambda>_. twp (commit_loop E A n deadline (Suc k)) (\<lambda>_ _. True))
      (s\<lparr>rs_world := snd (e_clock E (rs_world s)), rs_now := fst (e_clock E (rs_world s))\<rparr>)"
    using Suc.prems clock_tick [OF c, of "rs_world s"]
    by (intro twp_mono [OF pump_returns [OF c d n]] Suc.IH) (auto simp: later_def algebra_simps)
  then show ?case
    by (subst commit_loop.simps) (simp add: twp_simps del: commit_loop.simps)
qed

text \<open>A turn that goes on has read a clock not past the deadline, and time has passed since.\<close>

definition went_on :: "relay_args \<Rightarrow> ('w \<Rightarrow> real) \<Rightarrow> real \<Rightarrow> 'w relay_state \<Rightarrow> turn \<Rightarrow> 'w relay_state \<Rightarrow> bool" where
  "went_on A now \<delta> s t s' \<longleftrightarrow> (t = Continue \<longrightarrow>
     now (rs_world s) + \<delta> \<le> now (rs_world s') \<and> rs_t_start s' = rs_t_start s
     \<and> now (rs_world s) - rs_t_start s \<le> ra_deadline_s A)"

lemma after_pump_returns:
  assumes c: "clock_advances E now \<delta>"
  shows "twp (after_pump E A) (\<lambda>t s'. t = Continue \<longrightarrow> later now s s') s"
  using clock_tick [OF c, of "rs_world s"] clock_step [OF c]
  unfolding after_pump_def return_op_def
  by (auto simp: twp_simps Let_def later_def intro!: twp_abort twp_finish)

lemma send_turn_returns:
  assumes c: "clock_advances E now \<delta>" and d: "\<forall>t w. dries_up E B t w" and n: "B \<le> Suc n"
  shows "twp (send_turn E A n) (\<lambda>t s'. t = Continue \<longrightarrow> later now s s') s"
proof -
  have pumped: "twp (pump E (ra_session_id A) n t)
      (\<lambda>_. twp (after_pump E A) (\<lambda>t s'. t = Continue \<longrightarrow> later now s s')) s1" if "later now s s1" for t s1
    by (rule twp_mono [OF pump_returns [OF c d n]], rule twp_mono [OF after_pump_returns [OF c]])
       (use that in \<open>auto simp: later_def\<close>)
  show ?thesis
    unfolding send_turn_def
    by (auto simp: twp_simps Let_def later_def clock_send [OF c] split: sum.split
        intro!: twp_send pumped [unfolded later_def])
qed

lemma resume_turn_returns: "twp (resume_turn E A r) (\<lambda>t s'. t = Continue \<longrightarrow> later now s s') s"
  unfolding resume_turn_def return_op_def
  by (auto simp: twp_simps later_def intro!: twp_abort twp_finish)

lemma main_turn_returns:
  assumes c: "clock_advances E now \<delta>" and d: "\<forall>t w. dries_up E B t w" and n: "B \<le> Suc n"
  shows "twp (main_turn E A n) (went_on A now \<delta> s) s"
proof -
  let ?s = "s\<lparr>rs_world := snd (e_clock E (rs_world s)), rs_now := now (rs_world s)\<rparr>"
  have on: "twp m (went_on A now \<delta> s) ?s"
    if "twp m (\<lambda>t s'. t = Continue \<longrightarrow> later now ?s s') ?s"
      "now (rs_world s) - rs_t_start s \<le> ra_deadline_s A" for m
    using that clock_tick [OF c, of "rs_world s"]
    by (intro twp_mono [OF that(1)]) (auto simp: went_on_def later_def)
  show ?thesis
    unfolding main_turn_def return_op_def
    by (auto simp: twp_simps clock_read [OF c] went_on_def split: option.split
        intro!: twp_abort twp_finish on send_turn_returns [OF c d n] resume_turn_returns)
qed

lemma main_loop_returns:
  assumes c: "clock_advances E now \<delta>" and d: "\<forall>t w. dries_up E B t w" and n: "B \<le> Suc n"
  shows "ra_deadline_s A - (now (rs_world s) - rs_t_start s) < real k * \<delta> \<Longrightarrow>
     twp (main_loop E A n (Suc k)) (\<lambda>_ _. True) s"
proof (induction k arbitrary: s)
  case 0
  show ?case
    by (auto simp: twp_simps intro!: twp_mono [OF main_turn_returns [OF c d n]] split: turn.split)
       (use 0 in \<open>auto simp: went_on_def\<close>)
next
  case (Suc k)
  have "twp (main_loop E A n (Suc k)) (\<lambda>_ _. True) s'" if "went_on A now \<delta> s Continue s'" for s'
    using that Suc.prems by (intro Suc.IH) (auto simp: went_on_def algebra_simps)
  then show ?case
    by (subst main_loop.simps)
       (auto simp: twp_simps simp del: main_loop.simps intro!: twp_mono [OF main_turn_returns [OF c d n]]
         split: turn.split)
qed

section \<open>The whole relay\<close>

lemma choose_chunk_returns:
  assumes c: "clock_advances E now \<delta>" and q: "ra_query_wait A < real k * \<delta>"
  shows "twp (choose_chunk E A (Suc k)) (\<lambda>_ _. True) s"
proof -
  have wait: "now x + ra_query_wait A - now (snd (e_clock E x)) < real k * \<delta>" for x
    using q clock_tick [OF c, of x] clock_step [OF c] by simp
  have "twp (negotiate_loop E sid (now x + ra_query_wait A) (Suc k) 0) Q
      s1" if "rs_world s1 = snd (e_clock E x)" "\<And>r s. Q r s" for s1 sid x Q
    by (rule twp_mono [OF negotiate_loop_returns [OF c]]) (use that wait in auto)
  then have neg: "twp (negotiate_chunk E (Suc k) (ra_chunk A) (ra_chunk_cap A) (ra_session_id A)
      (ra_target_device A) (ra_query_wait A)) (\<lambda>_ _. True) s"
    unfolding negotiate_chunk_def
    by (auto simp: twp_simps clock_read [OF c] simp del: negotiate_loop.simps intro!: twp_send)
  show ?thesis
    by (cases "ra_negotiate A") (auto simp: choose_chunk_def twp_simps intro!: twp_mono [OF neg])
qed

lemma begin_session_returns:
  assumes c: "clock_advances E now \<delta>" and d: "\<forall>t w. dries_up E B t w" and n: "B \<le> Suc n"
  shows "twp (begin_session E A n) (\<lambda>_ s'. rs_t_start s' \<le> now (rs_world s')) s"
proof -
  have pumped: "twp (pump E (ra_session_id A) n t) (\<lambda>_ s'. rs_t_start s' \<le> now (rs_world s')) s1"
    if "rs_t_start s1 \<le> now (rs_world s1)" for t s1
    by (rule twp_mono [OF pump_returns [OF c d n]]) (use that in \<open>auto simp: later_def\<close>)
  have tick: "now x \<le> now (snd (e_clock E x))" for x
    using clock_tick [OF c, of x] clock_step [OF c] by simp
  show ?thesis
    unfolding begin_session_def
    by (auto simp: twp_simps clock_read [OF c] tick split: option.split intro!: twp_send pumped)
qed

lemma after_loop_returns:
  assumes c: "clock_advances E now \<delta>" and d: "\<forall>t w. dries_up E B t w" and n: "B \<le> Suc (Suc k)"
    and wait: "min (ra_stall_timeout A) (ra_commit_wait A) < real k * \<delta>"
  shows "twp (after_loop E A (Suc k)) (\<lambda>_ _. True) s"
proof -
  have bound: "now x + min (ra_stall_timeout A) (ra_commit_wait A) - now (snd (e_clock E x)) < real k * \<delta>" for x
    using wait clock_tick [OF c, of x] clock_step [OF c] by simp
  have comm: "twp (commit_loop E A (Suc k) (now x + min (ra_stall_timeout A) (ra_commit_wait A)) (Suc k)) Q
      s1" if "rs_world s1 = snd (e_clock E x)" "\<And>r s. Q r s" for s1 x Q
    by (rule twp_mono [OF commit_loop_returns [OF c d n]]) (use that bound in auto)
  have "twp (await_verdict E A (Suc k)) (\<lambda>_ _. True) s1" for s1
    unfolding await_verdict_def twp_bind twp_clock clock_read [OF c]
    by (rule comm) (auto simp: twp_simps split: option.split intro!: twp_finish)
  then show ?thesis
    unfolding after_loop_def commit_phase_def
    by (auto simp: twp_simps split: option.split intro!: twp_finish twp_abort twp_send)
qed

lemma transfer_returns:
  assumes c: "clock_advances E now \<delta>" and d: "\<forall>t w. dries_up E B t w" and n: "B \<le> Suc (Suc k)"
    and q: "ra_query_wait A < real k * \<delta>" and dl: "ra_deadline_s A < real k * \<delta>"
    and wait: "min (ra_stall_timeout A) (ra_commit_wait A) < real k * \<delta>"
  shows "twp (transfer E A (Suc k)) (\<lambda>_ _. True) s"
proof -
  have loop: "twp (main_loop E A (Suc k) (Suc k)) (\<lambda>_ _. True) s" if "rs_t_start s \<le> now (rs_world s)" for s
    by (rule main_loop_returns [OF c d n]) (use that dl in simp)
  have "twp (open_session E A (Suc k)) (\<lambda>_ s'. rs_t_start s' \<le> now (rs_world s')) s"
    unfolding open_session_def twp_bind
    by (rule twp_mono [OF choose_chunk_returns [OF c q]]) (rule begin_session_returns [OF c d n])
  then show ?thesis
    unfolding transfer_def twp_bind
    by (rule twp_mono)
       (auto intro!: twp_mono [OF loop] after_loop_returns [OF c d n wait] simp: twp_ret split: option.split
         simp del: main_loop.simps)
qed

section \<open>Properties\<close>

text \<open>
  C9. The relay always returns: if each reading of the clock is at least \<open>\<delta>\<close> past the last and at most
  \<open>B\<close> polls in a row find a status, then a loop bound of \<open>k + 1\<close> with \<open>k\<close> times \<open>\<delta>\<close> beyond the overall
  deadline, the query wait and the commit wait is enough, whatever the device says and whichever calls
  fail.
\<close>

theorem ota_relay_returns:
  assumes "clock_advances E now \<delta>" and "\<forall>t w. dries_up E B t w" and "B \<le> k"
    and "ra_query_wait A < real k * \<delta>" and "ra_deadline_s A < real k * \<delta>"
    and "min (ra_stall_timeout A) (ra_commit_wait A) < real k * \<delta>"
  shows "\<exists>res s. relay E (Suc k) A w = Some (res, s)"
proof -
  have tw: "twp (transfer E A (Suc k)) (\<lambda>_ _. True) s" for s
    using transfer_returns [OF assms(1,2) _ assms(4-6)] assms(3) by simp
  have "transfer E A (Suc k) s \<noteq> None" for s
    using tw [of s] by (simp add: twp_def split: option.splits)
  then have t: "\<exists>res s'. transfer E A (Suc k) s = Some (res, s')" for s
    by (metis not_None_eq surj_pair)
  have body: "\<exists>res s'. relay_try E A (Suc k) s = Some (res, s')" for s
    using t unfolding relay_try_def
    by (cases "ra_quiesce A"; cases "fst (e_quiesce E True (rs_world s))")
       (auto simp: bindP_def quiesce_op_def modify_def ret_def case_prod_beta)
  have "\<exists>res s'. catching A (relay_try E A (Suc k)) s = Some (res, s')" for s
  proof -
    obtain res s' where r: "relay_try E A (Suc k) s = Some (res, s')" using body by blast
    have "\<exists>res t. link_dropped A s' = Some (res, t)"
      by (auto simp: link_dropped_def bindP_def gets_def finish_def)
    then show ?thesis by (cases res) (auto simp: catching_def r split: ota_exn.split)
  qed
  then obtain res s' where "catching A (relay_try E A (Suc k)) (init_relay A w) = Some (res, s')" by blast
  then show ?thesis by (auto simp: relay_def restoring_def quiesce_op_def case_prod_beta)
qed

lemma script_clock: "clock_advances (script_env acks) snd 1"
  by (auto simp: clock_advances_def script_env_def split: list.split)

text \<open>A link with nothing to say.\<close>

definition silent_env :: "script ota_env" where
  "silent_env = (script_env True)\<lparr>e_recv := (\<lambda>_ w. (Inr None, w))\<rparr>"

theorem ota_relay_returns_witness:
  "\<exists>res s. relay silent_env 902 script_args ([], 0) = Some (res, s)"
proof -
  have "clock_advances silent_env snd 1"
    using script_clock [of True] by (simp add: clock_advances_def silent_env_def)
  moreover have "\<forall>t w. dries_up silent_env (Suc 0) t w"
    by (simp add: silent_env_def)
  ultimately have "\<exists>res s. relay silent_env (Suc 901) script_args ([], 0) = Some (res, s)"
    by (rule ota_relay_returns) (simp_all add: script_args_def)
  then show ?thesis by simp
qed

end
