(* ===== verification/Recordings.thy ===== *)
theory Recordings
  imports Control
begin

text \<open>
  Pulling recorded sessions off a device, \<open>wire/recordings.py\<close>. What lies outside is \<open>pull_env\<close> over a
  world of any type \<open>'w\<close>: \<open>run\<close> (a command answered, or an exception), the data socket, and the
  caller's \<open>sink\<close>. \<open>recv_into\<close> never gives more than it is asked for, which \<open>take\<close> states.
  A call returns its result or exception, the world, and the log of what the sink was given.
\<close>

section \<open>Data\<close>

record file_entry =
  fe_name :: ustr
  fe_size :: int
  fe_mtime_ns :: int

record recording_entry =
  re_name :: ustr
  re_files :: "file_entry list"

record recordings_list =
  rl_recordings :: "recording_entry list"
  rl_next_cursor :: ustr
  rl_catalogue_generation :: int

record file_open =
  fo_port :: int
  fo_offset :: int
  fo_length :: int
  fo_file_size :: int
  fo_mtime_ns :: int
  fo_object_version :: int
  fo_catalogue_generation :: int

datatype result_payload = NoPayload | RecordingsPayload recordings_list | FileOpenPayload file_open
  | OtherPayload

record command_result =
  cr_ok :: bool
  cr_error_code :: ustr
  cr_error_message :: ustr
  cr_payload :: result_payload

text \<open>
  The \<open>ValueError\<close>s by cause, \<open>RecordingsError\<close> by its code (the device's own, or one of the two
  this module makes), and the exceptions of \<open>run\<close> and of the sink.
\<close>

datatype pull_error =
    NameEmpty | NameTooLong nat | NotPlainName | CursorTooLong nat | NotEncodable | NoTarget
  | Refused ustr ustr | WrongPayload | CursorStuck ustr | WrongSession | BadOpen | NoProgress nat int
  | RunRaised | SinkRaised

definition MAX_NAME_BYTES :: nat where "MAX_NAME_BYTES = 63"
definition MAX_OPENS_WITHOUT_PROGRESS :: nat where "MAX_OPENS_WITHOUT_PROGRESS = 5"
definition RECV_BUFFER_BYTES :: nat where "RECV_BUFFER_BYTES = 2 ^ 20"
definition DEFAULT_PORT :: int where "DEFAULT_PORT = 50002"

section \<open>Names and commands\<close>

text \<open>The code points of \<open>/\<close>, NUL and \<open>.\<close>.\<close>

definition check_name :: "ustr \<Rightarrow> bool \<Rightarrow> pull_error option" where
  "check_name name required =
     (if name = [] then if required then Some NameEmpty else None
      else case utf8 name of
             None \<Rightarrow> Some NotEncodable
           | Some raw \<Rightarrow>
               if length raw > MAX_NAME_BYTES then Some (NameTooLong (length raw))
               else if 47 \<in> set name \<or> 0 \<in> set name \<or> hd name = 46 then Some NotPlainName
               else None)"

definition checked :: "pull_error option \<Rightarrow> pull_error + unit" where
  "checked e = (case e of None \<Rightarrow> Inr () | Some e \<Rightarrow> Inl e)"

definition list_recordings_command ::
  "int \<Rightarrow> ustr \<Rightarrow> ustr \<Rightarrow> ustr \<Rightarrow> pull_error + command" where
  "list_recordings_command limit cursor session_name target_device =
     (case utf8 cursor of
        None \<Rightarrow> Inl NotEncodable
      | Some raw \<Rightarrow>
          if length raw > MAX_NAME_BYTES then Inl (CursorTooLong (length raw))
          else bindE (checked (check_name session_name False)) (\<lambda>_. Inr
            \<lparr>cmd_command_id = 0, cmd_target_device = target_device,
             cmd_body = ListRecordings limit cursor session_name\<rparr>))"

text \<open>The four \<open>expect_*\<close> arguments, which a pull pins to the file it opened first.\<close>

record expect =
  ex_size :: int
  ex_mtime_ns :: int
  ex_object_version :: int
  ex_generation :: int

definition open_recording_file_command ::
  "ustr \<Rightarrow> ustr \<Rightarrow> int \<Rightarrow> expect \<Rightarrow> ustr \<Rightarrow> pull_error + command" where
  "open_recording_file_command session_name file_name offset x target_device =
     bindE (checked (check_name session_name True)) (\<lambda>_.
     bindE (checked (check_name file_name True)) (\<lambda>_. Inr
       \<lparr>cmd_command_id = 0, cmd_target_device = target_device,
        cmd_body = OpenRecordingFile session_name file_name offset (ex_size x) (ex_mtime_ns x)
          (ex_object_version x) (ex_generation x)\<rparr>))"

definition delete_recording_command :: "ustr \<Rightarrow> ustr \<Rightarrow> pull_error + command" where
  "delete_recording_command session_name target_device =
     bindE (checked (check_name session_name True)) (\<lambda>_.
       if target_device = [] then Inl NoTarget
       else Inr \<lparr>cmd_command_id = 0, cmd_target_device = target_device,
                 cmd_body = DeleteRecording session_name\<rparr>)"

section \<open>Running commands\<close>

record 'w pull_env =
  p_run :: "command \<Rightarrow> 'w \<Rightarrow> (unit + command_result) \<times> 'w"
  p_connect :: "ustr \<Rightarrow> int \<Rightarrow> 'w \<Rightarrow> bool \<times> 'w"
  p_recv :: "nat \<Rightarrow> 'w \<Rightarrow> (unit + bytes) \<times> 'w"
  p_sink :: "int \<Rightarrow> bytes \<Rightarrow> 'w \<Rightarrow> bool \<times> 'w"

definition failed_code :: ustr where "failed_code = lit ''failed''"

definition judge :: "unit + command_result \<Rightarrow> pull_error + command_result" where
  "judge r = (case r of
       Inl _ \<Rightarrow> Inl RunRaised
     | Inr res \<Rightarrow>
         if \<not> cr_ok res
         then Inl (Refused (if cr_error_code res \<noteq> [] then cr_error_code res else failed_code)
                     (cr_error_message res))
         else Inr res)"

text \<open>\<open>_run\<close> of a command that may have failed to build.\<close>

definition run_command :: "'w pull_env \<Rightarrow> pull_error + command \<Rightarrow> 'w
    \<Rightarrow> (pull_error + command_result) \<times> 'w" where
  "run_command P c w = (case c of
       Inl e \<Rightarrow> (Inl e, w)
     | Inr cmd \<Rightarrow> (let (r, w') = p_run P cmd w in (judge r, w')))"

definition recordings_payload :: "command_result \<Rightarrow> pull_error + recordings_list" where
  "recordings_payload r = (case cr_payload r of RecordingsPayload p \<Rightarrow> Inr p | _ \<Rightarrow> Inl WrongPayload)"

definition file_open_payload :: "command_result \<Rightarrow> pull_error + file_open" where
  "file_open_payload r = (case cr_payload r of FileOpenPayload p \<Rightarrow> Inr p | _ \<Rightarrow> Inl WrongPayload)"

definition list_recordings :: "'w pull_env \<Rightarrow> int \<Rightarrow> ustr \<Rightarrow> ustr \<Rightarrow> 'w
    \<Rightarrow> (pull_error + recordings_list) \<times> 'w" where
  "list_recordings P limit cursor target_device w =
     (let (r, w') = run_command P (list_recordings_command limit cursor [] target_device) w
      in (bindE r recordings_payload, w'))"

text \<open>The loop of \<open>list_all_recordings\<close>, for at most the given number of pages.\<close>

fun list_pages :: "'w pull_env \<Rightarrow> int \<Rightarrow> ustr \<Rightarrow> nat \<Rightarrow> ustr \<Rightarrow> ustr set \<Rightarrow> recording_entry list \<Rightarrow> 'w
    \<Rightarrow> ((pull_error + recording_entry list) \<times> 'w) option" where
  "list_pages P page_limit target_device 0 cursor seen entries w = None"
| "list_pages P page_limit target_device (Suc n) cursor seen entries w =
     (let (r, w') = list_recordings P page_limit cursor target_device w in
      case r of
        Inl e \<Rightarrow> Some (Inl e, w')
      | Inr page \<Rightarrow>
          let entries = entries @ rl_recordings page; next_cursor = rl_next_cursor page in
          if next_cursor = [] then Some (Inr entries, w')
          else if next_cursor \<in> seen then Some (Inl (CursorStuck next_cursor), w')
          else list_pages P page_limit target_device n next_cursor (insert next_cursor seen) entries w')"

definition list_all_recordings :: "'w pull_env \<Rightarrow> nat \<Rightarrow> int \<Rightarrow> ustr \<Rightarrow> 'w
    \<Rightarrow> ((pull_error + recording_entry list) \<times> 'w) option" where
  "list_all_recordings P fuel page_limit target_device w =
     list_pages P page_limit target_device fuel [] {} [] w"

definition list_session_files_with_generation :: "'w pull_env \<Rightarrow> ustr \<Rightarrow> ustr \<Rightarrow> 'w
    \<Rightarrow> (pull_error + recording_entry \<times> int) \<times> 'w" where
  "list_session_files_with_generation P session_name target_device w =
     (let (r, w') = run_command P (list_recordings_command 0 [] session_name target_device) w
      in (bindE r (\<lambda>res. bindE (recordings_payload res) (\<lambda>page.
            case rl_recordings page of
              [e] \<Rightarrow> if re_name e = session_name then Inr (e, rl_catalogue_generation page)
                     else Inl WrongSession
            | _ \<Rightarrow> Inl WrongSession)), w'))"

definition list_session_files :: "'w pull_env \<Rightarrow> ustr \<Rightarrow> ustr \<Rightarrow> 'w
    \<Rightarrow> (pull_error + recording_entry) \<times> 'w" where
  "list_session_files P session_name target_device w =
     (let (r, w') = list_session_files_with_generation P session_name target_device w
      in (bindE r (\<lambda>(e, _). Inr e), w'))"

definition delete_recording :: "'w pull_env \<Rightarrow> ustr \<Rightarrow> ustr \<Rightarrow> 'w \<Rightarrow> (pull_error + unit) \<times> 'w" where
  "delete_recording P session_name target_device w =
     (let (r, w') = run_command P (delete_recording_command session_name target_device) w
      in (bindE r (\<lambda>_. Inr ()), w'))"

definition open_recording_file :: "'w pull_env \<Rightarrow> ustr \<Rightarrow> ustr \<Rightarrow> int \<Rightarrow> expect \<Rightarrow> ustr \<Rightarrow> 'w
    \<Rightarrow> (pull_error + file_open) \<times> 'w" where
  "open_recording_file P session_name file_name offset x target_device w =
     (let (r, w') = run_command P
            (open_recording_file_command session_name file_name offset x target_device) w
      in (bindE r (\<lambda>res. bindE (file_open_payload res) (\<lambda>opened.
            if fo_offset opened \<noteq> offset \<or> fo_offset opened + fo_length opened \<noteq> fo_file_size opened
            then Inl BadOpen else Inr opened)), w'))"

section \<open>Receiving and pulling\<close>

text \<open>Why a \<open>receive\<close> stopped short (its \<open>error\<close> field), or the sink's exception.\<close>

datatype received = Received nat bool | ReceiveRaised

type_synonym sink_log = "(int \<times> bytes) list"

function receive_loop :: "'w pull_env \<Rightarrow> file_open \<Rightarrow> nat \<Rightarrow> 'w \<Rightarrow> sink_log \<Rightarrow> received \<times> 'w \<times> sink_log" where
  "receive_loop P opened got w delivered =
     (if int got < fo_length opened
      then let want = min RECV_BUFFER_BYTES (nat (fo_length opened) - got);
               (r, w1) = p_recv P want w
           in case r of
                Inl _ \<Rightarrow> (Received got True, w1, delivered)
              | Inr data \<Rightarrow>
                  let chunk = take want data in
                  if chunk = [] then (Received got False, w1, delivered)
                  else let (ok, w2) = p_sink P (fo_offset opened + int got) chunk w1;
                           delivered = delivered @ [(fo_offset opened + int got, chunk)]
                       in if ok then receive_loop P opened (got + length chunk) w2 delivered
                          else (ReceiveRaised, w2, delivered)
      else (Received got False, w, delivered))"
  by auto
termination
  by (relation "measure (\<lambda>(P, opened, got, w, delivered). nat (fo_length opened) - got)")
     (auto simp: min_def split: if_splits intro!: diff_less_mono2)

declare receive_loop.simps [simp del]

definition receive :: "'w pull_env \<Rightarrow> ustr \<Rightarrow> file_open \<Rightarrow> 'w \<Rightarrow> sink_log \<Rightarrow> received \<times> 'w \<times> sink_log" where
  "receive P address opened w delivered =
     (let (ok, w') = p_connect P address (fo_port opened) w
      in if ok then receive_loop P opened 0 w' delivered else (Received 0 True, w', delivered))"

definition pinned :: "file_open \<Rightarrow> expect" where
  "pinned opened = \<lparr>ex_size = fo_file_size opened, ex_mtime_ns = fo_mtime_ns opened,
     ex_object_version = fo_object_version opened, ex_generation = fo_catalogue_generation opened\<rparr>"

fun pull_loop :: "'w pull_env \<Rightarrow> ustr \<Rightarrow> ustr \<Rightarrow> ustr \<Rightarrow> ustr \<Rightarrow> nat \<Rightarrow> nat \<Rightarrow> int \<Rightarrow> expect \<Rightarrow> nat \<Rightarrow> 'w
    \<Rightarrow> sink_log \<Rightarrow> ((pull_error + file_open) \<times> 'w \<times> sink_log) option" where
  "pull_loop P address session_name file_name target_device max_opens 0 offset x idle_opens w log1 = None"
| "pull_loop P address session_name file_name target_device max_opens (Suc n) offset x idle_opens w log1 =
     (let (r, w1) = open_recording_file P session_name file_name offset x target_device w in
      case r of
        Inl e \<Rightarrow> Some (Inl e, w1, log1)
      | Inr opened \<Rightarrow>
          if fo_length opened = 0 then Some (Inr opened, w1, log1)
          else (case receive P address opened w1 log1 of
                  (ReceiveRaised, w2, log2) \<Rightarrow> Some (Inl SinkRaised, w2, log2)
                | (Received got _, w2, log2) \<Rightarrow>
                    let offset = offset + int got in
                    if offset = fo_file_size opened then Some (Inr opened, w2, log2)
                    else if got \<noteq> 0
                    then pull_loop P address session_name file_name target_device max_opens n
                           offset (pinned opened) 0 w2 log2
                    else if idle_opens + 1 \<ge> max_opens
                    then Some (Inl (NoProgress (idle_opens + 1) offset), w2, log2)
                    else pull_loop P address session_name file_name target_device max_opens n
                           offset (pinned opened) (idle_opens + 1) w2 log2))"

definition pull_file :: "'w pull_env \<Rightarrow> nat \<Rightarrow> ustr \<Rightarrow> ustr \<Rightarrow> ustr \<Rightarrow> int \<Rightarrow> expect \<Rightarrow> ustr \<Rightarrow> nat \<Rightarrow> 'w
    \<Rightarrow> ((pull_error + file_open) \<times> 'w \<times> sink_log) option" where
  "pull_file P fuel address session_name file_name offset x target_device max_opens w =
     pull_loop P address session_name file_name target_device max_opens fuel offset x 0 w []"

section \<open>What the sink is given\<close>

text \<open>Writes that follow one another from \<open>offset\<close> without a gap, an overlap or an empty one.\<close>

fun contiguous :: "int \<Rightarrow> sink_log \<Rightarrow> bool" where
  "contiguous offset [] = True"
| "contiguous offset ((o1, data) # rest) =
     (o1 = offset \<and> data \<noteq> [] \<and> contiguous (offset + int (length data)) rest)"

definition log_bytes :: "sink_log \<Rightarrow> nat" where
  "log_bytes l = length (concat (map snd l))"

lemma log_bytes_simps [simp]: "log_bytes [] = 0" "log_bytes (l @ [(o1, d)]) = log_bytes l + length d"
  "log_bytes ((o1, d) # l) = length d + log_bytes l"
  by (simp_all add: log_bytes_def)

lemma contiguous_append [simp]:
  "contiguous offset (l @ [(o1, d)])
     = (contiguous offset l \<and> o1 = offset + int (log_bytes l) \<and> d \<noteq> [])"
  by (induction offset l rule: contiguous.induct) auto

lemma receive_loop_log:
  "receive_loop P opened got w l = (r, w', l') \<Longrightarrow> contiguous start l \<Longrightarrow>
     start + int (log_bytes l) = fo_offset opened + int got \<Longrightarrow> int got \<le> max 0 (fo_length opened) \<Longrightarrow>
     contiguous start l' \<and> (\<forall>n e. r = Received n e \<longrightarrow>
       start + int (log_bytes l') = fo_offset opened + int n \<and> int n \<le> max 0 (fo_length opened))"
proof (induction P opened got w l rule: receive_loop.induct)
  case (1 P opened got w l)
  show ?case
  proof (cases "int got < fo_length opened")
    case False
    then show ?thesis using "1.prems" by (auto simp: receive_loop.simps [of P opened got])
  next
    case True
    define want where "want = min RECV_BUFFER_BYTES (nat (fo_length opened) - got)"
    obtain ans w1 where ans: "p_recv P want w = (ans, w1)" by fastforce
    show ?thesis
    proof (cases ans)
      case (Inl u)
      then show ?thesis using "1.prems" True ans
        by (auto simp: receive_loop.simps [of P opened got] want_def)
    next
      case (Inr data)
      define chunk where "chunk = take want data"
      show ?thesis
      proof (cases "chunk = []")
        case True': True
        then show ?thesis using "1.prems" True ans Inr
          by (auto simp: receive_loop.simps [of P opened got] want_def chunk_def)
      next
        case False
        obtain ok w2 where sk: "p_sink P (fo_offset opened + int got) chunk w1 = (ok, w2)" by fastforce
        let ?l = "l @ [(fo_offset opened + int got, chunk)]"
        have c: "contiguous start ?l" using "1.prems" False by simp
        have len: "int (got + length chunk) \<le> max 0 (fo_length opened)"
          using True by (auto simp: chunk_def want_def min_def)
        have eq: "receive_loop P opened got w l = (if ok
            then receive_loop P opened (got + length chunk) w2 ?l else (ReceiveRaised, w2, ?l))"
          using True ans Inr False sk
          by (simp add: receive_loop.simps [of P opened got] want_def [symmetric] chunk_def Let_def)
        show ?thesis
        proof (cases ok)
          case ok: True
          show ?thesis
            by (rule "1.IH" [OF True want_def refl ans [symmetric] Inr chunk_def False refl
                  sk [symmetric] refl ok]) (use "1.prems" eq ok c len in auto)
        qed (use "1.prems" eq c in auto)
      qed
    qed
  qed
qed

lemma receive_log:
  assumes "receive P address opened w l = (r, w', l')" "contiguous start l"
    "start + int (log_bytes l) = fo_offset opened"
  shows "contiguous start l' \<and> (\<forall>n e. r = Received n e \<longrightarrow>
     start + int (log_bytes l') = fo_offset opened + int n \<and> int n \<le> max 0 (fo_length opened))"
proof (cases "fst (p_connect P address (fo_port opened) w)")
  case True
  then show ?thesis using receive_loop_log [of P opened 0 _ l r w' l' start] assms
    by (auto simp: receive_def case_prod_beta)
qed (use assms in \<open>auto simp: receive_def case_prod_beta\<close>)

lemma open_recording_file_ok:
  "open_recording_file P sn fn offset x t w = (Inr opened, w') \<Longrightarrow>
     fo_offset opened = offset \<and> offset + fo_length opened = fo_file_size opened"
  by (auto simp: open_recording_file_def case_prod_beta bindE_eq_Inr split: if_splits)

text \<open>One turn of the pull: it ends, or goes on from the bytes received.\<close>

lemma pull_turn:
  assumes "pull_loop P a sn fn t m (Suc n) offset x idle w l = Some (r, w', l')"
    and "contiguous start l" "start + int (log_bytes l) = offset"
  obtains (ended) "contiguous start l'" "\<forall>opened. r = Inr opened \<longrightarrow> start + int (log_bytes l') = fo_file_size opened"
  | (again) opened w1 got w2 l2 idle2 where
      "open_recording_file P sn fn offset x t w = (Inr opened, w1)"
      "contiguous start l2" "start + int (log_bytes l2) = offset + int got"
      "pull_loop P a sn fn t m n (offset + int got) (pinned opened) idle2 w2 l2 = Some (r, w', l')"
proof -
  obtain o1 w1 where op: "open_recording_file P sn fn offset x t w = (o1, w1)" by fastforce
  show thesis
  proof (cases o1)
    case (Inl e)
    then show thesis using assms op by (intro ended) auto
  next
    case (Inr opened)
    note ok = open_recording_file_ok [OF op [unfolded Inr]]
    obtain rc w2 l2 where rc: "receive P a opened w1 l = (rc, w2, l2)" by (metis prod_cases3)
    note log = receive_log [OF rc assms(2)]
    show thesis
    proof (cases "fo_length opened = 0")
      case True
      then show thesis using assms op Inr ok by (intro ended) auto
    next
      case ne: False
      show thesis
      proof (cases rc)
        case (Received got e)
        show thesis
        proof (cases "offset + int got = fo_file_size opened \<or> got = 0 \<and> m \<le> idle + 1")
          case True
          then show thesis using assms op Inr ok ne rc Received log by (intro ended) auto
        next
          case False
          then show thesis
            using assms op Inr ok ne rc Received log
            by (intro again [OF op [unfolded Inr], of l2 got "if got = 0 then idle + 1 else 0" w2])
               (auto simp: Let_def split: if_splits)
        qed
      qed (use assms op Inr ok ne rc log in \<open>auto intro: ended\<close>)
    qed
  qed
qed

lemma pull_loop_log:
  "pull_loop P a sn fn t m n offset x idle w l = Some (r, w', l') \<Longrightarrow> contiguous start l \<Longrightarrow>
     start + int (log_bytes l) = offset \<Longrightarrow>
     contiguous start l' \<and> (\<forall>opened. r = Inr opened \<longrightarrow> start + int (log_bytes l') = fo_file_size opened)"
proof (induction n arbitrary: offset x idle w l)
  case (Suc n)
  from Suc.prems show ?case
    by (cases rule: pull_turn) (use Suc.IH in blast)+
qed simp

section \<open>The loops end\<close>

definition size_pinned :: "'w pull_env \<Rightarrow> int \<Rightarrow> bool" where
  "size_pinned P F \<longleftrightarrow> (\<forall>cmd w res opened. fst (p_run P cmd w) = Inr res \<longrightarrow>
     cr_payload res = FileOpenPayload opened \<longrightarrow> fo_file_size opened = F)"

lemma open_size_pinned:
  "size_pinned P F \<Longrightarrow> open_recording_file P sn fn offset x t w = (Inr opened, w') \<Longrightarrow>
     fo_file_size opened = F"
  by (auto simp: open_recording_file_def run_command_def judge_def file_open_payload_def size_pinned_def
      case_prod_beta bindE_eq_Inr split: if_splits sum.splits result_payload.splits)

lemma receive_loop_bound:
  "int got \<le> max 0 (fo_length opened) \<Longrightarrow> fst (receive_loop P opened got w l) = Received n e \<Longrightarrow>
     int n \<le> max 0 (fo_length opened)"
proof (induction P opened got w l rule: receive_loop.induct)
  case (1 P opened got w l)
  define want where "want = min RECV_BUFFER_BYTES (nat (fo_length opened) - got)"
  have "int (got + length (take want data)) \<le> max 0 (fo_length opened)" if "int got < fo_length opened" for data
    using that by (auto simp: want_def min_def)
  then show ?case
    using "1.prems" "1.IH" [OF _ want_def refl prod.collapse _ refl _ refl prod.collapse refl]
    by (auto simp: receive_loop.simps [of P opened got] want_def [symmetric] Let_def case_prod_beta
        split: if_splits sum.splits)
qed

lemma receive_bound:
  "receive P a opened w l = (Received got e, w', l') \<Longrightarrow> int got \<le> max 0 (fo_length opened)"
  using receive_loop_bound [of 0 opened P "snd (p_connect P a (fo_port opened) w)" l got e]
  by (auto simp: receive_def case_prod_beta split: if_splits)

lemma pull_loop_returns:
  assumes pin: "size_pinned P F" and m: "0 < m"
  shows "idle < m \<Longrightarrow> nat (F - offset) * m + (m - idle) < n \<Longrightarrow>
     \<exists>res. pull_loop P a sn fn t m n offset x idle w l = Some res"
proof (induction n arbitrary: offset x idle w l)
  case (Suc n)
  obtain o1 w1 where op: "open_recording_file P sn fn offset x t w = (o1, w1)" by fastforce
  show ?case
  proof (cases o1)
    case (Inr opened)
    note ok = open_recording_file_ok [OF op [unfolded Inr]] open_size_pinned [OF pin op [unfolded Inr]]
    obtain rc w2 l2 where rc: "receive P a opened w1 l = (rc, w2, l2)" by (metis prod_cases3)
    show ?thesis
    proof (cases rc)
      case (Received got e)
      have go: "\<exists>res. pull_loop P a sn fn t m n (offset + int got) (pinned opened) 0 w2 l2 = Some res"
        if "got \<noteq> 0" "offset + int got \<noteq> F"
      proof (rule Suc.IH)
        have "offset + int got \<le> F" using receive_bound [OF rc [unfolded Received]] ok that by auto
        then have "nat (F - (offset + int got)) + 1 \<le> nat (F - offset)" using that by linarith
        then have "(nat (F - (offset + int got)) + 1) * m \<le> nat (F - offset) * m" by (rule mult_le_mono1)
        then show "nat (F - (offset + int got)) * m + (m - 0) < n" using Suc.prems by simp
      qed (rule m)
      have stay: "\<exists>res. pull_loop P a sn fn t m n offset (pinned opened) (idle + 1) w2 l2 = Some res"
        if "idle + 1 < m" using Suc.IH [of "idle + 1" offset] Suc.prems that by simp
      show ?thesis using op Inr rc Received go stay ok by (auto simp: Let_def)
    qed (use op Inr rc in auto)
  qed (use op in auto)
qed simp

lemma list_pages_returns:
  assumes fin: "finite C" and page: "\<forall>limit cursor w r w'. list_recordings P limit cursor t w = (Inr r, w')
     \<longrightarrow> rl_next_cursor r \<in> insert [] C"
  shows "seen \<subseteq> C \<Longrightarrow> card (C - seen) < n \<Longrightarrow> \<exists>res. list_pages P limit0 t n cursor seen es w = Some res"
proof (induction n arbitrary: cursor seen es w)
  case (Suc n)
  obtain r w1 where op: "list_recordings P limit0 cursor t w = (r, w1)" by fastforce
  show ?case
  proof (cases r)
    case (Inr pg)
    have "\<exists>res. list_pages P limit0 t n c (insert c seen) es' w1 = Some res"
      if "c = rl_next_cursor pg" "c \<noteq> []" "c \<notin> seen" for c es'
    proof (rule Suc.IH)
      have c: "c \<in> C" using page op Inr that by blast
      then show "insert c seen \<subseteq> C" using Suc.prems by simp
      have "C - insert c seen \<subset> C - seen" using c that by blast
      then have "card (C - insert c seen) < card (C - seen)" by (rule psubset_card_mono [rotated]) (simp add: fin)
      then show "card (C - insert c seen) < n" using Suc.prems by simp
    qed
    then show ?thesis using op Inr by (auto simp: Let_def)
  qed (use op in auto)
qed simp

section \<open>Properties\<close>

text \<open>A name the device accepts: a single path component of at most 63 bytes that is not hidden.\<close>

definition plain_name :: "ustr \<Rightarrow> bool" where
  "plain_name name \<longleftrightarrow> name \<noteq> [] \<and> 47 \<notin> set name \<and> 0 \<notin> set name \<and> hd name \<noteq> 46
     \<and> (\<exists>raw. utf8 name = Some raw \<and> length raw \<le> 63)"

lemma check_name_plain: "check_name name True = None \<longleftrightarrow> plain_name name"
  by (auto simp: check_name_def plain_name_def MAX_NAME_BYTES_def split: option.splits)

text \<open>A device holding one file, for the witnesses: it serves two bytes a connection.\<close>

definition sample_open :: "int \<Rightarrow> file_open" where
  "sample_open offset = \<lparr>fo_port = 50002, fo_offset = offset, fo_length = 5 - offset, fo_file_size = 5,
     fo_mtime_ns = 7, fo_object_version = 1, fo_catalogue_generation = 1\<rparr>"

definition sample_page :: "ustr \<Rightarrow> recordings_list" where
  "sample_page cursor = \<lparr>rl_recordings = [\<lparr>re_name = lit ''a'', re_files = []\<rparr>],
     rl_next_cursor = (if cursor = [] then lit ''x'' else []), rl_catalogue_generation = 0\<rparr>"

definition sample_run :: "command \<Rightarrow> bool \<Rightarrow> (unit + command_result) \<times> bool" where
  "sample_run cmd w =
     (Inr \<lparr>cr_ok = True, cr_error_code = [], cr_error_message = [],
           cr_payload = (case cmd_body cmd of
              OpenRecordingFile s f offset a b c d \<Rightarrow> FileOpenPayload (sample_open offset)
            | ListRecordings l cursor s \<Rightarrow> RecordingsPayload (sample_page cursor)
            | _ \<Rightarrow> NoPayload)\<rparr>, True)"

definition sample_pull :: "bool pull_env" where
  "sample_pull = \<lparr>p_run = sample_run, p_connect = (\<lambda>a port w. (True, w)),
     p_recv = (\<lambda>n w. (Inr (if w then [1, 2] else []), False)), p_sink = (\<lambda>o1 d w. (True, w))\<rparr>"

definition no_expect :: expect where
  "no_expect = \<lparr>ex_size = 0, ex_mtime_ns = 0, ex_object_version = 0, ex_generation = 0\<rparr>"

text \<open>
  C5. A pull delivers the file from its offset to its end with nothing missing, repeated or reordered:
  however often the connection drops and is opened again, the sink's writes follow one another without a
  gap or an overlap from the starting offset, also when the pull fails, and a pull that succeeds has
  delivered exactly up to the file's size.
\<close>

theorem pull_delivers_contiguously:
  assumes "pull_file P fuel address sn fn offset x t m w = Some (r, w', delivered)"
  shows "contiguous offset delivered
       \<and> (\<forall>opened. r = Inr opened \<longrightarrow> offset + int (log_bytes delivered) = fo_file_size opened)"
  using pull_loop_log [of P address sn fn t m fuel offset x 0 w "[]" r w' delivered offset] assms
  by (simp add: pull_file_def)

lemma sample_names: "check_name [115] True = None" "check_name [102] True = None"
  by code_simp+

lemma sample_open_at: "open_recording_file sample_pull [115] [102] offset x [] w
    = (Inr (sample_open offset), True)"
  by (simp add: open_recording_file_def run_command_def open_recording_file_command_def sample_names
      checked_def judge_def sample_pull_def sample_run_def file_open_payload_def sample_open_def)

lemma sample_receive:
  "receive sample_pull [] (sample_open 0) True [] = (Received 2 False, False, [(0, [1, 2])])"
  "receive sample_pull [] (sample_open 2) True l = (Received 2 False, False, l @ [(2, [1, 2])])"
  "receive sample_pull [] (sample_open 4) True l = (Received 1 False, False, l @ [(4, [1])])"
  by (simp_all add: receive_def sample_pull_def sample_open_def receive_loop.simps RECV_BUFFER_BYTES_def)

lemma sample_pull_run:
  "pull_file sample_pull (Suc (Suc (Suc 0))) [] [115] [102] 0 x [] 5 True
     = Some (Inr (sample_open 4), False, [(0, [1, 2]), (2, [1, 2]), (4, [1])])"
  by (simp add: pull_file_def sample_open_at sample_receive)
     (simp add: sample_open_def)

theorem pull_delivers_contiguously_witness:
  "0 + int (log_bytes [(0, [1, 2]), (2, [1, 2]), (4, [1])]) = fo_file_size (sample_open 4)"
  using pull_delivers_contiguously [OF sample_pull_run] by blast

text \<open>
  A pull returns: if the device keeps answering opens with the same file size and at least one idle
  open is tolerated, then one turn for every remaining byte times the tolerated idle opens, plus those of
  the end, is enough, whatever the sockets do.
\<close>

theorem pull_returns:
  assumes "size_pinned P F" and "0 < m" and "nat (F - offset) * m + m < fuel"
  shows "\<exists>res. pull_file P fuel address sn fn offset x t m w = Some res"
  unfolding pull_file_def using pull_loop_returns [OF assms(1,2)] assms(2,3) by simp

theorem pull_returns_witness:
  "\<exists>res. pull_file sample_pull 31 [] [115] [102] 0 no_expect [] 5 True = Some res"
proof -
  have "size_pinned sample_pull 5"
    by (auto simp: size_pinned_def sample_pull_def sample_run_def sample_open_def split: command_body.splits)
  then show ?thesis by (rule pull_returns) simp_all
qed

text \<open>
  Listing every session returns, with each page's entries in the order received: it asks for at most
  one page more than there are distinct cursors, because a cursor that comes back is refused.
\<close>

theorem list_all_returns:
  assumes "finite C" and "\<forall>limit cursor w r w'. list_recordings P limit cursor t w = (Inr r, w')
     \<longrightarrow> rl_next_cursor r \<in> insert [] C" and "card C < fuel"
  shows "\<exists>res. list_all_recordings P fuel page_limit t w = Some res"
  unfolding list_all_recordings_def using list_pages_returns [OF assms(1,2)] assms(3) by simp

theorem list_all_returns_witness:
  "\<exists>res. list_all_recordings sample_pull 2 0 [] True = Some res"
proof (rule list_all_returns)
  show "\<forall>limit cursor w r w'. list_recordings sample_pull limit cursor [] w = (Inr r, w')
     \<longrightarrow> rl_next_cursor r \<in> insert [] {lit ''x''}"
    by (auto simp: list_recordings_def run_command_def judge_def recordings_payload_def sample_pull_def
        sample_run_def sample_page_def bindE_eq_Inr list_recordings_command_def check_name_def checked_def
        split: option.splits if_splits sum.splits)
qed simp_all

text \<open>
  No path escapes: a command to open or delete a recording is built exactly when its names are
  single path components of 1 to 63 UTF-8 bytes without a leading dot (and a delete names its device),
  and it carries those names unchanged.
\<close>

theorem commands_carry_plain_names:
  "(open_recording_file_command sn fn offset x t = Inr c) =
     (plain_name sn \<and> plain_name fn \<and>
      c = \<lparr>cmd_command_id = 0, cmd_target_device = t,
           cmd_body = OpenRecordingFile sn fn offset (ex_size x) (ex_mtime_ns x)
             (ex_object_version x) (ex_generation x)\<rparr>)
   \<and> (delete_recording_command sn t = Inr c) =
     (plain_name sn \<and> t \<noteq> [] \<and>
      c = \<lparr>cmd_command_id = 0, cmd_target_device = t, cmd_body = DeleteRecording sn\<rparr>)"
  by (auto simp: open_recording_file_command_def delete_recording_command_def checked_def
      check_name_plain [symmetric] bindE_eq_Inr split: option.splits)

end
