(* ===== verification/DiagPull.thy ===== *)
theory DiagPull
  imports Control "HOL-Library.Sublist"
begin

text \<open>
  Pulling a diagnostic log, \<open>wire/diag.py\<close>. \<open>diag_env\<close> holds the \<open>send\<close>, \<open>recv\<close> and \<open>clock\<close>
  callables over a world \<open>'w\<close> and protobuf's coding. The generator \<open>_replies\<close> is one step,
  \<open>next_reply\<close>, which the two readers call in their loops with the deadline it keeps between yields.
\<close>

section \<open>Messages\<close>

definition DIAG_DEFAULT_SESSION_ID :: int where "DIAG_DEFAULT_SESSION_ID = 0xD1A6"

datatype diag_kind = DiagList | DiagRead (dk_name: ustr) (dk_offset: int) (dk_len: int) | DiagAbort

record diag_request =
  dq_session_id :: int
  dq_target_device :: ustr
  dq_kind :: diag_kind

text \<open>\<open>next_session_id\<close>: the id, and the counter after it.\<close>

definition diag_next_session_id :: "int \<Rightarrow> int \<times> int" where
  "diag_next_session_id counter = (counter, counter + 1)"

definition diag_message :: "int \<Rightarrow> ustr \<Rightarrow> diag_kind \<Rightarrow> diag_request" where
  "diag_message session_id target_device kind =
     \<lparr>dq_session_id = session_id, dq_target_device = target_device, dq_kind = kind\<rparr>"

record diag_file =
  df_name :: ustr
  df_size :: int
  df_bytes_valid :: int
  df_tier :: int

definition is_log :: "diag_file \<Rightarrow> bool" where
  "is_log f \<longleftrightarrow> suffix (lit ''.vdlg'') (df_name f)"

datatype diag_state = DiagDone | DiagFailed | DiagOther nat

datatype diag_body =
    NoReplyBody
  | Listing "diag_file list"
  | DiagChunk (dc_name: ustr) (dc_offset: int) (dc_data: bytes) (dc_last: bool)
  | DiagStatus diag_state (ds_error_code: ustr) (ds_error_message: ustr)

record diag_reply =
  dr_session_id :: int
  dr_body :: diag_body

text \<open>\<open>DiagError\<close> by code, a link error of \<open>send\<close> or \<open>recv\<close>, a reply that does not parse.\<close>

datatype diag_error = DiagTimeout | DiagGap ustr int | DiagDeclined ustr ustr | DiagLinkError | DiagDecodeError

record 'w diag_env =
  g_send :: "diag_request \<Rightarrow> 'w \<Rightarrow> bool \<times> 'w"
  g_recv :: "real \<Rightarrow> 'w \<Rightarrow> (unit + bytes option) \<times> 'w"
  g_parse :: "bytes \<Rightarrow> diag_reply option"
  g_clock :: "'w \<Rightarrow> real \<times> 'w"

section \<open>Replies\<close>

text \<open>The next reply of the session with the deadline it sets, in at most the given number of turns.\<close>

fun next_reply :: "'w diag_env \<Rightarrow> int \<Rightarrow> real \<Rightarrow> nat \<Rightarrow> real \<Rightarrow> 'w
    \<Rightarrow> ((diag_error + diag_reply \<times> real) \<times> 'w) option" where
  "next_reply G session_id timeout 0 deadline w = None"
| "next_reply G session_id timeout (Suc n) deadline w =
     (let (now, w) = g_clock G w; (r, w) = g_recv G (max 0 (deadline - now)) w in
      case r of
        Inl _ \<Rightarrow> Some (Inl DiagLinkError, w)
      | Inr None \<Rightarrow>
          let (now, w) = g_clock G w in
          if deadline \<le> now then Some (Inl DiagTimeout, w)
          else next_reply G session_id timeout n deadline w
      | Inr (Some raw) \<Rightarrow>
          (case g_parse G raw of
             None \<Rightarrow> Some (Inl DiagDecodeError, w)
           | Some reply \<Rightarrow>
               if dr_session_id reply \<noteq> session_id
               then next_reply G session_id timeout n deadline w
               else let (now, w) = g_clock G w in Some (Inr (reply, now + timeout), w)))"

definition declined :: "diag_state \<Rightarrow> ustr \<Rightarrow> bool" where
  "declined state code \<longleftrightarrow> code \<noteq> [] \<or> state = DiagFailed"

definition decline :: "ustr \<Rightarrow> ustr \<Rightarrow> diag_error" where
  "decline code message = DiagDeclined (if code \<noteq> [] then code else lit ''failed'') message"

section \<open>Listing\<close>

fun list_loop :: "'w diag_env \<Rightarrow> int \<Rightarrow> real \<Rightarrow> nat \<Rightarrow> nat \<Rightarrow> real \<Rightarrow> 'w
    \<Rightarrow> ((diag_error + diag_file list) \<times> 'w) option" where
  "list_loop G session_id timeout fuel 0 deadline w = None"
| "list_loop G session_id timeout fuel (Suc n) deadline w =
     (case next_reply G session_id timeout fuel deadline w of
        None \<Rightarrow> None
      | Some (Inl e, w) \<Rightarrow> Some (Inl e, w)
      | Some (Inr (reply, deadline), w) \<Rightarrow>
          (case dr_body reply of
             Listing files \<Rightarrow> Some (Inr files, w)
           | DiagStatus state code message \<Rightarrow>
               if declined state code then Some (Inl (decline code message), w)
               else list_loop G session_id timeout fuel n deadline w
           | _ \<Rightarrow> list_loop G session_id timeout fuel n deadline w))"

definition list_files :: "'w diag_env \<Rightarrow> nat \<Rightarrow> int \<Rightarrow> ustr \<Rightarrow> real \<Rightarrow> 'w
    \<Rightarrow> ((diag_error + diag_file list) \<times> 'w) option" where
  "list_files G fuel session_id target_device timeout w =
     (let (ok, w) = g_send G (diag_message session_id target_device DiagList) w in
      if \<not> ok then Some (Inl DiagLinkError, w)
      else let (now, w) = g_clock G w
           in list_loop G session_id timeout fuel fuel (now + timeout) w)"

section \<open>Reading a file\<close>

fun read_loop :: "'w diag_env \<Rightarrow> int \<Rightarrow> ustr \<Rightarrow> ustr \<Rightarrow> real \<Rightarrow> nat \<Rightarrow> nat \<Rightarrow> real \<Rightarrow> bytes \<Rightarrow> int \<Rightarrow> 'w
    \<Rightarrow> ((diag_error + bytes) \<times> 'w) option" where
  "read_loop G session_id target_device name timeout fuel 0 deadline out expect w = None"
| "read_loop G session_id target_device name timeout fuel (Suc n) deadline out expect w =
     (case next_reply G session_id timeout fuel deadline w of
        None \<Rightarrow> None
      | Some (Inl e, w) \<Rightarrow> Some (Inl e, w)
      | Some (Inr (reply, deadline), w) \<Rightarrow>
          (case dr_body reply of
             DiagChunk c_name c_offset c_data c_last \<Rightarrow>
               if c_name \<noteq> name \<or> c_offset \<noteq> expect
               then let (_, w) = g_send G (diag_message session_id target_device DiagAbort) w
                    in Some (Inl (DiagGap c_name c_offset), w)
               else let out = out @ c_data; expect = expect + int (length c_data)
                    in if c_last then Some (Inr out, w)
                       else read_loop G session_id target_device name timeout fuel n deadline out expect w
           | DiagStatus state code message \<Rightarrow>
               if state = DiagDone then Some (Inr out, w)
               else if declined state code then Some (Inl (decline code message), w)
               else read_loop G session_id target_device name timeout fuel n deadline out expect w
           | _ \<Rightarrow> read_loop G session_id target_device name timeout fuel n deadline out expect w))"

definition read_file :: "'w diag_env \<Rightarrow> nat \<Rightarrow> ustr \<Rightarrow> int \<Rightarrow> int \<Rightarrow> int \<Rightarrow> ustr \<Rightarrow> real \<Rightarrow> 'w
    \<Rightarrow> ((diag_error + bytes) \<times> 'w) option" where
  "read_file G fuel name offset len session_id target_device timeout w =
     (let (ok, w) = g_send G (diag_message session_id target_device (DiagRead name offset len)) w in
      if \<not> ok then Some (Inl DiagLinkError, w)
      else let (now, w) = g_clock G w
           in read_loop G session_id target_device name timeout fuel fuel (now + timeout) [] offset w)"

section \<open>What is read\<close>

lemma next_reply_ours:
  "next_reply G sid t n d w = Some (Inr (reply, d'), w') \<Longrightarrow>
     dr_session_id reply = sid \<and> (\<exists>raw. g_parse G raw = Some reply)"
  by (induction n arbitrary: d w)
     (auto simp: Let_def split: prod.splits sum.splits option.splits if_splits)

text \<open>A device that serves \<open>F\<close>: what it sends as a chunk of the file under this session is in the file.\<close>

definition serves :: "'w diag_env \<Rightarrow> int \<Rightarrow> ustr \<Rightarrow> bytes \<Rightarrow> bool" where
  "serves G sid name F \<longleftrightarrow> (\<forall>raw reply o1 data last1. g_parse G raw = Some reply \<longrightarrow>
     dr_session_id reply = sid \<longrightarrow> dr_body reply = DiagChunk name o1 data last1 \<longrightarrow>
     0 \<le> o1 \<longrightarrow> data = take (length data) (drop (nat o1) F))"

lemma take_drop_extend:
  "out = take (length out) (drop k F) \<Longrightarrow> d = take (length d) (drop (k + length out) F) \<Longrightarrow>
     out @ d = take (length (out @ d)) (drop k F)"
  by (metis drop_drop length_append take_add add.commute)

lemma read_loop_exact:
  assumes s: "serves G sid name F" and off: "0 \<le> offset"
  shows "read_loop G sid td name t fuel n d out (offset + int (length out)) w = Some (Inr res, w') \<Longrightarrow>
     out = take (length out) (drop (nat offset) F) \<Longrightarrow>
     res = take (length res) (drop (nat offset) F)"
proof (induction n arbitrary: d out w)
  case (Suc n)
  obtain r w1 where nr: "next_reply G sid t fuel d w = Some (r, w1)"
    using Suc.prems(1) by (cases "next_reply G sid t fuel d w") auto
  obtain reply d1 where r: "r = Inr (reply, d1)" using Suc.prems(1) nr by (cases r) auto
  note ours = next_reply_ours [OF nr [unfolded r]]
  show ?case
  proof (cases "dr_body reply")
    case (DiagChunk nm o1 data lst)
    with Suc.prems(1) nr r have eq: "nm = name" "o1 = offset + int (length out)"
      by (auto simp: case_prod_beta Let_def split: if_splits)
    then have "data = take (length data) (drop (nat offset + length out) F)"
      using s ours DiagChunk off by (fastforce simp: serves_def nat_add_distrib)
    note ext = take_drop_extend [OF Suc.prems(2) this]
    have "read_loop G sid td name t fuel (Suc n) d out (offset + int (length out)) w
      = (if lst then Some (Inr (out @ data), w1)
         else read_loop G sid td name t fuel n d1 (out @ data) (offset + int (length (out @ data))) w1)"
      by (simp add: nr r DiagChunk eq Let_def add.assoc)
    then show ?thesis using Suc.prems(1) Suc.IH [OF _ ext] ext by (cases lst) simp_all
  next
    case (DiagStatus st c m)
    then show ?thesis using Suc.IH Suc.prems nr r by (auto split: if_splits)
  qed (use Suc.IH Suc.prems nr r in auto)
qed simp

section \<open>Properties\<close>

text \<open>A scripted device for the witnesses: payload \<open>[o]\<close> is one byte of the file at offset \<open>o\<close>.\<close>

definition diag_script :: "bytes \<Rightarrow> diag_reply option" where
  "diag_script raw = (case raw of
     [o1] \<Rightarrow> Some \<lparr>dr_session_id = 7, dr_body = DiagChunk [] (uint o1) [9] (o1 = 1)\<rparr>
   | _ \<Rightarrow> None)"

definition diag_script_env :: "(bytes list \<times> real) diag_env" where
  "diag_script_env = \<lparr>g_send = (\<lambda>_ w. (True, w)),
     g_recv = (\<lambda>_ (q, t). case q of [] \<Rightarrow> (Inr None, (q, t)) | r # q' \<Rightarrow> (Inr (Some r), (q', t))),
     g_parse = diag_script, g_clock = (\<lambda>(q, t). (t, (q, t + 1)))\<rparr>"

lemma diag_script_serves: "serves diag_script_env 7 [] (replicate 256 9)"
proof -
  have "drop (nat (uint b)) (replicate 256 x) \<noteq> [] \<and> hd (drop (nat (uint b)) (replicate 256 x)) = x"
    for b :: byte and x :: byte
  proof -
    obtain k where "256 - unat b = Suc k" using unat_byte_less [of b] by (metis Suc_diff_Suc)
    then show ?thesis by (simp del: diff_is_0_eq)
  qed
  then show ?thesis
    by (auto simp: serves_def diag_script_env_def diag_script_def take_Suc simp del: drop_replicate
        split: list.splits)
qed

text \<open>
  A log is never spliced: against a device that serves file \<open>F\<close>, however its replies are lost,
  repeated or mixed with other sessions', a read that returns gives exactly the bytes of \<open>F\<close> from the
  requested offset on, up to where it stopped.
\<close>

theorem diag_read_is_contiguous:
  assumes "serves G sid name F" and "0 \<le> offset"
    and "read_file G fuel name offset len sid td t w = Some (Inr out, w')"
  shows "out = take (length out) (drop (nat offset) F)"
proof -
  obtain now w1 where "read_loop G sid td name t fuel fuel now [] offset w1 = Some (Inr out, w')"
    using assms(3) by (auto simp: read_file_def case_prod_beta Let_def split: if_splits)
  from read_loop_exact [OF assms(1,2), of td t fuel fuel now "[]"] this show ?thesis by simp
qed

theorem diag_read_is_contiguous_witness:
  "\<exists>out w'. read_file diag_script_env 9 [] 0 0 7 [] 5 ([[0], [1]], 0) = Some (Inr out, w')
     \<and> out = take (length out) (replicate 256 9)"
proof -
  have "case read_file diag_script_env 9 [] 0 0 7 [] 5 ([[0], [1]], 0) of
      Some (Inr out, _) \<Rightarrow> out = [9, 9] | _ \<Rightarrow> False"
    by code_simp
  then obtain out w' where "read_file diag_script_env 9 [] 0 0 7 [] 5 ([[0], [1]], 0) = Some (Inr out, w')"
    by (simp split: option.splits prod.splits sum.splits)
  from diag_read_is_contiguous [OF diag_script_serves _ this] this show ?thesis by auto
qed

text \<open>
  A chunk that is not the next expected bytes ends the read as a gap after an abort is sent, whatever
  it contains and however much was read before.
\<close>

theorem diag_gap_ends_the_read:
  assumes "next_reply G sid t fuel d w = Some (Inr (reply, d'), w1)"
    and "dr_body reply = DiagChunk c_name c_offset c_data c_last"
    and "c_name \<noteq> name \<or> c_offset \<noteq> expect"
  shows "read_loop G sid td name t fuel (Suc n) d out expect w
    = Some (Inl (DiagGap c_name c_offset), snd (g_send G (diag_message sid td DiagAbort) w1))"
  using assms by (auto simp: case_prod_beta)

theorem diag_gap_ends_the_read_witness:
  "\<exists>w. read_loop diag_script_env 7 [] [] 5 (Suc 8) (Suc 2) 9 [] 0 ([[4]], 0) = Some (Inl (DiagGap [] 4), w)"
proof -
  have n: "next_reply diag_script_env 7 5 (Suc 8) 9 ([[4]], 0)
      = Some (Inr (\<lparr>dr_session_id = 7, dr_body = DiagChunk [] 4 [9] False\<rparr>, 6), ([], 2))"
    by (subst next_reply.simps) (simp add: diag_script_env_def diag_script_def)
  show ?thesis
    by (rule exI, rule diag_gap_ends_the_read [OF n, where c_data = "[9]" and c_last = False]) simp_all
qed

end
