(* ===== verification/Hex.thy ===== *)
theory Hex
  imports Prelude
begin

text \<open>
  The two text forms of bytes the repository reads and writes through the standard library:
  \<open>bytes.hex\<close> and \<open>bytes.fromhex\<close>, and \<open>str.strip\<close>. Characters are code points.
\<close>

definition hex_digit :: "nat \<Rightarrow> nat" where
  "hex_digit n = (if n < 10 then 48 + n else 87 + n)"

definition hex_byte :: "byte \<Rightarrow> ustr" where
  "hex_byte b = [hex_digit (unat b div 16), hex_digit (unat b mod 16)]"

definition hex :: "bytes \<Rightarrow> ustr" where
  "hex bs = concat (map hex_byte bs)"

definition digit_value :: "nat \<Rightarrow> nat option" where
  "digit_value c =
     (if 48 \<le> c \<and> c \<le> 57 then Some (c - 48)
      else if 97 \<le> c \<and> c \<le> 102 then Some (c - 87)
      else if 65 \<le> c \<and> c \<le> 70 then Some (c - 55)
      else None)"

definition ascii_space :: "nat \<Rightarrow> bool" where
  "ascii_space c \<longleftrightarrow> 9 \<le> c \<and> c \<le> 13 \<or> c = 32"

text \<open>\<open>bytes.fromhex\<close>: ASCII space between bytes is skipped, \<open>None\<close> is its \<open>ValueError\<close>.\<close>

fun fromhex :: "ustr \<Rightarrow> bytes option" where
  "fromhex [] = Some []"
| "fromhex [c] = (if ascii_space c then Some [] else None)"
| "fromhex (c # d # rest) =
     (if ascii_space c then fromhex (d # rest)
      else case (digit_value c, digit_value d) of
             (Some h, Some l) \<Rightarrow> map_option ((#) (of_nat (16 * h + l))) (fromhex rest)
           | _ \<Rightarrow> None)"

text \<open>\<open>str.isspace\<close> of one code point.\<close>

definition py_space :: "nat \<Rightarrow> bool" where
  "py_space c \<longleftrightarrow> 9 \<le> c \<and> c \<le> 13 \<or> 28 \<le> c \<and> c \<le> 32 \<or> 8192 \<le> c \<and> c \<le> 8202
     \<or> c \<in> {133, 160, 5760, 8232, 8233, 8239, 8287, 12288}"

definition strip :: "ustr \<Rightarrow> ustr" where
  "strip s = rev (dropWhile py_space (rev (dropWhile py_space s)))"

lemma hex_digit_value: "n < 16 \<Longrightarrow> digit_value (hex_digit n) = Some n"
  by (auto simp: digit_value_def hex_digit_def)

lemma hex_digit_not_space: "n < 16 \<Longrightarrow> \<not> ascii_space (hex_digit n) \<and> \<not> py_space (hex_digit n)"
  by (auto simp: ascii_space_def py_space_def hex_digit_def)

lemma nibbles: "unat (b :: byte) div 16 < 16" "unat b mod 16 < 16"
  using unat_byte_less [of b] by (simp_all only: div_less_iff_less_mult)

lemma fromhex_hex: "fromhex (hex bs) = Some bs"
proof (induction bs)
  case (Cons b bs)
  have "fromhex (hex (b # bs)) = map_option ((#) (of_nat (16 * (unat b div 16) + unat b mod 16))) (fromhex (hex bs))"
    by (simp add: hex_def hex_byte_def hex_digit_value nibbles hex_digit_not_space)
  then show ?case using Cons.IH by simp
qed (simp add: hex_def)

lemma hex_no_space: "c \<in> set (hex bs) \<Longrightarrow> \<not> py_space c"
  by (auto simp: hex_def hex_byte_def hex_digit_not_space nibbles)

lemma strip_id: "(\<And>c. c \<in> set s \<Longrightarrow> \<not> py_space c) \<Longrightarrow> strip s = s"
proof -
  assume s: "\<And>c. c \<in> set s \<Longrightarrow> \<not> py_space c"
  then have "dropWhile py_space s = s" "dropWhile py_space (rev s) = rev s"
    by (auto simp: dropWhile_eq_self_iff hd_rev)
  then show ?thesis by (simp add: strip_def)
qed

lemma hex_inject: "hex a = hex b \<longleftrightarrow> a = b"
  by (metis fromhex_hex option.inject)

lemma length_hex [simp]: "length (hex bs) = 2 * length bs"
  by (induction bs) (simp_all add: hex_def hex_byte_def)

end
