(* ===== verification/Vrec.thy ===== *)
theory Vrec
  imports Hex "HOL-Library.Word"
begin

unbundle bit_operations_syntax

text \<open>
  Reading recordings encrypted at rest: \<open>mcap/crypto.py\<close> and the copy of \<open>mcap/decrypt.py\<close>.

  SHA-256, HMAC and ChaCha20 are code outside the repository, the fields of \<open>crypto\<close>;
  \<open>chacha_seekable\<close> is what is documented of ChaCha20's block counter: the keystream that starts at
  counter \<open>b\<close> is the one that starts at 0, from byte \<open>64 * b\<close> on. A file is the list of its bytes. The
  keyring's JSON object is a map between texts, or damaged.
\<close>

section \<open>Containers\<close>

definition HEADER_BYTES :: nat where "HEADER_BYTES = 32"
definition BLOCK :: nat where "BLOCK = 64"
definition KEY_BYTES :: nat where "KEY_BYTES = 32"

record cipher_suite =
  su_magic :: bytes
  su_key_label :: bytes

definition VREC_SUITE :: cipher_suite where
  "VREC_SUITE = \<lparr>su_magic = asc ''VREC'', su_key_label = asc ''visio-rec-v1''\<rparr>"

definition VDLG_SUITE :: cipher_suite where
  "VDLG_SUITE = \<lparr>su_magic = asc ''VDLG'', su_key_label = asc ''visio-diag-v1''\<rparr>"

definition VDLW_SUITE :: cipher_suite where
  "VDLW_SUITE = \<lparr>su_magic = asc ''VDLW'', su_key_label = asc ''visio-diag-wire-v1''\<rparr>"

record crypto =
  x_sha256 :: "bytes \<Rightarrow> bytes"
  x_hmac :: "bytes \<Rightarrow> bytes \<Rightarrow> bytes"
  x_chacha :: "bytes \<Rightarrow> bytes \<Rightarrow> nat \<Rightarrow> byte"

definition chacha_seekable :: "crypto \<Rightarrow> bool" where
  "chacha_seekable X \<longleftrightarrow> (\<forall>key nonce block i. block < 2 ^ 32 \<longrightarrow>
     x_chacha X key (le_bytes 4 block @ nonce) i = x_chacha X key (le_bytes 4 0 @ nonce) (64 * block + i))"

record vrec_header =
  vh_format :: nat
  vh_cipher :: nat
  vh_key_fp :: bytes
  vh_nonce :: bytes
  vh_bytes_valid :: nat

datatype tried = TriedKey bool | TriedKeyFile bool | TriedKeyring bool

datatype vrec_error =
    NotContainer bytes | NewerFormat nat nat | BadHex | BadKeyLength nat
  | KeyMismatch bytes bytes | KeyUnavailable bytes "tried list" | KeyringDamaged | KeyFileMissing
  | NegativeSeek | BadWhence | CounterOverflow

definition fingerprint :: "crypto \<Rightarrow> bytes \<Rightarrow> bytes" where
  "fingerprint X key = take 8 (x_sha256 X key)"

definition is_vrec :: "bytes \<Rightarrow> cipher_suite \<Rightarrow> bool" where
  "is_vrec head suite \<longleftrightarrow> take (length (su_magic suite)) head = su_magic suite"

definition read_vrec_header :: "bytes \<Rightarrow> cipher_suite \<Rightarrow> vrec_error + vrec_header" where
  "read_vrec_header head suite =
     (if length head < HEADER_BYTES \<or> \<not> is_vrec head suite then Inl (NotContainer (su_magic suite))
      else let fmt = unat (head ! 4); cipher = unat (head ! 5) in
           if fmt \<noteq> 1 \<or> cipher \<noteq> 1 then Inl (NewerFormat fmt cipher)
           else Inr \<lparr>vh_format = fmt, vh_cipher = cipher, vh_key_fp = slice 8 16 head,
                     vh_nonce = slice 16 28 head, vh_bytes_valid = le_nat (slice 28 32 head)\<rparr>)"

definition derive_file_key :: "crypto \<Rightarrow> bytes \<Rightarrow> bytes \<Rightarrow> cipher_suite \<Rightarrow> bytes" where
  "derive_file_key X key nonce suite = x_hmac X key (su_key_label suite @ nonce)"

definition parse_hex_key :: "ustr \<Rightarrow> vrec_error + bytes" where
  "parse_hex_key text = (case fromhex (strip text) of
       None \<Rightarrow> Inl BadHex
     | Some raw \<Rightarrow> if length raw \<noteq> KEY_BYTES then Inl (BadKeyLength (length raw)) else Inr raw)"

section \<open>The keyring\<close>

datatype ring_file = RingAbsent | RingDamaged | Ring "ustr \<rightharpoonup> ustr"

definition find_key :: "ring_file \<Rightarrow> ustr \<Rightarrow> vrec_error + bytes option" where
  "find_key ring key_fp_hex = (case ring of
       RingAbsent \<Rightarrow> Inr None
     | RingDamaged \<Rightarrow> Inl KeyringDamaged
     | Ring entries \<Rightarrow> (case entries key_fp_hex of
           None \<Rightarrow> Inr None
         | Some entry \<Rightarrow> bindE (parse_hex_key entry) (\<lambda>k. Inr (Some k))))"

text \<open>
  The two files of a keyring's directory that the writer touches, as a reader sees them, and what the disk
  holds: whether the data of each file was synced, and what may be found under the ring's name after a
  power loss. There the file system orders nothing by itself: a rename that no sync of the directory has
  followed may have happened or not, and the data of a file that was not synced may be missing, which is
  damaged JSON.
\<close>

record ring_dir =
  rd_ring :: ring_file
  rd_tmp :: "ring_file option"
  rd_tmp_synced :: bool
  rd_ring_synced :: bool
  rd_after_loss :: "ring_file set"

definition ring_at_rest :: "ring_file \<Rightarrow> ring_dir" where
  "ring_at_rest f = \<lparr>rd_ring = f, rd_tmp = None, rd_tmp_synced = False, rd_ring_synced = True,
     rd_after_loss = {f}\<rparr>"

text \<open>
  \<open>remember_key\<close> under the lock, as the writes it makes in order: create the temporary file empty, fill
  it, sync it, replace the ring, sync the directory. A file system that refuses the last leaves the state
  before it, for \<open>_fsync_dir\<close> swallows the error.
\<close>

datatype ring_write = CreateTmp | FillTmp "ustr \<rightharpoonup> ustr" | SyncTmp | ReplaceRing | SyncDir

definition found :: "bool \<Rightarrow> ring_file \<Rightarrow> ring_file set" where
  "found synced f = (if synced then {f} else {f, RingDamaged})"

fun ring_step :: "ring_dir \<Rightarrow> ring_write \<Rightarrow> ring_dir" where
  "ring_step d CreateTmp = d\<lparr>rd_tmp := Some RingDamaged, rd_tmp_synced := False\<rparr>"
| "ring_step d (FillTmp m) = d\<lparr>rd_tmp := Some (Ring m), rd_tmp_synced := False\<rparr>"
| "ring_step d SyncTmp = d\<lparr>rd_tmp_synced := True\<rparr>"
| "ring_step d ReplaceRing = (case rd_tmp d of
       None \<Rightarrow> d
     | Some f \<Rightarrow> \<lparr>rd_ring = f, rd_tmp = None, rd_tmp_synced = False, rd_ring_synced = rd_tmp_synced d,
                  rd_after_loss = rd_after_loss d \<union> found (rd_tmp_synced d) f\<rparr>)"
| "ring_step d SyncDir = d\<lparr>rd_after_loss := found (rd_ring_synced d) (rd_ring d)\<rparr>"

definition remember_writes :: "crypto \<Rightarrow> bytes \<Rightarrow> ring_file \<Rightarrow> vrec_error + ring_write list" where
  "remember_writes X key ring = (case ring of
       RingDamaged \<Rightarrow> Inl KeyringDamaged
     | _ \<Rightarrow> let entries = (case ring of Ring m \<Rightarrow> m | _ \<Rightarrow> Map.empty); fp = hex (fingerprint X key)
            in if entries fp = Some (hex key) then Inr []
               else Inr [CreateTmp, FillTmp (entries(fp \<mapsto> hex key)), SyncTmp, ReplaceRing, SyncDir])"

definition remember_key :: "crypto \<Rightarrow> bytes \<Rightarrow> ring_dir \<Rightarrow> vrec_error + ustr \<times> ring_dir" where
  "remember_key X key d =
     bindE (remember_writes X key (rd_ring d)) (\<lambda>ws.
       Inr (hex (fingerprint X key), foldl ring_step d ws))"

section \<open>Finding the key of a recording\<close>

record key_env =
  ke_key :: "ustr option"
  ke_key_file :: "ustr option"
  ke_read_text :: "ustr \<Rightarrow> ustr option"
  ke_ring :: ring_file

definition set_var :: "ustr option \<Rightarrow> bool" where
  "set_var v \<longleftrightarrow> v \<noteq> None \<and> v \<noteq> Some []"

definition keys_from_environment :: "key_env \<Rightarrow> ustr \<Rightarrow> vrec_error + bytes list \<times> tried list" where
  "keys_from_environment V key_fp_hex =
     bindE (if set_var (ke_key V) then bindE (parse_hex_key (the (ke_key V))) (\<lambda>k. Inr [k]) else Inr [])
       (\<lambda>from_env.
     bindE (if set_var (ke_key_file V)
            then (case ke_read_text V (the (ke_key_file V)) of
                    None \<Rightarrow> Inl KeyFileMissing
                  | Some text \<Rightarrow> bindE (parse_hex_key text) (\<lambda>k. Inr [k]))
            else Inr [])
       (\<lambda>from_file.
     bindE (if ke_ring V \<noteq> RingAbsent then find_key (ke_ring V) key_fp_hex else Inr None)
       (\<lambda>remembered.
     Inr (from_env @ from_file @ (case remembered of None \<Rightarrow> [] | Some k \<Rightarrow> [k]),
          [TriedKey (set_var (ke_key V)), TriedKeyFile (set_var (ke_key_file V)),
           TriedKeyring (ke_ring V \<noteq> RingAbsent)]))))"

datatype key_arg = NoKey | KeyBytes bytes | KeyText ustr

definition resolve_key :: "crypto \<Rightarrow> key_env \<Rightarrow> vrec_header \<Rightarrow> key_arg \<Rightarrow> vrec_error + bytes" where
  "resolve_key X V header key =
     (let want = vh_key_fp header;
          check = (\<lambda>raw. if fingerprint X raw \<noteq> want
                          then Inl (KeyMismatch want (fingerprint X raw)) else Inr raw)
      in case key of
           KeyText text \<Rightarrow> bindE (parse_hex_key text) check
         | KeyBytes raw \<Rightarrow> check raw
         | NoKey \<Rightarrow>
             bindE (keys_from_environment V (hex want)) (\<lambda>(candidates, sources).
               case find (\<lambda>c. fingerprint X c = want) candidates of
                 Some c \<Rightarrow> Inr c
               | None \<Rightarrow> Inl (KeyUnavailable want sources)))"

section \<open>The seekable plaintext view\<close>

record vrec_reader =
  vr_raw :: bytes
  vr_header :: vrec_header
  vr_file_key :: bytes
  vr_pos :: nat
  vr_size :: nat

definition init_reader :: "crypto \<Rightarrow> bytes \<Rightarrow> vrec_header \<Rightarrow> bytes \<Rightarrow> cipher_suite \<Rightarrow> vrec_reader" where
  "init_reader X raw header key suite =
     (let size = length raw - HEADER_BYTES
      in \<lparr>vr_raw = raw, vr_header = header,
          vr_file_key = derive_file_key X key (vh_nonce header) suite, vr_pos = 0,
          vr_size = (if vh_bytes_valid header \<noteq> 0 then min size (vh_bytes_valid header) else size)\<rparr>)"

datatype whence = SeekSet | SeekCur | SeekEnd | SeekOther int

definition vrec_seek :: "int \<Rightarrow> whence \<Rightarrow> vrec_reader \<Rightarrow> vrec_error + int \<times> vrec_reader" where
  "vrec_seek offset w r =
     bindE (case w of
         SeekSet \<Rightarrow> Inr offset
       | SeekCur \<Rightarrow> Inr (int (vr_pos r) + offset)
       | SeekEnd \<Rightarrow> Inr (int (vr_size r) + offset)
       | SeekOther _ \<Rightarrow> Inl BadWhence) (\<lambda>new.
     if new < 0 then Inl NegativeSeek else Inr (new, r\<lparr>vr_pos := nat new\<rparr>))"

text \<open>
  \<open>block.to_bytes(4)\<close> raises \<open>OverflowError\<close> past 2^32 blocks. The encryptor gives its keystream in
  order; the \<open>skip\<close> bytes of zeros it is first fed are dropped.
\<close>

definition xor_at :: "crypto \<Rightarrow> vrec_reader \<Rightarrow> nat \<Rightarrow> bytes \<Rightarrow> vrec_error + bytes" where
  "xor_at X r at1 data =
     (let block = at1 div BLOCK; skip = at1 mod BLOCK in
      if 2 ^ 32 \<le> block then Inl CounterOverflow
      else let iv = le_bytes 4 block @ vh_nonce (vr_header r)
           in Inr (map (\<lambda>i. (data ! i) XOR x_chacha X (vr_file_key r) iv (skip + i)) [0..<length data]))"

text \<open>\<open>readinto\<close> of a buffer of \<open>n\<close> bytes: the bytes written to it.\<close>

definition vrec_read :: "crypto \<Rightarrow> nat \<Rightarrow> vrec_reader \<Rightarrow> vrec_error + bytes \<times> vrec_reader" where
  "vrec_read X n r =
     (if n = 0 \<or> vr_size r \<le> vr_pos r then Inr ([], r)
      else let want = min n (vr_size r - vr_pos r);
               cipher_bytes = take want (drop (HEADER_BYTES + vr_pos r) (vr_raw r))
           in if cipher_bytes = [] then Inr ([], r)
              else bindE (xor_at X r (vr_pos r) cipher_bytes) (\<lambda>plain.
                     Inr (plain, r\<lparr>vr_pos := vr_pos r + length cipher_bytes\<rparr>)))"

record plain_file =
  pf_data :: bytes
  pf_pos :: nat

definition plain_read :: "nat \<Rightarrow> plain_file \<Rightarrow> vrec_error + bytes \<times> plain_file" where
  "plain_read n f = (let chunk = take n (drop (pf_pos f) (pf_data f))
                     in Inr (chunk, f\<lparr>pf_pos := pf_pos f + length chunk\<rparr>))"

datatype recording = PlainRecording plain_file | EncryptedRecording vrec_reader

definition open_recording :: "crypto \<Rightarrow> key_env \<Rightarrow> bytes \<Rightarrow> key_arg \<Rightarrow> cipher_suite \<Rightarrow> vrec_error + recording" where
  "open_recording X V raw key suite =
     (let head = take HEADER_BYTES raw in
      if \<not> is_vrec head suite then Inr (PlainRecording \<lparr>pf_data = raw, pf_pos = 0\<rparr>)
      else bindE (read_vrec_header head suite) (\<lambda>header.
           bindE (resolve_key X V header key) (\<lambda>resolved.
           Inr (EncryptedRecording (init_reader X raw header resolved suite)))))"

fun recording_read :: "crypto \<Rightarrow> nat \<Rightarrow> recording \<Rightarrow> vrec_error + bytes \<times> recording" where
  "recording_read X n (PlainRecording f) =
     bindE (plain_read n f) (\<lambda>(chunk, f). Inr (chunk, PlainRecording f))"
| "recording_read X n (EncryptedRecording r) =
     bindE (vrec_read X n r) (\<lambda>(chunk, r). Inr (chunk, EncryptedRecording r))"

section \<open>The plaintext copy\<close>

definition CHUNK :: nat where "CHUNK = 4 * 1024 * 1024"

text \<open>\<open>while chunk := fin.read(_CHUNK): fout.write(chunk)\<close>: what has been written, in at most n turns.\<close>

fun copy_chunks :: "('s \<Rightarrow> vrec_error + bytes \<times> 's) \<Rightarrow> nat \<Rightarrow> 's \<Rightarrow> bytes \<Rightarrow> (vrec_error + bytes) option" where
  "copy_chunks rd 0 s out = None"
| "copy_chunks rd (Suc n) s out = (case rd s of
       Inl e \<Rightarrow> Some (Inl e)
     | Inr (chunk, s') \<Rightarrow> if chunk = [] then Some (Inr out) else copy_chunks rd n s' (out @ chunk))"

text \<open>
  \<open>main\<close>: the exit code and the output file's bytes, \<open>None\<close> where there is none. An existing output is
  never touched; the two key errors remove what was written. A \<open>ValueError\<close> escapes.
\<close>

datatype decrypt_result = Exit nat "bytes option" | Escapes vrec_error

definition decrypt_main :: "crypto \<Rightarrow> key_env \<Rightarrow> nat \<Rightarrow> bytes \<Rightarrow> bytes option \<Rightarrow> key_arg
    \<Rightarrow> decrypt_result option" where
  "decrypt_main X V fuel src dst key =
     (if dst \<noteq> None then Some (Exit 2 dst)
      else if \<not> is_vrec (take HEADER_BYTES src) VREC_SUITE then Some (Exit 0 (Some src))
      else case read_vrec_header (take HEADER_BYTES src) VREC_SUITE of
             Inl e \<Rightarrow> Some (Escapes e)
           | Inr _ \<Rightarrow>
               (case open_recording X V src key VREC_SUITE of
                  Inl (KeyMismatch a b) \<Rightarrow> Some (Exit 1 None)
                | Inl (KeyUnavailable a b) \<Rightarrow> Some (Exit 1 None)
                | Inl KeyFileMissing \<Rightarrow> Some (Exit 1 None)
                | Inl e \<Rightarrow> Some (Escapes e)
                | Inr f \<Rightarrow> (case copy_chunks (recording_read X CHUNK) fuel f [] of
                      None \<Rightarrow> None
                    | Some (Inl e) \<Rightarrow> Some (Escapes e)
                    | Some (Inr out) \<Rightarrow> Some (Exit 0 (Some out)))))"

section \<open>Views of a byte sequence\<close>

locale sequential_view =
  fixes rd :: "nat \<Rightarrow> 's \<Rightarrow> vrec_error + bytes \<times> 's"
    and pos :: "'s \<Rightarrow> nat" and content :: "'s \<Rightarrow> bytes" and ok :: "'s \<Rightarrow> bool"
  assumes rd: "ok s \<Longrightarrow> \<exists>s'. rd n s = Inr (take n (drop (pos s) (content s)), s')
      \<and> pos s' = pos s + length (take n (drop (pos s) (content s))) \<and> content s' = content s \<and> ok s'"
begin

text \<open>Copying in chunks gives everything from the position on, however the chunks fall.\<close>

lemma copy_all:
  "ok s \<Longrightarrow> 0 < n \<Longrightarrow> length (content s) - pos s \<le> n * k \<Longrightarrow>
     copy_chunks (rd n) (Suc k) s out = Some (Inr (out @ drop (pos s) (content s)))"
proof (induction k arbitrary: s out)
  case 0
  then show ?case using rd [of s n] by auto
next
  case (Suc k)
  obtain s' where s': "rd n s = Inr (take n (drop (pos s) (content s)), s')" "content s' = content s" "ok s'"
    "pos s' = pos s + length (take n (drop (pos s) (content s)))"
    using rd [OF Suc.prems(1)] by blast
  show ?case
  proof (cases "take n (drop (pos s) (content s)) = []")
    case True
    then show ?thesis using s' Suc.prems(2) by auto
  next
    case False
    then have "length (content s') - pos s' \<le> n * k" using Suc.prems s' by (auto simp: min_def)
    then have "copy_chunks (rd n) (Suc k) s' (out @ take n (drop (pos s) (content s)))
        = Some (Inr ((out @ take n (drop (pos s) (content s))) @ drop (pos s') (content s')))"
      using Suc.IH s' Suc.prems(2) by blast
    moreover have "take n (drop (pos s) (content s)) @ drop (pos s') (content s') = drop (pos s) (content s)"
    proof (cases "n \<le> length (content s) - pos s")
      case True
      then have "drop (pos s') (content s') = drop n (drop (pos s) (content s))"
        using s' by (simp add: min_def add.commute)
      then show ?thesis by (simp only: append_take_drop_id)
    next
      case short: False
      then show ?thesis using s' by simp
    qed
    ultimately show ?thesis using s' False
      by (subst copy_chunks.simps) (simp del: copy_chunks.simps)
  qed
qed

end

locale seekable_view = sequential_view +
  fixes sk :: "nat \<Rightarrow> 's \<Rightarrow> vrec_error + int \<times> 's"
  assumes sk: "ok s \<Longrightarrow> \<exists>s'. sk k s = Inr (int k, s') \<and> pos s' = k \<and> content s' = content s \<and> ok s'"
begin

text \<open>A seek and a read give that part of the content, whatever was read before.\<close>

lemma read_at:
  assumes "ok s"
  shows "\<exists>s' s''. sk k s = Inr (int k, s') \<and> rd n s' = Inr (take n (drop k (content s)), s'')
    \<and> content s'' = content s \<and> ok s''"
  using sk [OF assms, of k] rd [where n = n] by metis

end

section \<open>The decrypting reader is such a view\<close>

definition keystream :: "crypto \<Rightarrow> vrec_reader \<Rightarrow> nat \<Rightarrow> byte" where
  "keystream X r i = x_chacha X (vr_file_key r) (le_bytes 4 0 @ vh_nonce (vr_header r)) i"

definition vrec_plain :: "crypto \<Rightarrow> vrec_reader \<Rightarrow> bytes" where
  "vrec_plain X r = map (\<lambda>i. vr_raw r ! (HEADER_BYTES + i) XOR keystream X r i) [0..<vr_size r]"

definition vrec_ok :: "crypto \<Rightarrow> vrec_reader \<Rightarrow> bool" where
  "vrec_ok X r \<longleftrightarrow> chacha_seekable X \<and> vr_size r \<le> length (vr_raw r) - HEADER_BYTES
     \<and> vr_size r \<le> 2 ^ 32 * BLOCK"

lemma xor_at_plain:
  assumes ok: "chacha_seekable X" and at1: "at1 < 2 ^ 32 * BLOCK"
  shows "xor_at X r at1 data = Inr (map (\<lambda>i. data ! i XOR keystream X r (at1 + i)) [0..<length data])"
proof -
  have b: "at1 div BLOCK < 2 ^ 32" using at1 by (simp add: BLOCK_def less_mult_imp_div_less)
  have "x_chacha X (vr_file_key r) (le_bytes 4 (at1 div BLOCK) @ vh_nonce (vr_header r)) (at1 mod BLOCK + i)
      = keystream X r (at1 + i)" for i
  proof -
    have "64 * (at1 div BLOCK) + (at1 mod BLOCK + i) = at1 + i" by (simp add: BLOCK_def)
    then show ?thesis using ok [unfolded chacha_seekable_def, rule_format, OF b]
      by (simp only: keystream_def)
  qed
  then show ?thesis using b by (simp add: xor_at_def Let_def)
qed

lemma vrec_plain_pos [simp]: "vrec_plain X (r\<lparr>vr_pos := k\<rparr>) = vrec_plain X r"
  by (simp add: vrec_plain_def keystream_def)

lemma vrec_ok_pos [simp]: "vrec_ok X (r\<lparr>vr_pos := k\<rparr>) = vrec_ok X r"
  by (simp add: vrec_ok_def)

lemma length_vrec_plain [simp]: "length (vrec_plain X r) = vr_size r"
  by (simp add: vrec_plain_def)

lemma nth_vrec_plain [simp]:
  "i < vr_size r \<Longrightarrow> vrec_plain X r ! i = vr_raw r ! (HEADER_BYTES + i) XOR keystream X r i"
  by (simp add: vrec_plain_def)

lemma vrec_read_view:
  assumes ok: "vrec_ok X r"
  shows "\<exists>r'. vrec_read X n r = Inr (take n (drop (vr_pos r) (vrec_plain X r)), r')
     \<and> vr_pos r' = vr_pos r + length (take n (drop (vr_pos r) (vrec_plain X r)))
     \<and> vrec_plain X r' = vrec_plain X r \<and> vrec_ok X r'"
proof (cases "n = 0 \<or> vr_size r \<le> vr_pos r")
  case True
  then have "vrec_read X n r = Inr ([], r)" "take n (drop (vr_pos r) (vrec_plain X r)) = []"
    by (auto simp: vrec_read_def)
  then show ?thesis using ok by (intro exI [of _ r]) auto
next
  case False
  define want where "want = min n (vr_size r - vr_pos r)"
  define data where "data = take want (drop (HEADER_BYTES + vr_pos r) (vr_raw r))"
  have size: "vr_size r \<le> length (vr_raw r) - HEADER_BYTES" using ok by (simp add: vrec_ok_def)
  have len: "length data = want" using size False by (simp add: data_def want_def)
  then have some: "data \<noteq> []" using False by (auto simp: want_def)
  have "chacha_seekable X" "vr_pos r < 2 ^ 32 * BLOCK" using ok False by (simp_all add: vrec_ok_def)
  from xor_at_plain [OF this]
  have "xor_at X r (vr_pos r) data = Inr (map (\<lambda>i. data ! i XOR keystream X r (vr_pos r + i)) [0..<want])"
    by (simp add: len)
  also have "map (\<lambda>i. data ! i XOR keystream X r (vr_pos r + i)) [0..<want]
      = take n (drop (vr_pos r) (vrec_plain X r))"
  proof (rule nth_equalityI)
    show "length (map (\<lambda>i. data ! i XOR keystream X r (vr_pos r + i)) [0..<want])
        = length (take n (drop (vr_pos r) (vrec_plain X r)))" by (simp add: want_def min.commute)
    fix i assume "i < length (map (\<lambda>i. data ! i XOR keystream X r (vr_pos r + i)) [0..<want])"
    then have i: "i < want" by simp
    then have le: "i < n" "vr_pos r + i < vr_size r" by (simp add: want_def, simp add: want_def less_diff_conv)
    then have "data ! i = vr_raw r ! (HEADER_BYTES + (vr_pos r + i))"
      using i size by (simp add: data_def add.assoc)
    then show "map (\<lambda>i. data ! i XOR keystream X r (vr_pos r + i)) [0..<want] ! i
        = take n (drop (vr_pos r) (vrec_plain X r)) ! i" using i le by simp
  qed
  finally have plain: "xor_at X r (vr_pos r) data = Inr (take n (drop (vr_pos r) (vrec_plain X r)))" .
  have "vrec_read X n r = (if data = [] then Inr ([], r)
      else bindE (xor_at X r (vr_pos r) data) (\<lambda>plain. Inr (plain, r\<lparr>vr_pos := vr_pos r + length data\<rparr>)))"
    using False unfolding vrec_read_def Let_def data_def want_def by (simp only: if_False)
  then have "vrec_read X n r
      = Inr (take n (drop (vr_pos r) (vrec_plain X r)), r\<lparr>vr_pos := vr_pos r + want\<rparr>)"
    using some plain len by simp
  then show ?thesis using ok by (simp add: want_def min.commute)
qed

lemma vrec_seek_view:
  "vrec_ok X r \<Longrightarrow> \<exists>r'. vrec_seek (int k) SeekSet r = Inr (int k, r') \<and> vr_pos r' = k
     \<and> vrec_plain X r' = vrec_plain X r \<and> vrec_ok X r'"
  by (simp add: vrec_seek_def)

interpretation vrec: seekable_view "vrec_read X" vr_pos "vrec_plain X" "vrec_ok X"
    "\<lambda>k. vrec_seek (int k) SeekSet" for X
  by unfold_locales (simp_all only: vrec_read_view vrec_seek_view)

text \<open>An opened recording, encrypted or not.\<close>

fun rec_pos :: "recording \<Rightarrow> nat" where
  "rec_pos (PlainRecording f) = pf_pos f"
| "rec_pos (EncryptedRecording r) = vr_pos r"

fun rec_content :: "crypto \<Rightarrow> recording \<Rightarrow> bytes" where
  "rec_content X (PlainRecording f) = pf_data f"
| "rec_content X (EncryptedRecording r) = vrec_plain X r"

fun rec_ok :: "crypto \<Rightarrow> recording \<Rightarrow> bool" where
  "rec_ok X (PlainRecording f) = True"
| "rec_ok X (EncryptedRecording r) = vrec_ok X r"

lemma recording_read_view:
  "rec_ok X f \<Longrightarrow> \<exists>f'. recording_read X n f = Inr (take n (drop (rec_pos f) (rec_content X f)), f')
     \<and> rec_pos f' = rec_pos f + length (take n (drop (rec_pos f) (rec_content X f)))
     \<and> rec_content X f' = rec_content X f \<and> rec_ok X f'"
proof (cases f)
  case (EncryptedRecording r)
  then show "rec_ok X f \<Longrightarrow> ?thesis" using vrec_read_view [of X r n] by fastforce
qed (simp add: plain_read_def Let_def)

interpretation opened: sequential_view "recording_read X" rec_pos "rec_content X" "rec_ok X" for X
  by unfold_locales (rule recording_read_view)

section \<open>The container a device writes\<close>

text \<open>The layout the module documents, for a key, a nonce and a plaintext; \<open>valid\<close> 0 is not recorded.\<close>

definition encrypt_part :: "crypto \<Rightarrow> cipher_suite \<Rightarrow> bytes \<Rightarrow> bytes \<Rightarrow> nat \<Rightarrow> bytes \<Rightarrow> bytes" where
  "encrypt_part X suite key nonce valid plain =
     su_magic suite @ [1, 1, 0, 0] @ fingerprint X key @ nonce @ le_bytes 4 valid
     @ map (\<lambda>i. plain ! i XOR x_chacha X (derive_file_key X key nonce suite) (le_bytes 4 0 @ nonce) i)
         [0..<length plain]"

definition valid_plain :: "nat \<Rightarrow> bytes \<Rightarrow> bytes" where
  "valid_plain valid plain = (if valid = 0 then plain else take valid plain)"

definition part_ok :: "crypto \<Rightarrow> cipher_suite \<Rightarrow> bytes \<Rightarrow> nat \<Rightarrow> bytes \<Rightarrow> bool" where
  "part_ok X suite nonce valid plain \<longleftrightarrow> chacha_seekable X \<and> (\<forall>k. length (x_sha256 X k) = 32)
     \<and> length (su_magic suite) = 4 \<and> length nonce = 12 \<and> valid < 2 ^ 32
     \<and> length plain \<le> 2 ^ 32 * BLOCK"

definition part_header :: "crypto \<Rightarrow> bytes \<Rightarrow> bytes \<Rightarrow> nat \<Rightarrow> vrec_header" where
  "part_header X key nonce valid =
     \<lparr>vh_format = 1, vh_cipher = 1, vh_key_fp = fingerprint X key, vh_nonce = nonce, vh_bytes_valid = valid\<rparr>"

lemma length_fingerprint: "part_ok X suite nonce valid plain \<Longrightarrow> length (fingerprint X key) = 8"
  by (simp add: part_ok_def fingerprint_def)

lemma part_head:
  assumes "part_ok X suite nonce valid plain"
  shows "take HEADER_BYTES (encrypt_part X suite key nonce valid plain)
    = su_magic suite @ [1, 1, 0, 0] @ fingerprint X key @ nonce @ le_bytes 4 valid"
  using assms length_fingerprint [OF assms, of key]
  by (simp add: encrypt_part_def HEADER_BYTES_def part_ok_def del: le_bytes.simps)

lemma part_is_vrec:
  "part_ok X suite nonce valid plain \<Longrightarrow>
     is_vrec (take HEADER_BYTES (encrypt_part X suite key nonce valid plain)) suite"
  by (simp add: part_head is_vrec_def)

lemma length_four: "length xs = 4 \<Longrightarrow> \<exists>a b c d. xs = [a, b, c, d]"
  by (auto simp: numeral_eq_Suc length_Suc_conv)

lemma part_read_header:
  assumes "part_ok X suite nonce valid plain"
  shows "read_vrec_header (take HEADER_BYTES (encrypt_part X suite key nonce valid plain)) suite
    = Inr (part_header X key nonce valid)"
proof -
  obtain a b c d where m: "su_magic suite = [a, b, c, d]"
    using assms length_four [of "su_magic suite"] unfolding part_ok_def by blast
  have valid: "le_nat (le_bytes 4 valid) = valid"
    using assms by (intro le_nat_le_bytes_id) (simp add: part_ok_def)
  let ?h = "su_magic suite @ [1, 1, 0, 0] @ fingerprint X key @ nonce @ le_bytes 4 valid"
  have len: "length (fingerprint X key) = 8" "length nonce = 12" "length ?h = 32"
    using assms length_fingerprint [OF assms, of key] by (auto simp: part_ok_def)
  have s: "slice 8 16 ?h = fingerprint X key" "slice 16 28 ?h = nonce" "slice 28 32 ?h = le_bytes 4 valid"
    using len by (simp_all add: slice_def m del: le_bytes.simps)
  have f: "?h ! 4 = 1" "?h ! 5 = 1" by (simp_all add: m)
  have "is_vrec ?h suite" by (simp add: is_vrec_def)
  then show ?thesis
    unfolding part_head [OF assms] read_vrec_header_def Let_def s f valid part_header_def
    using len by (simp add: HEADER_BYTES_def del: le_bytes.simps)
qed

lemma open_part:
  assumes "part_ok X suite nonce valid plain"
  shows "open_recording X V (encrypt_part X suite key nonce valid plain) (KeyBytes k) suite
    = (if fingerprint X k = fingerprint X key
       then Inr (EncryptedRecording (init_reader X (encrypt_part X suite key nonce valid plain)
              (part_header X key nonce valid) k suite))
       else Inl (KeyMismatch (fingerprint X key) (fingerprint X k)))"
  using part_is_vrec [OF assms] part_read_header [OF assms]
  by (simp add: open_recording_def Let_def resolve_key_def part_header_def)

lemma part_view:
  fixes key :: bytes
  assumes ok: "part_ok X suite nonce valid plain"
  defines "r \<equiv> init_reader X (encrypt_part X suite key nonce valid plain) (part_header X key nonce valid) key suite"
  shows "vrec_ok X r" "vrec_plain X r = valid_plain valid plain" "vr_pos r = 0"
proof -
  let ?raw = "encrypt_part X suite key nonce valid plain"
  have len: "length ?raw = 32 + length plain"
    using ok length_fingerprint [OF ok, of key] by (simp add: encrypt_part_def part_ok_def del: le_bytes.simps)
  have raw: "?raw ! (HEADER_BYTES + i) = plain ! i XOR keystream X r i" if "i < length plain" for i
  proof -
    have "?raw ! (32 + i) = drop 32 ?raw ! i" using len that by simp
    also have "drop 32 ?raw = map (\<lambda>i. plain ! i XOR keystream X r i) [0..<length plain]"
      using ok length_fingerprint [OF ok, of key]
      by (simp add: encrypt_part_def part_ok_def r_def init_reader_def Let_def part_header_def keystream_def
          del: le_bytes.simps)
    finally show ?thesis using that by (simp add: HEADER_BYTES_def)
  qed
  have size: "vr_size r = length (valid_plain valid plain)" "vr_raw r = ?raw"
    by (simp_all add: r_def init_reader_def Let_def part_header_def valid_plain_def len HEADER_BYTES_def)
  then show "vrec_ok X r"
    using ok len by (auto simp: vrec_ok_def part_ok_def HEADER_BYTES_def valid_plain_def)
  show "vrec_plain X r = valid_plain valid plain"
  proof (rule nth_equalityI)
    fix i assume "i < length (vrec_plain X r)"
    then have "i < vr_size r" "i < length plain" "valid_plain valid plain ! i = plain ! i"
      using size by (auto simp: valid_plain_def split: if_splits)
    then show "vrec_plain X r ! i = valid_plain valid plain ! i"
      using raw [of i] size by (simp add: xor.assoc)
  qed (simp add: size)
  show "vr_pos r = 0" by (simp add: r_def init_reader_def Let_def)
qed

lemma strip_hex: "strip (hex key) = hex key"
  by (rule strip_id) (rule hex_no_space)

lemma parse_hex_key_hex: "length key = KEY_BYTES \<Longrightarrow> parse_hex_key (hex key) = Inr key"
  by (simp add: parse_hex_key_def fromhex_hex strip_hex)

text \<open>A crypto suite for the examples; its keystream counts.\<close>

definition sample_crypto :: crypto where
  "sample_crypto = \<lparr>x_sha256 = (\<lambda>k. take 32 (k @ replicate 32 0)), x_hmac = (\<lambda>k m. k),
     x_chacha = (\<lambda>k iv i. word_of_nat (64 * le_nat (take 4 iv) + i))\<rparr>"

definition sample_env :: key_env where
  "sample_env = \<lparr>ke_key = None, ke_key_file = None, ke_read_text = (\<lambda>p. None), ke_ring = RingAbsent\<rparr>"

lemma sample_crypto_seekable: "chacha_seekable sample_crypto"
proof -
  have "le_nat (take 4 (le_bytes 4 b @ nonce)) = b" if "b < 2 ^ 32" for b nonce
    using that by (simp del: le_bytes.simps)
  then show ?thesis
    by (auto simp: chacha_seekable_def sample_crypto_def simp del: le_bytes.simps)
qed

lemma sample_part_ok: "length plain \<le> 1000 \<Longrightarrow> part_ok sample_crypto VREC_SUITE (replicate 12 7) 0 plain"
  using sample_crypto_seekable
  by (simp add: part_ok_def VREC_SUITE_def BLOCK_def) (auto simp: sample_crypto_def min_def)

section \<open>The keyring's writes\<close>

definition ring_keys :: "ring_file \<Rightarrow> ustr \<rightharpoonup> ustr" where
  "ring_keys f = (case f of Ring m \<Rightarrow> m | _ \<Rightarrow> Map.empty)"

lemma remember_writes_cases:
  assumes "remember_writes X key ring = Inr ws"
  shows "ring \<noteq> RingDamaged"
    and "ws = [] \<and> ring_keys ring (hex (fingerprint X key)) = Some (hex key)
      \<or> ws = [CreateTmp, FillTmp ((ring_keys ring)(hex (fingerprint X key) \<mapsto> hex key)), SyncTmp,
              ReplaceRing, SyncDir]"
  using assms by (auto simp: remember_writes_def Let_def ring_keys_def split: ring_file.splits if_splits)

lemma ring_prefix:
  assumes "ws = [CreateTmp, FillTmp m, SyncTmp, ReplaceRing, SyncDir]"
  shows "rd_ring (foldl ring_step d (take n ws)) = (if n < 4 then rd_ring d else Ring m)"
    and "rd_after_loss (foldl ring_step d (take n ws)) =
      (if n < 4 then rd_after_loss d else if n = 4 then insert (Ring m) (rd_after_loss d) else {Ring m})"
proof -
  consider "n = 0" | "n = 1" | "n = 2" | "n = 3" | "n = 4" | "5 \<le> n" by linarith
  then show "rd_ring (foldl ring_step d (take n ws)) = (if n < 4 then rd_ring d else Ring m)"
    "rd_after_loss (foldl ring_step d (take n ws)) =
      (if n < 4 then rd_after_loss d else if n = 4 then insert (Ring m) (rd_after_loss d) else {Ring m})"
    by (cases; simp add: assms numeral_eq_Suc found_def)+
qed

section \<open>Properties\<close>

text \<open>
  C3. \<open>open_recording\<close> of a container with its key gives a seekable view of the plaintext: whatever
  was read before, seeking to offset k and reading n bytes gives bytes k to k + n of what the header
  declares valid, as if the recording had never been encrypted.
\<close>

theorem encrypted_recording_seeks_like_plain:
  assumes "part_ok X suite nonce valid plain"
  shows "\<exists>r. open_recording X V (encrypt_part X suite key nonce valid plain) (KeyBytes key) suite
        = Inr (EncryptedRecording r)
      \<and> (\<forall>r'. vrec_ok X r' \<and> vrec_plain X r' = vrec_plain X r \<longrightarrow>
          (\<exists>r1 r2. vrec_seek (int k) SeekSet r' = Inr (int k, r1)
             \<and> vrec_read X n r1 = Inr (take n (drop k (valid_plain valid plain)), r2)
             \<and> vrec_plain X r2 = vrec_plain X r \<and> vrec_ok X r2))
      \<and> vrec_ok X r"
proof -
  let ?r = "init_reader X (encrypt_part X suite key nonce valid plain) (part_header X key nonce valid) key suite"
  have "open_recording X V (encrypt_part X suite key nonce valid plain) (KeyBytes key) suite
      = Inr (EncryptedRecording ?r)"
    by (simp add: open_part [OF assms])
  moreover note part_view [OF assms, of key]
  ultimately show ?thesis
    using vrec.read_at [where X = X and k = k and n = n] by (intro exI [of _ ?r]) metis
qed

theorem encrypted_recording_seeks_like_plain_witness:
  "\<exists>r. open_recording sample_crypto sample_env (encrypt_part sample_crypto VREC_SUITE (replicate 32 5) (replicate 12 7) 0
        [1, 2, 3, 4, 5]) (KeyBytes (replicate 32 5)) VREC_SUITE = Inr (EncryptedRecording r)
     \<and> (\<exists>r1 r2. vrec_seek 2 SeekSet r = Inr (2, r1) \<and> vrec_read sample_crypto 2 r1 = Inr ([3, 4], r2))"
proof -
  have "part_ok sample_crypto VREC_SUITE (replicate 12 7) 0 [1, 2, 3, 4, 5]" by (simp add: sample_part_ok)
  from encrypted_recording_seeks_like_plain [OF this, of sample_env "replicate 32 5" 2 2]
  show ?thesis by (auto simp: valid_plain_def)
qed

text \<open>
  \<open>visio-decrypt\<close> on an encrypted part with its key writes exactly the plaintext, with exit code 0,
  after at most one turn of the copy loop per started chunk and one more.
\<close>

theorem decrypt_writes_the_plaintext:
  assumes part: "part_ok X VREC_SUITE nonce valid plain" and key: "length key = KEY_BYTES"
    and fuel: "length plain < fuel * CHUNK"
  shows "decrypt_main X V (Suc fuel) (encrypt_part X VREC_SUITE key nonce valid plain) None (KeyText (hex key))
    = Some (Exit 0 (Some (valid_plain valid plain)))"
proof -
  let ?src = "encrypt_part X VREC_SUITE key nonce valid plain"
  let ?r = "init_reader X ?src (part_header X key nonce valid) key VREC_SUITE"
  note view = part_view [OF part, of key]
  have "open_recording X V ?src (KeyText (hex key)) VREC_SUITE = Inr (EncryptedRecording ?r)"
    using part_is_vrec [OF part] part_read_header [OF part]
    by (simp add: open_recording_def Let_def resolve_key_def parse_hex_key_hex key part_header_def)
  moreover have "copy_chunks (recording_read X CHUNK) (Suc fuel) (EncryptedRecording ?r) []
      = Some (Inr (valid_plain valid plain))"
    using opened.copy_all [where s = "EncryptedRecording ?r" and X = X and n = CHUNK and k = fuel and out = "[]"]
      view fuel by (simp add: CHUNK_def valid_plain_def mult.commute split: if_splits)
  ultimately show ?thesis
    using part_is_vrec [OF part] part_read_header [OF part] by (simp add: decrypt_main_def)
qed

theorem decrypt_writes_the_plaintext_witness:
  "decrypt_main sample_crypto sample_env 2 (encrypt_part sample_crypto VREC_SUITE (replicate 32 5) (replicate 12 7) 0
     [1, 2, 3]) None (KeyText (hex (replicate 32 5))) = Some (Exit 0 (Some [1, 2, 3]))"
  using decrypt_writes_the_plaintext [of sample_crypto "replicate 12 7" 0 "[1, 2, 3]" "replicate 32 5" 1 sample_env]
    sample_part_ok [of "[1, 2, 3]"]
  by (simp add: KEY_BYTES_def CHUNK_def valid_plain_def numeral_2_eq_2 del: copy_chunks.simps)

text \<open>
  A key of another fingerprint is refused before any byte is decrypted: \<open>visio-decrypt\<close> exits with 1
  and leaves no output file, and an output that exists is never touched, whatever the input.
\<close>

theorem decrypt_wrong_key_writes_nothing:
  assumes "part_ok X VREC_SUITE nonce valid plain" and "fingerprint X k \<noteq> fingerprint X key"
  shows "decrypt_main X V fuel (encrypt_part X VREC_SUITE key nonce valid plain) None (KeyBytes k)
      = Some (Exit 1 None)
    \<and> decrypt_main X V fuel src (Some old) arg = Some (Exit 2 (Some old))"
  using part_is_vrec [OF assms(1), of key] part_read_header [OF assms(1), of key]
    open_part [OF assms(1), of V key k] assms(2)
  by (simp_all add: decrypt_main_def)

theorem decrypt_wrong_key_writes_nothing_witness:
  "decrypt_main sample_crypto sample_env 9 (encrypt_part sample_crypto VREC_SUITE (replicate 32 5) (replicate 12 7) 0
     [1, 2, 3]) None (KeyBytes (replicate 32 6)) = Some (Exit 1 None)"
proof -
  have "fingerprint sample_crypto (replicate 32 6) \<noteq> fingerprint sample_crypto (replicate 32 5)"
    by (simp add: fingerprint_def sample_crypto_def numeral_eq_Suc)
  moreover have "part_ok sample_crypto VREC_SUITE (replicate 12 7) 0 [1, 2, 3]" by (simp add: sample_part_ok)
  ultimately show ?thesis by (intro decrypt_wrong_key_writes_nothing [THEN conjunct1])
qed

text \<open>
  C11. Remembering a key is safe against a crash after any of its writes, be it the end of the process or
  a loss of power: from a ring that is safely on disk, whatever is found under the ring's name then is the
  old ring, or the old one with the new key under its fingerprint, never a damaged one. Once all writes
  have been made even a loss of power leaves a ring in which the key is found by that fingerprint, and no
  other entry has changed.
\<close>

theorem remember_key_survives_a_crash:
  assumes "remember_writes X key (rd_ring d) = Inr ws" and "length key = KEY_BYTES"
    and "rd_after_loss d = {rd_ring d}"
  shows "insert (rd_ring (foldl ring_step d (take n ws))) (rd_after_loss (foldl ring_step d (take n ws)))
      \<subseteq> {rd_ring d, Ring ((ring_keys (rd_ring d))(hex (fingerprint X key) \<mapsto> hex key))}
    \<and> (\<forall>r \<in> insert (rd_ring (foldl ring_step d ws)) (rd_after_loss (foldl ring_step d ws)).
          find_key r (hex (fingerprint X key)) = Inr (Some key)
          \<and> (\<forall>other. other \<noteq> hex (fingerprint X key) \<longrightarrow> find_key r other = find_key (rd_ring d) other))"
proof (intro conjI ballI allI impI)
  let ?m = "(ring_keys (rd_ring d))(hex (fingerprint X key) \<mapsto> hex key)"
  note cs = remember_writes_cases [OF assms(1)]
  have prefix: "insert (rd_ring (foldl ring_step d (take i ws))) (rd_after_loss (foldl ring_step d (take i ws)))
      \<subseteq> {rd_ring d, Ring ?m}" for i
  proof (cases "ws = []")
    case False
    then have "ws = [CreateTmp, FillTmp ?m, SyncTmp, ReplaceRing, SyncDir]" using cs(2) by blast
    from ring_prefix [OF this, of d i] assms(3) show ?thesis by simp
  qed (simp add: assms(3))
  show "insert (rd_ring (foldl ring_step d (take n ws))) (rd_after_loss (foldl ring_step d (take n ws)))
      \<subseteq> {rd_ring d, Ring ?m}"
    by (rule prefix)
  fix r assume "r \<in> insert (rd_ring (foldl ring_step d ws)) (rd_after_loss (foldl ring_step d ws))"
  moreover have "insert (rd_ring (foldl ring_step d ws)) (rd_after_loss (foldl ring_step d ws))
      = {if ws = [] then rd_ring d else Ring ?m}"
  proof (cases "ws = []")
    case False
    then have ws: "ws = [CreateTmp, FillTmp ?m, SyncTmp, ReplaceRing, SyncDir]" using cs(2) by blast
    then have "take 5 ws = ws" by simp
    then show ?thesis using ring_prefix [OF ws, of d 5] False by simp
  qed (simp add: assms(3))
  ultimately have r: "r = (if ws = [] then rd_ring d else Ring ?m)" by simp
  then show "find_key r (hex (fingerprint X key)) = Inr (Some key)"
    using cs parse_hex_key_hex [OF assms(2)]
    by (cases "rd_ring d") (auto simp: find_key_def ring_keys_def)
  fix other assume "other \<noteq> hex (fingerprint X key)"
  then show "find_key r other = find_key (rd_ring d) other"
    using cs(1) r by (cases "rd_ring d") (auto simp: find_key_def ring_keys_def)
qed

theorem remember_key_survives_a_crash_witness:
  "\<exists>ws. remember_writes sample_crypto (replicate 32 5) RingAbsent = Inr ws \<and> length ws = 5
     \<and> rd_after_loss (foldl ring_step (ring_at_rest RingAbsent) (take 4 ws))
         \<subseteq> {RingAbsent, Ring [hex (fingerprint sample_crypto (replicate 32 5)) \<mapsto> hex (replicate 32 5)]}
     \<and> find_key (rd_ring (foldl ring_step (ring_at_rest RingAbsent) ws))
         (hex (fingerprint sample_crypto (replicate 32 5))) = Inr (Some (replicate 32 5))"
proof -
  let ?d = "ring_at_rest RingAbsent"
  have d: "rd_ring ?d = RingAbsent" "rd_after_loss ?d = {rd_ring ?d}" by (simp_all add: ring_at_rest_def)
  obtain ws where ws: "remember_writes sample_crypto (replicate 32 5) (rd_ring ?d) = Inr ws" "length ws = 5"
    by (simp add: remember_writes_def d)
  have "length (replicate 32 (5 :: byte)) = KEY_BYTES" by (simp add: KEY_BYTES_def)
  note safe = remember_key_survives_a_crash [OF ws(1) this d(2), of 4]
  have "rd_after_loss (foldl ring_step ?d (take 4 ws))
      \<subseteq> {RingAbsent, Ring [hex (fingerprint sample_crypto (replicate 32 5)) \<mapsto> hex (replicate 32 5)]}"
    using safe [THEN conjunct1] unfolding d(1) ring_keys_def ring_file.case by (meson insert_subset)
  moreover have "find_key (rd_ring (foldl ring_step ?d ws))
      (hex (fingerprint sample_crypto (replicate 32 5))) = Inr (Some (replicate 32 5))"
    using safe [THEN conjunct2] by blast
  ultimately show ?thesis using ws unfolding d(1) by blast
qed

end
