(* ===== verification/Text.thy ===== *)
theory Text
  imports Prelude
begin

text \<open>
  Python's \<open>str\<close> operations that several components use: lower case, \<open>str.join\<close>, and the decimal text
  of an integer, with the facts that say when joined text determines its parts.
\<close>

section \<open>Case\<close>

text \<open>
  \<open>str.lower\<close> on the characters whose result holds an ASCII character. Every other character is kept: it
  lowers to characters outside ASCII, and nothing here compares those.
\<close>

definition lower_char :: "nat \<Rightarrow> ustr" where
  "lower_char c = (if 65 \<le> c \<and> c \<le> 90 then [c + 32] else if c = 8490 then [107]
     else if c = 304 then [105, 775] else [c])"

definition lower :: "ustr \<Rightarrow> ustr" where
  "lower s = concat (map lower_char s)"

section \<open>Joining\<close>

text \<open>\<open>chr(sep).join(parts)\<close>\<close>

fun join :: "nat \<Rightarrow> ustr list \<Rightarrow> ustr" where
  "join sep [] = []"
| "join sep [x] = x"
| "join sep (x # xs) = x @ sep # join sep xs"

lemma join_Cons: "xs \<noteq> [] \<Longrightarrow> join sep (x # xs) = x @ sep # join sep xs"
  by (cases xs) simp_all

text \<open>The part before the first separator and what follows it are unique.\<close>

lemma split_at_sep:
  "c \<notin> set a \<Longrightarrow> c \<notin> set b \<Longrightarrow> (a @ c # x = b @ c # y) = (a = b \<and> x = y)"
proof (induction a arbitrary: b)
  case Nil
  then show ?case by (cases b) auto
next
  case (Cons h a)
  then show ?case by (cases b) auto
qed

lemma no_sep_append: "c \<notin> set a \<Longrightarrow> a \<noteq> b @ c # y"
  by auto

text \<open>Parts without the separator are determined by the joined text, given how many there are.\<close>

lemma join_inject:
  assumes "list_all (\<lambda>x. sep \<notin> set x) xs" "list_all (\<lambda>y. sep \<notin> set y) ys" "xs \<noteq> []" "ys \<noteq> []"
  shows "join sep xs = join sep ys \<longleftrightarrow> xs = ys"
  using assms
proof (induction xs arbitrary: ys)
  case (Cons x xs)
  then obtain y ys' where ys: "ys = y # ys'" by (cases ys) auto
  show ?case
  proof (cases "xs = []")
    case True
    then show ?thesis
      using Cons.prems ys no_sep_append [of sep x y] by (cases "ys' = []") (auto simp: join_Cons)
  next
    case False
    show ?thesis
    proof (cases "ys' = []")
      case True
      then show ?thesis
        using Cons.prems ys False no_sep_append [of sep y x] by (auto simp: join_Cons dest: sym)
    next
      case ys': False
      then show ?thesis
        using Cons ys False by (simp add: join_Cons split_at_sep)
    qed
  qed
qed simp

section \<open>Decimal numbers\<close>

text \<open>\<open>str(n)\<close> of an integer that is not negative, and of any integer.\<close>

fun dec_nat :: "nat \<Rightarrow> ustr" where
  "dec_nat n = (if n < 10 then [48 + n] else dec_nat (n div 10) @ [48 + n mod 10])"

declare dec_nat.simps [simp del]

definition dec_int :: "int \<Rightarrow> ustr" where
  "dec_int i = (if i < 0 then 45 # dec_nat (nat (- i)) else dec_nat (nat i))"

fun undec :: "ustr \<Rightarrow> nat" where
  "undec s = foldl (\<lambda>n c. n * 10 + (c - 48)) 0 s"

lemma undec_dec_nat: "undec (dec_nat n) = n"
proof (induction n rule: dec_nat.induct)
  case (1 n)
  then show ?case by (cases "n < 10") (simp_all add: dec_nat.simps [of n])
qed

lemma dec_nat_inject [simp]: "dec_nat a = dec_nat b \<longleftrightarrow> a = b"
  by (metis undec_dec_nat)

lemma dec_nat_digits: "c \<in> set (dec_nat n) \<Longrightarrow> 48 \<le> c \<and> c \<le> 57"
proof (induction n rule: dec_nat.induct)
  case (1 n)
  then show ?case by (cases "n < 10") (auto simp: dec_nat.simps [of n])
qed

lemma dec_int_inject: "0 \<le> a \<Longrightarrow> 0 \<le> b \<Longrightarrow> dec_int a = dec_int b \<longleftrightarrow> a = b"
  by (simp add: dec_int_def eq_nat_nat_iff)

lemma dec_int_digits: "0 \<le> i \<Longrightarrow> c \<in> set (dec_int i) \<Longrightarrow> 48 \<le> c \<and> c \<le> 57"
  by (simp add: dec_int_def dec_nat_digits)

end
