(* ===== verification/Decode.thy ===== *)
theory Decode
  imports Text
begin

unbundle bit_operations_syntax

text \<open>
  Access units of the video streams (\<open>reader/_decode.py\<close>): the table of formats, the keyframe peek, and
  the decoder that turns one access unit into at most one frame.

  PyAV is code outside the repository: a codec context is a value of type \<open>'c\<close>, and \<open>av_decode\<close> gives
  the frames of one packet with the context after it, or the \<open>FFmpegError\<close>. The keyframe peek keeps the
  code's search; \<open>keyframe_first_slice\<close> proves it equal to \<open>first_slice_is_key\<close>, which looks at all NAL
  headers in order.
\<close>

section \<open>Formats\<close>

datatype codec = Hevc | H264 | Av1 | Mjpeg

definition AV :: "(ustr \<times> codec) list" where
  "AV = [(lit ''h265'', Hevc), (lit ''hevc'', Hevc), (lit ''h264'', H264), (lit ''avc'', H264),
         (lit ''av1'', Av1), (lit ''mjpeg'', Mjpeg), (lit ''jpeg'', Mjpeg)]"

record nal_syntax =
  ns_shift :: nat
  ns_mask :: byte
  ns_vcl_lo :: nat
  ns_vcl_hi :: nat
  ns_key_lo :: nat
  ns_key_hi :: nat

fun NAL_SYNTAX :: "codec \<Rightarrow> nal_syntax option" where
  "NAL_SYNTAX Hevc = Some \<lparr>ns_shift = 1, ns_mask = 0x3F, ns_vcl_lo = 0, ns_vcl_hi = 31,
     ns_key_lo = 16, ns_key_hi = 21\<rparr>"
| "NAL_SYNTAX H264 = Some \<lparr>ns_shift = 0, ns_mask = 0x1F, ns_vcl_lo = 1, ns_vcl_hi = 5,
     ns_key_lo = 5, ns_key_hi = 5\<rparr>"
| "NAL_SYNTAX _ = None"

definition decodable_formats :: "codec option \<Rightarrow> ustr set" where
  "decodable_formats wanted = fst ` {fc \<in> set AV. wanted = None \<or> wanted = Some (snd fc)}"

definition KEYFRAME_FORMATS :: "ustr set" where
  "KEYFRAME_FORMATS = fst ` {fc \<in> set AV. NAL_SYNTAX (snd fc) \<noteq> None \<or> snd fc = Mjpeg}"

section \<open>The keyframe peek\<close>

definition MAX_PREFIX_BYTES :: nat where "MAX_PREFIX_BYTES = 4096"

definition start_code_at :: "bytes \<Rightarrow> nat \<Rightarrow> bool" where
  "start_code_at au i \<longleftrightarrow> take 3 (drop i au) = [0, 0, 1]"

text \<open>\<open>access_unit.find(_START_CODE, start, limit)\<close>: a match has to end by \<open>limit\<close>.\<close>

definition find_code :: "bytes \<Rightarrow> nat \<Rightarrow> nat \<Rightarrow> nat option" where
  "find_code au start limit = find (start_code_at au) [start..<limit - 2]"

lemma find_code_Some:
  "find_code au start limit = Some i \<Longrightarrow> start \<le> i \<and> i < limit - 2"
  unfolding find_code_def find_Some_iff by auto

definition nal_type :: "nal_syntax \<Rightarrow> byte \<Rightarrow> nat" where
  "nal_type S b = unat (drop_bit (ns_shift S) b AND ns_mask S)"

function keyframe_scan :: "nal_syntax \<Rightarrow> bytes \<Rightarrow> nat \<Rightarrow> nat \<Rightarrow> bool" where
  "keyframe_scan S au limit start =
     (case find_code au start limit of
        None \<Rightarrow> False
      | Some i \<Rightarrow>
          if \<not> i + 3 < length au then False
          else let nal = nal_type S (au ! (i + 3))
               in if ns_vcl_lo S \<le> nal \<and> nal \<le> ns_vcl_hi S
                  then ns_key_lo S \<le> nal \<and> nal \<le> ns_key_hi S
                  else keyframe_scan S au limit (i + 3))"
  by pat_completeness auto
termination
  by (relation "measure (\<lambda>(S, au, limit, start). limit - start)") (auto dest: find_code_Some)

declare keyframe_scan.simps [simp del]

definition is_keyframe :: "ustr \<Rightarrow> bytes \<Rightarrow> bool option" where
  "is_keyframe fmt access_unit =
     (case map_of AV (lower fmt) of
        Some Mjpeg \<Rightarrow> Some True
      | None \<Rightarrow> None
      | Some codec \<Rightarrow> (case NAL_SYNTAX codec of
            None \<Rightarrow> None
          | Some S \<Rightarrow> Some (keyframe_scan S access_unit (min (length access_unit) MAX_PREFIX_BYTES) 0)))"

section \<open>The decoder\<close>

datatype decode_error = UnsupportedFormat ustr | NotLuma16 | ConvertFailed

record ('c, 'f, 'img) av_env =
  av_create :: "codec \<Rightarrow> 'c"
  av_decode :: "'c \<Rightarrow> bytes \<Rightarrow> (unit + 'f list) \<times> 'c"
  av_is_luma16 :: "'f \<Rightarrow> bool"
  av_plane0 :: "'f \<Rightarrow> 'img"
  av_to_ndarray :: "ustr \<Rightarrow> 'f \<Rightarrow> 'img option"

record 'c hevc_decoder =
  hd_ctx :: 'c
  hd_pixel_format :: ustr
  hd_synced :: bool
  hd_hard_errors :: nat

definition RAW_LUMA16 :: ustr where "RAW_LUMA16 = lit ''raw16''"

definition init_decoder :: "('c, 'f, 'img) av_env \<Rightarrow> ustr \<Rightarrow> ustr \<Rightarrow> decode_error + 'c hevc_decoder" where
  "init_decoder E fmt pixel_format =
     (case map_of AV (lower fmt) of
        None \<Rightarrow> Inl (UnsupportedFormat fmt)
      | Some codec \<Rightarrow> Inr \<lparr>hd_ctx = av_create E codec, hd_pixel_format = pixel_format,
                           hd_synced = False, hd_hard_errors = 0\<rparr>)"

definition read_luma16 :: "('c, 'f, 'img) av_env \<Rightarrow> 'f \<Rightarrow> decode_error + 'img" where
  "read_luma16 E frame = (if \<not> av_is_luma16 E frame then Inl NotLuma16 else Inr (av_plane0 E frame))"

definition decode_au :: "('c, 'f, 'img) av_env \<Rightarrow> bytes \<Rightarrow> 'c hevc_decoder
    \<Rightarrow> (decode_error + 'img option) \<times> 'c hevc_decoder" where
  "decode_au E access_unit d =
     (let (frames, ctx) = av_decode E (hd_ctx d) access_unit; d = d\<lparr>hd_ctx := ctx\<rparr>
      in case frames of
           Inl _ \<Rightarrow> (Inr None, if hd_synced d then d\<lparr>hd_hard_errors := hd_hard_errors d + 1\<rparr> else d)
         | Inr [] \<Rightarrow> (Inr None, d)
         | Inr (f # _) \<Rightarrow>
             (if hd_pixel_format d = RAW_LUMA16 then bindE (read_luma16 E f) (\<lambda>img. Inr (Some img))
              else (case av_to_ndarray E (hd_pixel_format d) f of
                      None \<Rightarrow> Inl ConvertFailed | Some img \<Rightarrow> Inr (Some img)),
              d\<lparr>hd_synced := True\<rparr>))"

section \<open>The peek against a reference\<close>

text \<open>Every start code of the prefix that a header byte follows, and the type of that NAL.\<close>

definition nal_types :: "nal_syntax \<Rightarrow> bytes \<Rightarrow> nat \<Rightarrow> nat \<Rightarrow> nat list" where
  "nal_types S au limit start =
     map (\<lambda>i. nal_type S (au ! (i + 3)))
       (filter (\<lambda>i. start_code_at au i \<and> i + 3 < length au) [start..<limit - 2])"

definition is_slice :: "nal_syntax \<Rightarrow> nat \<Rightarrow> bool" where
  "is_slice S nal \<longleftrightarrow> ns_vcl_lo S \<le> nal \<and> nal \<le> ns_vcl_hi S"

definition is_key_slice :: "nal_syntax \<Rightarrow> nat \<Rightarrow> bool" where
  "is_key_slice S nal \<longleftrightarrow> ns_key_lo S \<le> nal \<and> nal \<le> ns_key_hi S"

definition first_slice_is_key :: "nal_syntax \<Rightarrow> nat list \<Rightarrow> bool" where
  "first_slice_is_key S nals = (case find (is_slice S) nals of None \<Rightarrow> False | Some n \<Rightarrow> is_key_slice S n)"

text \<open>Start codes do not overlap.\<close>

lemma start_code_bytes:
  assumes "start_code_at au i"
  shows "i + 2 < length au" "au ! i = 0" "au ! (i + 1) = 0" "au ! (i + 2) = 1"
proof -
  have e: "take 3 (drop i au) = [0, 0, 1]" using assms by (simp add: start_code_at_def)
  then have "length (take 3 (drop i au)) = 3" by simp
  then show len: "i + 2 < length au" by simp
  have "take 3 (drop i au) ! k = au ! (i + k)" if "k < 3" for k using that len by simp
  from this [of 0] this [of 1] this [of 2] show "au ! i = 0" "au ! (i + 1) = 0" "au ! (i + 2) = 1"
    by (simp_all add: e)
qed

lemma start_code_apart:
  assumes "start_code_at au i"
  shows "\<not> start_code_at au (i + 1)" "\<not> start_code_at au (i + 2)"
  using start_code_bytes [OF assms] start_code_bytes [of au "i + 1"] start_code_bytes [of au "i + 2"]
  by (auto simp: add.assoc)

lemma find_code_split:
  assumes "find_code au start limit = Some i"
  shows "filter (start_code_at au) [start..<limit - 2]
    = i # filter (start_code_at au) [i + 3..<limit - 2]" and "start_code_at au i"
proof -
  have i: "start \<le> i" "i < limit - 2" using find_code_Some [OF assms] by auto
  from assms obtain k where k: "k < limit - 2 - start" "start_code_at au (start + k)" "i = start + k"
    "\<forall>j < k. \<not> start_code_at au (start + j)"
    unfolding find_code_def find_Some_iff by auto
  show code: "start_code_at au i" using k by simp
  have "[start..<limit - 2] = [start..<i] @ i # [i + 1..<limit - 2]"
    using i upt_add_eq_append [of start i "limit - 2 - i"] by (simp add: upt_conv_Cons)
  moreover have "filter (start_code_at au) [start..<i] = []"
    using k by (auto simp: filter_empty_conv) (metis le_Suc_ex less_add_eq_less nat_add_left_cancel_less)
  moreover have "filter (start_code_at au) [i + 1..<limit - 2] = filter (start_code_at au) [i + 3..<limit - 2]"
  proof -
    have "filter (start_code_at au) [j..<n] = filter (start_code_at au) [j + 1..<n]"
      if "\<not> start_code_at au j" for j n
      using that by (cases "j < n") (simp_all add: upt_conv_Cons)
    from this [OF start_code_apart(1) [OF code]] this [OF start_code_apart(2) [OF code]]
    show ?thesis by (simp add: numeral_eq_Suc)
  qed
  ultimately show "filter (start_code_at au) [start..<limit - 2]
      = i # filter (start_code_at au) [i + 3..<limit - 2]" using code by simp
qed

lemma nal_types_filter:
  "nal_types S au limit start = map (\<lambda>i. nal_type S (au ! (i + 3)))
     (filter (\<lambda>i. i + 3 < length au) (filter (start_code_at au) [start..<limit - 2]))"
  by (simp add: nal_types_def conj_commute)

lemma keyframe_scan_first_slice:
  "limit \<le> length au \<Longrightarrow> keyframe_scan S au limit start = first_slice_is_key S (nal_types S au limit start)"
proof (induction S au limit start rule: keyframe_scan.induct)
  case (1 S au limit start)
  show ?case
  proof (cases "find_code au start limit")
    case None
    then have "filter (start_code_at au) [start..<limit - 2] = []"
      unfolding find_code_def find_None_iff by (simp add: filter_empty_conv)
    then show ?thesis
      by (simp add: keyframe_scan.simps [of S au limit start] None nal_types_filter first_slice_is_key_def)
  next
    case (Some i)
    note split = find_code_split [OF Some]
    show ?thesis
    proof (cases "i + 3 < length au")
      case True
      have types: "nal_types S au limit start
          = nal_type S (au ! (i + 3)) # nal_types S au limit (i + 3)"
        using True by (simp only: nal_types_filter split(1)) simp
      show ?thesis
        using "1.IH" [OF Some _ refl _ "1.prems"] True
        by (simp add: keyframe_scan.simps [of S au limit start] Some types first_slice_is_key_def
            is_slice_def is_key_slice_def Let_def)
    next
      case False
      then have "[i + 3..<limit - 2] = []" using "1.prems" by simp
      then have "nal_types S au limit start = []"
        using False by (simp add: nal_types_filter split(1))
      then show ?thesis
        using False by (simp add: keyframe_scan.simps [of S au limit start] Some first_slice_is_key_def)
    qed
  qed
qed

end
