(* ===== verification/Reorder.thy ===== *)
theory Reorder
  imports Prelude "HOL-Library.Multiset"
begin

text \<open>
  The watermark heap of the readers (\<open>reader/rows.py\<close>, \<open>_reorder\<close>). An item is \<open>(t_ns, arrival_ns,
  element)\<close>. The heap of \<open>heapq\<close> is the list of its entries in the order they come out: by time, then by
  sequence number; the numbers are distinct, so elements are never compared.
\<close>

section \<open>The code\<close>

type_synonym 'e item = "int \<times> int \<times> 'e"
type_synonym 'e entry = "int \<times> nat \<times> 'e"

definition entry_less :: "'e entry \<Rightarrow> 'e entry \<Rightarrow> bool" where
  "entry_less a b \<longleftrightarrow> fst a < fst b \<or> fst a = fst b \<and> fst (snd a) < fst (snd b)"

fun heap_push :: "'e entry \<Rightarrow> 'e entry list \<Rightarrow> 'e entry list" where
  "heap_push x [] = [x]"
| "heap_push x (y # ys) = (if entry_less x y then x # y # ys else y # heap_push x ys)"

text \<open>\<open>while heap and heap[0][0] <= cutoff: yield heappop(heap)[2]\<close>\<close>

fun pop_due :: "int \<Rightarrow> 'e entry list \<Rightarrow> 'e list \<times> 'e entry list" where
  "pop_due cutoff [] = ([], [])"
| "pop_due cutoff ((t, s, e) # h) =
     (if t \<le> cutoff then let (es, h') = pop_due cutoff h in (e # es, h') else ([], (t, s, e) # h))"

record 'e reorder_state =
  ro_heap :: "'e entry list"
  ro_seq :: nat
  ro_watermark :: int

definition init_reorder :: "'e reorder_state" where
  "init_reorder = \<lparr>ro_heap = [], ro_seq = 0, ro_watermark = 0\<rparr>"

definition reorder_item :: "int \<Rightarrow> 'e item \<Rightarrow> 'e reorder_state \<Rightarrow> 'e list \<times> 'e reorder_state" where
  "reorder_item reorder_ns item st =
     (let (t_ns, arrival, el) = item;
          watermark = max (ro_watermark st) arrival;
          heap = heap_push (t_ns, ro_seq st, el) (ro_heap st);
          cutoff = watermark - reorder_ns;
          (released, heap) = pop_due cutoff heap
      in (released, \<lparr>ro_heap = heap, ro_seq = ro_seq st + 1, ro_watermark = watermark\<rparr>))"

fun reorder_run :: "int \<Rightarrow> 'e item list \<Rightarrow> 'e reorder_state \<Rightarrow> 'e list \<times> 'e reorder_state" where
  "reorder_run reorder_ns [] st = ([], st)"
| "reorder_run reorder_ns (x # xs) st =
     (let (es, st) = reorder_item reorder_ns x st; (rest, st) = reorder_run reorder_ns xs st
      in (es @ rest, st))"

definition reorder :: "int \<Rightarrow> 'e item list \<Rightarrow> 'e list" where
  "reorder reorder_ns items =
     (let (es, st) = reorder_run reorder_ns items init_reorder
      in es @ map (\<lambda>(t, s, e). e) (ro_heap st))"

section \<open>Nothing is lost\<close>

lemma mset_heap_push: "mset (heap_push x h) = add_mset x (mset h)"
  by (induction h) auto

lemma pop_due_takeWhile:
  "pop_due c h = (map (\<lambda>(t, s, e). e) (takeWhile (\<lambda>x. fst x \<le> c) h), dropWhile (\<lambda>x. fst x \<le> c) h)"
  by (induction c h rule: pop_due.induct) auto

definition entry_elem :: "'e entry \<Rightarrow> 'e" where "entry_elem = (\<lambda>(t, s, e). e)"
definition item_elem :: "'e item \<Rightarrow> 'e" where "item_elem = (\<lambda>(t, a, e). e)"

lemma reorder_item_eq:
  "reorder_item r (t, a, e) st =
     (let w = max (ro_watermark st) a; h = heap_push (t, ro_seq st, e) (ro_heap st)
      in (map entry_elem (takeWhile (\<lambda>x. fst x \<le> w - r) h),
          \<lparr>ro_heap = dropWhile (\<lambda>x. fst x \<le> w - r) h, ro_seq = ro_seq st + 1, ro_watermark = w\<rparr>))"
  by (simp add: reorder_item_def Let_def pop_due_takeWhile entry_elem_def)

lemma reorder_item_mset:
  "mset (fst (reorder_item r x st)) + image_mset entry_elem (mset (ro_heap (snd (reorder_item r x st))))
     = add_mset (item_elem x) (image_mset entry_elem (mset (ro_heap st)))"
proof -
  obtain t a e where x: "x = (t, a, e)" by (cases x) auto
  let ?h = "heap_push (t, ro_seq st, e) (ro_heap st)"
  let ?P = "\<lambda>y. fst y \<le> max (ro_watermark st) a - r"
  have "image_mset entry_elem (mset (takeWhile ?P ?h)) + image_mset entry_elem (mset (dropWhile ?P ?h))
      = image_mset entry_elem (mset ?h)"
    by (metis image_mset_union mset_append takeWhile_dropWhile_id)
  then show ?thesis
    by (simp add: x reorder_item_eq Let_def mset_heap_push entry_elem_def item_elem_def)
qed

lemma reorder_run_mset:
  "mset (fst (reorder_run r xs st)) + image_mset entry_elem (mset (ro_heap (snd (reorder_run r xs st))))
     = mset (map item_elem xs) + image_mset entry_elem (mset (ro_heap st))"
proof (induction xs arbitrary: st)
  case (Cons x xs)
  show ?case
    using Cons.IH [of "snd (reorder_item r x st)"] reorder_item_mset [of r x st]
    by (auto simp: case_prod_beta Let_def add.assoc)
qed simp

lemma reorder_mset: "mset (reorder r xs) = mset (map item_elem xs)"
  using reorder_run_mset [of r xs init_reorder]
  by (simp add: reorder_def init_reorder_def case_prod_beta entry_elem_def [symmetric])

section \<open>The stable sort it computes\<close>

text \<open>No item is more than \<open>reorder_ns\<close> behind the newest stamp seen before it.\<close>

fun lateness_ok :: "int \<Rightarrow> int \<Rightarrow> 'e item list \<Rightarrow> bool" where
  "lateness_ok r w [] \<longleftrightarrow> True"
| "lateness_ok r w ((t, a, e) # xs) \<longleftrightarrow> w - r \<le> t \<and> lateness_ok r (max w a) xs"

lemma above_dropWhile:
  fixes f :: "'b \<Rightarrow> int"
  shows "sorted (map f ys) \<Longrightarrow> y \<in> set (dropWhile (\<lambda>y. f y \<le> c) ys) \<Longrightarrow> c < f y"
  by (induction ys) (auto split: if_splits)

lemma sort_key_snoc:
  fixes f :: "'b \<Rightarrow> int"
  shows "sort_key f (xs @ [x]) =
     takeWhile (\<lambda>y. f y \<le> f x) (sort_key f xs) @ x # dropWhile (\<lambda>y. f y \<le> f x) (sort_key f xs)"
proof (rule properties_for_sort_key)
  define a b where "a = takeWhile (\<lambda>y. f y \<le> f x) (sort_key f xs)"
    and "b = dropWhile (\<lambda>y. f y \<le> f x) (sort_key f xs)"
  have ab: "a @ b = sort_key f xs" by (simp add: a_def b_def)
  have low: "f y \<le> f x" if "y \<in> set a" for y using that unfolding a_def by (auto dest: set_takeWhileD)
  have high: "f x < f y" if "y \<in> set b" for y
    using that above_dropWhile [of f "sort_key f xs"] by (simp add: b_def)
  have "mset (a @ b) = mset xs" by (simp add: ab)
  then show "mset (a @ x # b) = mset (xs @ [x])" by simp
  have "sorted (map f (a @ b))" by (simp add: ab)
  then show "sorted (map f (a @ x # b))" using low high by (fastforce simp: sorted_append)
  fix k
  have "filter (\<lambda>y. f k = f y) (a @ b) = filter (\<lambda>y. f k = f y) xs"
    using sort_key_stable [of f "f k" xs] by (simp add: ab eq_commute)
  moreover have "filter (\<lambda>y. f k = f y) b = []" if "f k = f x"
    using high that by (force simp: filter_empty_conv)
  ultimately show "filter (\<lambda>y. f k = f y) (a @ x # b) = filter (\<lambda>y. f k = f y) (xs @ [x])" by auto
qed

lemma heap_push_last:
  "sorted (map fst h) \<Longrightarrow> \<forall>y \<in> set h. fst (snd y) < s \<Longrightarrow>
     heap_push (t, s, e) h = takeWhile (\<lambda>y. fst y \<le> t) h @ (t, s, e) # dropWhile (\<lambda>y. fst y \<le> t) h"
  by (induction h) (auto simp: entry_less_def)

definition item_view :: "'e item \<Rightarrow> int \<times> 'e" where "item_view = (\<lambda>(t, a, e). (t, e))"
definition entry_view :: "'e entry \<Rightarrow> int \<times> 'e" where "entry_view = (\<lambda>(t, s, e). (t, e))"

lemma view_simps [simp]:
  "fst (entry_view y) = fst y" "snd (entry_view y) = entry_elem y" "entry_view (t, s, e) = (t, e)"
  "item_view (t, a, e) = (t, e)" "snd (item_view x) = item_elem x" "fst \<circ> entry_view = fst"
  "snd \<circ> entry_view = entry_elem"
  by (auto simp: entry_view_def entry_elem_def item_view_def item_elem_def split: prod.splits)

text \<open>
  What a run has released and what it holds, together, is the stable sort of what it has seen; all it has
  released is up to the cutoff, and all it holds is later.
\<close>

definition run_inv :: "int \<Rightarrow> (int \<times> 'e) list \<Rightarrow> (int \<times> 'e) list \<Rightarrow> 'e reorder_state \<Rightarrow> bool" where
  "run_inv r seen out st \<longleftrightarrow>
     out @ map entry_view (ro_heap st) = sort_key fst seen
     \<and> (\<forall>x \<in> set out. fst x \<le> ro_watermark st - r)
     \<and> (\<forall>y \<in> set (ro_heap st). ro_watermark st - r < fst y \<and> fst (snd y) < ro_seq st)"

lemma run_inv_step:
  assumes inv: "run_inv r seen out st" and late: "ro_watermark st - r \<le> t"
  shows "\<exists>new. fst (reorder_item r (t, a, e) st) = map snd new
    \<and> run_inv r (seen @ [(t, e)]) (out @ new) (snd (reorder_item r (t, a, e) st))"
proof -
  define h where "h = ro_heap st"
  define h' where "h' = heap_push (t, ro_seq st, e) h"
  define w where "w = max (ro_watermark st) a"
  define new where "new = map entry_view (takeWhile (\<lambda>x. fst x \<le> w - r) h')"
  have sorted_all: "sorted (map fst (out @ map entry_view h))"
    using inv by (simp add: run_inv_def h_def)
  then have sorted_h: "sorted (map fst h)" by (simp add: sorted_append)
  have push: "h' = takeWhile (\<lambda>y. fst y \<le> t) h @ (t, ro_seq st, e) # dropWhile (\<lambda>y. fst y \<le> t) h"
    using heap_push_last [OF sorted_h] inv by (simp add: h'_def h_def run_inv_def)
  have "\<forall>x \<in> set out. fst x \<le> t" using inv late by (fastforce simp: run_inv_def)
  moreover have "sort_key fst seen = out @ map entry_view h" using inv by (simp add: run_inv_def h_def)
  ultimately have sort: "sort_key fst (seen @ [(t, e)]) = out @ map entry_view h'"
    by (simp add: sort_key_snoc push takeWhile_map dropWhile_map
        comp_def)
  have sorted_h': "sorted (map fst h')"
  proof -
    have "sorted (map fst (sort_key fst (seen @ [(t, e)])))" by simp
    then show ?thesis unfolding sort by (simp add: sorted_append)
  qed
  have item: "reorder_item r (t, a, e) st = (map snd new,
      \<lparr>ro_heap = dropWhile (\<lambda>x. fst x \<le> w - r) h', ro_seq = ro_seq st + 1, ro_watermark = w\<rparr>)"
    by (simp add: reorder_item_eq Let_def new_def w_def h'_def h_def)
  have "new @ map entry_view (dropWhile (\<lambda>x. fst x \<le> w - r) h') = map entry_view h'"
    by (simp add: new_def flip: map_append)
  then have 1: "(out @ new) @ map entry_view (dropWhile (\<lambda>x. fst x \<le> w - r) h')
      = sort_key fst (seen @ [(t, e)])" by (simp add: sort)
  have 2: "fst x \<le> w - r" if "x \<in> set (out @ new)" for x
    using that inv by (auto simp: new_def run_inv_def w_def dest!: set_takeWhileD)
  have "set h' \<subseteq> insert (t, ro_seq st, e) (set h)"
    unfolding push by (auto dest: set_takeWhileD set_dropWhileD)
  then have 3: "w - r < fst y \<and> fst (snd y) < ro_seq st + 1"
    if "y \<in> set (dropWhile (\<lambda>x. fst x \<le> w - r) h')" for y
    using above_dropWhile [OF sorted_h' that] set_dropWhileD [OF that] inv
    by (auto simp: run_inv_def h_def less_Suc_eq)
  show ?thesis using 1 2 3 by (intro exI [of _ new]) (simp add: item run_inv_def)
qed

lemma reorder_run_inv:
  "run_inv r seen out st \<Longrightarrow> lateness_ok r (ro_watermark st) xs \<Longrightarrow>
     \<exists>new. fst (reorder_run r xs st) = map snd new
       \<and> run_inv r (seen @ map item_view xs) (out @ new) (snd (reorder_run r xs st))"
proof (induction xs arbitrary: seen out st)
  case (Cons x xs)
  obtain t a e where x: "x = (t, a, e)" by (cases x) auto
  let ?st = "snd (reorder_item r x st)"
  obtain n1 where n1: "fst (reorder_item r x st) = map snd n1"
    "run_inv r (seen @ [(t, e)]) (out @ n1) ?st"
    using run_inv_step [OF Cons.prems(1), of t a e] Cons.prems(2) unfolding x by auto
  have "ro_watermark ?st = max (ro_watermark st) a" by (simp add: x reorder_item_eq Let_def)
  then have "lateness_ok r (ro_watermark ?st) xs" using Cons.prems(2) x by simp
  from Cons.IH [OF n1(2) this] obtain n2 where "fst (reorder_run r xs ?st) = map snd n2"
    "run_inv r ((seen @ [(t, e)]) @ map item_view xs) ((out @ n1) @ n2) (snd (reorder_run r xs ?st))"
    by blast
  then show ?case using n1(1)
    by (intro exI [of _ "n1 @ n2"]) (simp add: x case_prod_beta Let_def)
qed (auto intro!: exI [of _ "[]"])

text \<open>The reference: within the lateness budget the watermark heap is a stable sort by time.\<close>

lemma reorder_sorts:
  assumes "lateness_ok r 0 xs"
  shows "reorder r xs = map snd (sort_key fst (map item_view xs))"
proof -
  have "run_inv r [] [] (init_reorder :: 'a reorder_state)" by (simp add: run_inv_def init_reorder_def)
  from reorder_run_inv [OF this, of xs] assms obtain new where
    new: "fst (reorder_run r xs init_reorder) = map snd new"
    "run_inv r (map item_view xs) new (snd (reorder_run r xs init_reorder))"
    by (auto simp: init_reorder_def)
  have "reorder r xs = map snd (new @ map entry_view (ro_heap (snd (reorder_run r xs init_reorder))))"
    using new(1) by (simp add: reorder_def case_prod_beta entry_elem_def)
  then show ?thesis using new(2) unfolding run_inv_def by (simp only:)
qed

end
