(* ===== verification/Adapters.thy ===== *)
theory Adapters
  imports Decode Reorder Registry
begin

text \<open>
  From wire messages to elements: the element types of \<open>reader/domain.py\<close>, the adapter table of
  \<open>reader/adapters.py\<close>, and the per-camera decoders of \<open>reader/rows.py\<close>.

  Protobuf parsing is code outside the repository, the fields of \<open>proto_env\<close>: each parses the bytes with
  a message class, \<open>None\<close> being the \<open>DecodeError\<close>. A class is the generated one of a schema, or one built
  from an embedded descriptor set. A generator that raises is the list of what it yielded before, and the
  error. The adapters a caller passes as \<open>overrides\<close> are values of a type \<open>'u\<close> with their own two
  functions.
\<close>

section \<open>Elements\<close>

type_synonym vec3 = "real \<times> real \<times> real"
type_synonym quat = "real \<times> real \<times> real \<times> real"

datatype readout = Unspecified | TopToBottom | BottomToTop

record frame_exposure =
  xp_exposure_ns :: int
  xp_mid_ns :: int
  xp_gain :: real
  xp_line_delay_ns :: int
  xp_readout_direction :: readout
  xp_interpolated :: bool

datatype ('img, 'p) element =
    Frame (el_topic: ustr) (el_t_ns: int) 'img ustr "frame_exposure option"
  | ImuSample (el_topic: ustr) (el_t_ns: int) (im_gyro: vec3) (im_accel: vec3) (im_mag: "vec3 option")
  | Pose (el_topic: ustr) (el_t_ns: int) vec3 quat ustr
  | JointState (el_topic: ustr) (el_t_ns: int) "(ustr \<times> real) list" "(ustr \<times> real) list option"
      "(ustr \<times> real) list option"
  | Orientation (el_topic: ustr) (el_t_ns: int) quat
  | Record (el_topic: ustr) (el_t_ns: int) ustr 'p

type_synonym ('img, 'p) triple = "('img, 'p) element item"

definition VIDEO_SCHEMA :: ustr where "VIDEO_SCHEMA = lit ''foxglove.CompressedVideo''"
definition IMAGE_SCHEMA :: ustr where "IMAGE_SCHEMA = lit ''foxglove.CompressedImage''"
definition IMU_RAW_SCHEMA :: ustr where "IMU_RAW_SCHEMA = lit ''visio_schema.v1.sensor.ImuRaw''"
definition IMU_QUAT_SCHEMA :: ustr where "IMU_QUAT_SCHEMA = lit ''visio_schema.v1.sensor.ImuQuat''"
definition POSE_SCHEMA :: ustr where "POSE_SCHEMA = lit ''foxglove.PoseInFrame''"
definition QUATERNION_SCHEMA :: ustr where
  "QUATERNION_SCHEMA = lit ''visio_schema.v1.ros.geometry_msgs.Quaternion''"
definition JOINT_STATES_SCHEMA :: ustr where "JOINT_STATES_SCHEMA = lit ''foxglove.JointStates''"

datatype rows_error = ProtoDecodeError | NotProtobuf ustr ustr | UnknownInDescriptors
  | NeedsDecodeBackend ustr | DecoderError decode_error | OverrideError | AlreadyRegistered ustr

section \<open>Message classes\<close>

datatype msg_class = Generated ustr | Dynamic ustr bytes

definition dynamic_message_class :: "(bytes \<Rightarrow> ustr \<Rightarrow> bool) \<Rightarrow> ustr \<Rightarrow> bytes \<Rightarrow> rows_error + msg_class" where
  "dynamic_message_class defines name data =
     (if defines data name then Inr (Dynamic name data) else Inl UnknownInDescriptors)"

definition resolve_message_class :: "(ustr \<Rightarrow> bool) \<Rightarrow> (bytes \<Rightarrow> ustr \<Rightarrow> bool) \<Rightarrow> ustr \<Rightarrow> ustr \<Rightarrow> bytes
    \<Rightarrow> rows_error + msg_class" where
  "resolve_message_class generated defines schema_name encoding descriptor_set =
     (if generated schema_name then Inr (Generated schema_name)
      else if encoding \<noteq> PROTOBUF then Inl (NotProtobuf schema_name encoding)
      else dynamic_message_class defines schema_name descriptor_set)"

section \<open>Parsed messages\<close>

record video_msg =
  vm_format :: ustr
  vm_frame_id :: ustr
  vm_data :: bytes

record imu_sample_msg =
  is_t_offset_ns :: int
  is_linear_acceleration :: vec3
  is_angular_velocity :: vec3
  is_magnetic_field :: "vec3 option"

record joint_msg =
  jm_name :: ustr
  jm_position :: "real option"
  jm_velocity :: "real option"
  jm_effort :: "real option"

record ('p, 'u, 'img) proto_env =
  pe_generated :: "ustr \<Rightarrow> bool"
  pe_defines :: "bytes \<Rightarrow> ustr \<Rightarrow> bool"
  pe_decoded :: "msg_class \<Rightarrow> bytes \<Rightarrow> video_msg option"
  pe_imu :: "msg_class \<Rightarrow> bytes \<Rightarrow> imu_sample_msg list option"
  pe_imu_quat :: "msg_class \<Rightarrow> bytes \<Rightarrow> (int \<times> quat) list option"
  pe_pose :: "msg_class \<Rightarrow> bytes \<Rightarrow> (vec3 \<times> quat \<times> ustr) option"
  pe_quaternion :: "msg_class \<Rightarrow> bytes \<Rightarrow> quat option"
  pe_joints :: "msg_class \<Rightarrow> bytes \<Rightarrow> joint_msg list option"
  pe_record :: "msg_class \<Rightarrow> bytes \<Rightarrow> 'p option"
  pe_override :: "ustr \<Rightarrow> (rows_error + 'u) option"
  pe_override_emit :: "'u \<Rightarrow> bytes \<Rightarrow> ustr \<Rightarrow> int
    \<Rightarrow> (('img, 'p) triple list \<times> rows_error option) \<times> 'u"
  pe_override_flush :: "'u \<Rightarrow> ('img, 'p) triple list \<times> rows_error option"

section \<open>Per-camera decoders\<close>

record 'c video_state =
  vs_decoders :: "(ustr \<times> 'c hevc_decoder) list"
  vs_formats :: "(ustr \<times> ustr \<times> ustr) list"

definition init_video :: "'c video_state" where
  "init_video = \<lparr>vs_decoders = [], vs_formats = []\<rparr>"

text \<open>
  \<open>emit\<close> of \<open>cpu_video_decoders\<close>: at most one frame, or the error of the decoder. \<open>video_feed\<close> is the
  call of \<open>decode\<close> and what is yielded of it.
\<close>

definition video_feed :: "('c, 'f, 'img) av_env \<Rightarrow> (ustr \<Rightarrow> int \<Rightarrow> frame_exposure option) \<Rightarrow> video_msg
    \<Rightarrow> ustr \<Rightarrow> int \<Rightarrow> 'c hevc_decoder
    \<Rightarrow> (('img, 'p) triple list \<times> rows_error option) \<times> 'c hevc_decoder" where
  "video_feed E exposure_at v topic t dec =
     (let (r, dec) = decode_au E (vm_data v) dec
      in (case r of
            Inl e \<Rightarrow> ([], Some (DecoderError e))
          | Inr None \<Rightarrow> ([], None)
          | Inr (Some img) \<Rightarrow>
              ([(t, t, Frame topic t img (vm_frame_id v) (exposure_at topic t))], None), dec))"

definition put_decoder :: "ustr \<Rightarrow> 'r \<times> 'c hevc_decoder \<Rightarrow> 'c video_state \<Rightarrow> 'r \<times> 'c video_state" where
  "put_decoder topic rd st = (fst rd, st\<lparr>vs_decoders := AList.update topic (snd rd) (vs_decoders st)\<rparr>)"

definition video_emit :: "('c, 'f, 'img) av_env \<Rightarrow> bool \<Rightarrow> ustr \<Rightarrow> (ustr \<Rightarrow> int \<Rightarrow> frame_exposure option)
    \<Rightarrow> video_msg \<Rightarrow> ustr \<Rightarrow> int \<Rightarrow> 'c video_state
    \<Rightarrow> (('img, 'p) triple list \<times> rows_error option) \<times> 'c video_state" where
  "video_emit E continuation pixel_format exposure_at v topic t st =
     (let fmt = (vm_format v, vm_frame_id v);
          dec = (if map_of (vs_formats st) topic \<noteq> Some fmt then None
                 else map_of (vs_decoders st) topic)
      in case dec of
           Some d \<Rightarrow> put_decoder topic (video_feed E exposure_at v topic t d) st
         | None \<Rightarrow>
             let st = \<lparr>vs_decoders = AList.delete topic (vs_decoders st),
                       vs_formats = AList.delete topic (vs_formats st)\<rparr>
             in if continuation \<and> lower (vm_format v) \<in> KEYFRAME_FORMATS
                   \<and> is_keyframe (vm_format v) (vm_data v) \<noteq> Some True
                then (([], None), st)
                else let st = st\<lparr>vs_formats := AList.update topic fmt (vs_formats st)\<rparr>
                     in case init_decoder E (vm_format v) pixel_format of
                          Inl e \<Rightarrow> (([], Some (DecoderError e)), st)
                        | Inr d \<Rightarrow> put_decoder topic (video_feed E exposure_at v topic t d) st)"

section \<open>Adapters\<close>

datatype ('c, 'u) adapter =
    DecodedAdapter msg_class "'c video_state"
  | ImuAdapter msg_class
  | PoseAdapter msg_class
  | JointStateAdapter msg_class
  | OrientationBundleAdapter msg_class
  | OrientationAdapter msg_class
  | RecordAdapter ustr msg_class
  | OverrideAdapter 'u

datatype adapter_kind = KDecoded | KImu | KOrientationBundle | KPose | KOrientation | KJointState

definition element_adapter :: "ustr \<Rightarrow> adapter_kind \<Rightarrow> (ustr \<times> adapter_kind) list
    \<Rightarrow> rows_error + (ustr \<times> adapter_kind) list" where
  "element_adapter schema_name factory reg =
     (if map_of reg schema_name \<noteq> None then Inl (AlreadyRegistered schema_name)
      else Inr (AList.update schema_name factory reg))"

definition REGISTRY :: "(ustr \<times> adapter_kind) list" where
  "REGISTRY = [(VIDEO_SCHEMA, KDecoded), (IMAGE_SCHEMA, KDecoded), (IMU_RAW_SCHEMA, KImu),
     (IMU_QUAT_SCHEMA, KOrientationBundle), (POSE_SCHEMA, KPose), (QUATERNION_SCHEMA, KOrientation),
     (JOINT_STATES_SCHEMA, KJointState)]"

fun adapter_of_kind :: "adapter_kind \<Rightarrow> msg_class \<Rightarrow> ('c, 'u) adapter" where
  "adapter_of_kind KDecoded cls = DecodedAdapter cls init_video"
| "adapter_of_kind KImu cls = ImuAdapter cls"
| "adapter_of_kind KOrientationBundle cls = OrientationBundleAdapter cls"
| "adapter_of_kind KPose cls = PoseAdapter cls"
| "adapter_of_kind KOrientation cls = OrientationAdapter cls"
| "adapter_of_kind KJointState cls = JointStateAdapter cls"

text \<open>\<open>backend\<close>: whether the context has a \<open>make_decoders\<close>.\<close>

definition build_adapter :: "('p, 'u, 'img) proto_env \<Rightarrow> bool \<Rightarrow> (ustr \<Rightarrow> rows_error + msg_class) \<Rightarrow> ustr
    \<Rightarrow> rows_error + ('c, 'u) adapter" where
  "build_adapter P backend message_class_for schema_name =
     (case pe_override P schema_name of
        Some r \<Rightarrow> bindE r (\<lambda>u. Inr (OverrideAdapter u))
      | None \<Rightarrow> (case map_of REGISTRY schema_name of
            Some kind \<Rightarrow>
              bindE (guardE (kind \<noteq> KDecoded \<or> backend) (NeedsDecodeBackend schema_name)) (\<lambda>_.
              bindE (message_class_for schema_name) (\<lambda>cls. Inr (adapter_of_kind kind cls)))
          | None \<Rightarrow> bindE (message_class_for schema_name) (\<lambda>cls. Inr (RecordAdapter schema_name cls))))"

definition imu_samples :: "ustr \<Rightarrow> int \<Rightarrow> imu_sample_msg list \<Rightarrow> (int \<times> ('img, 'p) element) list" where
  "imu_samples topic anchor_ns samples =
     map (\<lambda>s. let t = anchor_ns + is_t_offset_ns s
               in (t, ImuSample topic t (is_angular_velocity s) (is_linear_acceleration s)
                        (is_magnetic_field s))) samples"

definition put_joint :: "ustr \<Rightarrow> real option \<Rightarrow> (ustr \<times> real) list \<Rightarrow> (ustr \<times> real) list" where
  "put_joint name v d = (case v of None \<Rightarrow> d | Some x \<Rightarrow> AList.update name x d)"

definition or_none :: "(ustr \<times> real) list \<Rightarrow> (ustr \<times> real) list option" where
  "or_none d = (if d = [] then None else Some d)"

definition joint_state :: "ustr \<Rightarrow> int \<Rightarrow> joint_msg list \<Rightarrow> ('img, 'p) element" where
  "joint_state topic t_ns joints =
     (let (pos, vel, eff) = foldl (\<lambda>(pos, vel, eff) j.
            (put_joint (jm_name j) (jm_position j) pos, put_joint (jm_name j) (jm_velocity j) vel,
             put_joint (jm_name j) (jm_effort j) eff)) ([], [], []) joints
      in JointState topic t_ns pos (or_none vel) (or_none eff))"

definition parsed :: "'m option \<Rightarrow> ('m \<Rightarrow> ('img, 'p) triple list) \<Rightarrow> ('img, 'p) triple list \<times> rows_error option" where
  "parsed m f = (case m of None \<Rightarrow> ([], Some ProtoDecodeError) | Some x \<Rightarrow> (f x, None))"

fun adapter_emit :: "('p, 'u, 'img) proto_env \<Rightarrow> ('c, 'f, 'img) av_env \<Rightarrow> ustr \<Rightarrow> bytes \<Rightarrow> ustr \<Rightarrow> int
    \<Rightarrow> ('c, 'u) adapter \<Rightarrow> (('img, 'p) triple list \<times> rows_error option) \<times> ('c, 'u) adapter" where
  "adapter_emit P E pixel_format data topic t_ns (DecodedAdapter cls st) =
     (case pe_decoded P cls data of
        None \<Rightarrow> (([], Some ProtoDecodeError), DecodedAdapter cls st)
      | Some v \<Rightarrow> let (r, st) = video_emit E False pixel_format (\<lambda>_ _. None) v topic t_ns st
                  in (r, DecodedAdapter cls st))"
| "adapter_emit P E pixel_format data topic t_ns (ImuAdapter cls) =
     (parsed (pe_imu P cls data) (\<lambda>m. map (\<lambda>(t, s). (t, t_ns, s)) (imu_samples topic t_ns m)), ImuAdapter cls)"
| "adapter_emit P E pixel_format data topic t_ns (PoseAdapter cls) =
     (parsed (pe_pose P cls data) (\<lambda>(p, q, frame_id). [(t_ns, t_ns, Pose topic t_ns p q frame_id)]),
      PoseAdapter cls)"
| "adapter_emit P E pixel_format data topic t_ns (JointStateAdapter cls) =
     (parsed (pe_joints P cls data) (\<lambda>js. [(t_ns, t_ns, joint_state topic t_ns js)]), JointStateAdapter cls)"
| "adapter_emit P E pixel_format data topic t_ns (OrientationBundleAdapter cls) =
     (parsed (pe_imu_quat P cls data)
        (map (\<lambda>(offset, q). (t_ns + offset, t_ns, Orientation topic (t_ns + offset) q))),
      OrientationBundleAdapter cls)"
| "adapter_emit P E pixel_format data topic t_ns (OrientationAdapter cls) =
     (parsed (pe_quaternion P cls data) (\<lambda>q. [(t_ns, t_ns, Orientation topic t_ns q)]), OrientationAdapter cls)"
| "adapter_emit P E pixel_format data topic t_ns (RecordAdapter name cls) =
     (parsed (pe_record P cls data) (\<lambda>p. [(t_ns, t_ns, Record topic t_ns name p)]), RecordAdapter name cls)"
| "adapter_emit P E pixel_format data topic t_ns (OverrideAdapter u) =
     (let (r, u) = pe_override_emit P u data topic t_ns in (r, OverrideAdapter u))"

fun adapter_flush :: "('p, 'u, 'img) proto_env \<Rightarrow> ('c, 'u) adapter
    \<Rightarrow> ('img, 'p) triple list \<times> rows_error option" where
  "adapter_flush P (OverrideAdapter u) = pe_override_flush P u"
| "adapter_flush P _ = ([], None)"

section \<open>What an adapter yields\<close>

text \<open>
  Every element of a built-in adapter carries its own sort time and its topic, and its arrival is the
  message's stamp.
\<close>

definition well_stamped :: "ustr \<Rightarrow> int \<Rightarrow> ('img, 'p) triple \<Rightarrow> bool" where
  "well_stamped topic t_ns x \<longleftrightarrow> (case x of (t, arrival, el) \<Rightarrow>
     arrival = t_ns \<and> el_t_ns el = t \<and> el_topic el = topic)"

fun is_override :: "('c, 'u) adapter \<Rightarrow> bool" where
  "is_override (OverrideAdapter u) = True"
| "is_override _ = False"

lemma parsed_all: "(\<And>m. y = Some m \<Longrightarrow> \<forall>x \<in> set (f m). Q x) \<Longrightarrow> \<forall>x \<in> set (fst (parsed y f)). Q x"
  by (cases y) (simp_all add: parsed_def)

lemma video_feed_stamped:
  "x \<in> set (fst (fst (video_feed E ex v topic t d))) \<Longrightarrow> well_stamped topic t x"
  by (auto simp: video_feed_def well_stamped_def Let_def split: option.splits sum.splits prod.splits)

lemma video_emit_stamped:
  "x \<in> set (fst (fst (video_emit E c pf ex v topic t st))) \<Longrightarrow> well_stamped topic t x"
  by (auto simp: video_emit_def Let_def put_decoder_def dest!: video_feed_stamped
      split: option.splits sum.splits if_splits)

lemma adapter_emit_stamped:
  "\<not> is_override a \<Longrightarrow> \<forall>x \<in> set (fst (fst (adapter_emit P E pf data topic t a))). well_stamped topic t x"
proof (cases a)
  case (DecodedAdapter cls st)
  then show ?thesis
    by (simp add: case_prod_beta split: option.split) (metis video_emit_stamped)
qed (auto intro!: parsed_all simp: well_stamped_def imu_samples_def joint_state_def Let_def split: prod.splits)

section \<open>Cameras do not interfere\<close>

text \<open>
  A run of access units of several topics through one set of decoders; each keeps its own result.
\<close>

fun video_run :: "('c, 'f, 'img) av_env \<Rightarrow> bool \<Rightarrow> ustr \<Rightarrow> (ustr \<Rightarrow> int \<Rightarrow> frame_exposure option)
    \<Rightarrow> (ustr \<times> int \<times> video_msg) list \<Rightarrow> 'c video_state
    \<Rightarrow> (ustr \<times> ('img, 'p) triple list \<times> rows_error option) list" where
  "video_run E c pf ex [] st = []"
| "video_run E c pf ex ((topic, t, v) # aus) st =
     (let (r, st) = video_emit E c pf ex v topic t st in (topic, r) # video_run E c pf ex aus st)"

definition same_on :: "ustr \<Rightarrow> 'c video_state \<Rightarrow> 'c video_state \<Rightarrow> bool" where
  "same_on topic a b \<longleftrightarrow> map_of (vs_decoders a) topic = map_of (vs_decoders b) topic
     \<and> map_of (vs_formats a) topic = map_of (vs_formats b) topic"

lemma video_emit_other:
  "other \<noteq> topic \<Longrightarrow> same_on other (snd (video_emit E c pf ex v topic t st)) st"
  unfolding video_emit_def same_on_def Let_def put_decoder_def
  by (simp add: map_of_AList_update map_of_AList_delete split: option.split sum.split)

lemma video_emit_same:
  assumes "same_on topic a b" "video_emit E c pf ex v topic t a = (r, a')"
    "video_emit E c pf ex v topic t b = (q, b')"
  shows "r = q \<and> same_on topic a' b'"
  using assms unfolding video_emit_def same_on_def Let_def put_decoder_def
  by (auto simp: map_of_AList_update map_of_AList_delete split: option.splits sum.splits if_splits)

type_synonym ('img, 'p) outputs = "(ustr \<times> ('img, 'p) triple list \<times> rows_error option) list"

lemma video_run_topic:
  fixes E :: "('c, 'f, 'img) av_env"
  shows "same_on topic a b \<Longrightarrow>
     (filter (\<lambda>x. fst x = topic) (video_run E c pf ex aus a) :: ('img, 'p) outputs)
       = video_run E c pf ex (filter (\<lambda>x. fst x = topic) aus) b"
proof (induction aus arbitrary: a b)
  case (Cons x aus)
  obtain tp t v where x: "x = (tp, t, v)" by (cases x) auto
  show ?case
  proof (cases "tp = topic")
    case True
    let ?emit = "video_emit E c pf ex v topic t ::
      'c video_state \<Rightarrow> (('img, 'p) triple list \<times> rows_error option) \<times> 'c video_state"
    obtain r a' where a: "?emit a = (r, a')" by (metis surj_pair)
    obtain q b' where b: "?emit b = (q, b')" by (metis surj_pair)
    note same = video_emit_same [OF Cons.prems a b]
    then show ?thesis using True a b Cons.IH [of a' b'] by (simp add: x)
  next
    case False
    then have "same_on topic (snd (video_emit E c pf ex v tp t a)) b"
      using video_emit_other [of topic tp E c pf ex v t a] Cons.prems by (simp add: same_on_def)
    then show ?thesis using False Cons.IH by (simp add: x case_prod_beta Let_def)
  qed
qed simp

end
