(* ===== verification/Rows.thy ===== *)
theory Rows
  imports Adapters
begin

text \<open>
  Rows to elements (\<open>reader/rows.py\<close>): one adapter per schema, built when the schema is first seen, its
  triples through the watermark heap. \<open>to_ns\<close> is the protobuf \<open>Timestamp.ToNanoseconds\<close>.
\<close>

section \<open>The code\<close>

definition channel_class :: "('p, 'u, 'img) proto_env \<Rightarrow> channel \<Rightarrow> ustr \<Rightarrow> rows_error + msg_class" where
  "channel_class P channel n =
     resolve_message_class (pe_generated P) (pe_defines P) n (ch_schema_encoding channel) (ch_schema channel)"

definition adapter_for :: "('p, 'u, 'img) proto_env \<Rightarrow> channel \<Rightarrow> (ustr \<times> ('c, 'u) adapter) list
    \<Rightarrow> rows_error + ('c, 'u) adapter" where
  "adapter_for P channel built =
     (case map_of built (ch_schema_name channel) of
        Some a \<Rightarrow> Inr a
      | None \<Rightarrow> build_adapter P True (channel_class P channel) (ch_schema_name channel))"

definition pixel_format_of :: "bool \<Rightarrow> ustr" where
  "pixel_format_of gray = (if gray then lit ''gray'' else lit ''rgb24'')"

text \<open>\<open>_triples\<close>: what it yields, and the error that ended it.\<close>

fun flush_all :: "('p, 'u, 'img) proto_env \<Rightarrow> (ustr \<times> ('c, 'u) adapter) list
    \<Rightarrow> ('img, 'p) triple list \<times> rows_error option" where
  "flush_all P [] = ([], None)"
| "flush_all P ((n, a) # built) =
     (case adapter_flush P a of
        (xs, Some e) \<Rightarrow> (xs, Some e)
      | (xs, None) \<Rightarrow> let (ys, err) = flush_all P built in (xs @ ys, err))"

fun row_triples :: "('p, 'u, 'img) proto_env \<Rightarrow> ('c, 'f, 'img) av_env \<Rightarrow> (timestamp \<Rightarrow> int) \<Rightarrow> bool
    \<Rightarrow> (message \<times> channel) list \<Rightarrow> (ustr \<times> ('c, 'u) adapter) list
    \<Rightarrow> ('img, 'p) triple list \<times> rows_error option" where
  "row_triples P E to_ns gray [] built = flush_all P built"
| "row_triples P E to_ns gray ((msg, ch) # rows) built =
     (case adapter_for P ch built of
        Inl e \<Rightarrow> ([], Some e)
      | Inr a \<Rightarrow>
          (case adapter_emit P E (pixel_format_of gray) (m_payload msg) (ch_topic ch)
                  (to_ns (m_timestamp msg)) a of
             ((xs, Some e), a) \<Rightarrow> (xs, Some e)
           | ((xs, None), a) \<Rightarrow>
               let (ys, err) = row_triples P E to_ns gray rows (AList.update (ch_schema_name ch) a built)
               in (xs @ ys, err)))"

text \<open>
  \<open>elements\<close>: what is yielded, and the error that ended it. An error of the triples comes out of
  \<open>_reorder\<close> before its tail is drained.
\<close>

definition elements :: "('p, 'u, 'img) proto_env \<Rightarrow> ('c, 'f, 'img) av_env \<Rightarrow> (timestamp \<Rightarrow> int) \<Rightarrow> int \<Rightarrow> bool
    \<Rightarrow> (message \<times> channel) list \<Rightarrow> ('img, 'p) element list \<times> rows_error option" where
  "elements P E to_ns reorder_ns gray rows =
     (let (triples, err) = row_triples P E to_ns gray rows []
      in (if err = None then reorder reorder_ns triples
          else fst (reorder_run reorder_ns triples init_reorder), err))"

section \<open>The triples of a pass without overrides\<close>

definition no_overrides :: "('p, 'u, 'img) proto_env \<Rightarrow> bool" where
  "no_overrides P \<longleftrightarrow> (\<forall>n. pe_override P n = None)"

definition plain_adapters :: "(ustr \<times> ('c, 'u) adapter) list \<Rightarrow> bool" where
  "plain_adapters built \<longleftrightarrow> (\<forall>a \<in> snd ` set built. \<not> is_override a)"

lemma adapter_emit_kind: "is_override (snd (adapter_emit P E pf data topic t a)) = is_override a"
  by (cases a) (auto split: option.split prod.split)

lemma build_adapter_plain:
  "no_overrides P \<Longrightarrow> build_adapter P b f n = Inr a \<Longrightarrow> \<not> is_override a"
proof -
  have "\<not> is_override (adapter_of_kind k cls)" for k cls by (cases k) simp_all
  then show "no_overrides P \<Longrightarrow> build_adapter P b f n = Inr a \<Longrightarrow> \<not> is_override a"
    by (auto simp: build_adapter_def no_overrides_def bindE_eq_Inr split: option.splits)
qed

lemma adapter_for_plain:
  "no_overrides P \<Longrightarrow> plain_adapters built \<Longrightarrow> adapter_for P ch built = Inr a \<Longrightarrow> \<not> is_override a"
  by (auto simp: adapter_for_def plain_adapters_def dest!: map_of_SomeD build_adapter_plain
      split: option.splits)

lemma plain_adapters_update:
  "plain_adapters built \<Longrightarrow> \<not> is_override a \<Longrightarrow> plain_adapters (AList.update n a built)"
  unfolding plain_adapters_def by (induction built) (auto split: if_splits)

lemma flush_all_plain: "plain_adapters built \<Longrightarrow> flush_all P built = ([], None)"
proof (induction built)
  case (Cons x built)
  then have "adapter_flush P (snd x) = ([], None)" by (cases "snd x") (auto simp: plain_adapters_def)
  with Cons show ?case by (cases x) (auto simp: plain_adapters_def)
qed simp

text \<open>
  Each triple comes from some row and carries that row's stamp as its arrival; the arrivals are the
  stamps in row order.
\<close>

definition row_stamp :: "(timestamp \<Rightarrow> int) \<Rightarrow> message \<times> channel \<Rightarrow> int" where
  "row_stamp to_ns row = to_ns (m_timestamp (fst row))"

fun from_rows :: "(timestamp \<Rightarrow> int) \<Rightarrow> (message \<times> channel) list \<Rightarrow> ('img, 'p) triple list \<Rightarrow> bool" where
  "from_rows to_ns [] xs \<longleftrightarrow> xs = []"
| "from_rows to_ns (row # rows) xs \<longleftrightarrow> (\<exists>ys zs. xs = ys @ zs
     \<and> (\<forall>x \<in> set ys. well_stamped (ch_topic (snd row)) (row_stamp to_ns row) x) \<and> from_rows to_ns rows zs)"

lemma from_rows_Nil: "from_rows to_ns rows []"
  by (induction rows) auto

lemma from_rows_short:
  "\<forall>x \<in> set ys. well_stamped (ch_topic (snd row)) (row_stamp to_ns row) x \<Longrightarrow> from_rows to_ns (row # rows) ys"
  by (simp, intro exI [of _ ys] exI [of _ "[]"]) (simp add: from_rows_Nil)

lemma row_triples_from_rows:
  "no_overrides P \<Longrightarrow> plain_adapters built \<Longrightarrow>
     from_rows to_ns rows (fst (row_triples P E to_ns gray rows built))"
proof (induction rows arbitrary: built)
  case (Cons row rows)
  obtain msg ch where row: "row = (msg, ch)" by fastforce
  show ?case
  proof (cases "adapter_for P ch built")
    case (Inl e)
    then show ?thesis using from_rows_Nil [of to_ns rows] by (simp add: row)
  next
    case (Inr a)
    let ?emit = "adapter_emit P E (pixel_format_of gray) (m_payload msg) (ch_topic ch) (to_ns (m_timestamp msg)) a"
    have plain: "\<not> is_override a" by (rule adapter_for_plain [OF Cons.prems Inr])
    obtain xs err a' where emit: "?emit = ((xs, err), a')" by (metis surj_pair)
    have xs: "\<forall>x \<in> set xs. well_stamped (ch_topic (snd row)) (row_stamp to_ns row) x"
      using adapter_emit_stamped [OF plain, of P E "pixel_format_of gray" "m_payload msg" "ch_topic ch"
          "to_ns (m_timestamp msg)"] emit by (simp add: row row_stamp_def)
    have "\<not> is_override a'"
      using adapter_emit_kind [of P E "pixel_format_of gray" "m_payload msg" "ch_topic ch"
          "to_ns (m_timestamp msg)" a] plain emit by simp
    then have "plain_adapters (AList.update (ch_schema_name ch) a' built)"
      by (rule plain_adapters_update [OF Cons.prems(2)])
    note IH = Cons.IH [OF Cons.prems(1) this]
    show ?thesis
    proof (cases err)
      case None
      then show ?thesis using IH xs
        by (simp add: row Inr emit case_prod_beta Let_def) blast
    next
      case (Some e)
      then have "fst (row_triples P E to_ns gray (row # rows) built) = xs" by (simp add: row Inr emit)
      then show ?thesis using from_rows_short [OF xs] by simp
    qed
  qed
qed (simp add: flush_all_plain)

section \<open>Order\<close>

text \<open>
  The lateness budget in terms of the rows: no row is stamped more than \<open>r\<close> before one that came
  earlier, and no stamp is before the epoch. Bundles expand forward: each element's own time is at or
  after its row's stamp.
\<close>

definition stamps_within :: "int \<Rightarrow> int list \<Rightarrow> bool" where
  "stamps_within r stamps \<longleftrightarrow> sorted_wrt (\<lambda>a b. a - r \<le> b) stamps \<and> (\<forall>s \<in> set stamps. 0 \<le> s)"

definition forward :: "('img, 'p) triple \<Rightarrow> bool" where
  "forward x \<longleftrightarrow> fst (snd x) \<le> fst x"

lemma lateness_from_rows:
  assumes "from_rows to_ns rows xs" "stamps_within r (map (row_stamp to_ns) rows)" "0 \<le> r"
    "\<forall>x \<in> set xs. forward x" "\<forall>s \<in> set (map (row_stamp to_ns) rows). w - r \<le> s"
  shows "lateness_ok r w xs"
  using assms
proof (induction rows arbitrary: xs w)
  case (Cons row rows)
  let ?s = "row_stamp to_ns row"
  obtain ys zs where split: "xs = ys @ zs" "\<forall>x \<in> set ys. well_stamped (ch_topic (snd row)) ?s x"
    "from_rows to_ns rows zs" using Cons.prems(1) by auto
  have rest: "lateness_ok r v zs" if "v \<le> max w ?s" for v
    using Cons.IH [OF split(3), of v] Cons.prems(2-5) that split(1)
    by (fastforce simp: stamps_within_def)
  have "lateness_ok r v (ys @ zs)" if "v \<le> max w ?s" for v
    using split(2) Cons.prems(3,4) that split(1) rest
  proof (induction ys arbitrary: v xs)
    case (Cons y ys)
    obtain t a e where y: "y = (t, a, e)" by (cases y) auto
    have a: "a = ?s" "a \<le> t" using Cons.prems(1,3,5) by (auto simp: y well_stamped_def forward_def)
    have "v - r \<le> t" using Cons.prems(2,4) a \<open>0 \<le> r\<close> that
      using \<open>\<forall>s \<in> set (map (row_stamp to_ns) (row # rows)). w - r \<le> s\<close> by auto
    moreover have "lateness_ok r (max v a) (ys @ zs)"
      using Cons.IH [of "ys @ zs" "max v a"] Cons.prems a by (simp add: y)
    ultimately show ?case by (simp add: y)
  qed simp
  then show ?case using split(1) by simp
qed simp

lemma sort_key_tagged:
  fixes f :: "'b \<Rightarrow> int"
  shows "map snd (sort_key fst (map (\<lambda>e. (f e, e)) es)) = sort_key f es"
proof -
  have "insort_key fst (f x, x) (map (\<lambda>e. (f e, e)) ys) = map (\<lambda>e. (f e, e)) (insort_key f x ys)" for x ys
    by (induction ys) auto
  then have "sort_key fst (map (\<lambda>e. (f e, e)) es) = map (\<lambda>e. (f e, e)) (sort_key f es)"
    by (induction es) auto
  then show ?thesis by (simp add: comp_def)
qed

text \<open>What the bundles are documented to be: sample offsets are not negative.\<close>

definition offsets_forward :: "('p, 'u, 'img) proto_env \<Rightarrow> bool" where
  "offsets_forward P \<longleftrightarrow> (\<forall>cls data.
     (\<forall>m. pe_imu P cls data = Some m \<longrightarrow> (\<forall>s \<in> set m. 0 \<le> is_t_offset_ns s))
     \<and> (\<forall>m. pe_imu_quat P cls data = Some m \<longrightarrow> (\<forall>s \<in> set m. 0 \<le> fst s)))"

lemma video_emit_forward:
  "x \<in> set (fst (fst (video_emit E c pf ex v topic t st))) \<Longrightarrow> forward x"
  by (auto simp: video_emit_def video_feed_def forward_def Let_def put_decoder_def
      split: option.splits sum.splits if_splits prod.splits)

lemma adapter_emit_forward:
  assumes "offsets_forward P" "\<not> is_override a"
  shows "\<forall>x \<in> set (fst (fst (adapter_emit P E pf data topic t a))). forward x"
  using assms
proof (cases a)
  case (DecodedAdapter cls st)
  then show ?thesis
    by (simp add: case_prod_beta split: option.split) (metis video_emit_forward)
qed (auto intro!: parsed_all simp: forward_def imu_samples_def offsets_forward_def Let_def split: prod.splits,
  metis fst_conv)

lemma row_triples_forward:
  "no_overrides P \<Longrightarrow> offsets_forward P \<Longrightarrow> plain_adapters built \<Longrightarrow>
     \<forall>x \<in> set (fst (row_triples P E to_ns gray rows built)). forward x"
proof (induction rows arbitrary: built)
  case (Cons row rows)
  obtain msg ch where row: "row = (msg, ch)" by fastforce
  show ?case
  proof (cases "adapter_for P ch built")
    case (Inr a)
    let ?emit = "adapter_emit P E (pixel_format_of gray) (m_payload msg) (ch_topic ch) (to_ns (m_timestamp msg)) a"
    have plain: "\<not> is_override a" by (rule adapter_for_plain [OF Cons.prems(1,3) Inr])
    obtain xs err a' where emit: "?emit = ((xs, err), a')" by (metis surj_pair)
    have "\<forall>x \<in> set xs. forward x"
      using adapter_emit_forward [OF Cons.prems(2) plain, of E "pixel_format_of gray" "m_payload msg"
          "ch_topic ch" "to_ns (m_timestamp msg)"] emit by simp
    moreover have "\<not> is_override a'"
      using adapter_emit_kind [of P E "pixel_format_of gray" "m_payload msg" "ch_topic ch"
          "to_ns (m_timestamp msg)" a] plain emit by simp
    note Cons.IH [OF Cons.prems(1,2) plain_adapters_update [OF Cons.prems(3) this, of "ch_schema_name ch"]]
    ultimately show ?thesis
      by (cases err) (auto simp: row Inr emit case_prod_beta Let_def)
  qed (simp add: row)
qed (simp add: flush_all_plain)

lemma from_rows_views:
  "from_rows to_ns rows xs \<Longrightarrow> map item_view xs = map (\<lambda>e. (el_t_ns e, e)) (map item_elem xs)"
proof (induction rows arbitrary: xs)
  case (Cons row rows)
  then obtain ys zs where "xs = ys @ zs" "from_rows to_ns rows zs"
    "\<forall>x \<in> set ys. well_stamped (ch_topic (snd row)) (row_stamp to_ns row) x" by auto
  then show ?case using Cons.IH by (auto simp: well_stamped_def item_elem_def)
qed simp

section \<open>Properties\<close>

text \<open>
  C15. Rows whose stamps are out of order by no more than the lateness budget come out as elements in
  exact time order: the elements of a pass are the stable sort, by their own time, of everything the
  adapters made of the rows; so none is lost, repeated or released early, across topics, bundles and
  decoders.
\<close>

theorem elements_in_time_order:
  assumes "no_overrides P" and "offsets_forward P" and "0 \<le> r"
    and "stamps_within r (map (row_stamp to_ns) rows)"
    and "row_triples P E to_ns gray rows [] = (triples, None)"
  shows "elements P E to_ns r gray rows = (sort_key el_t_ns (map item_elem triples), None)"
proof -
  have plain: "plain_adapters []" by (simp add: plain_adapters_def)
  have from1: "from_rows to_ns rows triples"
    using row_triples_from_rows [OF assms(1) plain, of to_ns rows E gray] assms(5) by simp
  have "\<forall>x \<in> set triples. forward x"
    using row_triples_forward [OF assms(1,2) plain, of E to_ns gray rows] assms(5) by simp
  then have "lateness_ok r 0 triples"
    using assms(3,4) by (intro lateness_from_rows [OF from1 assms(4,3)]) (force simp: stamps_within_def)+
  then have "reorder r triples = sort_key el_t_ns (map item_elem triples)"
    by (simp only: reorder_sorts from_rows_views [OF from1] sort_key_tagged)
  then show ?thesis by (simp add: elements_def assms(5))
qed

definition sample_proto :: "(bytes, unit, unit) proto_env" where
  "sample_proto = \<lparr>pe_generated = \<lambda>n. True, pe_defines = \<lambda>d n. False, pe_decoded = \<lambda>c d. None,
     pe_imu = \<lambda>c d. Some (map (\<lambda>b. \<lparr>is_t_offset_ns = int (unat b), is_linear_acceleration = (0, 0, 0),
       is_angular_velocity = (0, 0, 0), is_magnetic_field = None\<rparr>) d),
     pe_imu_quat = \<lambda>c d. None, pe_pose = \<lambda>c d. None, pe_quaternion = \<lambda>c d. None, pe_joints = \<lambda>c d. None,
     pe_record = \<lambda>c d. Some d, pe_override = \<lambda>n. None, pe_override_emit = \<lambda>u d t n. (([], None), u),
     pe_override_flush = \<lambda>u. ([], None)\<rparr>"

definition sample_av :: "(unit, unit, unit) av_env" where
  "sample_av = \<lparr>av_create = \<lambda>c. (), av_decode = \<lambda>c d. (Inr [()], c), av_is_luma16 = \<lambda>f. False,
     av_plane0 = \<lambda>f. (), av_to_ndarray = \<lambda>p f. Some ()\<rparr>"

definition sample_row :: "ustr \<Rightarrow> int \<Rightarrow> bytes \<Rightarrow> message \<times> channel" where
  "sample_row schema t p =
     (default_message\<lparr>m_payload := p, m_timestamp := \<lparr>ts_seconds = 0, ts_nanos = t\<rparr>\<rparr>,
      (sample_channel 16 [97])\<lparr>ch_schema_name := schema\<rparr>)"

definition sample_rows :: "(message \<times> channel) list" where
  "sample_rows = [sample_row IMU_RAW_SCHEMA 100 [0, 50], sample_row [120] 95 [7]]"

lemma sample_triples:
  "row_triples sample_proto sample_av ts_nanos False sample_rows [] =
     ([(100, 100, ImuSample [97] 100 (0, 0, 0) (0, 0, 0) None),
       (150, 100, ImuSample [97] 150 (0, 0, 0) (0, 0, 0) None),
       (95, 95, Record [97] 95 [120] [7])], None)"
  by (simp add: sample_rows_def sample_row_def adapter_for_def build_adapter_def sample_proto_def
      REGISTRY_def IMU_RAW_SCHEMA_def VIDEO_SCHEMA_def IMAGE_SCHEMA_def IMU_QUAT_SCHEMA_def POSE_SCHEMA_def
      QUATERNION_SCHEMA_def JOINT_STATES_SCHEMA_def channel_class_def resolve_message_class_def
      sample_channel_def default_message_def parsed_def imu_samples_def guardE_def)

theorem elements_in_time_order_witness:
  "elements sample_proto sample_av ts_nanos 10 False sample_rows =
     ([Record [97] 95 [120] [7], ImuSample [97] 100 (0, 0, 0) (0, 0, 0) None,
       ImuSample [97] 150 (0, 0, 0) (0, 0, 0) None], None)"
proof -
  have "no_overrides sample_proto" "offsets_forward sample_proto"
    by (auto simp: no_overrides_def offsets_forward_def sample_proto_def)
  moreover have "stamps_within 10 (map (row_stamp ts_nanos) sample_rows)"
    by (simp add: stamps_within_def sample_rows_def sample_row_def row_stamp_def)
  ultimately show ?thesis
    using elements_in_time_order [OF _ _ _ _ sample_triples, of 10] by (simp add: item_elem_def)
qed

text \<open>
  Cameras do not interfere: whatever access units of other topics come in between, the frames and
  errors of one topic are those of its own access units alone through a fresh set of decoders.
\<close>

theorem cameras_do_not_interfere:
  "filter (\<lambda>x. fst x = topic) (video_run E c pf ex aus init_video)
     = video_run E c pf ex (filter (\<lambda>x. fst x = topic) aus) init_video"
  by (rule video_run_topic) (simp add: same_on_def)

text \<open>
  The keyframe peek is exact: for an H.265 or H.264 access unit of at most 4096 bytes it says
  whether the first slice among all of its NAL units, in order, is a keyframe slice, although it stops
  at the first slice; of a longer one it judges the first 4096 bytes.
\<close>

theorem keyframe_peek_exact:
  assumes "map_of AV (lower fmt) = Some codec" and "NAL_SYNTAX codec = Some S"
  shows "is_keyframe fmt au
    = Some (first_slice_is_key S (nal_types S au (min (length au) MAX_PREFIX_BYTES) 0))"
  using assms keyframe_scan_first_slice [of "min (length au) MAX_PREFIX_BYTES" au S 0]
  by (cases codec) (auto simp: is_keyframe_def)

theorem keyframe_peek_exact_witness:
  "is_keyframe (lit ''H265'') [0, 0, 1, 0x40, 9, 0, 0, 1, 0x26, 5, 0, 0, 1, 0x02] = Some True"
proof -
  let ?au = "[0, 0, 1, 0x40, 9, 0, 0, 1, 0x26, 5, 0, 0, 1, 0x02] :: bytes"
  let ?S = "\<lparr>ns_shift = 1, ns_mask = 0x3F, ns_vcl_lo = 0, ns_vcl_hi = 31, ns_key_lo = 16, ns_key_hi = 21\<rparr>"
  have "map_of AV (lower (lit ''H265'')) = Some Hevc" by code_simp
  from keyframe_peek_exact [OF this NAL_SYNTAX.simps(1), of ?au]
  have "is_keyframe (lit ''H265'') ?au
      = Some (first_slice_is_key ?S (nal_types ?S ?au (min (length ?au) MAX_PREFIX_BYTES) 0))" .
  moreover have "min (length ?au) MAX_PREFIX_BYTES = 14" by (simp add: MAX_PREFIX_BYTES_def)
  moreover have "first_slice_is_key ?S (nal_types ?S ?au 14 0)" by code_simp
  ultimately show ?thesis by (simp only:)
qed

end
