(* ===== verification/B64url.thy ===== *)
theory B64url
  imports Prelude
begin

unbundle bit_operations_syntax

text \<open>
  Unpadded base64url (\<open>crypto/b64url.py\<close>), with the standard library's \<open>base64\<close> written out: three
  bytes are four digits of six bits, a rest of one or two bytes two or three digits, whose spare bits
  the library's decoder ignores.
\<close>

section \<open>Digits\<close>

definition b64_char :: "nat \<Rightarrow> nat" where
  "b64_char d = (if d < 26 then 65 + d else if d < 52 then 71 + d else if d < 62 then d - 4
     else if d = 62 then 45 else 95)"

definition b64_value :: "nat \<Rightarrow> nat option" where
  "b64_value c = (if 65 \<le> c \<and> c \<le> 90 then Some (c - 65) else if 97 \<le> c \<and> c \<le> 122 then Some (c - 71)
     else if 48 \<le> c \<and> c \<le> 57 then Some (c + 4) else if c = 45 then Some 62
     else if c = 95 then Some 63 else None)"

text \<open>\<open>_ALPHABET.fullmatch\<close>\<close>

definition b64_alphabet :: "ustr \<Rightarrow> bool" where
  "b64_alphabet text \<longleftrightarrow> list_all (\<lambda>c. b64_value c \<noteq> None) text"

section \<open>The library's codec\<close>

text \<open>\<open>base64.urlsafe_b64encode(raw).rstrip(b"=")\<close>, as digits.\<close>

fun b64_digits :: "bytes \<Rightarrow> nat list" where
  "b64_digits [] = []"
| "b64_digits [a] = [unat a div 4, unat a mod 4 * 16]"
| "b64_digits [a, b] = [unat a div 4, unat a mod 4 * 16 + unat b div 16, unat b mod 16 * 4]"
| "b64_digits (a # b # c # rest) =
     [unat a div 4, unat a mod 4 * 16 + unat b div 16, unat b mod 16 * 4 + unat c div 64, unat c mod 64]
     @ b64_digits rest"

text \<open>
  \<open>base64.urlsafe_b64decode\<close> of text in the alphabet, padded to a multiple of four; \<open>None\<close> is its
  \<open>binascii.Error\<close>, for a lone last digit.
\<close>

fun b64_bytes :: "nat list \<Rightarrow> bytes option" where
  "b64_bytes [] = Some []"
| "b64_bytes [p] = None"
| "b64_bytes [p, q] = Some [word_of_nat (p * 4 + q div 16)]"
| "b64_bytes [p, q, r] = Some [word_of_nat (p * 4 + q div 16), word_of_nat (q mod 16 * 16 + r div 4)]"
| "b64_bytes (p # q # r # s # rest) =
     map_option (\<lambda>bs. [word_of_nat (p * 4 + q div 16), word_of_nat (q mod 16 * 16 + r div 4),
                       word_of_nat (r mod 4 * 64 + s)] @ bs) (b64_bytes rest)"

section \<open>The module\<close>

datatype b64_error = NotBase64url | NotCanonical

definition b64url_encode :: "bytes \<Rightarrow> ustr" where
  "b64url_encode raw = map b64_char (b64_digits raw)"

definition b64url_decode :: "ustr \<Rightarrow> b64_error + bytes" where
  "b64url_decode text =
     (if \<not> b64_alphabet text then Inl NotBase64url
      else case b64_bytes (map (\<lambda>c. the (b64_value c)) text) of
             None \<Rightarrow> Inl NotBase64url
           | Some raw \<Rightarrow> if b64url_encode raw \<noteq> text then Inl NotCanonical else Inr raw)"

section \<open>Round trips\<close>

lemma b64_value_char: "d < 64 \<Longrightarrow> b64_value (b64_char d) = Some d"
  by (auto simp: b64_value_def b64_char_def)

lemma unat_div_less: "0 < k \<Longrightarrow> n * k = 256 \<Longrightarrow> unat (b :: byte) div k < n"
  using unat_byte_less [of b] by (simp add: div_less_iff_less_mult del: unat_byte_less)

lemma b64_digits_small: "d \<in> set (b64_digits raw) \<Longrightarrow> d < 64"
proof (induction raw rule: b64_digits.induct)
  case (2 a)
  then show ?case using unat_div_less [of 4 64 a] by auto
next
  case (3 a b)
  then show ?case using unat_div_less [of 4 64 a] unat_div_less [of 16 16 b] by auto
next
  case (4 a b c rest)
  then show ?case
    using unat_div_less [of 4 64 a] unat_div_less [of 16 16 b] unat_div_less [of 64 4 c] by auto
qed simp

lemma byte_split:
  "word_of_nat (unat (a :: byte) div 4 * 4 + (unat a mod 4 * 16 + x) div 16) = a" if "x < 16"
proof -
  have "(unat a mod 4 * 16 + x) div 16 = unat a mod 4" using that by simp
  then show ?thesis by simp
qed

lemma byte_split2:
  "word_of_nat ((p * 16 + unat (b :: byte) div 16) mod 16 * 16 + (unat b mod 16 * 4 + y) div 4) = b"
  if "y < 4"
proof -
  have "unat b div 16 < 16" by (rule unat_div_less) simp_all
  then have "(p * 16 + unat b div 16) mod 16 = unat b div 16" by simp
  moreover have "(unat b mod 16 * 4 + y) div 4 = unat b mod 16" using that by simp
  ultimately show ?thesis by simp
qed

lemma byte_split3: "word_of_nat ((q * 4 + unat (c :: byte) div 64) mod 4 * 64 + unat c mod 64) = c"
proof -
  have "unat c div 64 < 4" by (rule unat_div_less) simp_all
  then have "(q * 4 + unat c div 64) mod 4 = unat c div 64" by simp
  then show ?thesis by simp
qed

lemma b64_bytes_digits: "b64_bytes (b64_digits raw) = Some raw"
proof (induction raw rule: b64_digits.induct)
  case (2 a)
  show ?case using byte_split [of 0 a] by simp
next
  case (3 a b)
  show ?case using byte_split [of "unat b div 16" a] byte_split2 [of 0 "unat a mod 4" b]
      unat_div_less [of 16 16 b] by simp
next
  case (4 a b c rest)
  then show ?case
    using byte_split [of "unat b div 16" a] byte_split2 [of "unat c div 64" "unat a mod 4" b]
      byte_split3 [of "unat b mod 16" c] unat_div_less [of 16 16 b] unat_div_less [of 64 4 c] by simp
qed simp

lemma b64url_values: "map (\<lambda>c. the (b64_value c)) (b64url_encode raw) = b64_digits raw"
  using b64_digits_small [of _ raw] by (simp add: b64url_encode_def b64_value_char map_idI)

lemma b64url_encode_alphabet: "b64_alphabet (b64url_encode raw)"
  using b64_digits_small [of _ raw]
  by (auto simp: b64_alphabet_def b64url_encode_def list_all_iff b64_value_char)

lemma b64url_roundtrip: "b64url_decode (b64url_encode raw) = Inr raw"
  by (simp add: b64url_decode_def b64url_encode_alphabet b64url_values b64_bytes_digits)

lemma b64url_canonical: "b64url_decode text = Inr raw \<longleftrightarrow> text = b64url_encode raw"
proof
  show "b64url_decode text = Inr raw \<Longrightarrow> text = b64url_encode raw"
    by (auto simp: b64url_decode_def split: if_splits option.splits)
qed (simp add: b64url_roundtrip)

lemma length_b64_digits: "length (b64_digits raw) = (length raw * 4 + 2) div 3"
  by (induction raw rule: b64_digits.induct) auto

lemma length_b64url_encode: "length (b64url_encode raw) = (length raw * 4 + 2) div 3"
  by (simp add: b64url_encode_def length_b64_digits)

text \<open>What a client of a strict text encoding relies on.\<close>

locale strict_text =
  fixes enc :: "bytes \<Rightarrow> ustr" and dec :: "ustr \<Rightarrow> 'e + bytes"
  assumes strict: "dec text = Inr raw \<longleftrightarrow> text = enc raw"
begin

lemma dec_enc [simp]: "dec (enc raw) = Inr raw"
  by (simp add: strict)

lemma enc_inject [simp]: "enc a = enc b \<longleftrightarrow> a = b"
  by (metis dec_enc sum.inject(2))

end

interpretation b64: strict_text b64url_encode b64url_decode
  by unfold_locales (rule b64url_canonical)

end
