(* ===== verification/Signing.thy ===== *)
theory Signing
  imports Text Hex B64url "HOL-Library.List_Lexorder" "HOL-Library.Multiset"
begin

text \<open>
  Signatures of the Ingest API (\<open>ingest/signing.py\<close>). SHA-256 and HMAC are arguments. A mapping of query
  parameters is an association list with distinct keys. \<open>str.upper\<close> is the argument \<open>upper\<close>, because its
  result on characters outside ASCII is a table of the Unicode standard.
\<close>

section \<open>The code\<close>

definition ALGORITHM :: ustr where "ALGORITHM = lit ''VISIO-HMAC-SHA256''"
definition SECRET_LEN :: nat where "SECRET_LEN = 32"
definition SESSION_KEY_HEX_LEN :: nat where "SESSION_KEY_HEX_LEN = 32"
definition UPLOAD_LABEL :: ustr where "UPLOAD_LABEL = lit ''VISIO-UPLOAD''"
definition COMMIT_LABEL :: ustr where "COMMIT_LABEL = lit ''VISIO-COMMIT''"
definition QUERY_RESERVED :: "nat list" where "QUERY_RESERVED = lit ''&=''"
definition NAME_RESERVED :: "nat list" where "NAME_RESERVED = [58, 10]"

record manifest_entry =
  me_name :: ustr
  me_size :: int
  me_md5 :: ustr

datatype sign_error = BadSecretLength | SecretText b64_error | QueryReserved ustr | MethodNotUpper
  | ManifestName ustr | ManifestMd5 ustr | NotUtf8

record sign_ext =
  sx_sha256 :: "bytes \<Rightarrow> bytes"
  sx_hmac :: "bytes \<Rightarrow> bytes \<Rightarrow> bytes"

definition require_device_secret :: "bytes \<Rightarrow> sign_error + bytes" where
  "require_device_secret secret = (if length secret \<noteq> SECRET_LEN then Inl BadSecretLength else Inr secret)"

definition encode_secret :: "bytes \<Rightarrow> sign_error + ustr" where
  "encode_secret secret = bindE (require_device_secret secret) (\<lambda>s. Inr (b64url_encode s))"

definition decode_secret :: "ustr \<Rightarrow> sign_error + bytes" where
  "decode_secret text = (case b64url_decode text of
       Inl e \<Rightarrow> Inl (SecretText e)
     | Inr raw \<Rightarrow> require_device_secret raw)"

definition body_sha256_hex :: "sign_ext \<Rightarrow> bytes \<Rightarrow> ustr" where
  "body_sha256_hex X body = hex (sx_sha256 X body)"

definition encodeE :: "ustr \<Rightarrow> sign_error + bytes" where
  "encodeE text = (case utf8 text of None \<Rightarrow> Inl NotUtf8 | Some b \<Rightarrow> Inr b)"

definition query_item_ok :: "ustr \<times> ustr \<Rightarrow> bool" where
  "query_item_ok kv \<longleftrightarrow> list_all (\<lambda>c. c \<notin> set (fst kv) \<and> c \<notin> set (snd kv)) QUERY_RESERVED"

definition query_item :: "ustr \<times> ustr \<Rightarrow> ustr" where
  "query_item kv = fst kv @ 61 # snd kv"

definition canonical_query :: "(ustr \<times> ustr) list \<Rightarrow> sign_error + ustr" where
  "canonical_query params =
     (case find (\<lambda>kv. \<not> query_item_ok kv) params of
        Some kv \<Rightarrow> Inl (QueryReserved (fst kv))
      | None \<Rightarrow> Inr (join 38 (map query_item (sort_key fst params))))"

definition request_string_to_sign :: "(ustr \<Rightarrow> ustr) \<Rightarrow> ustr \<Rightarrow> ustr \<Rightarrow> ustr \<Rightarrow> ustr \<Rightarrow> ustr \<Rightarrow> ustr
    \<Rightarrow> sign_error + ustr" where
  "request_string_to_sign upper date key_id method path query body_sha256 =
     (if method \<noteq> upper method then Inl MethodNotUpper
      else Inr (join 10 [ALGORITHM, date, key_id, method, path, query, body_sha256]))"

definition hmac_hex :: "sign_ext \<Rightarrow> bytes \<Rightarrow> ustr \<Rightarrow> sign_error + ustr" where
  "hmac_hex X secret text =
     bindE (require_device_secret secret) (\<lambda>s.
     bindE (encodeE text) (\<lambda>b. Inr (hex (sx_hmac X s b))))"

definition request_signature :: "sign_ext \<Rightarrow> (ustr \<Rightarrow> ustr) \<Rightarrow> bytes \<Rightarrow> ustr \<Rightarrow> ustr \<Rightarrow> ustr \<Rightarrow> ustr \<Rightarrow> ustr
    \<Rightarrow> bytes \<Rightarrow> sign_error + ustr" where
  "request_signature X upper secret date key_id method path query body =
     bindE (request_string_to_sign upper date key_id method path query (body_sha256_hex X body))
       (hmac_hex X secret)"

definition authorization_header :: "ustr \<Rightarrow> ustr \<Rightarrow> ustr" where
  "authorization_header key_id signature =
     ALGORITHM @ lit '' Credential='' @ key_id @ lit '', Signature='' @ signature"

definition initiate_reply_signature :: "sign_ext \<Rightarrow> bytes \<Rightarrow> ustr \<Rightarrow> ustr \<Rightarrow> bytes \<Rightarrow> sign_error + ustr" where
  "initiate_reply_signature X secret device_id request_date reply_body =
     hmac_hex X secret (join 10 [UPLOAD_LABEL, device_id, request_date, body_sha256_hex X reply_body])"

definition name_reserved :: "ustr \<Rightarrow> bool" where
  "name_reserved name \<longleftrightarrow> list_ex (\<lambda>c. c \<in> set name) NAME_RESERVED"

definition hex_lower :: "nat \<Rightarrow> bool" where
  "hex_lower c \<longleftrightarrow> 48 \<le> c \<and> c \<le> 57 \<or> 97 \<le> c \<and> c \<le> 102"

definition manifest_fault :: "manifest_entry \<Rightarrow> sign_error option" where
  "manifest_fault p =
     (if name_reserved (me_name p) \<or> me_size p < 0 then Some (ManifestName (me_name p))
      else if me_md5 p \<noteq> [] \<and> (length (me_md5 p) \<noteq> 32 \<or> \<not> list_all hex_lower (me_md5 p))
      then Some (ManifestMd5 (me_name p)) else None)"

definition manifest_line :: "manifest_entry \<Rightarrow> ustr" where
  "manifest_line p = me_name p @ 58 # dec_int (me_size p) @ 58 # me_md5 p @ [10]"

definition manifest_sort :: "manifest_entry list \<Rightarrow> manifest_entry list" where
  "manifest_sort parts = sort_key (\<lambda>p. the (utf8 (me_name p))) parts"

definition manifest_lines :: "manifest_entry list \<Rightarrow> sign_error + ustr" where
  "manifest_lines parts =
     bindE (mapE (\<lambda>p. case manifest_fault p of Some e \<Rightarrow> Inl e | None \<Rightarrow> Inr ()) parts) (\<lambda>_.
     bindE (mapE (\<lambda>p. encodeE (me_name p)) parts) (\<lambda>_.
     Inr (concat (map manifest_line (manifest_sort parts)))))"

definition content_digest :: "sign_ext \<Rightarrow> manifest_entry list \<Rightarrow> sign_error + ustr" where
  "content_digest X parts =
     bindE (manifest_lines parts) (\<lambda>text. bindE (encodeE text) (\<lambda>b. Inr (hex (sx_sha256 X b))))"

definition session_receipt :: "sign_ext \<Rightarrow> bytes \<Rightarrow> ustr \<Rightarrow> ustr \<Rightarrow> ustr \<Rightarrow> ustr \<Rightarrow> sign_error + ustr" where
  "session_receipt X secret device_id upload_id session_key digest =
     hmac_hex X secret (join 10 [COMMIT_LABEL, device_id, upload_id, session_key, digest])"

definition legacy_session_key :: "sign_ext \<Rightarrow> ustr \<Rightarrow> ustr \<Rightarrow> sign_error + ustr" where
  "legacy_session_key X device_id session_name =
     bindE (encodeE (device_id @ 10 # session_name)) (\<lambda>b.
       Inr (take SESSION_KEY_HEX_LEN (hex (sx_sha256 X b))))"

definition signatures_equal :: "ustr \<Rightarrow> ustr \<Rightarrow> sign_error + bool" where
  "signatures_equal a b = bindE (encodeE a) (\<lambda>x. bindE (encodeE b) (\<lambda>y. Inr (x = y)))"

section \<open>Queries\<close>

lemma canonical_query_Inr:
  "canonical_query p = Inr s \<longleftrightarrow>
     list_all query_item_ok p \<and> s = join 38 (map query_item (sort_key fst p))"
  by (auto simp: canonical_query_def list_all_iff find_None_iff find_Some_iff split: option.splits)

lemma query_item_inject:
  assumes "query_item_ok a" "query_item_ok b"
  shows "query_item a = query_item b \<longleftrightarrow> a = b"
  using assms split_at_sep [of 61 "fst a" "fst b" "snd a" "snd b"]
  by (auto simp: query_item_def query_item_ok_def QUERY_RESERVED_def prod_eq_iff)

lemma query_item_no_amp: "query_item_ok a \<Longrightarrow> 38 \<notin> set (query_item a)"
  by (auto simp: query_item_def query_item_ok_def QUERY_RESERVED_def)

lemma map_query_item_inject:
  assumes "list_all query_item_ok xs" "list_all query_item_ok ys" "map query_item xs = map query_item ys"
  shows "xs = ys"
proof -
  have "inj_on query_item {kv. query_item_ok kv}" by (auto intro!: inj_onI simp: query_item_inject)
  moreover have "set xs \<union> set ys \<subseteq> {kv. query_item_ok kv}" using assms(1,2) by (auto simp: list_all_iff)
  ultimately show ?thesis using assms(3) by (metis inj_on_map_eq_map inj_on_subset)
qed

lemma join_query_inject:
  assumes "list_all query_item_ok xs" "list_all query_item_ok ys"
    "join 38 (map query_item xs) = join 38 (map query_item ys)"
  shows "xs = ys"
proof -
  have nonempty: "join 38 (map query_item (z # zs)) \<noteq> []" for z zs
    by (cases zs) (simp_all add: query_item_def)
  show ?thesis
  proof (cases "xs = [] \<or> ys = []")
    case True
    then show ?thesis using assms(3) nonempty by (metis join.simps(1) list.exhaust list.simps(8))
  next
    case False
    have "list_all (\<lambda>x. 38 \<notin> set x) (map query_item zs)" if "list_all query_item_ok zs" for zs
      using that query_item_no_amp by (induction zs) auto
    then have "map query_item xs = map query_item ys"
      using join_inject [of 38 "map query_item xs" "map query_item ys"] assms False by simp
    then show ?thesis using map_query_item_inject assms by blast
  qed
qed

section \<open>Manifests\<close>

lemma manifest_lines_Inr:
  assumes "manifest_lines ps = Inr s"
  shows "\<forall>p \<in> set ps. manifest_fault p = None" "s = concat (map manifest_line (manifest_sort ps))"
proof -
  have "mapE f xs = Inr ys \<Longrightarrow> \<forall>x \<in> set xs. \<exists>y. f x = Inr y" for f :: "'a \<Rightarrow> 'e + 'b" and xs ys
    by (induction xs arbitrary: ys) (auto simp: bindE_eq_Inr)
  then show "\<forall>p \<in> set ps. manifest_fault p = None" "s = concat (map manifest_line (manifest_sort ps))"
    using assms by (fastforce simp: manifest_lines_def bindE_eq_Inr split: option.splits)+
qed

lemma manifest_parts:
  assumes "manifest_fault p = None"
  shows "58 \<notin> set (me_name p)" "0 \<le> me_size p" "10 \<notin> set (me_md5 p)"
    "58 \<notin> set (dec_int (me_size p))"
proof -
  show ok: "58 \<notin> set (me_name p)" "0 \<le> me_size p"
    using assms by (auto simp: manifest_fault_def name_reserved_def NAME_RESERVED_def split: if_splits)
  show "10 \<notin> set (me_md5 p)"
    using assms by (fastforce simp: manifest_fault_def list_all_iff hex_lower_def split: if_splits)
  show "58 \<notin> set (dec_int (me_size p))" using dec_int_digits [OF ok(2), of 58] by auto
qed

lemma manifest_line_inject:
  assumes "manifest_fault p = None" "manifest_fault q = None"
    and "manifest_line p @ x = manifest_line q @ y"
  shows "p = q \<and> x = y"
proof -
  note P = manifest_parts [OF assms(1)] and Q = manifest_parts [OF assms(2)]
  from assms(3) have "me_name p = me_name q"
    and 1: "dec_int (me_size p) @ 58 # me_md5 p @ [10] @ x = dec_int (me_size q) @ 58 # me_md5 q @ [10] @ y"
    using P(1) Q(1) by (simp_all add: manifest_line_def split_at_sep)
  moreover from 1 have "dec_int (me_size p) = dec_int (me_size q)" "me_md5 p @ 10 # x = me_md5 q @ 10 # y"
    using P(4) Q(4) by (simp_all add: split_at_sep)
  moreover from this have "me_md5 p = me_md5 q" "x = y" using P(3) Q(3) by (simp_all add: split_at_sep)
  ultimately show ?thesis using P(2) Q(2) by (simp add: dec_int_inject)
qed

lemma manifest_concat_inject:
  "\<forall>p \<in> set ps. manifest_fault p = None \<Longrightarrow> \<forall>q \<in> set qs. manifest_fault q = None \<Longrightarrow>
     concat (map manifest_line ps) = concat (map manifest_line qs) \<Longrightarrow> ps = qs"
proof (induction ps arbitrary: qs)
  case Nil
  then show ?case by (cases qs) (simp_all add: manifest_line_def)
next
  case (Cons p ps)
  then obtain q qs' where "qs = q # qs'" by (cases qs) (simp_all add: manifest_line_def)
  then have "p = q \<and> concat (map manifest_line ps) = concat (map manifest_line qs')"
    using Cons.prems by (intro manifest_line_inject) simp_all
  then show ?case using Cons.IH [of qs'] Cons.prems \<open>qs = q # qs'\<close> by simp
qed

section \<open>Properties\<close>

text \<open>
  A query string is signed without ambiguity: two sets of parameters that are accepted have the
  same canonical query only if they are the same parameters.
\<close>

theorem canonical_query_unambiguous:
  assumes "canonical_query p = Inr s" and "canonical_query q = Inr s"
  shows "mset p = mset q"
proof -
  have "list_all query_item_ok (sort_key fst r) = list_all query_item_ok r" for r
    by (simp add: list_all_iff)
  then have "sort_key fst p = sort_key fst q"
    using assms join_query_inject [of "sort_key fst p" "sort_key fst q"] by (simp add: canonical_query_Inr)
  then show ?thesis by (metis mset_sort)
qed

theorem canonical_query_unambiguous_witness:
  "canonical_query [(lit ''b'', lit ''2''), (lit ''a'', lit ''1'')] = Inr (lit ''a=1&b=2'')
   \<and> mset [(lit ''b'', lit ''2''), (lit ''a'', lit ''1'')] = mset [(lit ''a'', lit ''1''), (lit ''b'', lit ''2'')]"
proof -
  have q: "canonical_query [(lit ''b'', lit ''2''), (lit ''a'', lit ''1'')] = Inr (lit ''a=1&b=2'')"
    "canonical_query [(lit ''a'', lit ''1''), (lit ''b'', lit ''2'')] = Inr (lit ''a=1&b=2'')"
    by code_simp+
  show ?thesis using canonical_query_unambiguous [OF q] q(1) by simp
qed

text \<open>
  A manifest digest covers exactly its parts: two manifests that are accepted give the same text to
  hash only if they hold the same entries, with the same names, sizes and checksums.
\<close>

theorem manifest_lines_unambiguous:
  assumes "manifest_lines ps = Inr s" and "manifest_lines qs = Inr s"
  shows "mset ps = mset qs"
proof -
  have "manifest_sort ps = manifest_sort qs"
    using manifest_lines_Inr [OF assms(1)] manifest_lines_Inr [OF assms(2)]
    by (intro manifest_concat_inject) (simp_all add: manifest_sort_def)
  then show ?thesis by (metis manifest_sort_def mset_sort)
qed

definition sample_entry :: "ustr \<Rightarrow> int \<Rightarrow> manifest_entry" where
  "sample_entry name size1 = \<lparr>me_name = name, me_size = size1, me_md5 = []\<rparr>"

theorem manifest_lines_unambiguous_witness:
  "manifest_lines [sample_entry [97, 50] 3, sample_entry [97] 12]
     = Inr ([97, 58, 49, 50, 58, 10] @ [97, 50, 58, 51, 58, 10])
   \<and> mset [sample_entry [97, 50] 3, sample_entry [97] 12] = mset [sample_entry [97] 12, sample_entry [97, 50] 3]"
proof -
  have m: "manifest_lines [sample_entry [97, 50] 3, sample_entry [97] 12]
      = Inr ([97, 58, 49, 50, 58, 10] @ [97, 50, 58, 51, 58, 10])"
    "manifest_lines [sample_entry [97] 12, sample_entry [97, 50] 3]
      = Inr ([97, 58, 49, 50, 58, 10] @ [97, 50, 58, 51, 58, 10])"
    by code_simp+
  show ?thesis using manifest_lines_unambiguous [OF m] m(1) by simp
qed

text \<open>
  The string a request signs determines its date, key id, method, path, query and body digest, as
  long as none of them holds a line feed.
\<close>

theorem request_string_determines_request:
  assumes "request_string_to_sign up d k m p q b = Inr s" and "request_string_to_sign up d' k' m' p' q' b' = Inr s"
    and "list_all (\<lambda>x. 10 \<notin> set x) [d, k, m, p, q, b, d', k', m', p', q', b']"
  shows "[d, k, m, p, q, b] = [d', k', m', p', q', b']"
proof -
  have "10 \<notin> set ALGORITHM" by (simp add: ALGORITHM_def)
  moreover have "join 10 [ALGORITHM, d, k, m, p, q, b] = join 10 [ALGORITHM, d', k', m', p', q', b']"
    using assms(1,2) unfolding request_string_to_sign_def by (metis sum.distinct(1) sum.inject(2))
  ultimately have "[ALGORITHM, d, k, m, p, q, b] = [ALGORITHM, d', k', m', p', q', b']"
    using assms(3) by (subst (asm) join_inject) simp_all
  then show ?thesis by simp
qed

theorem request_string_determines_request_witness:
  "\<exists>s. request_string_to_sign id [49] [107] [71] [47] [] [48] = Inr s
     \<and> [[49], [107], [71], [47], [], [48]] = [[49], [107], [71], [47], [], [48 :: nat]]"
proof -
  have r: "request_string_to_sign id [49] [107] [71] [47] [] [48]
      = Inr (join 10 [ALGORITHM, [49], [107], [71], [47], [], [48]])"
    by (simp add: request_string_to_sign_def)
  show ?thesis using request_string_determines_request [OF r r] r by simp
qed

text \<open>
  Nothing refuses a path or a query that holds a line feed, so the ambiguity does reach a signature:
  two requests with different paths and queries are given the same signature under every secret.
\<close>

theorem signature_ambiguous_on_line_feed:
  "request_signature X id secret date kid [71] [47, 97, 10, 120] [] body
     = request_signature X id secret date kid [71] [47, 97] [120, 10] body"
  by (simp add: request_signature_def request_string_to_sign_def)

end
