(* ===== verification/Envelope.thy ===== *)
theory Envelope
  imports Hex
begin

text \<open>
  The sealed envelope of settings QR codes (\<open>crypto/envelope.py\<close>). X25519, HKDF, ChaCha20-Poly1305,
  SHA-256 and the PEM codec are code outside the repository, the fields of \<open>seal_ext\<close>; \<open>seal_ext_ok\<close>
  states what is documented of them:

  \<^item> the two sides of a key exchange get the same secret, when they get one;
  \<^item> the authenticated cipher decrypts exactly what it encrypted under the same key, nonce and
    associated data, and its output is 16 bytes longer than its input;
  \<^item> keys are 32 bytes, the derived material has the length asked for.
\<close>

section \<open>The code\<close>

definition SEAL_MAGIC :: bytes where "SEAL_MAGIC = asc ''VSL1''"
definition SEAL_LABEL :: bytes where "SEAL_LABEL = asc ''visio-seal-v1''"
definition KID_LEN :: nat where "KID_LEN = 4"
definition KEY_LEN :: nat where "KEY_LEN = 32"
definition NONCE_LEN :: nat where "NONCE_LEN = 12"
definition TAG_LEN :: nat where "TAG_LEN = 16"
definition HEADER_LEN :: nat where "HEADER_LEN = length SEAL_MAGIC + KID_LEN + KEY_LEN"

record seal_ext =
  se_sha256 :: "bytes \<Rightarrow> bytes"
  se_public :: "bytes \<Rightarrow> bytes"
  se_exchange :: "bytes \<Rightarrow> bytes \<Rightarrow> bytes option"
  se_hkdf :: "nat \<Rightarrow> bytes \<Rightarrow> bytes \<Rightarrow> bytes \<Rightarrow> bytes"
  se_aead_encrypt :: "bytes \<Rightarrow> bytes \<Rightarrow> bytes \<Rightarrow> bytes \<Rightarrow> bytes"
  se_aead_decrypt :: "bytes \<Rightarrow> bytes \<Rightarrow> bytes \<Rightarrow> bytes \<Rightarrow> bytes option"
  se_pem_read :: "bytes \<Rightarrow> (bytes option) option"
  se_pem_write :: "bytes \<Rightarrow> bytes"

definition aead_ok :: "(bytes \<Rightarrow> bytes \<Rightarrow> bytes \<Rightarrow> bytes \<Rightarrow> bytes) \<Rightarrow> (bytes \<Rightarrow> bytes \<Rightarrow> bytes \<Rightarrow> bytes \<Rightarrow> bytes option)
    \<Rightarrow> bool" where
  "aead_ok enc dec \<longleftrightarrow> (\<forall>k n p a c. dec k n c a = Some p \<longleftrightarrow> c = enc k n p a)
     \<and> (\<forall>k n p a. length (enc k n p a) = length p + 16)"

definition seal_ext_ok :: "seal_ext \<Rightarrow> bool" where
  "seal_ext_ok S \<longleftrightarrow> aead_ok (se_aead_encrypt S) (se_aead_decrypt S)
     \<and> (\<forall>a b. se_exchange S a (se_public S b) = se_exchange S b (se_public S a))
     \<and> (\<forall>k. length (se_public S k) = 32) \<and> (\<forall>b. length (se_sha256 S b) = 32)
     \<and> (\<forall>n k s i. length (se_hkdf S n k s i) = n)"

datatype seal_error = MalformedEnvelope | WrongFleetKey (wfk_want: ustr) (wfk_have: ustr) | EnvelopeTampered
  | BadKeyArgument | NotX25519

definition raw_public :: "bytes \<Rightarrow> seal_error + bytes" where
  "raw_public pubkey = (if length pubkey \<noteq> KEY_LEN then Inl BadKeyArgument else Inr pubkey)"

definition key_id :: "seal_ext \<Rightarrow> bytes \<Rightarrow> seal_error + ustr" where
  "key_id S pubkey = bindE (raw_public pubkey) (\<lambda>raw. Inr (hex (take KID_LEN (se_sha256 S raw))))"

text \<open>\<open>generate_keypair\<close> for the private key that the generator drew.\<close>

definition generate_keypair :: "seal_ext \<Rightarrow> bytes \<Rightarrow> bytes \<times> bytes" where
  "generate_keypair S sk = (sk, se_public S sk)"

definition load_public_key_pem :: "seal_ext \<Rightarrow> bytes \<Rightarrow> seal_error + bytes" where
  "load_public_key_pem S data = (case se_pem_read S data of
       None \<Rightarrow> Inl BadKeyArgument
     | Some None \<Rightarrow> Inl NotX25519
     | Some (Some key) \<Rightarrow> raw_public key)"

definition public_key_pem :: "seal_ext \<Rightarrow> bytes \<Rightarrow> seal_error + bytes" where
  "public_key_pem S pubkey = bindE (raw_public pubkey) (\<lambda>raw. Inr (se_pem_write S raw))"

definition blob_key_id :: "bytes \<Rightarrow> seal_error + ustr" where
  "blob_key_id blob =
     (if length blob < length SEAL_MAGIC + KID_LEN \<or> take (length SEAL_MAGIC) blob \<noteq> SEAL_MAGIC
      then Inl MalformedEnvelope
      else Inr (hex (slice (length SEAL_MAGIC) (length SEAL_MAGIC + KID_LEN) blob)))"

definition derive :: "seal_ext \<Rightarrow> bytes \<Rightarrow> bytes \<Rightarrow> bytes \<Rightarrow> bytes \<times> bytes" where
  "derive S shared eph_pub peer_pub =
     (let okm = se_hkdf S (KEY_LEN + NONCE_LEN) shared SEAL_LABEL (eph_pub @ peer_pub)
      in (take KEY_LEN okm, drop KEY_LEN okm))"

text \<open>\<open>eph.exchange\<close> raises \<open>ValueError\<close> on a peer key that gives no secret.\<close>

definition seal_with_ephemeral :: "seal_ext \<Rightarrow> bytes \<Rightarrow> bytes \<Rightarrow> bytes \<Rightarrow> seal_error + bytes" where
  "seal_with_ephemeral S plaintext peer_raw eph =
     (let eph_pub = se_public S eph in
      case se_exchange S eph peer_raw of
        None \<Rightarrow> Inl BadKeyArgument
      | Some shared \<Rightarrow>
          let (key, nonce) = derive S shared eph_pub peer_raw
          in bindE (key_id S peer_raw) (\<lambda>own.
             let kid = the (fromhex own)
             in Inr (SEAL_MAGIC @ kid @ eph_pub @ se_aead_encrypt S key nonce plaintext (SEAL_LABEL @ kid))))"

text \<open>\<open>seal\<close>, for the ephemeral key drawn and the published key of the wheel.\<close>

definition seal :: "seal_ext \<Rightarrow> (seal_error + bytes) \<Rightarrow> bytes \<Rightarrow> bytes \<Rightarrow> bytes option \<Rightarrow> seal_error + bytes" where
  "seal S fleet_public_key eph plaintext pubkey =
     bindE (case pubkey of None \<Rightarrow> fleet_public_key | Some k \<Rightarrow> raw_public k) (\<lambda>peer_raw.
       seal_with_ephemeral S plaintext peer_raw eph)"

definition unseal :: "seal_ext \<Rightarrow> bytes \<Rightarrow> bytes \<Rightarrow> seal_error + bytes" where
  "unseal S blob privkey =
     (if length privkey \<noteq> KEY_LEN then Inl BadKeyArgument
      else if length blob < HEADER_LEN + TAG_LEN then Inl MalformedEnvelope
      else if take (length SEAL_MAGIC) blob \<noteq> SEAL_MAGIC then Inl MalformedEnvelope
      else let kid = slice (length SEAL_MAGIC) (length SEAL_MAGIC + KID_LEN) blob;
               eph_pub = slice (length SEAL_MAGIC + KID_LEN) HEADER_LEN blob;
               ct = drop HEADER_LEN blob;
               own_raw = se_public S privkey
           in bindE (key_id S own_raw) (\<lambda>own_kid.
              if hex kid \<noteq> own_kid then Inl (WrongFleetKey (hex kid) own_kid)
              else (case se_exchange S privkey eph_pub of
                      None \<Rightarrow> Inl MalformedEnvelope
                    | Some shared \<Rightarrow>
                        let (key, nonce) = derive S shared eph_pub own_raw
                        in (case se_aead_decrypt S key nonce ct (SEAL_LABEL @ kid) of
                              None \<Rightarrow> Inl EnvelopeTampered
                            | Some plaintext \<Rightarrow> Inr plaintext))))"

section \<open>The layout\<close>

lemma seal_lengths: "length SEAL_MAGIC = 4" "HEADER_LEN = 40" "KID_LEN = 4" "KEY_LEN = 32" "TAG_LEN = 16"
  by (simp_all add: SEAL_MAGIC_def HEADER_LEN_def KID_LEN_def KEY_LEN_def TAG_LEN_def)

definition fleet_kid :: "seal_ext \<Rightarrow> bytes \<Rightarrow> bytes" where
  "fleet_kid S pub = take 4 (se_sha256 S pub)"

lemma key_id_eq: "length pub = 32 \<Longrightarrow> key_id S pub = Inr (hex (fleet_kid S pub))"
  by (simp add: key_id_def raw_public_def seal_lengths fleet_kid_def)

lemma length_fleet_kid: "seal_ext_ok S \<Longrightarrow> length (fleet_kid S pub) = 4"
  by (simp add: seal_ext_ok_def fleet_kid_def)

text \<open>An envelope is its four parts.\<close>

lemma envelope_parts:
  assumes "length kid = 4" "length eph = 32"
  shows "slice 4 8 (SEAL_MAGIC @ kid @ eph @ ct) = kid" "slice 8 40 (SEAL_MAGIC @ kid @ eph @ ct) = eph"
    "drop 40 (SEAL_MAGIC @ kid @ eph @ ct) = ct" "take 4 (SEAL_MAGIC @ kid @ eph @ ct) = SEAL_MAGIC"
  using assms by (simp_all add: slice_def seal_lengths)

lemma take_slice_drop: "m \<le> n \<Longrightarrow> drop m xs = slice m n xs @ drop n xs"
  using append_take_drop_id [of "n - m" "drop m xs"] by (simp add: slice_def del: append_take_drop_id)

lemma envelope_split:
  assumes "40 \<le> length blob" "take 4 blob = SEAL_MAGIC"
  shows "blob = SEAL_MAGIC @ slice 4 8 blob @ slice 8 40 blob @ drop 40 blob"
  using append_take_drop_id [of 4 blob] take_slice_drop [of 4 8 blob] take_slice_drop [of 8 40 blob] assms(2)
  by (simp del: append_take_drop_id)

text \<open>What \<open>unseal\<close> does with an envelope of given parts.\<close>

lemma unseal_parts:
  assumes "seal_ext_ok S" "length sk = 32" "length kid = 4" "length eph = 32" "16 \<le> length ct"
  shows "unseal S (SEAL_MAGIC @ kid @ eph @ ct) sk =
    (if kid \<noteq> fleet_kid S (se_public S sk)
     then Inl (WrongFleetKey (hex kid) (hex (fleet_kid S (se_public S sk))))
     else (case se_exchange S sk eph of
             None \<Rightarrow> Inl MalformedEnvelope
           | Some shared \<Rightarrow>
               (case se_aead_decrypt S (fst (derive S shared eph (se_public S sk)))
                       (snd (derive S shared eph (se_public S sk))) ct (SEAL_LABEL @ kid) of
                  None \<Rightarrow> Inl EnvelopeTampered
                | Some plaintext \<Rightarrow> Inr plaintext)))"
proof -
  have "length (se_public S sk) = 32" using assms(1) by (simp add: seal_ext_ok_def)
  note id = key_id_eq [OF this, of S]
  show ?thesis
    using assms(2-5) envelope_parts [OF assms(3,4), of ct]
    by (simp add: unseal_def seal_lengths id hex_inject Let_def case_prod_beta split: option.split)
qed

lemma seal_parts:
  assumes "seal_ext_ok S" "length peer = 32" "se_exchange S eph peer = Some shared"
  shows "seal_with_ephemeral S plaintext peer eph = Inr (SEAL_MAGIC @ fleet_kid S peer @ se_public S eph
    @ se_aead_encrypt S (fst (derive S shared (se_public S eph) peer)) (snd (derive S shared (se_public S eph) peer))
        plaintext (SEAL_LABEL @ fleet_kid S peer))"
  using assms by (simp add: seal_with_ephemeral_def key_id_eq fromhex_hex Let_def case_prod_beta)

section \<open>Sealed and opened\<close>

lemma sealed_opens:
  assumes ok: "seal_ext_ok S" and "length sk = KEY_LEN" and other: "length other = KEY_LEN"
    and sealed: "seal S fleet eph plaintext (Some (se_public S sk)) = Inr blob"
  shows "unseal S blob sk = Inr plaintext
    \<and> blob_key_id blob = key_id S (se_public S sk)
    \<and> (key_id S (se_public S other) \<noteq> key_id S (se_public S sk) \<longrightarrow>
        unseal S blob other = Inl (WrongFleetKey (hex (fleet_kid S (se_public S sk)))
                                                 (hex (fleet_kid S (se_public S other)))))"
proof -
  let ?pub = "se_public S sk"
  have len: "length sk = 32" "length other = 32" "\<And>k. length (se_public S k) = 32"
    using assms(1-3) by (simp_all add: seal_lengths seal_ext_ok_def)
  have aead: "se_aead_decrypt S k n (se_aead_encrypt S k n p a) a = Some p"
    "length (se_aead_encrypt S k n p a) = length p + 16" for k n p a
    using ok by (auto simp: seal_ext_ok_def aead_ok_def)
  have "seal_with_ephemeral S plaintext ?pub eph = Inr blob"
    using sealed len(3) [of sk] by (simp add: seal_def raw_public_def seal_lengths)
  then obtain shared where shared: "se_exchange S eph ?pub = Some shared"
    by (auto simp: seal_with_ephemeral_def Let_def split: option.splits)
  let ?ct = "se_aead_encrypt S (fst (derive S shared (se_public S eph) ?pub))
    (snd (derive S shared (se_public S eph) ?pub)) plaintext (SEAL_LABEL @ fleet_kid S ?pub)"
  have blob: "blob = SEAL_MAGIC @ fleet_kid S ?pub @ se_public S eph @ ?ct"
    using seal_parts [OF ok len(3) shared] \<open>seal_with_ephemeral S plaintext ?pub eph = Inr blob\<close> by simp
  have exch: "se_exchange S sk (se_public S eph) = Some shared"
    using ok shared by (simp add: seal_ext_ok_def)
  note parts = unseal_parts [OF ok _ length_fleet_kid [OF ok] len(3), of _ ?ct ?pub eph]
  have "unseal S blob sk = Inr plaintext" using parts [of sk] len exch aead by (simp add: blob)
  moreover have "unseal S blob other = Inl (WrongFleetKey (hex (fleet_kid S ?pub))
      (hex (fleet_kid S (se_public S other))))"
    if "key_id S (se_public S other) \<noteq> key_id S ?pub"
    using that parts [of other] len aead by (auto simp: blob key_id_eq)
  moreover have "blob_key_id blob = key_id S ?pub"
    using length_fleet_kid [OF ok, of ?pub] envelope_parts(1) [OF length_fleet_kid [OF ok] len(3)]
    by (simp add: blob_key_id_def blob seal_lengths key_id_eq len)
  ultimately show ?thesis by blast
qed

section \<open>A suite for examples\<close>

definition toy_mac :: "bytes \<Rightarrow> bytes" where
  "toy_mac b = take 16 (b @ replicate 16 0)"

definition sample_seal :: seal_ext where
  "sample_seal = \<lparr>se_sha256 = \<lambda>b. take 32 (b @ replicate 32 0), se_public = \<lambda>k. take 32 (k @ replicate 32 0),
     se_exchange = \<lambda>a b. Some (replicate 32 1), se_hkdf = \<lambda>n k s i. replicate n 7,
     se_aead_encrypt = \<lambda>k n p a. p @ toy_mac a, se_aead_decrypt = \<lambda>k n c a.
       (if 16 \<le> length c \<and> drop (length c - 16) c = toy_mac a then Some (take (length c - 16) c) else None),
     se_pem_read = \<lambda>d. Some (Some d), se_pem_write = \<lambda>k. k\<rparr>"

lemma length_toy_mac: "length (toy_mac b) = 16"
  by (simp add: toy_mac_def)

lemma sample_seal_ok: "seal_ext_ok sample_seal"
proof -
  have "length (take 32 (b @ replicate 32 0)) = 32" for b :: bytes by simp
  moreover have "(16 \<le> length c \<and> drop (length c - 16) c = toy_mac a \<and> take (length c - 16) c = p)
      = (c = p @ toy_mac a)" for c p a
    using length_toy_mac [of a] by (auto simp: append_eq_conv_conj) (metis append_take_drop_id)
  ultimately show ?thesis
    by (auto simp: seal_ext_ok_def aead_ok_def sample_seal_def length_toy_mac)
qed

section \<open>Properties\<close>

text \<open>
  An envelope opens for nothing but itself: \<open>unseal\<close> with a fleet key returns a text exactly when the
  blob is the magic, that key's id, some usable ephemeral key, and the authenticated encryption of that
  text under the key and nonce derived from the two and with the key id as associated data. So no byte
  of an envelope, header or body, can be altered and still open to the same text, and the key id cannot
  be relabelled.
\<close>

theorem unseal_opens_only_sealed:
  assumes ok: "seal_ext_ok S" and sk: "length sk = KEY_LEN"
  shows "(unseal S blob sk = Inr plaintext) =
     (\<exists>eph shared. length eph = 32 \<and> se_exchange S sk eph = Some shared
        \<and> blob = SEAL_MAGIC @ fleet_kid S (se_public S sk) @ eph
            @ se_aead_encrypt S (fst (derive S shared eph (se_public S sk)))
                (snd (derive S shared eph (se_public S sk))) plaintext
                (SEAL_LABEL @ fleet_kid S (se_public S sk)))"
proof
  let ?pub = "se_public S sk"
  have sk32: "length sk = 32" using sk by (simp add: seal_lengths)
  have aead: "se_aead_decrypt S k n c a = Some p \<longleftrightarrow> c = se_aead_encrypt S k n p a"
    "length (se_aead_encrypt S k n p a) = length p + 16" for k n p a c
    using ok by (auto simp: seal_ext_ok_def aead_ok_def)
  have inv: "se_aead_decrypt S k n (se_aead_encrypt S k n p a) a = Some p" for k n p a
    by (simp add: aead)
  {
    assume opened: "unseal S blob sk = Inr plaintext"
    then have blob: "56 \<le> length blob" "take 4 blob = SEAL_MAGIC"
      by (auto simp: unseal_def seal_lengths split: if_splits)
    let ?kid = "slice 4 8 blob" and ?eph = "slice 8 40 blob" and ?ct = "drop 40 blob"
    have parts: "blob = SEAL_MAGIC @ ?kid @ ?eph @ ?ct" using blob by (intro envelope_split) simp_all
    have "unseal S (SEAL_MAGIC @ ?kid @ ?eph @ ?ct) sk = Inr plaintext" using opened parts by simp
    then obtain shared where "?kid = fleet_kid S ?pub" "se_exchange S sk ?eph = Some shared"
      "?ct = se_aead_encrypt S (fst (derive S shared ?eph ?pub)) (snd (derive S shared ?eph ?pub)) plaintext
         (SEAL_LABEL @ ?kid)"
      using blob by (subst (asm) unseal_parts [OF ok sk32]) (auto simp: aead split: if_splits option.splits)
    then show "\<exists>eph shared. length eph = 32 \<and> se_exchange S sk eph = Some shared
        \<and> blob = SEAL_MAGIC @ fleet_kid S ?pub @ eph
            @ se_aead_encrypt S (fst (derive S shared eph ?pub)) (snd (derive S shared eph ?pub)) plaintext
                (SEAL_LABEL @ fleet_kid S ?pub)"
      using parts blob by (intro exI [of _ ?eph] exI [of _ shared]) simp
  next
    assume "\<exists>eph shared. length eph = 32 \<and> se_exchange S sk eph = Some shared
        \<and> blob = SEAL_MAGIC @ fleet_kid S ?pub @ eph
            @ se_aead_encrypt S (fst (derive S shared eph ?pub)) (snd (derive S shared eph ?pub)) plaintext
                (SEAL_LABEL @ fleet_kid S ?pub)"
    then show "unseal S blob sk = Inr plaintext"
      using unseal_parts [OF ok sk32 length_fleet_kid [OF ok]] by (auto simp: aead(2) inv)
  }
qed

theorem unseal_opens_only_sealed_witness:
  "unseal sample_seal (SEAL_MAGIC @ replicate 4 9 @ replicate 32 3 @ [5, 6] @ toy_mac (SEAL_LABEL @ replicate 4 9))
     (replicate 32 9) = Inr [5, 6]"
proof -
  have pub: "se_public sample_seal (replicate 32 9) = replicate 32 9"
    "fleet_kid sample_seal (replicate 32 9) = replicate 4 9"
    by (simp_all add: sample_seal_def fleet_kid_def)
  have "length (replicate 32 (9 :: byte)) = KEY_LEN" by (simp add: seal_lengths)
  from unseal_opens_only_sealed [OF sample_seal_ok this] show ?thesis
    unfolding pub by (auto simp: sample_seal_def intro!: exI [of _ "replicate 32 3"])
qed

text \<open>
  C16. What was sealed to a fleet key opens with its private half, and names that key: opening with a key
  of any other id fails as \<open>WrongFleetKey\<close>, naming both ids, never as tampering.
\<close>

theorem sealed_opens_for_its_fleet:
  assumes ok: "seal_ext_ok S" and "length sk = KEY_LEN" and other: "length other = KEY_LEN"
    and sealed: "seal S fleet eph plaintext (Some (se_public S sk)) = Inr blob"
  shows "unseal S blob sk = Inr plaintext
    \<and> blob_key_id blob = key_id S (se_public S sk)
    \<and> (key_id S (se_public S other) \<noteq> key_id S (se_public S sk) \<longrightarrow>
        unseal S blob other = Inl (WrongFleetKey (hex (fleet_kid S (se_public S sk)))
                                                 (hex (fleet_kid S (se_public S other)))))"
  using assms by (rule sealed_opens)

theorem sealed_opens_for_its_fleet_witness:
  "\<exists>blob. seal sample_seal (Inl NotX25519) (replicate 32 4) [1, 2, 3] (Some (replicate 32 9)) = Inr blob
     \<and> unseal sample_seal blob (replicate 32 9) = Inr [1, 2, 3]
     \<and> unseal sample_seal blob (replicate 32 8)
         = Inl (WrongFleetKey (hex (replicate 4 9)) (hex (replicate 4 8)))"
proof -
  have pub: "se_public sample_seal (replicate 32 b) = replicate 32 b"
    "fleet_kid sample_seal (replicate 32 b) = replicate 4 b" for b
    by (simp_all add: sample_seal_def fleet_kid_def)
  have len: "length (replicate 32 (9 :: byte)) = KEY_LEN" "length (replicate 32 (8 :: byte)) = KEY_LEN"
    by (simp_all add: seal_lengths)
  have "\<exists>blob. seal sample_seal (Inl NotX25519) (replicate 32 4) [1, 2, 3]
      (Some (se_public sample_seal (replicate 32 9))) = Inr blob"
    using seal_parts [OF sample_seal_ok, of "replicate 32 9" "replicate 32 4"] len
    by (simp add: seal_def raw_public_def pub) (simp add: sample_seal_def)
  then obtain blob where blob: "seal sample_seal (Inl NotX25519) (replicate 32 4) [1, 2, 3]
      (Some (se_public sample_seal (replicate 32 9))) = Inr blob" by blast
  have "key_id sample_seal (replicate 32 b) = Inr (hex (replicate 4 b))" for b
    by (simp only: key_id_eq length_replicate pub)
  then have "key_id sample_seal (se_public sample_seal (replicate 32 8))
      \<noteq> key_id sample_seal (se_public sample_seal (replicate 32 9))"
    by (simp only: pub hex_inject sum.inject) simp
  with sealed_opens_for_its_fleet [OF sample_seal_ok len blob] blob show ?thesis by (auto simp: pub)
qed

end
