(* ===== verification/Json.thy ===== *)
theory Json
  imports Text Hex
begin

text \<open>
  The standard library's \<open>json\<close> on values: \<open>json.dumps\<close> with compact separators and \<open>json.loads\<close>, and
  strict UTF-8 decoding.

  An object is an association list in insertion order with distinct keys; \<open>get\<close> of a missing key is
  \<open>JNull\<close>, as \<open>dict.get\<close> is \<open>None\<close>, and \<open>put\<close> keeps the place of a key that is there. The text of a float
  and the float of a text are C library functions, the arguments \<open>repr_float\<close> and \<open>float_of\<close>. The
  interpreter's limits (depth of recursion, digits of an integer) are not modelled.
\<close>

section \<open>Values\<close>

text \<open>A float is a real number, or one of the three values that are none.\<close>

datatype pyfloat = Finite real | PosInf | NegInf | NaN

datatype json = JNull | JBool bool | JInt int | JFloat pyfloat | JStr ustr | JList "json list"
  | JObj "(ustr \<times> json) list"

definition get :: "(ustr \<times> json) list \<Rightarrow> ustr \<Rightarrow> json" where
  "get obj k = (case map_of obj k of None \<Rightarrow> JNull | Some v \<Rightarrow> v)"

fun put :: "(ustr \<times> json) list \<Rightarrow> ustr \<Rightarrow> json \<Rightarrow> (ustr \<times> json) list" where
  "put [] k v = [(k, v)]"
| "put ((k', v') # obj) k v = (if k' = k then (k, v) # obj else (k', v') # put obj k v)"

lemma map_of_put: "map_of (put obj k v) = (map_of obj)(k \<mapsto> v)"
  by (induction obj) auto

lemma get_put [simp]: "get (put obj k v) k' = (if k' = k then v else get obj k')"
  by (simp add: get_def map_of_put)

lemma put_same: "map_of obj k = Some v \<Longrightarrow> put obj k v = obj"
  by (induction obj) auto

lemma put_put [simp]: "put (put obj k v) k w = put obj k w"
  by (induction obj) auto

lemma put_new: "k \<notin> fst ` set obj \<Longrightarrow> put obj k v = obj @ [(k, v)]"
  by (induction obj) auto

lemma get_JObj: "get obj k = JObj m \<Longrightarrow> map_of obj k = Some (JObj m)"
  by (auto simp: get_def split: option.splits)

section \<open>Writing\<close>

definition hex4 :: "nat \<Rightarrow> ustr" where
  "hex4 u = [hex_digit (u div 4096), hex_digit (u div 256 mod 16), hex_digit (u div 16 mod 16), hex_digit (u mod 16)]"

definition u_escape :: "nat \<Rightarrow> ustr" where
  "u_escape u = 92 # 117 # hex4 u"

text \<open>One character of a string, with \<open>ensure_ascii\<close> or without.\<close>

definition json_char :: "bool \<Rightarrow> nat \<Rightarrow> ustr" where
  "json_char ensure_ascii c =
     (if c = 34 then [92, 34] else if c = 92 then [92, 92] else if c = 10 then [92, 110]
      else if c = 13 then [92, 114] else if c = 9 then [92, 116] else if c = 12 then [92, 102]
      else if c = 8 then [92, 98]
      else if 32 \<le> c \<and> (c \<le> 126 \<or> \<not> ensure_ascii) then [c]
      else if c < 65536 then u_escape c
      else u_escape (55296 + (c - 65536) div 1024) @ u_escape (56320 + (c - 65536) mod 1024))"

definition json_string :: "bool \<Rightarrow> ustr \<Rightarrow> ustr" where
  "json_string a s = 34 # concat (map (json_char a) s) @ [34]"

definition json_float :: "(real \<Rightarrow> ustr) \<Rightarrow> pyfloat \<Rightarrow> ustr" where
  "json_float repr_float x = (case x of Finite r \<Rightarrow> repr_float r | PosInf \<Rightarrow> lit ''Infinity''
     | NegInf \<Rightarrow> lit ''-Infinity'' | NaN \<Rightarrow> lit ''NaN'')"

fun dumps :: "(real \<Rightarrow> ustr) \<Rightarrow> bool \<Rightarrow> json \<Rightarrow> ustr" where
  "dumps fl a JNull = lit ''null''"
| "dumps fl a (JBool b) = (if b then lit ''true'' else lit ''false'')"
| "dumps fl a (JInt i) = dec_int i"
| "dumps fl a (JFloat x) = json_float fl x"
| "dumps fl a (JStr s) = json_string a s"
| "dumps fl a (JList vs) = 91 # join 44 (map (dumps fl a) vs) @ [93]"
| "dumps fl a (JObj m) = 123 # join 44 (map (\<lambda>(k, v). json_string a k @ 58 # dumps fl a v) m) @ [125]"

section \<open>Reading\<close>

definition json_space :: "nat \<Rightarrow> bool" where
  "json_space c \<longleftrightarrow> c = 32 \<or> c = 9 \<or> c = 10 \<or> c = 13"

definition skip :: "ustr \<Rightarrow> ustr" where
  "skip s = dropWhile json_space s"

text \<open>A character that must come next, and one that may come after white space.\<close>

definition expect_char :: "nat \<Rightarrow> ustr \<Rightarrow> ustr option" where
  "expect_char c s = (case s of [] \<Rightarrow> None | d # r \<Rightarrow> if d = c then Some r else None)"

definition punct :: "nat \<Rightarrow> ustr \<Rightarrow> ustr option" where
  "punct c s = expect_char c (skip s)"

definition read_hex4 :: "ustr \<Rightarrow> (nat \<times> ustr) option" where
  "read_hex4 s = (case s of
       a # b # c # d # r \<Rightarrow> (case (digit_value a, digit_value b, digit_value c, digit_value d) of
           (Some w, Some x, Some y, Some z) \<Rightarrow> Some (w * 4096 + x * 256 + y * 16 + z, r)
         | _ \<Rightarrow> None)
     | _ \<Rightarrow> None)"

definition escaped :: "nat \<Rightarrow> nat option" where
  "escaped e = (if e = 34 \<or> e = 92 \<or> e = 47 then Some e else if e = 110 then Some 10 else if e = 114 then Some 13
     else if e = 116 then Some 9 else if e = 102 then Some 12 else if e = 98 then Some 8 else None)"

text \<open>After \<open>\u\<close>: a code unit, joined with the low surrogate that may follow a high one.\<close>

definition read_unit :: "ustr \<Rightarrow> (nat \<times> ustr) option" where
  "read_unit s = (case read_hex4 s of
       None \<Rightarrow> None
     | Some (u, r) \<Rightarrow>
         if 55296 \<le> u \<and> u < 56320 \<and> take 2 r = [92, 117]
         then (case read_hex4 (drop 2 r) of
                 None \<Rightarrow> None
               | Some (w, r') \<Rightarrow>
                   if 56320 \<le> w \<and> w < 57344 then Some (65536 + (u - 55296) * 1024 + (w - 56320), r')
                   else Some (u, r))
         else Some (u, r))"

datatype lexeme = Bad | Close ustr | Char nat ustr

definition lexeme_of :: "(nat \<times> ustr) option \<Rightarrow> lexeme" where
  "lexeme_of x = (case x of None \<Rightarrow> Bad | Some (c, r) \<Rightarrow> Char c r)"

definition next_char :: "ustr \<Rightarrow> lexeme" where
  "next_char s = (case s of
       [] \<Rightarrow> Bad
     | c # r \<Rightarrow>
         if c = 34 then Close r
         else if c = 92 then (case r of
             [] \<Rightarrow> Bad
           | e # r' \<Rightarrow> if e = 117 then lexeme_of (read_unit r')
                      else lexeme_of (map_option (\<lambda>c. (c, r')) (escaped e)))
         else if c < 32 then Bad
         else Char c r)"

lemma read_hex4_length: "read_hex4 s = Some (u, r) \<Longrightarrow> length r < length s"
  by (auto simp: read_hex4_def split: list.splits option.splits)

lemma read_unit_length: "read_unit s = Some (u, r) \<Longrightarrow> length r < length s"
proof -
  assume *: "read_unit s = Some (u, r)"
  then obtain u0 r0 where first: "read_hex4 s = Some (u0, r0)" by (auto simp: read_unit_def split: option.splits)
  have "r = r0 \<or> (\<exists>w. read_hex4 (drop 2 r0) = Some (w, r))"
    using * first by (auto simp: read_unit_def split: option.splits if_splits)
  then show ?thesis using read_hex4_length [OF first] read_hex4_length [of "drop 2 r0"] by fastforce
qed

lemma lexeme_of_length:
  "lexeme_of x = Char c r \<Longrightarrow> x = Some (c, r)" "lexeme_of x \<noteq> Close r"
  by (auto simp: lexeme_of_def split: option.splits)

lemma next_char_length: "next_char s = Char c r \<Longrightarrow> length r < length s"
  using read_unit_length [of "drop 2 s" c r] lexeme_of_length
  by (auto simp: next_char_def split: list.splits if_splits dest!: lexeme_of_length(1))

lemma next_char_close: "next_char s = Close r \<Longrightarrow> length r < length s"
  by (auto simp: next_char_def lexeme_of_length split: list.splits if_splits)

function read_string :: "ustr \<Rightarrow> (ustr \<times> ustr) option" where
  "read_string s = (case next_char s of
       Bad \<Rightarrow> None
     | Close r \<Rightarrow> Some ([], r)
     | Char c r \<Rightarrow> map_option (\<lambda>(t, r'). (c # t, r')) (read_string r))"
  by pat_completeness auto
termination
  by (relation "measure length") (auto dest: next_char_length)

declare read_string.simps [simp del]

lemma read_string_length: "read_string s = Some (t, r) \<Longrightarrow> length r < length s"
proof (induction s arbitrary: t rule: read_string.induct)
  case (1 s)
  show ?case
  proof (cases "next_char s")
    case (Close r')
    then show ?thesis using 1 next_char_close [OF Close] by (simp add: read_string.simps [of s])
  next
    case (Char c r')
    then obtain t' where t': "read_string r' = Some (t', r)"
      using 1(2) by (auto simp: read_string.simps [of s])
    show ?thesis using 1(1) [OF Char t'] next_char_length [OF Char] by simp
  qed (use 1 in \<open>simp add: read_string.simps [of s]\<close>)
qed

text \<open>Numbers: the integer part, and a fraction or an exponent where one follows.\<close>

definition digit :: "nat \<Rightarrow> bool" where
  "digit c \<longleftrightarrow> 48 \<le> c \<and> c \<le> 57"

definition int_part :: "ustr \<Rightarrow> ustr" where
  "int_part s = (case s of [] \<Rightarrow> [] | c # r \<Rightarrow> if c = 48 then [48] else takeWhile digit s)"

definition frac_part :: "ustr \<Rightarrow> ustr" where
  "frac_part s = (case s of c # d # r \<Rightarrow> if c = 46 \<and> digit d then 46 # takeWhile digit (d # r) else [] | _ \<Rightarrow> [])"

definition exp_part :: "ustr \<Rightarrow> ustr" where
  "exp_part s = (case s of
       c # r \<Rightarrow> if c = 101 \<or> c = 69 then
           let sign = takeWhile (\<lambda>d. d = 43 \<or> d = 45) (take 1 r); ds = takeWhile digit (drop (length sign) r)
           in (if ds = [] then [] else c # sign @ ds)
         else []
     | [] \<Rightarrow> [])"

definition read_number :: "(ustr \<Rightarrow> pyfloat) \<Rightarrow> ustr \<Rightarrow> (json \<times> ustr) option" where
  "read_number float_of s =
     (let sign = takeWhile (\<lambda>c. c = 45) (take 1 s); s1 = drop (length sign) s; i = int_part s1;
          s2 = drop (length i) s1; f = frac_part s2; s3 = drop (length f) s2; e = exp_part s3
      in if i = [] then None
         else Some (if f = [] \<and> e = [] then JInt (if sign = [] then int (undec i) else - int (undec i))
                    else JFloat (float_of (sign @ i @ f @ e)), drop (length e) s3))"

definition read_word :: "ustr \<Rightarrow> json \<Rightarrow> ustr \<Rightarrow> (json \<times> ustr) option" where
  "read_word w v s = (if take (length w) s = w then Some (v, drop (length w) s) else None)"

definition orelse :: "'a option \<Rightarrow> 'a option \<Rightarrow> 'a option" where
  "orelse a b = (case a of None \<Rightarrow> b | Some x \<Rightarrow> Some x)"

definition read_scalar :: "(ustr \<Rightarrow> pyfloat) \<Rightarrow> ustr \<Rightarrow> (json \<times> ustr) option" where
  "read_scalar float_of s =
     orelse (read_word (lit ''null'') JNull s) (
     orelse (read_word (lit ''true'') (JBool True) s) (
     orelse (read_word (lit ''false'') (JBool False) s) (
     orelse (read_word (lit ''NaN'') (JFloat NaN) s) (
     orelse (read_word (lit ''Infinity'') (JFloat PosInf) s) (
     orelse (read_word (lit ''-Infinity'') (JFloat NegInf) s) (
     read_number float_of s))))))"

lemma skip_length: "length (skip s) \<le> length s"
  by (simp add: skip_def length_dropWhile_le)

lemma expect_char_length: "expect_char c s = Some r \<Longrightarrow> length r < length s"
  by (auto simp: expect_char_def split: list.splits if_splits)

lemma punct_length: "punct c s = Some r \<Longrightarrow> length r < length s"
  using expect_char_length [of c "skip s"] skip_length [of s] by (simp add: punct_def)

lemma punct_skip_length: "punct c s = Some r \<Longrightarrow> length (skip r) < length s"
  using punct_length skip_length le_less_trans by blast

lemma key_length: "Option.bind (expect_char 34 s) read_string = Some (k, r) \<Longrightarrow> length r < length s"
  by (auto simp: bind_eq_Some_conv dest!: expect_char_length read_string_length)

text \<open>
  The scanner. That what is left after a value is shorter is a test here, so that the recursion ends;
  \<open>read_value_length\<close> shows that it never fails.
\<close>

function (sequential) read_value :: "(ustr \<Rightarrow> pyfloat) \<Rightarrow> ustr \<Rightarrow> (json \<times> ustr) option"
  and read_items :: "(ustr \<Rightarrow> pyfloat) \<Rightarrow> ustr \<Rightarrow> (json list \<times> ustr) option"
  and read_members :: "(ustr \<Rightarrow> pyfloat) \<Rightarrow> (ustr \<times> json) list \<Rightarrow> ustr \<Rightarrow> ((ustr \<times> json) list \<times> ustr) option" where
  "read_value fl s = (case s of
       [] \<Rightarrow> None
     | c # r \<Rightarrow>
         if c = 34 then map_option (\<lambda>(t, r'). (JStr t, r')) (read_string r)
         else if c = 91 then (case punct 93 r of
             Some r' \<Rightarrow> Some (JList [], r')
           | None \<Rightarrow> map_option (\<lambda>(vs, r'). (JList vs, r')) (read_items fl (skip r)))
         else if c = 123 then (case punct 125 r of
             Some r' \<Rightarrow> Some (JObj [], r')
           | None \<Rightarrow> map_option (\<lambda>(m, r'). (JObj m, r')) (read_members fl [] (skip r)))
         else read_scalar fl s)"
| "read_items fl s = (case read_value fl s of
       None \<Rightarrow> None
     | Some (v, r) \<Rightarrow>
         if length s \<le> length r then None
         else (case punct 93 r of
             Some r' \<Rightarrow> Some ([v], r')
           | None \<Rightarrow> (case punct 44 r of
               None \<Rightarrow> None
             | Some r' \<Rightarrow> map_option (\<lambda>(vs, e). (v # vs, e)) (read_items fl (skip r')))))"
| "read_members fl obj s = (case Option.bind (expect_char 34 s) read_string of
       None \<Rightarrow> None
     | Some (k, r) \<Rightarrow> (case punct 58 r of
         None \<Rightarrow> None
       | Some r1 \<Rightarrow> (case read_value fl (skip r1) of
           None \<Rightarrow> None
         | Some (v, r2) \<Rightarrow>
             if length r1 \<le> length r2 then None
             else (case punct 125 r2 of
                 Some r' \<Rightarrow> Some (put obj k v, r')
               | None \<Rightarrow> (case punct 44 r2 of
                   None \<Rightarrow> None
                 | Some r' \<Rightarrow> read_members fl (put obj k v) (skip r'))))))"
  by pat_completeness auto

termination
proof (relation "measure (\<lambda>x. case x of Inl (fl, s) \<Rightarrow> 2 * length s | Inr (Inl (fl, s)) \<Rightarrow> 2 * length s + 1
    | Inr (Inr (fl, obj, s)) \<Rightarrow> 2 * length s + 1)", goal_cases)
  case (2 fl s c r)
  then show ?case using skip_length [of r] by simp
next
  case (3 fl s c r)
  then show ?case using skip_length [of r] by simp
next
  case (5 fl s vr v r r')
  then show ?case using punct_skip_length [of 44 r r'] by simp
next
  case (6 fl obj s kr k r r1)
  then show ?case using punct_skip_length [of 58 r r1] key_length [of s k r] by simp
next
  case (7 fl obj s kr k r r1 vr v r2 r')
  then show ?case
    using punct_skip_length [of 44 r2 r'] punct_length [of 58 r r1] key_length [of s k r] by simp
qed simp_all

declare read_value.simps [simp del] read_items.simps [simp del] read_members.simps [simp del]

definition loads :: "(ustr \<Rightarrow> pyfloat) \<Rightarrow> ustr \<Rightarrow> json option" where
  "loads fl s = (case read_value fl (skip s) of
       None \<Rightarrow> None
     | Some (v, r) \<Rightarrow> if skip r = [] then Some v else None)"

section \<open>What is left after a value is shorter\<close>

lemma read_word_length: "w \<noteq> [] \<Longrightarrow> read_word w v s = Some (x, r) \<Longrightarrow> length r < length s"
  by (cases s) (auto simp: read_word_def split: if_splits)

lemma int_part_length: "int_part s \<noteq> [] \<Longrightarrow> length (drop (length (int_part s)) s) < length s"
  by (cases s) (auto simp: int_part_def)

lemma read_number_length: "read_number fl s = Some (x, r) \<Longrightarrow> length r < length s"
  using int_part_length by (fastforce simp: read_number_def Let_def split: if_splits)

lemma orelse_Some: "orelse a b = Some x \<longleftrightarrow> a = Some x \<or> a = None \<and> b = Some x"
  by (cases a) (auto simp: orelse_def)

lemma read_scalar_length: "read_scalar fl s = Some (x, r) \<Longrightarrow> length r < length s"
  using read_number_length by (auto simp: read_scalar_def orelse_Some dest: read_word_length [rotated])

lemma read_value_Cons:
  "read_value fl (c # r) =
     (if c = 34 then map_option (\<lambda>(t, r'). (JStr t, r')) (read_string r)
      else if c = 91 then (case punct 93 r of
          Some r' \<Rightarrow> Some (JList [], r')
        | None \<Rightarrow> map_option (\<lambda>(vs, r'). (JList vs, r')) (read_items fl (skip r)))
      else if c = 123 then (case punct 125 r of
          Some r' \<Rightarrow> Some (JObj [], r')
        | None \<Rightarrow> map_option (\<lambda>(m, r'). (JObj m, r')) (read_members fl [] (skip r)))
      else read_scalar fl (c # r))"
  by (subst read_value.simps) simp

lemma reader_length:
  "read_value fl s = Some (v, r) \<Longrightarrow> length r < length s"
  "read_items fl s = Some (vs, r) \<Longrightarrow> length r < length s"
  "read_members fl obj s = Some (m, r) \<Longrightarrow> length r < length s"
proof (induction fl s and fl s and fl obj s arbitrary: v r and vs r and m r
    rule: read_value_read_items_read_members.induct)
  case (1 fl s)
  show ?case
  proof (cases s)
    case (Cons c t)
    have sk: "length (skip t) \<le> length t" by (rule skip_length)
    consider "c = 34" | "c = 91" | "c = 123" | "c \<notin> {34, 91, 123}" by blast
    then show ?thesis
    proof cases
      case 1
      then show ?thesis using "1.prems" unfolding Cons by (auto simp: read_value_Cons dest: read_string_length)
    next
      case 2
      then show ?thesis using "1.prems" "1.IH"(1) [OF Cons] sk punct_length [of 93 t] unfolding Cons
        by (fastforce simp: read_value_Cons split: option.splits)
    next
      case 3
      then show ?thesis using "1.prems" "1.IH"(2) [OF Cons] sk punct_length [of 125 t] unfolding Cons
        by (fastforce simp: read_value_Cons split: option.splits)
    next
      case 4
      then show ?thesis using "1.prems" unfolding Cons by (auto simp: read_value_Cons dest: read_scalar_length)
    qed
  qed (use 1 in \<open>simp add: read_value.simps [of fl "[]"]\<close>)
next
  case (2 fl s)
  from "2.prems" obtain v r' where v: "read_value fl s = Some (v, r')" "length r' < length s"
    by (auto simp: read_items.simps [of fl s] split: option.splits prod.splits if_splits)
  then consider "punct 93 r' = Some r" | r1 vs' where "punct 93 r' = None" "punct 44 r' = Some r1"
    "read_items fl (skip r1) = Some (vs', r)"
    using "2.prems" by (auto simp: read_items.simps [of fl s] split: option.splits)
  then show ?case
  proof cases
    case 1
    then show ?thesis using v punct_length [of 93 r' r] by simp
  next
    case 2
    then show ?thesis
      using v "2.IH"(2) [OF v(1) refl _ 2(1,2,3)] punct_skip_length [OF 2(2)] by simp
  qed
next
  case (3 fl obj s)
  from "3.prems" obtain k r0 r1 v r2 where k: "Option.bind (expect_char 34 s) read_string = Some (k, r0)"
    "punct 58 r0 = Some r1" "read_value fl (skip r1) = Some (v, r2)" "length r2 < length r1"
    by (auto simp: read_members.simps [of fl obj s] split: option.splits prod.splits if_splits)
  note len = key_length [OF k(1)] punct_length [OF k(2)] k(4)
  from k consider "punct 125 r2 = Some r" | r3 where "punct 125 r2 = None" "punct 44 r2 = Some r3"
    "read_members fl (put obj k v) (skip r3) = Some (m, r)"
    using "3.prems" by (auto simp: read_members.simps [of fl obj s] split: option.splits)
  then show ?case
  proof cases
    case 1
    then show ?thesis using len punct_length [of 125 r2 r] by simp
  next
    case 2
    then show ?thesis
      using len "3.IH"(2) [OF k(1) refl k(2,3) refl _ 2(1,2,3)] punct_skip_length [OF 2(2)] by simp
  qed
qed

section \<open>Round trip\<close>

definition scalar :: "nat \<Rightarrow> bool" where
  "scalar c \<longleftrightarrow> c < 55296 \<or> 57344 \<le> c \<and> c < 1114112"

text \<open>Values that the text keeps: no float, no lone surrogate, no key twice.\<close>

fun json_ok :: "json \<Rightarrow> bool" where
  "json_ok (JFloat x) = False"
| "json_ok (JStr s) = list_all scalar s"
| "json_ok (JList vs) = list_all json_ok vs"
| "json_ok (JObj m) = (distinct (map fst m) \<and> list_all (\<lambda>(k, v). list_all scalar k \<and> json_ok v) m)"
| "json_ok v = True"

lemma utf8_scalar: "utf8_char c = None \<longleftrightarrow> \<not> scalar c"
  by (auto simp: utf8_char_def scalar_def)

lemma utf8_scalars: "(\<exists>b. utf8 s = Some b) \<longleftrightarrow> list_all scalar s"
proof (induction s)
  case (Cons c s)
  then show ?case using utf8_scalar [of c] by (cases "utf8_char c"; cases "utf8 s") auto
qed simp

lemma hex4_digits: "u div 4096 * 4096 + u div 256 mod 16 * 256 + u div 16 mod 16 * 16 + u mod 16 = (u :: nat)"
proof -
  have "u = 16 * (u div 16) + u mod 16" "u div 16 = 16 * (u div 256) + u div 16 mod 16"
    "u div 256 = 16 * (u div 4096) + u div 256 mod 16"
    using mult_div_mod_eq [of 16 "u div 16"] mult_div_mod_eq [of 16 "u div 256"]
    by (simp_all add: div_mult2_eq [symmetric])
  then show ?thesis by linarith
qed

lemma read_hex4_hex4: "u < 65536 \<Longrightarrow> read_hex4 (hex4 u @ r) = Some (u, r)"
proof -
  assume u: "u < 65536"
  then have "u div 4096 < 16" by simp
  then show ?thesis using hex4_digits [of u] by (simp add: read_hex4_def hex4_def hex_digit_value)
qed

lemma read_unit_hex4:
  "c < 65536 \<Longrightarrow> scalar c \<Longrightarrow> read_unit (hex4 c @ r) = Some (c, r)"
  by (auto simp: read_unit_def read_hex4_hex4 scalar_def)

lemma read_unit_pair:
  assumes "65536 \<le> c" "c < 1114112"
  shows "read_unit (hex4 (55296 + (c - 65536) div 1024) @ u_escape (56320 + (c - 65536) mod 1024) @ r) = Some (c, r)"
proof -
  define h l where hl: "h = (c - 65536) div 1024" "l = (c - 65536) mod 1024"
  have "h < 1024" "l < 1024" using assms by (simp_all add: hl div_less_iff_less_mult)
  moreover have "65536 + h * 1024 + l = c" using assms by (simp add: hl)
  ultimately show ?thesis unfolding hl [symmetric] by (simp add: read_unit_def read_hex4_hex4 u_escape_def)
qed

lemma next_char_json: "scalar c \<Longrightarrow> next_char (json_char a c @ r) = Char c r"
proof -
  assume c: "scalar c"
  have u: "next_char (u_escape w @ r') = lexeme_of (read_unit (hex4 w @ r'))" for w r'
    by (simp add: next_char_def u_escape_def)
  have small: "next_char (u_escape c @ r) = Char c r" if "c < 65536"
    using that c by (simp add: u read_unit_hex4 lexeme_of_def)
  have pair: "next_char (u_escape (55296 + (c - 65536) div 1024) @ u_escape (56320 + (c - 65536) mod 1024) @ r)
      = Char c r" if "65536 \<le> c"
    using read_unit_pair [of c r] that c by (simp add: u lexeme_of_def scalar_def)
  have plain: "next_char (c # r) = Char c r" if "c \<noteq> 34" "c \<noteq> 92" "32 \<le> c"
    using that by (simp add: next_char_def)
  consider "c \<in> {34, 92, 10, 13, 9, 12, 8}" | "c \<notin> {34, 92, 10, 13, 9, 12, 8}" by blast
  then show ?thesis
  proof cases
    case 1
    then show ?thesis by (auto simp: json_char_def next_char_def escaped_def lexeme_of_def)
  next
    case 2
    then show ?thesis using small pair plain by (auto simp: json_char_def)
  qed
qed

lemma read_json_string: "list_all scalar s \<Longrightarrow> read_string (concat (map (json_char a) s) @ 34 # r) = Some (s, r)"
proof (induction s)
  case Nil
  have "next_char (34 # r) = Close r" by (simp add: next_char_def)
  then show ?case by (simp add: read_string.simps)
next
  case (Cons c s)
  then show ?case using next_char_json [of c a] by (simp add: read_string.simps [of "json_char a c @ x" for x])
qed

text \<open>What comes after a value inside a text: nothing, a comma or a closing bracket.\<close>

definition delimited :: "ustr \<Rightarrow> bool" where
  "delimited r \<longleftrightarrow> (case r of [] \<Rightarrow> True | c # _ \<Rightarrow> c = 44 \<or> c = 93 \<or> c = 125)"

lemma delimited_simps [simp]: "delimited []" "delimited (c # r) \<longleftrightarrow> c = 44 \<or> c = 93 \<or> c = 125"
  by (simp_all add: delimited_def)

lemma dec_nat_head: "\<exists>d ds. dec_nat n = d # ds \<and> digit d \<and> (d = 48 \<longrightarrow> n = 0)"
proof (induction n rule: dec_nat.induct)
  case (1 n)
  show ?case
  proof (cases "n < 10")
    case True
    then show ?thesis by (simp add: dec_nat.simps [of n] digit_def)
  next
    case False
    then obtain d ds where d: "dec_nat (n div 10) = d # ds" "digit d" "d = 48 \<longrightarrow> n div 10 = 0" using 1 by blast
    then have "d \<noteq> 48" using False by auto
    then show ?thesis using d False by (simp add: dec_nat.simps [of n])
  qed
qed

lemma not_digit_delimited: "delimited r \<Longrightarrow> takeWhile digit (dec_nat n @ r) = dec_nat n"
proof -
  assume r: "delimited r"
  have "takeWhile digit r = []" using r by (cases r) (auto simp: digit_def)
  moreover have "digit c" if "c \<in> set (dec_nat n)" for c using dec_nat_digits [OF that] by (simp add: digit_def)
  ultimately show ?thesis by (simp add: takeWhile_append)
qed

lemma int_part_dec: "delimited r \<Longrightarrow> int_part (dec_nat n @ r) = dec_nat n"
proof -
  assume r: "delimited r"
  obtain d ds where d: "dec_nat n = d # ds" "digit d" "d = 48 \<longrightarrow> n = 0" using dec_nat_head by blast
  have "n = 0 \<Longrightarrow> ds = []" using d(1) by (simp add: dec_nat.simps [of 0])
  then show ?thesis using d not_digit_delimited [OF r, of n] by (auto simp: int_part_def)
qed

lemma no_tail: "delimited r \<Longrightarrow> frac_part r = [] \<and> exp_part r = []"
  by (cases r) (auto simp: frac_part_def exp_part_def split: list.splits)

lemma read_number_dec: "delimited r \<Longrightarrow> read_number fl (dec_int i @ r) = Some (JInt i, r)"
proof -
  assume r: "delimited r"
  obtain d ds where d: "dec_nat (nat \<bar>i\<bar>) = d # ds" "digit d" using dec_nat_head by blast
  have body: "int_part (d # ds @ r) = d # ds" "undec (d # ds) = nat \<bar>i\<bar>"
    using int_part_dec [OF r, of "nat \<bar>i\<bar>"] undec_dec_nat [of "nat \<bar>i\<bar>"] d by simp_all
  have "d \<noteq> 45" using d(2) by (auto simp: digit_def)
  then show ?thesis using body d(1) no_tail [OF r]
    by (cases "i < 0") (simp_all add: read_number_def dec_int_def Let_def del: undec.simps)
qed

lemma read_scalar_dec: "delimited r \<Longrightarrow> read_scalar fl (dec_int i @ r) = Some (JInt i, r)"
proof -
  assume r: "delimited r"
  obtain d ds where d: "dec_nat (nat \<bar>i\<bar>) = d # ds" "digit d" using dec_nat_head by blast
  have "d \<noteq> 73" "d \<noteq> 110" "d \<noteq> 116" "d \<noteq> 102" "d \<noteq> 78" "d \<noteq> 45" using d(2) by (auto simp: digit_def)
  then show ?thesis using read_number_dec [OF r, of fl i] d(1)
    by (cases "i < 0") (simp_all add: read_scalar_def orelse_def read_word_def dec_int_def)
qed

text \<open>The first character of a value, which is neither white space nor a closing bracket.\<close>

definition starts_value :: "ustr \<Rightarrow> bool" where
  "starts_value s \<longleftrightarrow> (\<exists>c r. s = c # r \<and> \<not> json_space c \<and> c \<noteq> 93 \<and> c \<noteq> 125)"

lemma dumps_starts: "json_ok v \<Longrightarrow> starts_value (dumps rf a v @ r)"
proof (cases v)
  case (JInt i)
  obtain d ds where d: "dec_nat (nat \<bar>i\<bar>) = d # ds" "digit d" using dec_nat_head by blast
  then have "\<not> json_space d" "d \<noteq> 93" "d \<noteq> 125" by (auto simp: digit_def json_space_def)
  then show ?thesis using JInt d
    by (cases "i < 0") (simp_all add: starts_value_def dec_int_def json_space_def)
qed (auto simp: starts_value_def json_space_def json_string_def)

lemma starts_value_skip:
  "starts_value s \<Longrightarrow> skip s = s" "starts_value s \<Longrightarrow> punct 93 s = None"
  "starts_value s \<Longrightarrow> punct 125 s = None"
  by (auto simp: starts_value_def skip_def punct_def expect_char_def)

lemma punct_simps [simp]:
  "\<not> json_space c \<Longrightarrow> punct d (c # r) = (if c = d then Some r else None)"
  by (simp add: punct_def skip_def expect_char_def)

lemma json_space_simps [simp]: "\<not> json_space 44" "\<not> json_space 93" "\<not> json_space 125" "\<not> json_space 58"
  "\<not> json_space 34"
  by (simp_all add: json_space_def)

lemma read_items_dumps:
  assumes "vs \<noteq> []"
    and "\<And>v r. v \<in> set vs \<Longrightarrow> delimited r \<Longrightarrow> read_value fl (dumps rf a v @ r) = Some (v, r)"
    and "\<And>v. v \<in> set vs \<Longrightarrow> json_ok v"
  shows "read_items fl (join 44 (map (dumps rf a) vs) @ 93 # r) = Some (vs, r)"
  using assms
proof (induction vs)
  case (Cons v vs)
  show ?case
  proof (cases "vs = []")
    case True
    have v: "read_value fl (dumps rf a v @ 93 # r) = Some (v, 93 # r)" using Cons.prems by simp
    then show ?thesis using True reader_length(1) [OF v] by (simp add: read_items.simps)
  next
    case False
    let ?rest = "44 # join 44 (map (dumps rf a) vs) @ 93 # r"
    have v: "read_value fl (dumps rf a v @ ?rest) = Some (v, ?rest)" using Cons.prems by simp
    obtain w ws where w: "vs = w # ws" using False by (cases vs) auto
    have "starts_value (join 44 (map (dumps rf a) vs) @ 93 # r)"
      using dumps_starts [where v = w and rf = rf and a = a] Cons.prems w by (cases ws) simp_all
    then have "skip (join 44 (map (dumps rf a) vs) @ 93 # r) = join 44 (map (dumps rf a) vs) @ 93 # r"
      by (simp add: starts_value_skip)
    then show ?thesis using v reader_length(1) [OF v] Cons.IH Cons.prems False
      by (simp add: join_Cons read_items.simps [of fl "dumps rf a v @ x" for x])
  qed
qed simp

abbreviation dumps_member :: "(real \<Rightarrow> ustr) \<Rightarrow> bool \<Rightarrow> ustr \<times> json \<Rightarrow> ustr" where
  "dumps_member rf a \<equiv> \<lambda>(k, v). json_string a k @ 58 # dumps rf a v"

lemma read_key: "list_all scalar k \<Longrightarrow> Option.bind (expect_char 34 (json_string a k @ r)) read_string = Some (k, r)"
  using read_json_string [of k a r] by (simp add: expect_char_def json_string_def)

lemma member_starts: "starts_value (dumps_member rf a kv @ r)"
  by (cases kv) (simp add: starts_value_def json_string_def)

lemma members_start: "m \<noteq> [] \<Longrightarrow> starts_value (join 44 (map (dumps_member rf a) m) @ r)"
  using member_starts [where kv = "hd m"] by (cases m; cases "tl m") simp_all

lemma read_members_dumps:
  assumes "m \<noteq> []"
    and "\<And>k v r. (k, v) \<in> set m \<Longrightarrow> delimited r \<Longrightarrow> read_value fl (dumps rf a v @ r) = Some (v, r)"
    and "\<And>k v. (k, v) \<in> set m \<Longrightarrow> json_ok v \<and> list_all scalar k"
    and "distinct (map fst (obj @ m))"
  shows "read_members fl obj (join 44 (map (dumps_member rf a) m) @ 125 # r) = Some (obj @ m, r)"
  using assms
proof (induction m arbitrary: obj)
  case (Cons kv m)
  obtain k v where kv: "kv = (k, v)" by (cases kv)
  have key: "Option.bind (expect_char 34 (json_string a k @ x)) read_string = Some (k, x)" for x
    using Cons.prems(3) kv by (intro read_key) auto
  have sk: "skip (dumps rf a v @ x) = dumps rf a v @ x" for x
    using Cons.prems(3) [of k v] kv by (intro starts_value_skip(1) dumps_starts) simp
  have new: "put obj k v = obj @ [(k, v)]" using Cons.prems(4) kv by (intro put_new) (auto simp: image_iff)
  show ?case
  proof (cases "m = []")
    case True
    have v: "read_value fl (dumps rf a v @ 125 # r) = Some (v, 125 # r)"
      using Cons.prems(2) [of k v "125 # r"] kv by simp
    then show ?thesis using True reader_length(1) [OF v] kv key sk new by (simp add: read_members.simps)
  next
    case False
    let ?rest = "44 # join 44 (map (dumps_member rf a) m) @ 125 # r"
    have v: "read_value fl (dumps rf a v @ ?rest) = Some (v, ?rest)"
      using Cons.prems(2) [of k v ?rest] kv by simp
    have "skip (join 44 (map (dumps_member rf a) m) @ 125 # r) = join 44 (map (dumps_member rf a) m) @ 125 # r"
      by (rule starts_value_skip(1) [OF members_start [OF False]])
    moreover have "read_members fl (obj @ [(k, v)]) (join 44 (map (dumps_member rf a) m) @ 125 # r)
        = Some ((obj @ [(k, v)]) @ m, r)"
    proof (rule Cons.IH [OF False])
      show "read_value fl (dumps rf a v' @ r') = Some (v', r')" if "(k', v') \<in> set m" "delimited r'" for k' v' r'
        using Cons.prems(2) [of k' v' r'] that by simp
      show "json_ok v' \<and> list_all scalar k'" if "(k', v') \<in> set m" for k' v'
        using Cons.prems(3) [of k' v'] that by simp
      show "distinct (map fst ((obj @ [(k, v)]) @ m))" using Cons.prems(4) kv by simp
    qed
    ultimately show ?thesis using v reader_length(1) [OF v] kv key sk new False
      by (simp add: join_Cons read_members.simps)
  qed
qed simp

lemma read_value_dumps: "json_ok v \<Longrightarrow> delimited r \<Longrightarrow> read_value fl (dumps rf a v @ r) = Some (v, r)"
proof (induction v arbitrary: r)
  case (JInt i)
  obtain d ds where d: "dec_nat (nat \<bar>i\<bar>) = d # ds" "digit d" using dec_nat_head by blast
  have "d \<noteq> 34" "d \<noteq> 91" "d \<noteq> 123" using d(2) by (auto simp: digit_def)
  moreover have "dec_int i = (if i < 0 then 45 # d # ds else d # ds)"
    using d(1) by (cases "i < 0") (simp_all add: dec_int_def)
  ultimately show ?case using read_scalar_dec [of r fl i] JInt.prems
    by (cases "i < 0") (simp_all add: read_value_Cons)
next
  case (JStr s)
  then show ?case using read_json_string [of s a r] by (simp add: read_value_Cons json_string_def)
next
  case (JList vs)
  show ?case
  proof (cases "vs = []")
    case False
    have items: "read_items fl (join 44 (map (dumps rf a) vs) @ 93 # r) = Some (vs, r)"
      using JList False by (intro read_items_dumps) (auto simp: list_all_iff)
    have "starts_value (join 44 (map (dumps rf a) vs) @ 93 # r)"
      using dumps_starts [where v = "hd vs"] JList.prems False by (cases vs; cases "tl vs") simp_all
    then show ?thesis using items by (simp add: read_value_Cons starts_value_skip)
  qed (simp add: read_value_Cons)
next
  case (JObj m)
  show ?case
  proof (cases "m = []")
    case False
    have members: "read_members fl [] (join 44 (map (dumps_member rf a) m) @ 125 # r) = Some ([] @ m, r)"
      using JObj False by (intro read_members_dumps) (auto simp: list_all_iff)
    then show ?thesis using starts_value_skip(1,3) [OF members_start [OF False]]
      by (simp add: read_value_Cons)
  qed (simp add: read_value_Cons)
qed (auto simp: read_value_Cons read_scalar_def orelse_def read_word_def)

lemma loads_dumps: "json_ok v \<Longrightarrow> loads fl (dumps rf a v) = Some v"
  using read_value_dumps [of v "[]" fl rf a] dumps_starts [where v = v and rf = rf and a = a and r = "[]"]
  by (simp add: loads_def starts_value_skip) (simp add: skip_def)

section \<open>Strict UTF-8 decoding\<close>

text \<open>
  \<open>bytes.decode("utf-8")\<close>: the first byte says how many belong to the character; they are refused unless
  they are what the character is encoded to, so overlong forms, surrogates and stray bytes are.
\<close>

definition utf8_length_of :: "byte \<Rightarrow> nat" where
  "utf8_length_of b = (if unat b < 192 then 1 else if unat b < 224 then 2 else if unat b < 240 then 3 else 4)"

definition utf8_point :: "bytes \<Rightarrow> nat" where
  "utf8_point bs = (case bs of
       [] \<Rightarrow> 0
     | b # r \<Rightarrow> foldl (\<lambda>n x. n * 64 + unat x mod 64)
         (if length bs = 1 then unat b else if length bs = 2 then unat b - 192
          else if length bs = 3 then unat b - 224 else unat b - 240) r)"

function utf8_decode :: "bytes \<Rightarrow> ustr option" where
  "utf8_decode [] = Some []"
| "utf8_decode (b # r) =
     (let n = utf8_length_of b; chunk = take n (b # r); c = utf8_point chunk
      in if utf8_char c = Some chunk then map_option ((#) c) (utf8_decode (drop n (b # r))) else None)"
  by pat_completeness auto
termination
  by (relation "measure length") (auto simp: utf8_length_of_def)

declare utf8_decode.simps(2) [simp del]

lemma unat_lead: "n < 256 \<Longrightarrow> unat (word_of_nat n :: byte) = n"
  using unat_word_of_nat_byte [of n] by simp

lemma utf8_char_decodes:
  assumes "utf8_char c = Some chunk"
  shows "chunk \<noteq> [] \<and> utf8_length_of (hd chunk) = length chunk \<and> utf8_point chunk = c"
proof -
  have cont: "(128 + x mod 64) mod 64 = x mod (64 :: nat)" for x
    using mod_mult_self2 [of "x mod 64" 64 2] by (simp add: add.commute)
  note decode = utf8_length_of_def utf8_point_def unat_lead cont
  consider "c < 128" | "128 \<le> c" "c < 2048" | "2048 \<le> c" "c < 65536" | "65536 \<le> c" "c < 1114112"
    using assms by (fastforce simp: utf8_char_def split: if_splits)
  then show ?thesis
  proof cases
    case 1
    then show ?thesis using assms by (auto simp: utf8_char_def decode simp del: of_nat_add)
  next
    case 2
    then have "c div 64 < 32" by (simp add: div_less_iff_less_mult)
    then show ?thesis using assms 2 by (auto simp: utf8_char_def decode simp del: of_nat_add)
  next
    case 3
    then have "c div 4096 < 16" "c div 64 mod 64 < 64" by (simp_all add: div_less_iff_less_mult)
    moreover have "c div 4096 * 64 + c div 64 mod 64 = c div 64"
      using div_mult_mod_eq [of "c div 64" 64] by (simp add: div_mult2_eq [symmetric])
    ultimately show ?thesis using assms 3 by (auto simp: utf8_char_def decode simp del: of_nat_add split: if_splits)
  next
    case 4
    then have q: "c div 262144 < 5" by (simp add: div_less_iff_less_mult)
    have sum: "c div 262144 * 64 + c div 4096 mod 64 = c div 4096" "c div 4096 * 64 + c div 64 mod 64 = c div 64"
      using div_mult_mod_eq [of "c div 64" 64] div_mult_mod_eq [of "c div 4096" 64]
      by (simp_all add: div_mult2_eq [symmetric])
    have u: "unat (word_of_nat (240 + c div 262144) :: byte) = 240 + c div 262144"
      "unat (word_of_nat (128 + x mod 64) :: byte) = 128 + x mod 64" for x
      using q by (simp_all add: unat_lead del: of_nat_add)
    have "chunk = [word_of_nat (240 + c div 262144), word_of_nat (128 + c div 4096 mod 64),
        word_of_nat (128 + c div 64 mod 64), word_of_nat (128 + c mod 64)]"
      using assms 4 by (simp add: utf8_char_def del: of_nat_add)
    then show ?thesis
      by (simp add: utf8_length_of_def utf8_point_def u cont sum del: of_nat_add)
  qed
qed

lemma utf8_decode_iff: "utf8_decode bs = Some s \<longleftrightarrow> utf8 s = Some bs"
proof
  show "utf8_decode bs = Some s \<Longrightarrow> utf8 s = Some bs"
  proof (induction bs arbitrary: s rule: utf8_decode.induct)
    case (2 b r)
    let ?n = "utf8_length_of b"
    let ?chunk = "take ?n (b # r)"
    from "2.prems" obtain s' where s': "utf8_char (utf8_point ?chunk) = Some ?chunk"
      "utf8_decode (drop ?n (b # r)) = Some s'" "s = utf8_point ?chunk # s'"
      by (auto simp: utf8_decode.simps Let_def split: if_splits)
    then have "utf8 s' = Some (drop ?n (b # r))" using "2.IH" by simp
    then show ?case using s' by (simp del: take_Cons' drop_Cons')
  qed simp
next
  show "utf8 s = Some bs \<Longrightarrow> utf8_decode bs = Some s"
  proof (induction s arbitrary: bs)
    case (Cons c s)
    then obtain chunk rest where c: "utf8_char c = Some chunk" "utf8 s = Some rest" "bs = chunk @ rest"
      by (auto split: option.splits)
    obtain b r where b: "chunk = b # r" "utf8_length_of b = length chunk" "utf8_point chunk = c"
      using utf8_char_decodes [OF c(1)] by (cases chunk) auto
    then have "bs = b # r @ rest" using c by simp
    moreover have "take (utf8_length_of b) (b # r @ rest) = chunk" "drop (utf8_length_of b) (b # r @ rest) = rest"
      using b by simp_all
    ultimately show ?case using b c Cons.IH by (simp add: utf8_decode.simps Let_def)
  qed simp
qed

lemma utf8_decode_encode: "utf8 s = Some bs \<Longrightarrow> utf8_decode bs = Some s"
  by (simp add: utf8_decode_iff)

section \<open>What \<open>ensure_ascii\<close> ensures\<close>

lemma ascii_u_escape: "u < 65536 \<Longrightarrow> ascii (u_escape u)"
proof -
  assume "u < 65536"
  then have "u div 4096 < 16" by simp
  moreover have "hex_digit n < 128" if "n < 16" for n using that by (simp add: hex_digit_def)
  ultimately show ?thesis by (simp add: u_escape_def hex4_def)
qed

lemma ascii_json_char: "scalar c \<Longrightarrow> ascii (json_char True c)"
proof -
  assume c: "scalar c"
  have "55296 + (c - 65536) div 1024 < 65536"
    using c by (auto simp: scalar_def div_less_iff_less_mult)
  moreover have "(c - 65536) mod 1024 < 1024" by simp
  then have "56320 + (c - 65536) mod 1024 < 65536" by linarith
  ultimately show ?thesis by (simp add: json_char_def ascii_u_escape)
qed

lemma ascii_json_string: "list_all scalar s \<Longrightarrow> ascii (json_string True s)"
  by (auto simp: json_string_def ascii_def list_all_iff dest!: ascii_json_char [unfolded ascii_def])

lemma ascii_join: "sep < 128 \<Longrightarrow> (\<And>x. x \<in> set xs \<Longrightarrow> ascii x) \<Longrightarrow> ascii (join sep xs)"
proof (induction xs)
  case (Cons x xs)
  then show ?case by (cases "xs = []") (simp_all add: join_Cons)
qed simp

lemma ascii_dec_nat: "ascii (dec_nat n)"
  by (auto simp: ascii_def dest!: dec_nat_digits)

lemma dumps_ascii: "json_ok v \<Longrightarrow> ascii (dumps rf True v)"
proof (induction v)
  case (JInt i)
  then show ?case by (simp add: dec_int_def ascii_dec_nat)
next
  case (JList vs)
  then show ?case by (auto simp: list_all_iff intro!: ascii_join)
next
  case (JObj m)
  have "ascii (dumps_member rf True kv)" if "kv \<in> set m" for kv
  proof -
    obtain k v where kv: "kv = (k, v)" by (cases kv)
    then have "list_all scalar k" "json_ok v" using JObj.prems that by (auto simp: list_all_iff)
    then show ?thesis using kv ascii_json_string JObj.IH [of kv v] that by simp
  qed
  then show ?case by (auto intro!: ascii_join)
qed (simp_all add: ascii_json_string)

text \<open>Written as bytes and read back.\<close>

lemma loads_utf8_dumps:
  assumes "json_ok v"
  obtains bs where "utf8 (dumps rf True v) = Some bs"
    "Option.bind (utf8_decode bs) (loads fl) = Some v"
proof -
  have u: "utf8 (dumps rf True v) = Some (map word_of_nat (dumps rf True v))"
    by (rule utf8_ascii [OF dumps_ascii [OF assms]])
  show thesis using utf8_decode_encode [OF u] loads_dumps [OF assms] by (intro that [OF u]) simp
qed

end
