(* ===== verification/IngestSeal.thy ===== *)
theory IngestSeal
  imports Signing Envelope Json
begin

text \<open>
  Storage credentials sealed to one device (\<open>ingest/seal.py\<close>). HKDF and ChaCha20-Poly1305 are the fields
  of \<open>seal_ext\<close> with their documented laws; the nonce that \<open>os.urandom\<close> draws is an argument.
\<close>

section \<open>The code\<close>

definition INFO :: bytes where "INFO = asc ''visio-ingest upload v1''"

datatype cred_error = CredentialsTampered | CredSign sign_error | BadNonceLength

definition lift_sign :: "sign_error + 'a \<Rightarrow> cred_error + 'a" where
  "lift_sign r = (case r of Inl e \<Rightarrow> Inl (CredSign e) | Inr x \<Rightarrow> Inr x)"

definition credential_key :: "seal_ext \<Rightarrow> bytes \<Rightarrow> cred_error + bytes" where
  "credential_key S device_secret =
     bindE (lift_sign (require_device_secret device_secret)) (\<lambda>secret. Inr (se_hkdf S 32 secret [] INFO))"

definition cred_aad :: "ustr \<Rightarrow> ustr \<Rightarrow> cred_error + bytes" where
  "cred_aad device_id upload_id = lift_sign (encodeE (device_id @ 10 # upload_id))"

definition seal_with_nonce :: "seal_ext \<Rightarrow> bytes \<Rightarrow> ustr \<Rightarrow> ustr \<Rightarrow> bytes \<Rightarrow> bytes \<Rightarrow> cred_error + ustr" where
  "seal_with_nonce S device_secret device_id upload_id plaintext nonce =
     (if length nonce \<noteq> NONCE_LEN then Inl BadNonceLength
      else bindE (credential_key S device_secret) (\<lambda>key.
           bindE (cred_aad device_id upload_id) (\<lambda>aad.
           Inr (b64url_encode (nonce @ se_aead_encrypt S key nonce plaintext aad)))))"

definition seal_credentials :: "seal_ext \<Rightarrow> bytes \<Rightarrow> bytes \<Rightarrow> ustr \<Rightarrow> ustr \<Rightarrow> bytes \<Rightarrow> cred_error + ustr" where
  "seal_credentials S drawn device_secret device_id upload_id plaintext =
     seal_with_nonce S device_secret device_id upload_id plaintext drawn"

definition open_credentials :: "seal_ext \<Rightarrow> bytes \<Rightarrow> ustr \<Rightarrow> ustr \<Rightarrow> ustr \<Rightarrow> cred_error + bytes" where
  "open_credentials S device_secret device_id upload_id sealed =
     (case b64url_decode sealed of
        Inl _ \<Rightarrow> Inl CredentialsTampered
      | Inr blob \<Rightarrow>
          if length blob < NONCE_LEN + TAG_LEN then Inl CredentialsTampered
          else bindE (credential_key S device_secret) (\<lambda>key.
               bindE (cred_aad device_id upload_id) (\<lambda>aad.
               case se_aead_decrypt S key (take NONCE_LEN blob) (drop NONCE_LEN blob) aad of
                 None \<Rightarrow> Inl CredentialsTampered
               | Some plaintext \<Rightarrow> Inr plaintext)))"

section \<open>Opening is the inverse of sealing\<close>

lemma open_credentials_Inr:
  assumes "seal_ext_ok S"
  shows "open_credentials S secret dev up sealed = Inr plaintext \<longleftrightarrow>
    (\<exists>nonce. seal_with_nonce S secret dev up plaintext nonce = Inr sealed)"
proof -
  have aead: "se_aead_decrypt S k n c a = Some p \<longleftrightarrow> c = se_aead_encrypt S k n p a"
    "length (se_aead_encrypt S k n p a) = length p + 16" for k n p a c
    using assms by (auto simp: seal_ext_ok_def aead_ok_def)
  show ?thesis
  proof
    assume opened: "open_credentials S secret dev up sealed = Inr plaintext"
    then obtain blob where blob: "b64url_decode sealed = Inr blob" "28 \<le> length blob"
      by (auto simp: open_credentials_def NONCE_LEN_def TAG_LEN_def split: sum.splits if_splits)
    with opened obtain key aad where ka: "credential_key S secret = Inr key" "cred_aad dev up = Inr aad"
      "drop 12 blob = se_aead_encrypt S key (take 12 blob) plaintext aad"
      by (auto simp: open_credentials_def NONCE_LEN_def TAG_LEN_def bindE_eq_Inr aead
          split: if_splits option.splits)
    have "blob = take 12 blob @ se_aead_encrypt S key (take 12 blob) plaintext aad"
      using ka(3) by (metis append_take_drop_id)
    moreover have "sealed = b64url_encode blob" using blob(1) by (simp add: b64url_canonical)
    ultimately show "\<exists>nonce. seal_with_nonce S secret dev up plaintext nonce = Inr sealed"
      using ka blob(2) by (intro exI [of _ "take 12 blob"]) (simp add: seal_with_nonce_def NONCE_LEN_def)
  next
    assume "\<exists>nonce. seal_with_nonce S secret dev up plaintext nonce = Inr sealed"
    then obtain nonce key aad where ka: "length nonce = 12" "credential_key S secret = Inr key"
      "cred_aad dev up = Inr aad"
      "sealed = b64url_encode (nonce @ se_aead_encrypt S key nonce plaintext aad)"
      by (auto simp: seal_with_nonce_def NONCE_LEN_def bindE_eq_Inr split: if_splits)
    have "se_aead_decrypt S key nonce (se_aead_encrypt S key nonce plaintext aad) aad = Some plaintext"
      by (simp add: aead)
    then show "open_credentials S secret dev up sealed = Inr plaintext"
      using ka by (simp add: open_credentials_def NONCE_LEN_def TAG_LEN_def aead(2))
  qed
qed

section \<open>What a blob is bound to\<close>

text \<open>
  What is documented of the cipher's associated data: of those in use, \<open>D\<close>, a text sealed with one is not one
  sealed with another under the same key and nonce.
\<close>

definition aead_binds :: "seal_ext \<Rightarrow> bytes set \<Rightarrow> bool" where
  "aead_binds S D \<longleftrightarrow> (\<forall>k n p p'. \<forall>a \<in> D. \<forall>a' \<in> D.
     se_aead_encrypt S k n p a = se_aead_encrypt S k n p' a' \<longrightarrow> a = a')"

lemma credential_key_is:
  "credential_key S secret = (if length secret = SECRET_LEN then Inr (se_hkdf S 32 secret [] INFO)
     else Inl (CredSign BadSecretLength))"
  by (simp add: credential_key_def lift_sign_def require_device_secret_def)

lemma cred_aad_is: "cred_aad dev up = (case utf8 (dev @ 10 # up) of None \<Rightarrow> Inl (CredSign NotUtf8) | Some a \<Rightarrow> Inr a)"
  by (simp add: cred_aad_def lift_sign_def encodeE_def split: option.split)

lemma utf8_inject: "utf8 s = Some b \<Longrightarrow> utf8 t = Some b \<Longrightarrow> s = t"
  using utf8_decode_encode [of s b] utf8_decode_encode [of t b] by simp

lemma joined_ids_inject: "c \<notin> set a \<Longrightarrow> c \<notin> set b \<Longrightarrow> a @ c # x = b @ c # y \<Longrightarrow> a = b \<and> x = y"
  by (induction a arbitrary: b) (case_tac b; auto)+

text \<open>Ids that hold a line feed are not told apart: two pairs of ids have one associated data.\<close>

lemma joined_ids_collide: "cred_aad (lit ''a'') (lit ''b'' @ 10 # lit ''c'') = cred_aad (lit ''a'' @ 10 # lit ''b'') (lit ''c'')"
  by (simp add: cred_aad_def)

section \<open>Properties\<close>

text \<open>
  C17. Sealed credentials open to a text exactly when they are, character for character, the base64url of some
  nonce and the authenticated encryption of that text under it, the key derived from the device's secret, and
  the device id and upload id joined by a line feed as associated data; every other failure with a valid secret
  and encodable ids is \<open>CredentialsTampered\<close>, whatever the blob. So what was sealed for another device or another
  upload, by the same secret and under any nonce, is refused as tampered, where device ids hold no line feed
  (they are 16 hexadecimal digits).
\<close>

theorem credentials_open_only_as_sealed:
  assumes "seal_ext_ok S" and "length secret = SECRET_LEN" and "utf8 (dev @ 10 # up) = Some aad"
    and "utf8 (dev' @ 10 # up') = Some aad'" and "aead_binds S {aad, aad'}"
    and "10 \<notin> set dev" and "10 \<notin> set dev'" and "(dev, up) \<noteq> (dev', up')"
  shows "(\<forall>plaintext. (open_credentials S secret dev up sealed = Inr plaintext)
        = (\<exists>nonce. length nonce = 12 \<and> sealed = b64url_encode
             (nonce @ se_aead_encrypt S (se_hkdf S 32 secret [] INFO) nonce plaintext aad)))
    \<and> (open_credentials S secret dev up sealed = Inl CredentialsTampered
        \<or> (\<exists>plaintext. open_credentials S secret dev up sealed = Inr plaintext))
    \<and> (\<forall>plaintext nonce. seal_with_nonce S secret dev' up' plaintext nonce = Inr sealed
         \<longrightarrow> open_credentials S secret dev up sealed = Inl CredentialsTampered)"
proof -
  let ?key = "se_hkdf S 32 secret [] INFO"
  have ka: "credential_key S secret = Inr ?key" "cred_aad dev up = Inr aad" "cred_aad dev' up' = Inr aad'"
    using assms(2-4) by (simp_all add: credential_key_is cred_aad_is)
  have opens: "(open_credentials S secret dev up sealed = Inr plaintext)
      = (\<exists>nonce. length nonce = 12 \<and> sealed = b64url_encode (nonce @ se_aead_encrypt S ?key nonce plaintext aad))"
    for plaintext
    using open_credentials_Inr [OF assms(1), of secret dev up sealed plaintext] ka
    by (auto simp: seal_with_nonce_def NONCE_LEN_def)
  have tampered: "open_credentials S secret dev up sealed = Inl CredentialsTampered
      \<or> (\<exists>plaintext. open_credentials S secret dev up sealed = Inr plaintext)"
    using ka by (auto simp: open_credentials_def split: sum.split option.split)
  have "aad \<noteq> aad'"
  proof
    assume "aad = aad'"
    then have "dev @ 10 # up = dev' @ 10 # up'" using utf8_inject [OF assms(3)] assms(4) by simp
    from joined_ids_inject [OF assms(6,7) this] show False using assms(8) by simp
  qed
  have "\<not> seal_with_nonce S secret dev' up' p n = Inr sealed"
    if "open_credentials S secret dev up sealed = Inr q" for p n q
  proof
    assume "seal_with_nonce S secret dev' up' p n = Inr sealed"
    then have n: "length n = 12" "sealed = b64url_encode (n @ se_aead_encrypt S ?key n p aad')"
      using ka by (auto simp: seal_with_nonce_def NONCE_LEN_def split: if_splits)
    from iffD1 [OF opens that] obtain m where
      m: "length m = 12" "sealed = b64url_encode (m @ se_aead_encrypt S ?key m q aad)"
      by (elim exE conjE)
    from n(2) m(2) have "n @ se_aead_encrypt S ?key n p aad' = m @ se_aead_encrypt S ?key m q aad"
      by (metis b64url_roundtrip sum.inject(2))
    then have "n = m" "se_aead_encrypt S ?key n p aad' = se_aead_encrypt S ?key n q aad" using n(1) m(1) by auto
    moreover have "\<forall>k n p p'. se_aead_encrypt S k n p aad' = se_aead_encrypt S k n p' aad \<longrightarrow> aad' = aad"
      using assms(5) unfolding aead_binds_def by blast
    ultimately show False using \<open>aad \<noteq> aad'\<close> by blast
  qed
  then have "\<forall>plaintext nonce. seal_with_nonce S secret dev' up' plaintext nonce = Inr sealed
      \<longrightarrow> open_credentials S secret dev up sealed = Inl CredentialsTampered"
    using tampered by metis
  then show ?thesis by (intro conjI [OF allI [OF opens] conjI [OF tampered]])
qed

theorem credentials_open_only_as_sealed_witness:
  "\<exists>sealed. seal_with_nonce sample_seal (replicate 32 1) [100] [117] [9, 9] (replicate 12 3) = Inr sealed
     \<and> open_credentials sample_seal (replicate 32 1) [100] [117] sealed = Inr [9, 9]
     \<and> open_credentials sample_seal (replicate 32 1) [101] [117] sealed = Inl CredentialsTampered"
proof -
  have len: "length (replicate 32 (1 :: byte)) = SECRET_LEN" by (simp add: SECRET_LEN_def)
  have aad: "utf8 ([100] @ 10 # [117]) = Some [100, 10, 117]" "utf8 ([101] @ 10 # [117]) = Some [101, 10, 117]"
    by (simp_all add: utf8_char_def)
  have binds: "aead_binds sample_seal {[100, 10, 117], [101, 10, 117]}"
    by (auto simp: aead_binds_def sample_seal_def toy_mac_def)
  let ?sealed = "b64url_encode (replicate 12 3 @ se_aead_encrypt sample_seal
      (se_hkdf sample_seal 32 (replicate 32 1) [] INFO) (replicate 12 3) [9, 9] [100, 10, 117])"
  have sealed: "seal_with_nonce sample_seal (replicate 32 1) [100] [117] [9, 9] (replicate 12 3) = Inr ?sealed"
    using aad(1) len by (simp add: seal_with_nonce_def NONCE_LEN_def credential_key_is cred_aad_is)
  have "open_credentials sample_seal (replicate 32 1) [100] [117] ?sealed = Inr [9, 9]"
  proof -
    have "length (replicate 12 (3 :: byte)) = 12" by simp
    then show ?thesis
      using credentials_open_only_as_sealed [OF sample_seal_ok len aad binds, of ?sealed, THEN conjunct1]
      by fastforce
  qed
  moreover have "aead_binds sample_seal {[101, 10, 117], [100, 10, 117]}" using binds by (simp add: insert_commute)
  from credentials_open_only_as_sealed [OF sample_seal_ok len aad(2,1) this, of ?sealed, THEN conjunct2, THEN conjunct2, rule_format, OF _ _ _ sealed]
  have "open_credentials sample_seal (replicate 32 1) [101] [117] ?sealed = Inl CredentialsTampered" by simp
  ultimately show ?thesis using sealed by blast
qed

end
