(* ===== verification/Settings.thy ===== *)
theory Settings
  imports Signing Json "HOL-Library.Sublist"
begin

text \<open>
  The settings-QR payload (\<open>settings_qr/fields.py\<close>, \<open>settings_qr/ingest.py\<close>, \<open>settings_qr/payload.py\<close>).

  A payload is the JSON value that \<open>json.load\<close> gives. A problem is
  where it is and the key of its translation with its parameters; the translation itself is text. A
  check gives its problems, or the exception it raises: a lone surrogate cannot be encoded, and a list
  or an object cannot be looked up as a version. \<open>urlsplit(...).hostname\<close> is the argument \<open>hostname\<close>
  (\<open>None\<close> for its \<open>ValueError\<close>).
\<close>

section \<open>Problems\<close>

datatype reason = Required | MustBeString | TooLongChars nat | TooLongBytes nat nat | MustBeInteger
  | IntRange int int | MustBeObject | UnknownField | SecretNotAllowedSealed | NotForIngest | MustBeHttpUrl
  | RegionNotDerivable | IngestNeedsHost | DeviceSecretFormat | WifiPassphraseLength | KidFormat | HasList
  | HasEmpty | HasUnknown ustr | BadType | BadVersion | UnknownKey | NoSections | MustBeBoolean

datatype problem = Problem (pr_where: "ustr option") (pr_reason: reason)

datatype settings_exc = UnicodeEncodeError | UnhashableVersion

type_synonym check = "settings_exc + problem list"

definition err :: "ustr \<Rightarrow> reason \<Rightarrow> problem list" where
  "err w r = [Problem (Some w) r]"

text \<open>Checks one after the other: their problems in order, or the first exception.\<close>

definition collect :: "check list \<Rightarrow> check" where
  "collect rs = bindE (mapE (\<lambda>r. r) rs) (\<lambda>pss. Inr (concat pss))"

definition unless :: "bool \<Rightarrow> problem list \<Rightarrow> check" where
  "unless ok ps = Inr (if ok then [] else ps)"

section \<open>Field primitives\<close>

definition over_byte_limit :: "ustr \<Rightarrow> nat \<Rightarrow> settings_exc + nat option" where
  "over_byte_limit value max_bytes =
     (case utf8 value of
        None \<Rightarrow> Inl UnicodeEncodeError
      | Some b \<Rightarrow> Inr (if length b > max_bytes then Some (length b) else None))"

text \<open>\<open>_string\<close>: the problems it appends, and the value it returns.\<close>

definition check_string :: "ustr \<Rightarrow> json \<Rightarrow> bool \<Rightarrow> nat option \<Rightarrow> nat option \<Rightarrow> check" where
  "check_string w v required max_bytes max_chars =
     (case v of
        JNull \<Rightarrow> unless (\<not> required) (err w Required)
      | JStr s \<Rightarrow>
          collect
            [unless (\<not> (required \<and> s = [])) (err w Required),
             (case max_chars of None \<Rightarrow> Inr []
              | Some m \<Rightarrow> unless (length s \<le> m) (err w (TooLongChars m))),
             (case max_bytes of None \<Rightarrow> Inr []
              | Some m \<Rightarrow> bindE (over_byte_limit s m) (\<lambda>over. Inr (case over of
                    None \<Rightarrow> [] | Some n \<Rightarrow> err w (TooLongBytes n m))))]
      | _ \<Rightarrow> Inr (err w MustBeString))"

definition string_value :: "json \<Rightarrow> ustr" where
  "string_value v = (case v of JStr s \<Rightarrow> s | _ \<Rightarrow> [])"

definition is_whole_number :: "json \<Rightarrow> bool" where
  "is_whole_number v = (case v of JInt _ \<Rightarrow> True | _ \<Rightarrow> False)"

definition int_in_range :: "ustr \<Rightarrow> json \<Rightarrow> int \<times> int \<Rightarrow> check" where
  "int_in_range w v bounds =
     (case v of
        JInt i \<Rightarrow> unless (fst bounds \<le> i \<and> i \<le> snd bounds) (err w (IntRange (fst bounds) (snd bounds)))
      | _ \<Rightarrow> Inr (err w MustBeInteger))"

section \<open>Constants\<close>

definition PAYLOAD_TYPE :: ustr where "PAYLOAD_TYPE = lit ''visio-settings''"
definition PLAINTEXT_VERSION :: nat where "PLAINTEXT_VERSION = 1"
definition SEALED_VERSION :: nat where "SEALED_VERSION = 2"
definition BITRATE_KBPS :: "int \<times> int" where "BITRATE_KBPS = (500, 50000)"
definition RESOLUTION_PX :: "int \<times> int" where "RESOLUTION_PX = (240, 4096)"
definition SEALED_MAX_BYTES :: nat where "SEALED_MAX_BYTES = 384"
definition DEFAULT_STORAGE_PREFIX :: ustr where "DEFAULT_STORAGE_PREFIX = lit ''recordings/''"

definition COMMON_KEYS :: "ustr list" where
  "COMMON_KEYS = map lit [''t'', ''v'', ''meta'', ''storage'', ''auto_upload'', ''bitrate_kbps'',
     ''resolution'', ''wifi'']"

definition KNOWN_KEYS :: "nat \<Rightarrow> ustr list" where
  "KNOWN_KEYS version = (if version = PLAINTEXT_VERSION then COMMON_KEYS else COMMON_KEYS @ [lit ''sealed''])"

definition META_FIELDS :: "ustr list" where
  "META_FIELDS = map lit [''task'', ''location'', ''message'', ''capturer'']"

definition STORAGE_COMMON :: "ustr list" where
  "STORAGE_COMMON = map lit [''endpoint_url'', ''region'', ''bucket'', ''access_key_id'', ''prefix'']"

definition STORAGE_FIELDS :: "nat \<Rightarrow> ustr list" where
  "STORAGE_FIELDS version =
     (if version = PLAINTEXT_VERSION then STORAGE_COMMON @ [lit ''secret_access_key''] else STORAGE_COMMON)"

definition SEALED_FIELDS :: "ustr list" where "SEALED_FIELDS = map lit [''kid'', ''has'', ''b'']"
definition SEALED_HAS :: "ustr list" where "SEALED_HAS = map lit [''sk'', ''rk'']"
definition INGEST_SCHEME :: ustr where "INGEST_SCHEME = lit ''visio+https://''"

definition INGEST_STORAGE_FIELDS :: "ustr list" where
  "INGEST_STORAGE_FIELDS = map lit [''endpoint_url'', ''access_key_id'', ''destination_hint'']"

definition BUCKET_ONLY_FIELDS :: "ustr list" where
  "BUCKET_ONLY_FIELDS = map lit [''region'', ''bucket'', ''prefix'', ''status_prefix'']"

definition SECRET_WIRE_CHARS :: nat where "SECRET_WIRE_CHARS = 43"

text \<open>\<open>DEVICE_MAX_SIZE\<close>, by section and field.\<close>

definition META_SIZES :: "(ustr \<times> nat) list" where
  "META_SIZES = [(lit ''task'', 256), (lit ''location'', 512), (lit ''message'', 1024), (lit ''capturer'', 256)]"

definition STORAGE_SIZES :: "(ustr \<times> nat) list" where
  "STORAGE_SIZES = [(lit ''endpoint_url'', 128), (lit ''region'', 32), (lit ''bucket'', 64),
     (lit ''access_key_id'', 64), (lit ''secret_access_key'', 64), (lit ''prefix'', 128),
     (lit ''destination_hint'', 64)]"

definition WIFI_SIZES :: "(ustr \<times> nat) list" where
  "WIFI_SIZES = [(lit ''ssid'', 33), (lit ''passphrase'', 64)]"

definition usable_bytes :: "(ustr \<times> nat) list \<Rightarrow> ustr \<Rightarrow> nat" where
  "usable_bytes sizes f = (case map_of sizes f of None \<Rightarrow> 0 | Some n \<Rightarrow> n - 1)"

section \<open>Providers\<close>

datatype region_source = FromHost | Operator | Unused

datatype provider = AliyunOss | TencentCos | AwsS3 | GoogleCloudStorage | AzureBlob

fun p_region_source :: "provider \<Rightarrow> region_source" where
  "p_region_source AliyunOss = FromHost"
| "p_region_source TencentCos = FromHost"
| "p_region_source AwsS3 = FromHost"
| "p_region_source GoogleCloudStorage = Operator"
| "p_region_source AzureBlob = Unused"

text \<open>\<open>endpoint_template.format\<close>: the template has at most one slot.\<close>

fun endpoint_for :: "provider \<Rightarrow> ustr \<Rightarrow> ustr" where
  "endpoint_for AliyunOss v = lit ''https://oss-'' @ v @ lit ''.aliyuncs.com''"
| "endpoint_for TencentCos v = lit ''https://cos.'' @ v @ lit ''.myqcloud.com''"
| "endpoint_for AwsS3 v = lit ''https://s3.'' @ v @ lit ''.amazonaws.com''"
| "endpoint_for GoogleCloudStorage v = lit ''https://storage.googleapis.com''"
| "endpoint_for AzureBlob v = lit ''https://'' @ v @ lit ''.blob.core.windows.net''"

definition strip_prefix :: "ustr \<Rightarrow> ustr \<Rightarrow> ustr option" where
  "strip_prefix p s = (if prefix p s then Some (drop (length p) s) else None)"

definition strip_suffix :: "ustr \<Rightarrow> ustr \<Rightarrow> ustr option" where
  "strip_suffix p s = (if suffix p s then Some (take (length s - length p) s) else None)"

text \<open>What \<open>$\<close> lets follow: one line feed at the very end.\<close>

definition chomp :: "ustr \<Rightarrow> ustr" where
  "chomp s = (if s \<noteq> [] \<and> last s = 10 then butlast s else s)"

definition after_scheme :: "ustr \<Rightarrow> ustr option" where
  "after_scheme url = (case strip_prefix (lit ''https://'') url of
       Some r \<Rightarrow> Some r | None \<Rightarrow> strip_prefix (lit ''http://'') url)"

definition host_of :: "ustr \<Rightarrow> ustr" where
  "host_of url = (case after_scheme url of None \<Rightarrow> [] | Some r \<Rightarrow> lower (takeWhile (\<lambda>c. c \<noteq> 47) r))"

definition provider_of_host :: "ustr \<Rightarrow> provider" where
  "provider_of_host host =
     (if suffix (lit ''.aliyuncs.com'') (chomp host) then AliyunOss
      else if suffix (lit ''.myqcloud.com'') (chomp host) then TencentCos
      else if chomp host = lit ''storage.googleapis.com'' then GoogleCloudStorage
      else if suffix (lit ''.blob.core.windows.net'') (chomp host) then AzureBlob
      else AwsS3)"

definition provider_from_endpoint :: "ustr \<Rightarrow> provider option" where
  "provider_from_endpoint url = (if host_of url = [] then None else Some (provider_of_host (host_of url)))"

definition region_char :: "nat \<Rightarrow> bool" where
  "region_char c \<longleftrightarrow> 97 \<le> c \<and> c \<le> 122 \<or> 48 \<le> c \<and> c \<le> 57 \<or> c = 45"

definition region_label :: "ustr \<Rightarrow> bool" where
  "region_label s \<longleftrightarrow> s \<noteq> [] \<and> list_all region_char s"

text \<open>The three region patterns; the group of the first is the shortest that matches.\<close>

definition aliyun_region :: "ustr \<Rightarrow> ustr option" where
  "aliyun_region host = (case Option.bind (strip_prefix (lit ''oss-'') (chomp host)) (strip_suffix (lit ''.aliyuncs.com'')) of
       None \<Rightarrow> None
     | Some mid \<Rightarrow> (case strip_suffix (lit ''-internal'') mid of
           Some g \<Rightarrow> if region_label g then Some g else if region_label mid then Some mid else None
         | None \<Rightarrow> if region_label mid then Some mid else None))"

definition tencent_region :: "ustr \<Rightarrow> ustr option" where
  "tencent_region host = (case strip_suffix (lit ''.myqcloud.com'') (chomp host) of
       None \<Rightarrow> None
     | Some mid \<Rightarrow>
         let g = rev (takeWhile (\<lambda>c. c \<noteq> 46) (rev mid)); before = take (length mid - length g) mid
         in if region_label g \<and> (before = lit ''cos.'' \<or> suffix (lit ''.cos.'') before) then Some g else None)"

definition aws_region :: "ustr \<Rightarrow> ustr option" where
  "aws_region host = (case strip_suffix (lit ''.amazonaws.com'') (chomp host) of
       None \<Rightarrow> None
     | Some mid \<Rightarrow> (case mid of
           a # b # c # g \<Rightarrow> if [a, b] = lit ''s3'' \<and> (c = 46 \<or> c = 45) \<and> region_label g then Some g else None
         | _ \<Rightarrow> None))"

definition region_from_endpoint :: "ustr \<Rightarrow> ustr" where
  "region_from_endpoint url =
     (let host = host_of url in
      if host = [] then []
      else if host = lit ''s3.amazonaws.com'' then lit ''us-east-1''
      else case aliyun_region host of Some g \<Rightarrow> g
           | None \<Rightarrow> (case tencent_region host of Some g \<Rightarrow> g
                      | None \<Rightarrow> (case aws_region host of Some g \<Rightarrow> g | None \<Rightarrow> [])))"

definition region_must_be_typed :: "ustr \<Rightarrow> bool" where
  "region_must_be_typed url =
     (if region_from_endpoint url \<noteq> [] then False
      else case provider_from_endpoint url of None \<Rightarrow> True | Some p \<Rightarrow> p_region_source p \<noteq> Unused)"

section \<open>An Ingest API destination\<close>

definition is_ingest_endpoint :: "json \<Rightarrow> bool" where
  "is_ingest_endpoint v = (case v of JStr s \<Rightarrow> prefix INGEST_SCHEME s | _ \<Rightarrow> False)"

definition device_secret :: "ustr \<Rightarrow> json \<Rightarrow> bool \<Rightarrow> check" where
  "device_secret w v required =
     collect [check_string w v required None (Some SECRET_WIRE_CHARS),
              (if string_value v = [] then Inr []
               else unless (\<not> isl (decode_secret (string_value v))) (err w DeviceSecretFormat))]"

definition storage_w :: "ustr \<Rightarrow> ustr" where "storage_w f = lit ''storage.'' @ f"

definition storage_text :: "(ustr \<times> json) list \<Rightarrow> ustr \<Rightarrow> bool \<Rightarrow> check" where
  "storage_text storage f required =
     check_string (storage_w f) (get storage f) required (Some (usable_bytes STORAGE_SIZES f)) None"

definition validate_ingest_storage :: "(ustr \<Rightarrow> ustr option) \<Rightarrow> (ustr \<times> json) list \<Rightarrow> bool \<Rightarrow> check" where
  "validate_ingest_storage hostname storage plaintext =
     (let allowed = INGEST_STORAGE_FIELDS @ (if plaintext then [lit ''secret_access_key''] else []) in
      collect (
        map (\<lambda>(f, _).
          if f \<in> set allowed then Inr []
          else if f = lit ''secret_access_key'' then Inr (err (storage_w f) SecretNotAllowedSealed)
          else if f \<in> set BUCKET_ONLY_FIELDS then Inr (err (storage_w f) NotForIngest)
          else Inr (err (storage_w f) UnknownField)) storage
        @ [storage_text storage (lit ''endpoint_url'') True,
           unless (hostname (string_value (get storage (lit ''endpoint_url''))) \<notin> {None, Some []})
             (err (storage_w (lit ''endpoint_url'')) IngestNeedsHost),
           storage_text storage (lit ''access_key_id'') True,
           storage_text storage (lit ''destination_hint'') False]
        @ (if plaintext
           then [device_secret (storage_w (lit ''secret_access_key'')) (get storage (lit ''secret_access_key'')) False]
           else [])))"

section \<open>The sections of a payload\<close>

definition validate_meta :: "json \<Rightarrow> check" where
  "validate_meta meta = (case meta of
       JObj m \<Rightarrow> collect (
         map (\<lambda>(f, _). unless (f \<in> set META_FIELDS) (err (lit ''meta.'' @ f) UnknownField)) m
         @ map (\<lambda>f. check_string (lit ''meta.'' @ f) (get m f) False (Some (usable_bytes META_SIZES f)) None)
             META_FIELDS)
     | _ \<Rightarrow> Inr (err (lit ''meta'') MustBeObject))"

definition validate_storage :: "(ustr \<Rightarrow> ustr option) \<Rightarrow> json \<Rightarrow> nat \<Rightarrow> check" where
  "validate_storage hostname storage version = (case storage of
       JObj m \<Rightarrow>
         if is_ingest_endpoint (get m (lit ''endpoint_url''))
         then validate_ingest_storage hostname m (version = PLAINTEXT_VERSION)
         else let endpoint = string_value (get m (lit ''endpoint_url''));
                  region = string_value (get m (lit ''region''))
              in collect (
                map (\<lambda>(f, _).
                  if f \<in> set (STORAGE_FIELDS version) then Inr []
                  else if f = lit ''secret_access_key'' then Inr (err (storage_w f) SecretNotAllowedSealed)
                  else Inr (err (storage_w f) UnknownField)) m
                @ [storage_text m (lit ''endpoint_url'') True,
                   unless (endpoint = [] \<or> after_scheme endpoint \<noteq> None)
                     (err (storage_w (lit ''endpoint_url'')) MustBeHttpUrl),
                   storage_text m (lit ''region'') False,
                   unless (\<not> (region = [] \<and> endpoint \<noteq> [] \<and> region_must_be_typed endpoint))
                     (err (storage_w (lit ''region'')) RegionNotDerivable),
                   storage_text m (lit ''bucket'') True,
                   storage_text m (lit ''access_key_id'') True]
                @ (if version = PLAINTEXT_VERSION then [storage_text m (lit ''secret_access_key'') False] else [])
                @ [storage_text m (lit ''prefix'') False])
     | _ \<Rightarrow> Inr (err (lit ''storage'') MustBeObject))"

definition validate_resolution :: "json \<Rightarrow> check" where
  "validate_resolution res = (case res of
       JObj m \<Rightarrow> collect (
         map (\<lambda>(f, _). unless (f \<in> {lit ''width'', lit ''height''}) (err (lit ''resolution.'' @ f) UnknownField)) m
         @ [int_in_range (lit ''resolution.width'') (get m (lit ''width'')) RESOLUTION_PX,
            int_in_range (lit ''resolution.height'') (get m (lit ''height'')) RESOLUTION_PX])
     | _ \<Rightarrow> Inr (err (lit ''resolution'') MustBeObject))"

definition wifi_text :: "(ustr \<times> json) list \<Rightarrow> ustr \<Rightarrow> bool \<Rightarrow> check" where
  "wifi_text wifi f required =
     check_string (lit ''wifi.'' @ f) (get wifi f) required (Some (usable_bytes WIFI_SIZES f)) None"

definition validate_wifi :: "json \<Rightarrow> check" where
  "validate_wifi wifi = (case wifi of
       JObj m \<Rightarrow>
         let psk = string_value (get m (lit ''passphrase''))
         in collect (
           map (\<lambda>(f, _). unless (f \<in> {lit ''ssid'', lit ''passphrase''}) (err (lit ''wifi.'' @ f) UnknownField)) m
           @ [wifi_text m (lit ''ssid'') True, wifi_text m (lit ''passphrase'') False,
              unless (psk = [] \<or> 8 \<le> length psk \<and> length psk \<le> 63)
                (err (lit ''wifi.passphrase'') WifiPassphraseLength)])
     | _ \<Rightarrow> Inr (err (lit ''wifi'') MustBeObject))"

definition kid_format :: "ustr \<Rightarrow> bool" where
  "kid_format s \<longleftrightarrow> length s = 8 \<and> list_all hex_lower s"

definition validate_has :: "json \<Rightarrow> problem list" where
  "validate_has v =
     (let w = lit ''sealed.has'' in case v of
        JList hs \<Rightarrow>
          if \<not> list_all (\<lambda>h. case h of JStr _ \<Rightarrow> True | _ \<Rightarrow> False) hs then err w HasList
          else if hs = [] then err w HasEmpty
          else concat (map (\<lambda>h. if string_value h \<in> set SEALED_HAS then []
                                else err w (HasUnknown (string_value h))) hs)
      | _ \<Rightarrow> err w HasList)"

definition validate_sealed :: "json \<Rightarrow> check" where
  "validate_sealed sealed = (case sealed of
       JObj m \<Rightarrow>
         let kid = string_value (get m (lit ''kid''))
         in collect (
           map (\<lambda>(f, _). unless (f \<in> set SEALED_FIELDS) (err (lit ''sealed.'' @ f) UnknownField)) m
           @ [check_string (lit ''sealed.kid'') (get m (lit ''kid'')) True None (Some 8),
              unless (kid = [] \<or> kid_format kid) (err (lit ''sealed.kid'') KidFormat),
              check_string (lit ''sealed.b'') (get m (lit ''b'')) True None
                (Some ((SEALED_MAX_BYTES * 4 + 2) div 3)),
              Inr (validate_has (get m (lit ''has'')))])
     | _ \<Rightarrow> Inr (err (lit ''sealed'') MustBeObject))"

text \<open>
  The version as a dict key: \<open>True\<close> and a float equal to 1 or 2 are the same key as the integer. A list or
  an object is no key at all.
\<close>

definition version_of :: "json \<Rightarrow> settings_exc + nat option" where
  "version_of v = (case v of
       JInt i \<Rightarrow> Inr (if i = 1 then Some 1 else if i = 2 then Some 2 else None)
     | JBool b \<Rightarrow> Inr (if b then Some 1 else None)
     | JFloat (Finite r) \<Rightarrow> Inr (if r = 1 then Some 1 else if r = 2 then Some 2 else None)
     | JList _ \<Rightarrow> Inl UnhashableVersion
     | JObj _ \<Rightarrow> Inl UnhashableVersion
     | _ \<Rightarrow> Inr None)"

definition section_check :: "(ustr \<times> json) list \<Rightarrow> ustr \<Rightarrow> (json \<Rightarrow> check) \<Rightarrow> check" where
  "section_check cfg k f = (case map_of cfg k of None \<Rightarrow> Inr [] | Some v \<Rightarrow> f v)"

definition validate_versioned :: "(ustr \<Rightarrow> ustr option) \<Rightarrow> (ustr \<times> json) list \<Rightarrow> nat \<Rightarrow> check" where
  "validate_versioned hostname cfg version = collect (
     map (\<lambda>(k, _). unless (k \<in> set (KNOWN_KEYS version)) (err k UnknownKey)) cfg
     @ [unless (\<exists>k \<in> set (KNOWN_KEYS version) - {lit ''t'', lit ''v''}. k \<in> fst ` set cfg)
          [Problem None NoSections],
        section_check cfg (lit ''meta'') validate_meta,
        section_check cfg (lit ''storage'') (\<lambda>v. validate_storage hostname v version),
        section_check cfg (lit ''auto_upload'') (\<lambda>v. unless (\<exists>b. v = JBool b) (err (lit ''auto_upload'') MustBeBoolean)),
        section_check cfg (lit ''bitrate_kbps'') (\<lambda>v. int_in_range (lit ''bitrate_kbps'') v BITRATE_KBPS),
        section_check cfg (lit ''resolution'') validate_resolution,
        section_check cfg (lit ''wifi'') validate_wifi,
        section_check cfg (lit ''sealed'') validate_sealed])"

definition validate :: "(ustr \<Rightarrow> ustr option) \<Rightarrow> (ustr \<times> json) list \<Rightarrow> check" where
  "validate hostname cfg =
     (let badtype = (if get cfg (lit ''t'') \<noteq> JStr PAYLOAD_TYPE then err (lit ''t'') BadType else [])
      in bindE (version_of (get cfg (lit ''v''))) (\<lambda>version. case version of
           None \<Rightarrow> Inr (badtype @ err (lit ''v'') BadVersion)
         | Some v \<Rightarrow> bindE (validate_versioned hostname cfg v) (\<lambda>ps. Inr (badtype @ ps))))"

section \<open>Normalisation\<close>

definition normalize_storage_prefix :: "(ustr \<times> json) list \<Rightarrow> (ustr \<times> json) list" where
  "normalize_storage_prefix cfg = (case get cfg (lit ''storage'') of
       JObj storage \<Rightarrow>
         if is_ingest_endpoint (get storage (lit ''endpoint_url'')) then cfg
         else let p = get storage (lit ''prefix'');
                  p = (if p = JNull \<or> p = JStr [] then JStr DEFAULT_STORAGE_PREFIX else p);
                  p = (case p of JStr s \<Rightarrow> if suffix [47] s then p else JStr (s @ [47]) | _ \<Rightarrow> p)
              in put cfg (lit ''storage'') (JObj (put storage (lit ''prefix'') p))
     | _ \<Rightarrow> cfg)"

definition TEXT_SECTIONS :: "ustr list" where "TEXT_SECTIONS = map lit [''meta'', ''storage'', ''wifi'']"

definition number_text :: "json \<Rightarrow> json" where
  "number_text v = (case v of JInt i \<Rightarrow> JStr (dec_int i) | _ \<Rightarrow> v)"

definition normalize_section :: "(ustr \<times> json) list \<Rightarrow> ustr \<Rightarrow> (ustr \<times> json) list" where
  "normalize_section cfg k = (case get cfg k of
       JObj m \<Rightarrow> put cfg k (JObj (map (\<lambda>(f, v). (f, number_text v)) m))
     | _ \<Rightarrow> cfg)"

definition normalize_bare_numbers :: "(ustr \<times> json) list \<Rightarrow> (ustr \<times> json) list" where
  "normalize_bare_numbers cfg = foldl normalize_section cfg TEXT_SECTIONS"

text \<open>What the command line tool makes of a configuration before it validates it.\<close>

definition normalized :: "(ustr \<times> json) list \<Rightarrow> (ustr \<times> json) list" where
  "normalized cfg = normalize_storage_prefix (normalize_bare_numbers cfg)"

section \<open>The text that is printed\<close>

definition payload_encode :: "(real \<Rightarrow> ustr) \<Rightarrow> (ustr \<times> json) list \<Rightarrow> ustr" where
  "payload_encode repr_float cfg = dumps repr_float False (JObj cfg)"

text \<open>A payload without floats is read back as it was.\<close>

lemma payload_read_back: "json_ok (JObj cfg) \<Longrightarrow> loads fl (payload_encode rf cfg) = Some (JObj cfg)"
  by (simp add: payload_encode_def loads_dumps del: json_ok.simps dumps.simps)

section \<open>Checks without problems\<close>

lemma mapE_id_Inr: "mapE (\<lambda>r. r) rs = Inr xs \<longleftrightarrow> rs = map Inr xs"
  by (induction rs arbitrary: xs) (auto simp: bindE_eq_Inr)

lemma collect_clean [simp]: "collect rs = Inr [] \<longleftrightarrow> (\<forall>r \<in> set rs. r = Inr [])"
proof
  assume "collect rs = Inr []"
  then obtain xs where "rs = map Inr xs" "\<forall>x \<in> set xs. x = []"
    by (auto simp: collect_def bindE_eq_Inr mapE_id_Inr)
  then show "\<forall>r \<in> set rs. r = Inr []" by auto
next
  assume *: "\<forall>r \<in> set rs. r = Inr []"
  then have "rs = map Inr (replicate (length rs) [])" by (induction rs) auto
  then have "mapE (\<lambda>r. r) rs = Inr (replicate (length rs) [])" by (simp add: mapE_id_Inr)
  then show "collect rs = Inr []" by (simp add: collect_def)
qed

lemma unless_clean [simp]: "unless ok (err w r) = Inr [] \<longleftrightarrow> ok" "unless ok [p] = Inr [] \<longleftrightarrow> ok"
  by (simp_all add: unless_def err_def)

lemma err_not_clean [simp]: "err w r \<noteq> []"
  by (simp add: err_def)

lemma over_byte_limit_clean:
  "bindE (over_byte_limit s m) (\<lambda>over. Inr (case over of None \<Rightarrow> [] | Some n \<Rightarrow> err w (TooLongBytes n m)))
     = Inr [] \<longleftrightarrow> (\<exists>b. utf8 s = Some b \<and> length b \<le> m)"
  by (auto simp: over_byte_limit_def split: option.splits)

lemma check_string_clean:
  "check_string w v required max_bytes max_chars = Inr [] \<longleftrightarrow>
     (case v of JNull \<Rightarrow> \<not> required
      | JStr s \<Rightarrow> (required \<longrightarrow> s \<noteq> []) \<and> (\<forall>m. max_chars = Some m \<longrightarrow> length s \<le> m)
          \<and> (\<forall>m. max_bytes = Some m \<longrightarrow> (\<exists>b. utf8 s = Some b \<and> length b \<le> m))
      | _ \<Rightarrow> False)"
proof (cases v)
  case (JStr s)
  then show ?thesis
    by (cases max_chars; cases max_bytes) (auto simp: check_string_def over_byte_limit_clean)
qed (auto simp: check_string_def)

lemma int_in_range_clean:
  "int_in_range w v bounds = Inr [] \<longleftrightarrow> (\<exists>i. v = JInt i \<and> fst bounds \<le> i \<and> i \<le> snd bounds)"
  by (cases v) (auto simp: int_in_range_def)

text \<open>A text field that the buffer for it, with its terminating zero, can hold.\<close>

definition fits :: "(ustr \<times> nat) list \<Rightarrow> ustr \<Rightarrow> json \<Rightarrow> bool" where
  "fits sizes f v \<longleftrightarrow> v = JNull \<or>
     (\<exists>s b n. v = JStr s \<and> utf8 s = Some b \<and> map_of sizes f = Some n \<and> length b < n)"

definition all_fit :: "(ustr \<times> nat) list \<Rightarrow> json \<Rightarrow> bool" where
  "all_fit sizes v \<longleftrightarrow> (\<exists>m. v = JObj m \<and> (\<forall>f x. map_of m f = Some x \<longrightarrow> fits sizes f x))"

lemma check_string_fits:
  assumes "check_string w v required (Some (usable_bytes sizes f)) mc = Inr []"
    and "map_of sizes f = Some n" and "0 < n"
  shows "fits sizes f v"
  using assms by (cases v) (auto simp: check_string_clean fits_def usable_bytes_def)

lemma get_Some: "map_of m f = Some x \<Longrightarrow> get m f = x"
  by (simp add: get_def)

definition sized :: "(ustr \<times> nat) list \<Rightarrow> ustr \<Rightarrow> bool" where
  "sized sizes f \<longleftrightarrow> (case map_of sizes f of None \<Rightarrow> False | Some n \<Rightarrow> 0 < n)"

lemma sized_fields:
  "list_all (sized META_SIZES) META_FIELDS"
  "list_all (sized WIFI_SIZES) [lit ''ssid'', lit ''passphrase'']"
  "list_all (sized STORAGE_SIZES) (INGEST_STORAGE_FIELDS @ STORAGE_FIELDS 1)"
  "list_all (sized STORAGE_SIZES) (INGEST_STORAGE_FIELDS @ STORAGE_FIELDS 2)"
  by code_simp+

lemma sized_field:
  assumes "list_all (sized sizes) fs" "f \<in> set fs"
  obtains n where "map_of sizes f = Some n" "0 < n"
  using assms by (auto simp: list_all_iff sized_def split: option.splits)

text \<open>What a section without problems holds, field by field.\<close>

lemma validate_meta_clean:
  "validate_meta (JObj m) = Inr [] \<longleftrightarrow> fst ` set m \<subseteq> set META_FIELDS
     \<and> (\<forall>f \<in> set META_FIELDS.
          check_string (lit ''meta.'' @ f) (get m f) False (Some (usable_bytes META_SIZES f)) None = Inr [])"
  by (auto simp: validate_meta_def ball_Un case_prod_beta simp del: lit_simps)

lemma validate_wifi_clean:
  "validate_wifi (JObj m) = Inr [] \<Longrightarrow>
     fst ` set m \<subseteq> set [lit ''ssid'', lit ''passphrase'']
     \<and> (\<forall>f \<in> set [lit ''ssid'', lit ''passphrase'']. \<exists>required. wifi_text m f required = Inr [])"
  by (auto simp: validate_wifi_def ball_Un case_prod_beta Let_def simp del: lit_simps)

lemma text_section_fits:
  assumes "list_all (sized sizes) fs" "fst ` set m \<subseteq> set fs"
    and "\<forall>f \<in> set fs. fits sizes f (get m f) \<or>
           (\<exists>w required mc. check_string w (get m f) required (Some (usable_bytes sizes f)) mc = Inr [])"
  shows "all_fit sizes (JObj m)"
proof -
  have "fits sizes f x" if x: "map_of m f = Some x" for f x
  proof -
    have f: "f \<in> set fs" using assms(2) map_of_SomeD [OF x] by force
    obtain n where "map_of sizes f = Some n" "0 < n" using assms(1) f by (rule sized_field)
    then show ?thesis using assms(3) f get_Some [OF x] check_string_fits by metis
  qed
  then show ?thesis by (simp add: all_fit_def)
qed

lemma validate_meta_fits: "validate_meta v = Inr [] \<Longrightarrow> all_fit META_SIZES v"
proof (cases v)
  case (JObj m)
  assume "validate_meta v = Inr []"
  then show ?thesis unfolding JObj validate_meta_clean by (intro text_section_fits [OF sized_fields(1)]) blast+
qed (simp_all add: validate_meta_def)

lemma validate_wifi_fits: "validate_wifi v = Inr [] \<Longrightarrow> all_fit WIFI_SIZES v"
proof (cases v)
  case (JObj m)
  assume "validate_wifi v = Inr []"
  then show ?thesis
    using validate_wifi_clean [of m] unfolding JObj wifi_text_def
    by (intro text_section_fits [OF sized_fields(2)]) blast+
qed (simp_all add: validate_wifi_def)

text \<open>A device secret that decodes is 43 characters of ASCII, so the buffer holds it.\<close>

lemma b64_alphabet_ascii: "b64_alphabet text \<Longrightarrow> ascii text"
  by (auto simp: b64_alphabet_def list_all_iff ascii_def b64_value_def split: if_splits)

lemma decode_secret_text:
  assumes "decode_secret text = Inr raw"
  shows "length text = 43" "ascii text"
proof -
  have "b64url_decode text = Inr raw" "length raw = 32"
    using assms by (auto simp: decode_secret_def require_device_secret_def SECRET_LEN_def
        split: sum.splits if_splits)
  then have "text = b64url_encode raw" by (simp add: b64.strict)
  then show "length text = 43" "ascii text"
    using \<open>length raw = 32\<close> b64url_encode_alphabet [of raw]
    by (simp_all add: length_b64url_encode b64_alphabet_ascii)
qed

lemma device_secret_fits:
  assumes "device_secret w v required = Inr []"
  shows "fits STORAGE_SIZES (lit ''secret_access_key'') v"
proof (cases "string_value v = []")
  case True
  then show ?thesis using assms
    by (cases v) (auto simp: device_secret_def check_string_clean fits_def STORAGE_SIZES_def string_value_def)
next
  case False
  then obtain s where v: "v = JStr s" "s \<noteq> []" by (cases v) (auto simp: string_value_def)
  then obtain raw where "decode_secret s = Inr raw"
    using assms by (cases "decode_secret s") (auto simp: device_secret_def string_value_def)
  from decode_secret_text [OF this] show ?thesis
    using v by (auto simp: fits_def STORAGE_SIZES_def utf8_ascii)
qed

lemma bucket_storage_clean:
  assumes "validate_storage hostname (JObj m) version = Inr []" "version \<in> {1, 2}"
    and "\<not> is_ingest_endpoint (get m (lit ''endpoint_url''))"
  shows "fst ` set m \<subseteq> set (STORAGE_FIELDS version)
     \<and> (\<forall>f \<in> set (STORAGE_FIELDS version). \<exists>required. storage_text m f required = Inr [])"
proof
  have keys: "(if P then Inr [] else if Q then Inr (err w r) else Inr (err w' r')) = Inr [] \<longleftrightarrow> P"
    for P Q w r w' r' by simp
  show "fst ` set m \<subseteq> set (STORAGE_FIELDS version)"
    using assms(1,3) by (auto simp: validate_storage_def ball_Un case_prod_beta Let_def keys simp del: lit_simps)
  have "storage_text m (lit ''endpoint_url'') True = Inr []" "storage_text m (lit ''region'') False = Inr []"
    "storage_text m (lit ''bucket'') True = Inr []" "storage_text m (lit ''access_key_id'') True = Inr []"
    "storage_text m (lit ''prefix'') False = Inr []"
    "version = 1 \<Longrightarrow> storage_text m (lit ''secret_access_key'') False = Inr []"
    using assms(1,3)
    by (simp_all add: validate_storage_def ball_Un Let_def PLAINTEXT_VERSION_def del: lit_simps)
  then show "\<forall>f \<in> set (STORAGE_FIELDS version). \<exists>required. storage_text m f required = Inr []"
    using assms(2) by (auto simp: STORAGE_FIELDS_def STORAGE_COMMON_def PLAINTEXT_VERSION_def simp del: lit_simps)
qed

lemma ingest_storage_clean:
  assumes "validate_ingest_storage hostname m plaintext = Inr []"
  shows "fst ` set m \<subseteq> set (INGEST_STORAGE_FIELDS @ (if plaintext then [lit ''secret_access_key''] else []))
     \<and> (\<forall>f \<in> set INGEST_STORAGE_FIELDS. \<exists>required. storage_text m f required = Inr [])
     \<and> (plaintext \<longrightarrow> (\<exists>w required. device_secret w (get m (lit ''secret_access_key'')) required = Inr []))"
proof (intro conjI impI)
  have keys: "(if P then Inr [] else if Q then Inr (err w r) else if R then Inr (err w' r') else Inr (err w'' r''))
      = Inr [] \<longleftrightarrow> P"
    for P Q R w r w' r' w'' r'' by simp
  show "fst ` set m \<subseteq> set (INGEST_STORAGE_FIELDS @ (if plaintext then [lit ''secret_access_key''] else []))"
    using assms unfolding validate_ingest_storage_def Let_def
    by (simp only: collect_clean set_append set_map ball_Un case_prod_beta ball_simps keys) auto
  have "storage_text m (lit ''endpoint_url'') True = Inr []" "storage_text m (lit ''access_key_id'') True = Inr []"
    "storage_text m (lit ''destination_hint'') False = Inr []"
    using assms by (simp_all add: validate_ingest_storage_def ball_Un Let_def del: lit_simps)
  then show "\<forall>f \<in> set INGEST_STORAGE_FIELDS. \<exists>required. storage_text m f required = Inr []"
    by (auto simp: INGEST_STORAGE_FIELDS_def simp del: lit_simps)
  show "\<exists>w required. device_secret w (get m (lit ''secret_access_key'')) required = Inr []" if plaintext
    using assms that by (auto simp: validate_ingest_storage_def ball_Un Let_def simp del: lit_simps)
qed

lemma validate_storage_fits:
  assumes "validate_storage hostname v version = Inr []" "version \<in> {1, 2}"
  shows "all_fit STORAGE_SIZES v"
proof (cases v)
  case (JObj m)
  show ?thesis
  proof (cases "is_ingest_endpoint (get m (lit ''endpoint_url''))")
    case True
    then have "validate_ingest_storage hostname m (version = 1) = Inr []"
      using assms JObj by (simp add: validate_storage_def PLAINTEXT_VERSION_def)
    note clean = ingest_storage_clean [OF this]
    have sub: "set (INGEST_STORAGE_FIELDS @ (if version = 1 then [lit ''secret_access_key''] else []))
        \<subseteq> set (INGEST_STORAGE_FIELDS @ STORAGE_FIELDS 1)"
      by (auto simp: STORAGE_FIELDS_def PLAINTEXT_VERSION_def simp del: lit_simps)
    have "list_all (sized STORAGE_SIZES)
        (INGEST_STORAGE_FIELDS @ (if version = 1 then [lit ''secret_access_key''] else []))"
      using sized_fields(3) sub by (auto simp: list_all_iff simp del: lit_simps)
    then show ?thesis unfolding JObj
    proof (rule text_section_fits)
      show "\<forall>f \<in> set (INGEST_STORAGE_FIELDS @ (if version = 1 then [lit ''secret_access_key''] else [])).
          fits STORAGE_SIZES f (get m f) \<or> (\<exists>w required mc.
             check_string w (get m f) required (Some (usable_bytes STORAGE_SIZES f)) mc = Inr [])"
        using clean device_secret_fits unfolding storage_text_def
        by (cases "version = 1") (auto simp del: lit_simps)
    qed (use clean in blast)
  next
    case False
    have "list_all (sized STORAGE_SIZES) (STORAGE_FIELDS version)"
      using sized_fields(3,4) assms(2) by auto
    then show ?thesis
      using bucket_storage_clean [OF _ assms(2) False] assms(1) unfolding JObj storage_text_def
      by (intro text_section_fits) blast+
  qed
qed (use assms in \<open>simp_all add: validate_storage_def\<close>)

lemma sealed_payload_has_no_secret:
  assumes "validate_storage hostname (JObj m) 2 = Inr []"
  shows "lit ''secret_access_key'' \<notin> fst ` set m"
proof -
  have no: "lit ''secret_access_key'' \<notin> set (INGEST_STORAGE_FIELDS @ STORAGE_FIELDS 2)" by code_simp
  show ?thesis
  proof (cases "is_ingest_endpoint (get m (lit ''endpoint_url''))")
    case True
    then have "validate_ingest_storage hostname m False = Inr []"
      using assms by (simp add: validate_storage_def PLAINTEXT_VERSION_def)
    from ingest_storage_clean [OF this] show ?thesis using no by (auto simp del: lit_simps)
  next
    case False
    with bucket_storage_clean [OF assms] show ?thesis using no by (auto simp del: lit_simps)
  qed
qed

text \<open>
  A sealed section the device takes: a key id of eight hexadecimal digits, some of the secrets it knows, and a
  body that, where it is base64url at all, decodes to no more than the device's buffer holds.
\<close>

definition sealed_fits :: "json \<Rightarrow> bool" where
  "sealed_fits v \<longleftrightarrow> (\<exists>m kid has b. v = JObj m \<and> fst ` set m \<subseteq> set SEALED_FIELDS
     \<and> get m (lit ''kid'') = JStr kid \<and> length kid = 8 \<and> list_all hex_lower kid
     \<and> get m (lit ''has'') = JList (map JStr has) \<and> has \<noteq> [] \<and> set has \<subseteq> set SEALED_HAS
     \<and> get m (lit ''b'') = JStr b \<and> b \<noteq> []
     \<and> (\<forall>blob. b64url_decode b = Inr blob \<longrightarrow> length blob \<le> SEALED_MAX_BYTES))"

lemma validate_has_clean:
  assumes "validate_has v = []"
  obtains has where "v = JList (map JStr has)" "has \<noteq> []" "set has \<subseteq> set SEALED_HAS"
proof (cases v)
  case (JList hs)
  have strs: "list_all (\<lambda>h. case h of JStr _ \<Rightarrow> True | _ \<Rightarrow> False) hs" and "hs \<noteq> []"
    using assms JList by (auto simp: validate_has_def Let_def err_def split: if_splits)
  then have "\<forall>h \<in> set hs. string_value h \<in> set SEALED_HAS"
    using assms JList by (auto simp: validate_has_def Let_def err_def simp del: lit_simps split: if_splits)
  moreover have "hs = map JStr (map string_value hs)"
    using strs by (induction hs) (auto simp: string_value_def split: json.splits)
  ultimately show ?thesis using that [of "map string_value hs"] \<open>hs \<noteq> []\<close> JList by auto
qed (use assms in \<open>auto simp: validate_has_def Let_def err_def\<close>)

lemma validate_sealed_fits:
  assumes "validate_sealed v = Inr []"
  shows "sealed_fits v"
proof (cases v)
  case (JObj m)
  have known: "fst ` set m \<subseteq> set SEALED_FIELDS" and has: "validate_has (get m (lit ''has'')) = []"
    and kid: "check_string (lit ''sealed.kid'') (get m (lit ''kid'')) True None (Some 8) = Inr []"
    "string_value (get m (lit ''kid'')) = [] \<or> kid_format (string_value (get m (lit ''kid'')))"
    and b: "check_string (lit ''sealed.b'') (get m (lit ''b'')) True None
      (Some ((SEALED_MAX_BYTES * 4 + 2) div 3)) = Inr []"
    using assms JObj by (auto simp: validate_sealed_def Let_def ball_Un simp del: lit_simps)
  obtain k where k: "get m (lit ''kid'') = JStr k" "k \<noteq> []"
    using kid(1) by (auto simp: check_string_clean simp del: lit_simps split: json.splits)
  obtain c where c: "get m (lit ''b'') = JStr c" "c \<noteq> []" "length c \<le> (SEALED_MAX_BYTES * 4 + 2) div 3"
    using b by (auto simp: check_string_clean simp del: lit_simps split: json.splits)
  have "length blob \<le> SEALED_MAX_BYTES" if "b64url_decode c = Inr blob" for blob
    using that c(3) by (auto simp: b64url_canonical length_b64url_encode SEALED_MAX_BYTES_def)
  moreover obtain hs where "get m (lit ''has'') = JList (map JStr hs)" "hs \<noteq> []" "set hs \<subseteq> set SEALED_HAS"
    using validate_has_clean [OF has] .
  ultimately show ?thesis
    using known k c kid(2) JObj by (auto simp: sealed_fits_def string_value_def kid_format_def simp del: lit_simps)
qed (use assms in \<open>simp_all add: validate_sealed_def\<close>)

section \<open>Endpoints and their hosts\<close>

definition host_char :: "nat \<Rightarrow> bool" where
  "host_char c \<longleftrightarrow> region_char c \<or> c = 46"

lemma lower_host: "list_all host_char s \<Longrightarrow> lower s = s"
proof (induction s)
  case (Cons c s)
  then have "lower_char c = [c]" by (auto simp: lower_char_def host_char_def region_char_def)
  then show ?case using Cons by (simp add: lower_def)
qed (simp add: lower_def)

lemma host_of_url: "s \<noteq> [] \<Longrightarrow> list_all host_char s \<Longrightarrow> host_of (lit ''https://'' @ s) = s"
proof -
  assume s: "s \<noteq> []" "list_all host_char s"
  then have "takeWhile (\<lambda>c. c \<noteq> 47) s = s"
    unfolding takeWhile_eq_all_conv by (auto simp: list_all_iff host_char_def region_char_def)
  then show ?thesis using s lower_host [of s]
    by (simp add: host_of_def after_scheme_def strip_prefix_def del: takeWhile_eq_all_conv)
qed

lemma chomp_host: "list_all host_char s \<Longrightarrow> chomp s = s"
proof (cases "s = []")
  case False
  assume "list_all host_char s"
  then have "host_char (last s)" using last_in_set [OF False] by (simp add: list_all_iff)
  then show ?thesis by (auto simp: chomp_def host_char_def region_char_def)
qed (simp add: chomp_def)

lemma region_label_host: "region_label v \<Longrightarrow> list_all host_char v"
  by (auto simp: region_label_def list_all_iff host_char_def)

text \<open>The host of an endpoint.\<close>

fun host_for :: "provider \<Rightarrow> ustr \<Rightarrow> ustr" where
  "host_for AliyunOss v = lit ''oss-'' @ v @ lit ''.aliyuncs.com''"
| "host_for TencentCos v = lit ''cos.'' @ v @ lit ''.myqcloud.com''"
| "host_for AwsS3 v = lit ''s3.'' @ v @ lit ''.amazonaws.com''"
| "host_for GoogleCloudStorage v = lit ''storage.googleapis.com''"
| "host_for AzureBlob v = v @ lit ''.blob.core.windows.net''"

lemma host_for_chars: "region_label v \<Longrightarrow> list_all host_char (host_for p v)"
  using region_label_host [of v] by (cases p) (simp_all add: host_char_def region_char_def)

lemma host_of_endpoint: "region_label v \<Longrightarrow> host_of (endpoint_for p v) = host_for p v"
proof -
  assume v: "region_label v"
  have "endpoint_for p v = lit ''https://'' @ host_for p v" by (cases p) simp_all
  moreover have "host_for p v \<noteq> []" by (cases p) simp_all
  ultimately show ?thesis using host_of_url host_for_chars [OF v] by metis
qed

lemma ends_differ: "rev x \<noteq> rev y \<Longrightarrow> x \<noteq> y"
  by auto

lemma provider_of_host_for:
  assumes "region_label v"
  shows "provider_of_host (host_for p v) = p"
proof -
  have "chomp (host_for p v) = host_for p v" by (rule chomp_host [OF host_for_chars [OF assms]])
  moreover have "v @ lit ''.blob.core.windows.net'' \<noteq> lit ''storage.googleapis.com''"
    by (rule ends_differ) simp
  ultimately show ?thesis unfolding provider_of_host_def
    by (cases p) (simp_all add: suffix_to_prefix)
qed

lemma strip_suffix_append [simp]: "strip_suffix b (a @ b) = Some a"
  by (auto simp: strip_suffix_def suffix_def)

lemma strip_prefix_append [simp]: "strip_prefix a (a @ b) = Some b"
  by (simp add: strip_prefix_def)

lemma strip_suffix_None: "\<not> suffix b s \<Longrightarrow> strip_suffix b s = None"
  by (simp add: strip_suffix_def)

lemma strip_both_None: "\<not> suffix b s \<Longrightarrow> Option.bind (strip_prefix a s) (strip_suffix b) = None"
  using suffix_order.trans [OF _ suffix_drop]
  by (auto simp: strip_prefix_def strip_suffix_def)

lemma region_no_dot: "region_label v \<Longrightarrow> 46 \<notin> set v"
  by (auto simp: region_label_def list_all_iff region_char_def)

text \<open>The region patterns on hosts of the table.\<close>

lemma region_patterns:
  assumes v: "region_label v"
  shows "p \<noteq> AliyunOss \<Longrightarrow> aliyun_region (host_for p v) = None"
    and "p \<noteq> TencentCos \<Longrightarrow> tencent_region (host_for p v) = None"
    and "p \<noteq> AwsS3 \<Longrightarrow> aws_region (host_for p v) = None"
    and "\<not> suffix (lit ''-internal'') v \<Longrightarrow> aliyun_region (host_for AliyunOss v) = Some v"
    and "tencent_region (host_for TencentCos v) = Some v"
    and "aws_region (host_for AwsS3 v) = Some v"
proof -
  have c: "chomp (host_for p v) = host_for p v" for p by (rule chomp_host [OF host_for_chars [OF v]])
  show "p \<noteq> AliyunOss \<Longrightarrow> aliyun_region (host_for p v) = None"
    by (subst aliyun_region_def, subst c, subst strip_both_None) (cases p; simp add: suffix_to_prefix)+
  show "p \<noteq> TencentCos \<Longrightarrow> tencent_region (host_for p v) = None"
    by (subst tencent_region_def, subst c, subst strip_suffix_None) (cases p; simp add: suffix_to_prefix)+
  show "p \<noteq> AwsS3 \<Longrightarrow> aws_region (host_for p v) = None"
    by (subst aws_region_def, subst c, subst strip_suffix_None) (cases p; simp add: suffix_to_prefix)+
  show "aliyun_region (host_for AliyunOss v) = Some v" if "\<not> suffix (lit ''-internal'') v"
    using that v unfolding aliyun_region_def c by (simp add: strip_suffix_None del: lit_simps)
  have "takeWhile (\<lambda>c. c \<noteq> 46) (rev v @ 46 # x) = rev v" for x
    using region_no_dot [OF v] by (subst takeWhile_append) auto
  then show "tencent_region (host_for TencentCos v) = Some v"
    using v strip_suffix_append [of "lit ''.myqcloud.com''" "lit ''cos.'' @ v"]
    unfolding tencent_region_def c by (simp add: Let_def)
  show "aws_region (host_for AwsS3 v) = Some v"
    using v strip_suffix_append [of "lit ''.amazonaws.com''" "lit ''s3.'' @ v"]
    unfolding aws_region_def c by simp
qed

lemma region_from_endpoint_for:
  assumes v: "region_label v" and "p = AliyunOss \<Longrightarrow> \<not> suffix (lit ''-internal'') v"
  shows "region_from_endpoint (endpoint_for p v) = (if p_region_source p = FromHost then v else [])"
proof -
  have "host_for p v \<noteq> []" by (cases p) simp_all
  moreover have "host_for p v \<noteq> lit ''s3.amazonaws.com''"
  proof (cases "p = AwsS3")
    case True
    have "length v > 0" using v by (simp add: region_label_def)
    then have "length (host_for AwsS3 v) \<noteq> length (lit ''s3.amazonaws.com'')" by simp
    then show ?thesis using True by metis
  next
    case False
    have "\<not> suffix (lit ''.amazonaws.com'') (host_for p v)" using False
      by (cases p) (simp_all add: suffix_to_prefix)
    moreover have "suffix (lit ''.amazonaws.com'') (lit ''s3.amazonaws.com'')" by code_simp
    ultimately show ?thesis by metis
  qed
  ultimately show ?thesis
    using assms(2) region_patterns [OF v] unfolding region_from_endpoint_def host_of_endpoint [OF v]
    by (cases p) (simp_all del: host_for.simps lit_simps)
qed

section \<open>Normalised payloads\<close>

definition no_numbers :: "json \<Rightarrow> bool" where
  "no_numbers v \<longleftrightarrow> (case v of JObj m \<Rightarrow> list_all (\<lambda>(f, x). \<not> is_whole_number x) m | _ \<Rightarrow> True)"

lemma number_text_simps: "\<not> is_whole_number (number_text v)"
  "\<not> is_whole_number v \<Longrightarrow> number_text v = v"
  by (cases v; simp add: number_text_def is_whole_number_def)+

lemma number_text_fields: "no_numbers (JObj m) \<Longrightarrow> map (\<lambda>(f, v). (f, number_text v)) m = m"
  by (auto simp: no_numbers_def list_all_iff number_text_simps intro!: map_idI)

lemma normalize_section_get:
  "get (normalize_section cfg k) k' = (if k' = k then (case get cfg k of
     JObj m \<Rightarrow> JObj (map (\<lambda>(f, v). (f, number_text v)) m) | v \<Rightarrow> v) else get cfg k')"
  by (auto simp: normalize_section_def split: json.splits)

lemma normalize_section_clean: "no_numbers (get (normalize_section cfg k) k)"
  by (auto simp: normalize_section_get no_numbers_def list_all_iff number_text_simps split: json.splits)

lemma normalize_section_id: "no_numbers (get cfg k) \<Longrightarrow> normalize_section cfg k = cfg"
  by (auto simp: normalize_section_def number_text_fields put_same get_JObj split: json.splits)

lemma TEXT_SECTIONS_distinct: "distinct TEXT_SECTIONS"
  by code_simp

lemma foldl_sections_clean:
  "k \<in> set ks \<or> no_numbers (get cfg k) \<Longrightarrow> no_numbers (get (foldl normalize_section cfg ks) k)"
proof (induction ks arbitrary: cfg)
  case (Cons x ks)
  then show ?case
    using normalize_section_clean [of cfg x] by (cases "k = x") (auto simp: normalize_section_get)
qed simp

lemma foldl_sections_id: "\<forall>k \<in> set ks. no_numbers (get cfg k) \<Longrightarrow> foldl normalize_section cfg ks = cfg"
  by (induction ks) (simp_all add: normalize_section_id)

lemma foldl_sections_other: "k \<notin> set ks \<Longrightarrow> get (foldl normalize_section cfg ks) k = get cfg k"
  by (induction ks arbitrary: cfg) (auto simp: normalize_section_get)

text \<open>A bucket destination's prefix ends in a slash, unless it is of a wrong type.\<close>

definition slashed :: "json \<Rightarrow> bool" where
  "slashed p \<longleftrightarrow> p \<noteq> JNull \<and> (\<forall>s. p = JStr s \<longrightarrow> suffix [47] s)"

lemma default_prefix_slashed: "suffix [47] DEFAULT_STORAGE_PREFIX" "DEFAULT_STORAGE_PREFIX \<noteq> []"
  by code_simp+

lemma normalize_prefix_get:
  "get (normalize_storage_prefix cfg) k = get cfg k" if "k \<noteq> lit ''storage''"
  using that by (auto simp: normalize_storage_prefix_def Let_def simp del: lit_simps split: json.splits)

definition slash_prefix :: "json \<Rightarrow> json" where
  "slash_prefix p =
     (let p = (if p = JNull \<or> p = JStr [] then JStr DEFAULT_STORAGE_PREFIX else p)
      in case p of JStr s \<Rightarrow> if suffix [47] s then p else JStr (s @ [47]) | _ \<Rightarrow> p)"

lemma slash_prefix:
  "slashed (slash_prefix p)" "slashed p \<Longrightarrow> slash_prefix p = p"
  "is_whole_number (slash_prefix p) = is_whole_number p"
proof -
  note defs = slash_prefix_def slashed_def Let_def is_whole_number_def
  show "slashed (slash_prefix p)" by (cases p) (auto simp: defs default_prefix_slashed)
  show "is_whole_number (slash_prefix p) = is_whole_number p" by (cases p) (auto simp: defs)
  have "\<not> suffix [47] ([] :: ustr)" by simp
  then show "slashed p \<Longrightarrow> slash_prefix p = p" by (cases p) (auto simp: defs)
qed

lemma normalize_prefix_other:
  "(\<forall>m. get cfg (lit ''storage'') = JObj m \<longrightarrow> is_ingest_endpoint (get m (lit ''endpoint_url'')))
     \<Longrightarrow> normalize_storage_prefix cfg = cfg"
  by (cases "get cfg (lit ''storage'')") (simp_all add: normalize_storage_prefix_def del: lit_simps)

lemma normalize_prefix_bucket:
  "get cfg (lit ''storage'') = JObj m \<Longrightarrow> \<not> is_ingest_endpoint (get m (lit ''endpoint_url''))
     \<Longrightarrow> normalize_storage_prefix cfg
       = put cfg (lit ''storage'') (JObj (put m (lit ''prefix'') (slash_prefix (get m (lit ''prefix'')))))"
  by (simp add: normalize_storage_prefix_def slash_prefix_def Let_def del: lit_simps)

lemma endpoint_not_prefix: "lit ''endpoint_url'' \<noteq> lit ''prefix''"
  by code_simp

lemma no_numbers_put: "no_numbers (JObj m) \<Longrightarrow> \<not> is_whole_number v \<Longrightarrow> no_numbers (JObj (put m k v))"
  by (induction m) (auto simp: no_numbers_def)

lemma no_numbers_get: "no_numbers (JObj m) \<Longrightarrow> \<not> is_whole_number (get m k)"
  by (auto simp: no_numbers_def get_def list_all_iff is_whole_number_def split: option.splits json.splits
      dest: map_of_SomeD)

lemma normalize_prefix_numbers:
  assumes "no_numbers (get cfg k)"
  shows "no_numbers (get (normalize_storage_prefix cfg) k)"
proof (cases "\<exists>m. get cfg (lit ''storage'') = JObj m \<and> \<not> is_ingest_endpoint (get m (lit ''endpoint_url''))")
  case True
  then obtain m where m: "get cfg (lit ''storage'') = JObj m" "\<not> is_ingest_endpoint (get m (lit ''endpoint_url''))"
    by blast
  show ?thesis using assms no_numbers_put no_numbers_get slash_prefix(3)
    unfolding normalize_prefix_bucket [OF m] by (cases "k = lit ''storage''") (simp_all add: m del: lit_simps)
next
  case False
  then show ?thesis using assms by (subst normalize_prefix_other) blast+
qed

lemma normalize_prefix_slashed:
  assumes "get (normalize_storage_prefix cfg) (lit ''storage'') = JObj m"
    and "\<not> is_ingest_endpoint (get m (lit ''endpoint_url''))"
  shows "slashed (get m (lit ''prefix''))"
proof (cases "\<exists>m. get cfg (lit ''storage'') = JObj m \<and> \<not> is_ingest_endpoint (get m (lit ''endpoint_url''))")
  case True
  then obtain m where m: "get cfg (lit ''storage'') = JObj m" "\<not> is_ingest_endpoint (get m (lit ''endpoint_url''))"
    by blast
  show ?thesis using assms(1) slash_prefix(1)
    unfolding normalize_prefix_bucket [OF m] by (auto simp del: lit_simps)
next
  case False
  then have "normalize_storage_prefix cfg = cfg" by (intro normalize_prefix_other) blast
  then show ?thesis using assms False by simp
qed

lemma normalize_prefix_id:
  "normalize_storage_prefix (normalize_storage_prefix cfg) = normalize_storage_prefix cfg"
proof (cases "\<exists>m. get cfg (lit ''storage'') = JObj m \<and> \<not> is_ingest_endpoint (get m (lit ''endpoint_url''))")
  case True
  then obtain m where m: "get cfg (lit ''storage'') = JObj m" "\<not> is_ingest_endpoint (get m (lit ''endpoint_url''))"
    by blast
  let ?m = "put m (lit ''prefix'') (slash_prefix (get m (lit ''prefix'')))"
  let ?cfg = "put cfg (lit ''storage'') (JObj ?m)"
  have "get ?cfg (lit ''storage'') = JObj ?m" by simp
  moreover have "\<not> is_ingest_endpoint (get ?m (lit ''endpoint_url''))"
    using m(2) endpoint_not_prefix by (simp del: lit_simps)
  ultimately have "normalize_storage_prefix ?cfg = ?cfg"
    using slash_prefix(1,2) by (simp add: normalize_prefix_bucket del: lit_simps)
  then show ?thesis by (simp only: normalize_prefix_bucket [OF m])
next
  case False
  then show ?thesis by (subst (2) normalize_prefix_other) blast+
qed

section \<open>Properties\<close>

text \<open>
  C18. A payload that \<open>validate\<close> passes can be applied by the device: every value of its \<open>meta\<close>,
  \<open>storage\<close> and \<open>wifi\<close> sections is absent or a text whose UTF-8 form, with a terminating zero, fits the
  device's buffer for that very field (in an Ingest API section too, where the device key is bounded in
  characters only), the bit rate and resolution are in the firmware's ranges, and a sealed section names a key
  id of eight hexadecimal digits, only secrets the device knows, and a body that decodes to no more than the
  device's buffer for it. A payload of the sealed version holds no storage secret in the clear; its Wi-Fi
  passphrase is not sealed in this version and stays readable, as the generator warns (\<open>cli.py\<close>).
\<close>

theorem valid_settings_fit_the_device:
  assumes "validate hostname cfg = Inr []"
  shows "(\<forall>v. map_of cfg (lit ''meta'') = Some v \<longrightarrow> all_fit META_SIZES v)
    \<and> (\<forall>v. map_of cfg (lit ''storage'') = Some v \<longrightarrow> all_fit STORAGE_SIZES v)
    \<and> (\<forall>v. map_of cfg (lit ''wifi'') = Some v \<longrightarrow> all_fit WIFI_SIZES v)
    \<and> (\<forall>v. map_of cfg (lit ''bitrate_kbps'') = Some v \<longrightarrow> (\<exists>i. v = JInt i \<and> 500 \<le> i \<and> i \<le> 50000))
    \<and> (\<forall>v. map_of cfg (lit ''resolution'') = Some v \<longrightarrow> (\<exists>m w h. v = JObj m \<and>
          get m (lit ''width'') = JInt w \<and> get m (lit ''height'') = JInt h \<and> {w, h} \<subseteq> {240..4096}))
    \<and> (\<forall>v. map_of cfg (lit ''sealed'') = Some v \<longrightarrow> sealed_fits v)
    \<and> (\<forall>m. version_of (get cfg (lit ''v'')) = Inr (Some 2) \<longrightarrow> map_of cfg (lit ''storage'') = Some (JObj m)
          \<longrightarrow> lit ''secret_access_key'' \<notin> fst ` set m)"
proof -
  obtain version where v: "version_of (get cfg (lit ''v'')) = Inr (Some version)"
    and ok: "validate_versioned hostname cfg version = Inr []"
    using assms by (auto simp: validate_def Let_def bindE_eq_Inr simp del: lit_simps split: option.splits)
  have version: "version \<in> {1, 2}" using v by (auto simp: version_of_def split: json.splits pyfloat.splits if_splits)
  have sections: "map_of cfg (lit ''meta'') = Some x \<Longrightarrow> validate_meta x = Inr []"
    "map_of cfg (lit ''storage'') = Some x \<Longrightarrow> validate_storage hostname x version = Inr []"
    "map_of cfg (lit ''wifi'') = Some x \<Longrightarrow> validate_wifi x = Inr []"
    "map_of cfg (lit ''bitrate_kbps'') = Some x \<Longrightarrow> int_in_range (lit ''bitrate_kbps'') x BITRATE_KBPS = Inr []"
    "map_of cfg (lit ''resolution'') = Some x \<Longrightarrow> validate_resolution x = Inr []"
    "map_of cfg (lit ''sealed'') = Some x \<Longrightarrow> validate_sealed x = Inr []" for x
    using ok by (simp_all add: validate_versioned_def section_check_def ball_Un del: lit_simps)
  have res: "\<exists>m w h. x = JObj m \<and> get m (lit ''width'') = JInt w \<and> get m (lit ''height'') = JInt h
      \<and> {w, h} \<subseteq> {240..4096}" if "validate_resolution x = Inr []" for x
    using that by (cases x) (auto simp: validate_resolution_def ball_Un int_in_range_clean RESOLUTION_PX_def
        simp del: lit_simps)
  show ?thesis
  proof (intro conjI allI impI)
    show "\<exists>i. x = JInt i \<and> 500 \<le> i \<and> i \<le> 50000" if "map_of cfg (lit ''bitrate_kbps'') = Some x" for x
      using sections(4) [OF that] by (simp add: int_in_range_clean BITRATE_KBPS_def)
    show "lit ''secret_access_key'' \<notin> fst ` set m"
      if "version_of (get cfg (lit ''v'')) = Inr (Some 2)" "map_of cfg (lit ''storage'') = Some (JObj m)" for m
      using sections(2) [OF that(2)] that(1) v by (intro sealed_payload_has_no_secret) simp
  qed (use sections validate_meta_fits validate_storage_fits [OF _ version] validate_wifi_fits res validate_sealed_fits in blast)+
qed

definition sample_storage :: "(ustr \<times> json) list" where
  "sample_storage =
     [(lit ''endpoint_url'', JStr (endpoint_for AliyunOss (lit ''cn-hangzhou''))),
      (lit ''bucket'', JStr (lit ''b'')), (lit ''access_key_id'', JStr (lit ''k''))]"

definition sample_sealed :: "(ustr \<times> json) list" where
  "sample_sealed = [(lit ''kid'', JStr (lit ''00c0ffee'')), (lit ''has'', JList [JStr (lit ''sk'')]),
     (lit ''b'', JStr (lit ''AQID''))]"

definition sample_settings :: "(ustr \<times> json) list" where
  "sample_settings =
     [(lit ''t'', JStr PAYLOAD_TYPE), (lit ''v'', JInt 2),
      (lit ''meta'', JObj [(lit ''task'', JStr [25163])]),
      (lit ''storage'', JObj sample_storage), (lit ''sealed'', JObj sample_sealed)]"

lemma lit_inject: "lit s = lit t \<longleftrightarrow> s = t"
  by (auto simp: lit_def inj_def intro: inj_map_eq_map [THEN iffD1])

lemma sample_texts: "utf8 (lit ''b'') = Some [98]" "utf8 (lit ''k'') = Some [107]" "lit ''b'' \<noteq> []" "lit ''k'' \<noteq> []"
  "endpoint_for AliyunOss (lit ''cn-hangzhou'') \<noteq> []"
  by (simp_all add: utf8_char_def)

theorem valid_settings_fit_the_device_witness:
  "all_fit META_SIZES (JObj [(lit ''task'', JStr [25163])]) \<and> sealed_fits (JObj sample_sealed)"
proof -
  have v: "version_of (get sample_settings (lit ''v'')) = Inr (Some 2)"
    and t: "get sample_settings (lit ''t'') = JStr PAYLOAD_TYPE"
    by (simp_all add: version_of_def get_def sample_settings_def lit_inject del: lit_simps)
  have "validate_meta (JObj [(lit ''task'', JStr [25163])]) = Inr []"
    by (simp add: validate_meta_clean META_FIELDS_def check_string_clean get_def usable_bytes_def META_SIZES_def
        utf8_char_def)
  moreover have "validate_storage (\<lambda>_. None) (JObj sample_storage) 2 = Inr []"
  proof -
    have "\<not> is_ingest_endpoint (get sample_storage (lit ''endpoint_url''))"
      by (simp add: is_ingest_endpoint_def get_def sample_storage_def INGEST_SCHEME_def)
    moreover have "\<not> region_must_be_typed (endpoint_for AliyunOss (lit ''cn-hangzhou''))"
    proof -
      have "region_label (lit ''cn-hangzhou'')" "\<not> suffix (lit ''-internal'') (lit ''cn-hangzhou'')"
        by (simp_all add: region_label_def region_char_def suffix_to_prefix)
      from region_from_endpoint_for [OF this(1), of AliyunOss] this(2) show ?thesis
        by (simp add: region_must_be_typed_def del: endpoint_for.simps)
    qed
    moreover have "after_scheme (endpoint_for AliyunOss (lit ''cn-hangzhou'')) \<noteq> None"
      by (simp add: after_scheme_def strip_prefix_def)
    moreover have "\<exists>b. utf8 (endpoint_for AliyunOss (lit ''cn-hangzhou'')) = Some b \<and> length b \<le> 127"
    proof -
      have "ascii (endpoint_for AliyunOss (lit ''cn-hangzhou''))" by simp
      from utf8_ascii [OF this] show ?thesis by simp
    qed
    ultimately show ?thesis
      by (simp add: validate_storage_def sample_storage_def get_def string_value_def storage_text_def lit_inject
          STORAGE_FIELDS_def STORAGE_COMMON_def PLAINTEXT_VERSION_def check_string_clean usable_bytes_def
          STORAGE_SIZES_def sample_texts del: lit_simps endpoint_for.simps)
  qed
  moreover have "validate_sealed (JObj sample_sealed) = Inr []"
    by (simp add: validate_sealed_def validate_has_def sample_sealed_def get_def string_value_def lit_inject
        check_string_clean kid_format_def SEALED_FIELDS_def SEALED_HAS_def SEALED_MAX_BYTES_def del: lit_simps)
      (simp add: hex_lower_def check_string_clean)
  ultimately have ok: "validate (\<lambda>_. None) sample_settings = Inr []"
    using v t by (simp add: validate_def validate_versioned_def section_check_def sample_settings_def KNOWN_KEYS_def
        COMMON_KEYS_def PLAINTEXT_VERSION_def lit_inject collect_def unless_def del: lit_simps)
  have "map_of sample_settings (lit ''meta'') = Some (JObj [(lit ''task'', JStr [25163])])"
    "map_of sample_settings (lit ''sealed'') = Some (JObj sample_sealed)"
    by (simp_all add: sample_settings_def lit_inject del: lit_simps)
  then show ?thesis using valid_settings_fit_the_device [OF ok] by blast
qed

text \<open>
  What the generator prints for a cloud is what it reads back: the endpoint made from a provider's
  template names that provider again, gives back the region typed exactly for the clouds whose host
  carries one, and the operator is asked for a region exactly for the one cloud whose host carries none
  but whose requests are signed with one.
\<close>

theorem endpoints_read_back:
  assumes "region_label v" and "p = AliyunOss \<Longrightarrow> \<not> suffix (lit ''-internal'') v"
  shows "provider_from_endpoint (endpoint_for p v) = Some p
    \<and> region_from_endpoint (endpoint_for p v) = (if p_region_source p = FromHost then v else [])
    \<and> region_must_be_typed (endpoint_for p v) = (p_region_source p = Operator)"
proof -
  have "host_for p v \<noteq> []" by (cases p) simp_all
  then have pr: "provider_from_endpoint (endpoint_for p v) = Some p"
    by (simp add: provider_from_endpoint_def host_of_endpoint [OF assms(1)] provider_of_host_for [OF assms(1)])
  have region: "region_from_endpoint (endpoint_for p v) = (if p_region_source p = FromHost then v else [])"
    using assms by (rule region_from_endpoint_for)
  have "v \<noteq> []" using assms(1) by (simp add: region_label_def)
  then have "region_must_be_typed (endpoint_for p v) = (p_region_source p = Operator)"
    using region pr by (cases p) (simp_all add: region_must_be_typed_def del: endpoint_for.simps)
  with pr region show ?thesis by blast
qed

theorem endpoints_read_back_witness:
  "region_from_endpoint (endpoint_for TencentCos (lit ''ap-guangzhou'')) = lit ''ap-guangzhou''"
proof -
  have "region_label (lit ''ap-guangzhou'')" by code_simp
  from endpoints_read_back [OF this, of TencentCos] show ?thesis by simp
qed

text \<open>
  Normalising a configuration is done after one pass: a second pass changes nothing, no text section
  holds a bare number, a bucket destination's prefix is a text that ends in a slash (or of a type that
  is refused), and every other section is left alone.
\<close>

theorem normalisation_settles:
  "normalized (normalized cfg) = normalized cfg
    \<and> (\<forall>k \<in> set TEXT_SECTIONS. no_numbers (get (normalized cfg) k))
    \<and> (\<forall>m. get (normalized cfg) (lit ''storage'') = JObj m \<longrightarrow> \<not> is_ingest_endpoint (get m (lit ''endpoint_url''))
          \<longrightarrow> slashed (get m (lit ''prefix'')))
    \<and> (\<forall>k. k \<notin> set TEXT_SECTIONS \<longrightarrow> get (normalized cfg) k = get cfg k)"
proof -
  have numbers: "\<forall>k \<in> set TEXT_SECTIONS. no_numbers (get (normalized cfg) k)"
    unfolding normalized_def normalize_bare_numbers_def
    by (intro ballI normalize_prefix_numbers foldl_sections_clean) simp
  then have "normalize_bare_numbers (normalized cfg) = normalized cfg"
    unfolding normalize_bare_numbers_def by (rule foldl_sections_id)
  then have "normalized (normalized cfg) = normalized cfg" by (simp add: normalized_def normalize_prefix_id)
  moreover have "get (normalized cfg) k = get cfg k" if "k \<notin> set TEXT_SECTIONS" for k
  proof -
    have "k \<noteq> lit ''storage''" using that by (auto simp: TEXT_SECTIONS_def)
    then show ?thesis
      by (simp add: normalized_def normalize_prefix_get normalize_bare_numbers_def foldl_sections_other [OF that])
  qed
  ultimately show ?thesis using numbers normalize_prefix_slashed by (auto simp: normalized_def)
qed

end
