(* ===== verification/SealedBody.thy ===== *)
theory SealedBody
  imports Settings Envelope
begin

text \<open>
  The sealed half of a version 2 settings QR (\<open>settings_qr/sealed_body.py\<close>): the secrets, the JSON body
  that carries them, the rule for changing a recording key, sealing them into a payload and opening them
  again.
\<close>

section \<open>The lenient base64 of the standard library\<close>

text \<open>
  \<open>base64.urlsafe_b64decode\<close>, character by character: a character outside both alphabets is skipped, and
  padding that completes a quad ends the text. The arguments are the place in the quad, what is left
  over of the last digit and the padding seen.
\<close>

definition b64_lenient :: "nat \<Rightarrow> nat option" where
  "b64_lenient c = (if c = 43 then Some 62 else if c = 47 then Some 63 else b64_value c)"

fun a2b :: "nat \<Rightarrow> nat \<Rightarrow> nat \<Rightarrow> ustr \<Rightarrow> bytes option" where
  "a2b q l pads [] = (if q = 0 then Some [] else None)"
| "a2b q l pads (c # s) =
     (if c = 61 then
        if 2 \<le> q then if 4 \<le> q + pads + 1 then Some [] else a2b q l (pads + 1) s else a2b q l pads s
      else case b64_lenient c of
          None \<Rightarrow> a2b q l pads s
        | Some d \<Rightarrow>
            if q = 0 then a2b 1 d 0 s
            else if q = 1 then map_option ((#) (word_of_nat (l * 4 + d div 16))) (a2b 2 (d mod 16) 0 s)
            else if q = 2 then map_option ((#) (word_of_nat (l * 16 + d div 4))) (a2b 3 (d mod 4) 0 s)
            else map_option ((#) (word_of_nat (l * 64 + d))) (a2b 0 0 0 s))"

datatype body_error = NotJsonObject | UnknownFields "ustr list" | NotText ustr | NotBase64 ustr
  | NotCanonicalKey ustr | DevicesText | DevicesNotIterable | SecretNotText | BadKeyLength ustr nat
  | DevicesNotTexts | ExpiresNotInteger | KeyClearNeedsOld | KeyChangeNeedsOld | EnvelopeTooLarge nat
  | AlreadySealed | NoSealedSection | NoBlob | Sealing seal_error | BodyNotUtf8 | BodyNotJson

definition unb64 :: "ustr \<Rightarrow> ustr \<Rightarrow> body_error + bytes" where
  "unb64 text w =
     (if \<not> ascii text then Inl (NotBase64 w)
      else case a2b 0 0 0 (text @ replicate ((4 - length text mod 4) mod 4) 61) of
             None \<Rightarrow> Inl (NotBase64 w) | Some raw \<Rightarrow> Inr raw)"

definition checked_b64_key :: "json \<Rightarrow> ustr \<Rightarrow> body_error + bytes" where
  "checked_b64_key v w = (case v of
       JStr s \<Rightarrow> bindE (unb64 s w) (\<lambda>raw. if b64url_encode raw \<noteq> s then Inl (NotCanonicalKey w) else unb64 s w)
     | _ \<Rightarrow> Inl (NotText w))"

section \<open>The secrets\<close>

definition RECORDING_KEY_BYTES :: nat where "RECORDING_KEY_BYTES = 32"
definition SEAL_STORAGE_SECRET :: ustr where "SEAL_STORAGE_SECRET = lit ''sk''"
definition SEAL_RECORDING_KEY :: ustr where "SEAL_RECORDING_KEY = lit ''rk''"
definition SEAL_OLD_RECORDING_KEY :: ustr where "SEAL_OLD_RECORDING_KEY = lit ''rko''"
definition SEAL_DEVICES :: ustr where "SEAL_DEVICES = lit ''dev''"
definition SEAL_EXPIRES :: ustr where "SEAL_EXPIRES = lit ''exp''"

record sealed_secrets =
  ss_storage :: "ustr option"
  ss_key :: "bytes option"
  ss_old_key :: "bytes option"
  ss_devices :: "ustr list"
  ss_expires :: "int option"

definition require_key_length :: "ustr \<Rightarrow> bytes option \<Rightarrow> body_error + unit" where
  "require_key_length name key = (case key of
       None \<Rightarrow> Inr ()
     | Some k \<Rightarrow> guardE (length k = RECORDING_KEY_BYTES) (BadKeyLength name (length k)))"

text \<open>The constructor with \<open>__post_init__\<close>, for keys that are bytes and the rest of any type.\<close>

definition is_text :: "json \<Rightarrow> bool" where
  "is_text v = (case v of JStr _ \<Rightarrow> True | _ \<Rightarrow> False)"

definition sealed_init :: "json \<Rightarrow> bytes option \<Rightarrow> bytes option \<Rightarrow> json list \<Rightarrow> json
    \<Rightarrow> body_error + sealed_secrets" where
  "sealed_init storage key old devices expires =
     bindE (guardE (storage = JNull \<or> is_text storage) SecretNotText) (\<lambda>_.
     bindE (require_key_length (lit ''recording_key'') (if key = Some [] then None else key)) (\<lambda>_.
     bindE (require_key_length (lit ''old_recording_key'') old) (\<lambda>_.
     bindE (guardE (list_all is_text devices) DevicesNotTexts) (\<lambda>_.
     bindE (guardE (expires = JNull \<or> is_whole_number expires) ExpiresNotInteger) (\<lambda>_.
       Inr \<lparr>ss_storage = (if storage = JNull then None else Some (string_value storage)),
            ss_key = key, ss_old_key = old, ss_devices = map string_value devices,
            ss_expires = (case expires of JInt i \<Rightarrow> Some i | _ \<Rightarrow> None)\<rparr>)))))"

definition sets_recording_key :: "sealed_secrets \<Rightarrow> bool" where
  "sets_recording_key x \<longleftrightarrow> ss_key x \<noteq> None \<and> ss_key x \<noteq> Some []"

definition clears_recording_key :: "sealed_secrets \<Rightarrow> bool" where
  "clears_recording_key x \<longleftrightarrow> ss_key x = Some []"

definition touches_recording_key :: "sealed_secrets \<Rightarrow> bool" where
  "touches_recording_key x \<longleftrightarrow> ss_key x \<noteq> None"

definition sealed_has :: "sealed_secrets \<Rightarrow> ustr list" where
  "sealed_has x = (if ss_storage x \<noteq> None then [SEAL_STORAGE_SECRET] else [])
     @ (if touches_recording_key x then [SEAL_RECORDING_KEY] else [])"

definition to_body :: "sealed_secrets \<Rightarrow> (ustr \<times> json) list" where
  "to_body x =
     (case ss_storage x of None \<Rightarrow> [] | Some s \<Rightarrow> [(SEAL_STORAGE_SECRET, JStr s)])
     @ (case ss_key x of None \<Rightarrow> []
        | Some k \<Rightarrow> [(SEAL_RECORDING_KEY, JStr (if k = [] then [] else b64url_encode k))])
     @ (case ss_old_key x of None \<Rightarrow> [] | Some k \<Rightarrow> [(SEAL_OLD_RECORDING_KEY, JStr (b64url_encode k))])
     @ (if ss_devices x = [] then [] else [(SEAL_DEVICES, JList (map JStr (ss_devices x)))])
     @ (case ss_expires x of None \<Rightarrow> [] | Some i \<Rightarrow> [(SEAL_EXPIRES, JInt i)])"

definition sealed_empty :: "sealed_secrets \<Rightarrow> bool" where
  "sealed_empty x \<longleftrightarrow> to_body x = []"

definition BODY_FIELDS :: "ustr list" where
  "BODY_FIELDS = [SEAL_STORAGE_SECRET, SEAL_RECORDING_KEY, SEAL_OLD_RECORDING_KEY, SEAL_DEVICES, SEAL_EXPIRES]"

text \<open>\<open>tuple(devices)\<close>: a list's items, an object's keys; anything else but a text is not iterable.\<close>

definition devices_of :: "json \<Rightarrow> body_error + json list" where
  "devices_of v = (case v of
       JStr _ \<Rightarrow> Inl DevicesText
     | JList vs \<Rightarrow> Inr vs
     | JObj m \<Rightarrow> Inr (map (\<lambda>(k, _). JStr k) m)
     | _ \<Rightarrow> Inl DevicesNotIterable)"

definition from_body :: "json \<Rightarrow> body_error + sealed_secrets" where
  "from_body body = (case body of
       JObj m \<Rightarrow>
         let unknown = filter (\<lambda>k. k \<notin> set BODY_FIELDS) (map fst m); rk = get m SEAL_RECORDING_KEY;
             rko = get m SEAL_OLD_RECORDING_KEY;
             devices = (case map_of m SEAL_DEVICES of None \<Rightarrow> JList [] | Some v \<Rightarrow> v)
         in if unknown \<noteq> [] then Inl (UnknownFields (sort unknown))
            else bindE (if rk = JNull then Inr None else if rk = JStr [] then Inr (Some [])
                        else bindE (checked_b64_key rk SEAL_RECORDING_KEY) (\<lambda>k. Inr (Some k))) (\<lambda>key.
                 bindE (guardE (\<not> is_text devices) DevicesText) (\<lambda>_.
                 bindE (if rko = JNull then Inr None
                        else bindE (checked_b64_key rko SEAL_OLD_RECORDING_KEY) (\<lambda>k. Inr (Some k))) (\<lambda>old.
                 bindE (devices_of devices) (\<lambda>ds.
                   sealed_init (get m SEAL_STORAGE_SECRET) key old ds (get m SEAL_EXPIRES)))))
     | _ \<Rightarrow> Inl NotJsonObject)"

section \<open>Sealing and opening\<close>

definition validate_recording_key_change :: "sealed_secrets \<Rightarrow> bool \<Rightarrow> body_error + unit" where
  "validate_recording_key_change x first_provision =
     (if \<not> touches_recording_key x then Inr ()
      else if ss_old_key x \<noteq> None then Inr ()
      else if clears_recording_key x then Inl KeyClearNeedsOld
      else if \<not> first_provision then Inl KeyChangeNeedsOld
      else Inr ())"

definition lift_seal :: "seal_error + 'a \<Rightarrow> body_error + 'a" where
  "lift_seal r = (case r of Inl e \<Rightarrow> Inl (Sealing e) | Inr x \<Rightarrow> Inr x)"

text \<open>
  \<open>seal_secrets\<close> for the published key of the wheel and the ephemeral key drawn. A body holds no float, so
  how a float is written does not matter.
\<close>

definition seal_secrets :: "seal_ext \<Rightarrow> (seal_error + bytes) \<Rightarrow> bytes \<Rightarrow> sealed_secrets \<Rightarrow> bytes option
    \<Rightarrow> body_error + bytes" where
  "seal_secrets S fleet eph x pubkey =
     bindE (case utf8 (dumps (\<lambda>_. []) True (JObj (to_body x))) of None \<Rightarrow> Inl BodyNotUtf8 | Some b \<Rightarrow> Inr b) (\<lambda>text.
     bindE (lift_seal (seal S fleet eph text pubkey)) (\<lambda>blob.
       if length blob > SEALED_MAX_BYTES then Inl (EnvelopeTooLarge (length blob)) else Inr blob))"

definition without :: "ustr \<Rightarrow> (ustr \<times> json) list \<Rightarrow> (ustr \<times> json) list" where
  "without k m = filter (\<lambda>(f, _). f \<noteq> k) m"

definition seal_into :: "seal_ext \<Rightarrow> (seal_error + bytes) \<Rightarrow> bytes \<Rightarrow> (ustr \<times> json) list \<Rightarrow> sealed_secrets
    \<Rightarrow> bytes option \<Rightarrow> body_error + (ustr \<times> json) list" where
  "seal_into S fleet eph cfg x pubkey =
     (if lit ''sealed'' \<in> fst ` set cfg then Inl AlreadySealed
      else let out = (lit ''t'', JStr PAYLOAD_TYPE) # (lit ''v'', JInt (int SEALED_VERSION))
                 # without (lit ''t'') (without (lit ''v'') cfg);
               out = (case get out (lit ''storage'') of
                   JObj m \<Rightarrow> put out (lit ''storage'') (JObj (without (lit ''secret_access_key'') m))
                 | _ \<Rightarrow> out)
           in if sealed_empty x then Inr out
              else bindE (seal_secrets S fleet eph x pubkey) (\<lambda>blob.
                   bindE (lift_seal (blob_key_id blob)) (\<lambda>kid.
                   Inr (put out (lit ''sealed'') (JObj
                     [(lit ''kid'', JStr kid), (lit ''has'', JList (map JStr (sealed_has x))),
                      (lit ''b'', JStr (b64url_encode blob))])))))"

definition open_sealed :: "seal_ext \<Rightarrow> (ustr \<Rightarrow> pyfloat) \<Rightarrow> (ustr \<times> json) list \<Rightarrow> bytes
    \<Rightarrow> body_error + sealed_secrets" where
  "open_sealed S fl payload privkey = (case get payload (lit ''sealed'') of
       JObj m \<Rightarrow> (case map_of m (lit ''b'') of
           None \<Rightarrow> Inl NoBlob
         | Some (JStr text) \<Rightarrow>
             bindE (unb64 text (lit ''sealed.b'')) (\<lambda>blob.
             bindE (lift_seal (unseal S blob privkey)) (\<lambda>raw.
             bindE (case utf8_decode raw of None \<Rightarrow> Inl BodyNotUtf8 | Some t \<Rightarrow> Inr t) (\<lambda>t.
             bindE (case loads fl t of None \<Rightarrow> Inl BodyNotJson | Some v \<Rightarrow> Inr v) from_body)))
         | Some _ \<Rightarrow> Inl (NotText (lit ''sealed.b'')))
     | _ \<Rightarrow> Inl NoSealedSection)"

section \<open>Keys as text\<close>

lemma b64_lenient_char: "d < 64 \<Longrightarrow> b64_lenient (b64_char d) = Some d \<and> b64_char d \<noteq> 61"
  by (auto simp: b64_lenient_def b64_char_def b64_value_def)

definition b64_pad :: "nat \<Rightarrow> ustr" where
  "b64_pad n = replicate ((4 - n mod 4) mod 4) 61"

lemma b64_pad_four: "b64_pad (Suc (Suc (Suc (Suc n)))) = b64_pad n"
  by (simp add: b64_pad_def)

lemma replicate_two: "replicate 2 x = [x, x]"
  by (simp add: numeral_2_eq_2)

lemma a2b_digits:
  "a2b 0 0 0 (map b64_char (b64_digits raw) @ b64_pad (length (b64_digits raw))) = Some raw"
proof (induction raw rule: b64_digits.induct)
  case 1
  show ?case by (simp add: b64_pad_def)
next
  case (2 a)
  have d: "unat a div 4 < 64" "unat a mod 4 * 16 < 64" using unat_div_less [of 64 4 a] by simp_all
  show ?case using d [THEN b64_lenient_char] byte_split [of 0 a] by (simp add: b64_pad_def replicate_two)
next
  case (3 a b)
  have d: "unat a div 4 < 64" "unat a mod 4 * 16 + unat b div 16 < 64" "unat b mod 16 * 4 < 64"
    using unat_div_less [of 64 4 a] unat_div_less [of 16 16 b] by auto
  have m: "(unat a mod 4 * 16 + unat b div 16) mod 16 = unat b div 16"
    "(unat a mod 4 * 16 + unat b div 16) div 16 = unat a mod 4"
    using unat_div_less [of 16 16 b] by simp_all
  show ?case using d [THEN b64_lenient_char] m by (simp add: b64_pad_def)
next
  case (4 a b c rest)
  have d: "unat a div 4 < 64" "unat a mod 4 * 16 + unat b div 16 < 64" "unat b mod 16 * 4 + unat c div 64 < 64"
    "unat c mod 64 < 64"
    using unat_div_less [of 64 4 a] unat_div_less [of 16 16 b] unat_div_less [of 4 64 c] by auto
  have m: "(unat a mod 4 * 16 + unat b div 16) mod 16 = unat b div 16"
    "(unat a mod 4 * 16 + unat b div 16) div 16 = unat a mod 4"
    "(unat b mod 16 * 4 + unat c div 64) mod 4 = unat c div 64"
    "(unat b mod 16 * 4 + unat c div 64) div 4 = unat b mod 16"
    using unat_div_less [of 16 16 b] unat_div_less [of 4 64 c] by simp_all
  show ?case using 4 d [THEN b64_lenient_char] m by (simp add: b64_pad_four)
qed

lemma unb64_encode [simp]: "unb64 (b64url_encode raw) w = Inr raw"
proof -
  have "ascii (b64url_encode raw)" by (rule b64_alphabet_ascii [OF b64url_encode_alphabet])
  then show ?thesis using a2b_digits [of raw] by (simp add: unb64_def b64url_encode_def b64_pad_def)
qed

lemma checked_b64_key_iff: "checked_b64_key v w = Inr raw \<longleftrightarrow> v = JStr (b64url_encode raw)"
proof
  assume *: "checked_b64_key v w = Inr raw"
  then obtain s where v: "v = JStr s" by (cases v) (simp_all add: checked_b64_key_def)
  with * obtain r where "unb64 s w = Inr r" "b64url_encode r = s" "unb64 s w = Inr raw"
    by (auto simp: checked_b64_key_def bindE_eq_Inr split: if_splits)
  then show "v = JStr (b64url_encode raw)" using v by auto
qed (simp add: checked_b64_key_def)

lemma b64url_encode_Nil [simp]: "b64url_encode [] = []" "b64url_encode raw = [] \<longleftrightarrow> raw = []"
  using length_b64url_encode [of raw] by (cases raw; auto simp: b64url_encode_def)+

section \<open>Bodies\<close>

definition sealed_ok :: "sealed_secrets \<Rightarrow> bool" where
  "sealed_ok x \<longleftrightarrow> (\<forall>k. ss_key x = Some k \<longrightarrow> k = [] \<or> length k = 32) \<and> (\<forall>k. ss_old_key x = Some k \<longrightarrow> length k = 32)"

definition sealed_text_ok :: "sealed_secrets \<Rightarrow> bool" where
  "sealed_text_ok x \<longleftrightarrow> (\<forall>s. ss_storage x = Some s \<longrightarrow> list_all scalar s) \<and> list_all (list_all scalar) (ss_devices x)"

lemma field_names: "distinct BODY_FIELDS"
  by code_simp

lemmas body_names = SEAL_STORAGE_SECRET_def SEAL_RECORDING_KEY_def SEAL_OLD_RECORDING_KEY_def SEAL_DEVICES_def
  SEAL_EXPIRES_def

lemma names_differ [simp]:
  "SEAL_STORAGE_SECRET \<noteq> SEAL_RECORDING_KEY" "SEAL_STORAGE_SECRET \<noteq> SEAL_OLD_RECORDING_KEY"
  "SEAL_STORAGE_SECRET \<noteq> SEAL_DEVICES" "SEAL_STORAGE_SECRET \<noteq> SEAL_EXPIRES"
  "SEAL_RECORDING_KEY \<noteq> SEAL_OLD_RECORDING_KEY" "SEAL_RECORDING_KEY \<noteq> SEAL_DEVICES"
  "SEAL_RECORDING_KEY \<noteq> SEAL_EXPIRES" "SEAL_OLD_RECORDING_KEY \<noteq> SEAL_DEVICES"
  "SEAL_OLD_RECORDING_KEY \<noteq> SEAL_EXPIRES" "SEAL_DEVICES \<noteq> SEAL_EXPIRES"
  using field_names by (simp_all add: BODY_FIELDS_def)

lemma to_body_map:
  "map_of (to_body x) SEAL_STORAGE_SECRET = map_option JStr (ss_storage x)"
  "map_of (to_body x) SEAL_RECORDING_KEY = map_option (\<lambda>k. JStr (b64url_encode k)) (ss_key x)"
  "map_of (to_body x) SEAL_OLD_RECORDING_KEY = map_option (\<lambda>k. JStr (b64url_encode k)) (ss_old_key x)"
  "map_of (to_body x) SEAL_DEVICES = (if ss_devices x = [] then None else Some (JList (map JStr (ss_devices x))))"
  "map_of (to_body x) SEAL_EXPIRES = map_option JInt (ss_expires x)"
  using names_differ [symmetric]
  by (auto simp: to_body_def map_add_def split: option.splits)

lemma to_body_keys: "set (map fst (to_body x)) \<subseteq> set BODY_FIELDS" "distinct (map fst (to_body x))"
  using names_differ [symmetric] by (auto simp: to_body_def BODY_FIELDS_def split: option.splits)

lemma from_body_to_body:
  assumes "sealed_ok x"
  shows "from_body (JObj (to_body x)) = Inr x"
proof -
  have known: "filter (\<lambda>k. k \<notin> set BODY_FIELDS) (map fst (to_body x)) = []"
    using to_body_keys(1) [of x] by (auto simp: filter_empty_conv)
  have keys: "ss_key x = Some k \<Longrightarrow> k = [] \<or> length k = RECORDING_KEY_BYTES"
    "ss_old_key x = Some k \<Longrightarrow> length k = RECORDING_KEY_BYTES" for k
    using assms by (auto simp: sealed_ok_def RECORDING_KEY_BYTES_def)
  have rk: "(if get (to_body x) SEAL_RECORDING_KEY = JNull then Inr None
      else if get (to_body x) SEAL_RECORDING_KEY = JStr [] then Inr (Some [])
      else bindE (checked_b64_key (get (to_body x) SEAL_RECORDING_KEY) w) (\<lambda>k. Inr (Some k))) = Inr (ss_key x)" for w
    using checked_b64_key_iff by (cases "ss_key x") (auto simp: get_def to_body_map bindE_eq_Inr)
  have rko: "(if get (to_body x) SEAL_OLD_RECORDING_KEY = JNull then Inr None
      else bindE (checked_b64_key (get (to_body x) SEAL_OLD_RECORDING_KEY) w) (\<lambda>k. Inr (Some k))) = Inr (ss_old_key x)" for w
    using checked_b64_key_iff by (cases "ss_old_key x") (auto simp: get_def to_body_map bindE_eq_Inr)
  have devices: "devices_of (case map_of (to_body x) SEAL_DEVICES of None \<Rightarrow> JList [] | Some v \<Rightarrow> v)
      = Inr (map JStr (ss_devices x))"
    "\<not> is_text (case map_of (to_body x) SEAL_DEVICES of None \<Rightarrow> JList [] | Some v \<Rightarrow> v)"
    by (simp_all add: to_body_map devices_of_def is_text_def)
  have "sealed_init (get (to_body x) SEAL_STORAGE_SECRET) (ss_key x) (ss_old_key x) (map JStr (ss_devices x))
      (get (to_body x) SEAL_EXPIRES) = Inr x"
    using keys
    by (cases "ss_storage x"; cases "ss_expires x"; cases "ss_key x"; cases "ss_old_key x")
      (auto simp: sealed_init_def require_key_length_def get_def to_body_map is_text_def is_whole_number_def
        string_value_def list_all_iff map_idI)
  then show ?thesis by (simp add: from_body_def Let_def known rk rko devices)
qed

lemma to_body_json_ok: "sealed_text_ok x \<Longrightarrow> json_ok (JObj (to_body x))"
proof -
  assume x: "sealed_text_ok x"
  have "list_all scalar k" if "k \<in> set BODY_FIELDS" for k
    using that by (auto simp: BODY_FIELDS_def body_names scalar_def)
  then have "list_all scalar k" if "(k, v) \<in> set (to_body x)" for k v
    using that to_body_keys(1) [of x] by force
  moreover have "list_all scalar (b64url_encode k)" for k
  proof -
    have "ascii (b64url_encode k)" by (rule b64_alphabet_ascii [OF b64url_encode_alphabet])
    then show ?thesis by (auto simp: ascii_def list_all_iff scalar_def)
  qed
  then have "json_ok v" if "(k, v) \<in> set (to_body x)" for k v
    using that x by (cases "ss_storage x") (auto simp: to_body_def sealed_text_ok_def list_all_iff split: option.splits if_splits)
  ultimately show ?thesis using to_body_keys(2) [of x] by (auto simp: list_all_iff)
qed

text \<open>A blob of the secrets opens to them.\<close>

lemma seal_secrets_opens:
  assumes ok: "seal_ext_ok S" and sk: "length sk = KEY_LEN" and x: "sealed_ok x" "sealed_text_ok x"
    and sealed: "seal_secrets S fleet eph x (Some (se_public S sk)) = Inr blob"
  obtains raw body where "unseal S blob sk = Inr raw" "utf8_decode raw = Some body"
    "loads fl body = Some (JObj (to_body x))" "blob_key_id blob = Inr (hex (fleet_kid S (se_public S sk)))"
    "length blob \<le> SEALED_MAX_BYTES"
proof -
  obtain raw where raw: "utf8 (dumps (\<lambda>_. []) True (JObj (to_body x))) = Some raw"
    "Option.bind (utf8_decode raw) (loads fl) = Some (JObj (to_body x))"
    using loads_utf8_dumps [OF to_body_json_ok [OF x(2)]] by blast
  from sealed raw(1) have blob: "seal S fleet eph raw (Some (se_public S sk)) = Inr blob"
    "length blob \<le> SEALED_MAX_BYTES"
    by (auto simp: seal_secrets_def lift_seal_def bindE_eq_Inr split: sum.splits if_splits)
  have "length (se_public S sk) = 32" using ok by (simp add: seal_ext_ok_def)
  with sealed_opens [OF ok sk sk blob(1)] have "unseal S blob sk = Inr raw"
    "blob_key_id blob = Inr (hex (fleet_kid S (se_public S sk)))" by (simp_all add: key_id_eq)
  with raw(2) blob(2) that show thesis by (auto simp: bind_eq_Some_conv)
qed

lemma without_key: "k \<notin> fst ` set (without k m)"
  by (auto simp: without_def)

lemma map_of_without: "map_of (without k m) k' = (if k' = k then None else map_of m k')"
  by (induction m) (auto simp: without_def)

lemma get_without: "get (without k m) k' = (if k' = k then JNull else get m k')"
  by (simp add: get_def map_of_without)

lemma get_Cons: "get ((k, v) # m) k' = (if k' = k then v else get m k')"
  by (simp add: get_def)

lemma get_put_section:
  "k \<noteq> s \<Longrightarrow> get (case get out s of JObj m \<Rightarrow> put out s (g m) | _ \<Rightarrow> out) k = get out k"
  "get (case get out s of JObj m \<Rightarrow> put out s (JObj (without f m)) | _ \<Rightarrow> out) s = JObj m' \<Longrightarrow> f \<notin> fst ` set m'"
  using without_key [of f] by (auto split: json.splits simp del: put.simps)

text \<open>The payload around the envelope.\<close>

definition sealed_base :: "(ustr \<times> json) list \<Rightarrow> (ustr \<times> json) list" where
  "sealed_base cfg =
     (let out = (lit ''t'', JStr PAYLOAD_TYPE) # (lit ''v'', JInt (int SEALED_VERSION))
        # without (lit ''t'') (without (lit ''v'') cfg)
      in case get out (lit ''storage'') of
           JObj m \<Rightarrow> put out (lit ''storage'') (JObj (without (lit ''secret_access_key'') m))
         | _ \<Rightarrow> out)"

lemma sealed_base_get:
  "get (sealed_base cfg) (lit ''t'') = JStr PAYLOAD_TYPE" "get (sealed_base cfg) (lit ''v'') = JInt 2"
  "get (sealed_base cfg) (lit ''storage'') = JObj m \<Longrightarrow> lit ''secret_access_key'' \<notin> fst ` set m"
  "k \<notin> {lit ''t'', lit ''v'', lit ''storage''} \<Longrightarrow> get (sealed_base cfg) k = get cfg k"
  "get (sealed_base cfg) (lit ''storage'') = (case get cfg (lit ''storage'') of
      JObj m \<Rightarrow> JObj (filter (\<lambda>(f, _). f \<noteq> lit ''secret_access_key'') m) | v \<Rightarrow> v)"
proof -
  let ?out = "(lit ''t'', JStr PAYLOAD_TYPE) # (lit ''v'', JInt (int SEALED_VERSION))
        # without (lit ''t'') (without (lit ''v'') cfg)"
  have base: "sealed_base cfg = (case get ?out (lit ''storage'') of
      JObj m \<Rightarrow> put ?out (lit ''storage'') (JObj (without (lit ''secret_access_key'') m)) | _ \<Rightarrow> ?out)"
    by (simp add: sealed_base_def Let_def del: lit_simps)
  have other: "get (sealed_base cfg) k = get ?out k" if "k \<noteq> lit ''storage''" for k
    using that unfolding base by (rule get_put_section(1))
  have get_out: "get ?out (lit ''t'') = JStr PAYLOAD_TYPE" "get ?out (lit ''v'') = JInt 2"
    "k \<notin> {lit ''t'', lit ''v''} \<Longrightarrow> get ?out k = get cfg k" for k
    by (simp_all add: get_Cons get_without SEALED_VERSION_def lit_inject del: lit_simps)
  show "get (sealed_base cfg) (lit ''t'') = JStr PAYLOAD_TYPE" "get (sealed_base cfg) (lit ''v'') = JInt 2"
    using other get_out by (simp_all add: lit_inject del: lit_simps)
  show "k \<notin> {lit ''t'', lit ''v'', lit ''storage''} \<Longrightarrow> get (sealed_base cfg) k = get cfg k"
    using other get_out(3) by (simp del: lit_simps)
  show "get (sealed_base cfg) (lit ''storage'') = JObj m \<Longrightarrow> lit ''secret_access_key'' \<notin> fst ` set m"
    unfolding base by (rule get_put_section(2))
  have "get ?out (lit ''storage'') = get cfg (lit ''storage'')"
    by (intro get_out(3)) (simp add: lit_inject del: lit_simps)
  then show "get (sealed_base cfg) (lit ''storage'') = (case get cfg (lit ''storage'') of
      JObj m \<Rightarrow> JObj (filter (\<lambda>(f, _). f \<noteq> lit ''secret_access_key'') m) | v \<Rightarrow> v)"
    unfolding base using without_def [of "lit ''secret_access_key''"]
    by (cases "get cfg (lit ''storage'')") (simp_all del: lit_simps put.simps)
qed

lemma seal_into_eq:
  "seal_into S fleet eph cfg x pubkey =
     (if lit ''sealed'' \<in> fst ` set cfg then Inl AlreadySealed
      else if sealed_empty x then Inr (sealed_base cfg)
      else bindE (seal_secrets S fleet eph x pubkey) (\<lambda>blob.
           bindE (lift_seal (blob_key_id blob)) (\<lambda>kid.
           Inr (put (sealed_base cfg) (lit ''sealed'') (JObj
             [(lit ''kid'', JStr kid), (lit ''has'', JList (map JStr (sealed_has x))),
              (lit ''b'', JStr (b64url_encode blob))])))))"
  by (simp add: seal_into_def sealed_base_def Let_def del: lit_simps)

text \<open>The emitted section: what \<open>validate\<close> says of it.\<close>

lemma hex_lower_hex: "list_all hex_lower (hex bs)"
proof -
  have "hex_lower (hex_digit n)" if "n < 16" for n using that by (simp add: hex_lower_def hex_digit_def)
  then show ?thesis using nibbles by (auto simp: hex_def hex_byte_def list_all_iff)
qed

lemma sealed_has_known: "set (sealed_has x) \<subseteq> set SEALED_HAS"
  by (auto simp: sealed_has_def SEALED_HAS_def body_names)

lemma validate_has_known:
  assumes "set hs \<subseteq> set SEALED_HAS"
  shows "validate_has (JList (map JStr hs)) = (if hs = [] then err (lit ''sealed.has'') HasEmpty else [])"
proof -
  have "list_all (\<lambda>h. case h of JStr _ \<Rightarrow> True | _ \<Rightarrow> False) (map JStr hs)" by (simp add: list_all_iff)
  moreover have "map (\<lambda>h. if string_value h \<in> set SEALED_HAS then [] else err w (HasUnknown (string_value h)))
      (map JStr hs) = map (\<lambda>_. []) hs" for w
    using assms by (auto simp: string_value_def)
  then have "concat (map (\<lambda>h. if string_value h \<in> set SEALED_HAS then [] else err w (HasUnknown (string_value h)))
      (map JStr hs)) = []" for w by simp
  ultimately show ?thesis by (simp add: validate_has_def Let_def del: lit_simps)
qed

lemma validate_sealed_emitted:
  assumes "length kid = 4" "length blob \<le> SEALED_MAX_BYTES" "blob \<noteq> []"
  shows "validate_sealed (JObj [(lit ''kid'', JStr (hex kid)), (lit ''has'', JList (map JStr (sealed_has x))),
      (lit ''b'', JStr (b64url_encode blob))])
    = Inr (if sealed_has x = [] then err (lit ''sealed.has'') HasEmpty else [])"
proof -
  have "hex kid \<noteq> []" using assms(1) by (auto simp: hex_def hex_byte_def)
  then have kid: "check_string w (JStr (hex kid)) True None (Some 8) = Inr []" "kid_format (hex kid)" for w
    using assms(1) hex_lower_hex by (simp_all add: check_string_clean kid_format_def)
  have "(length blob * 4 + 2) div 3 \<le> (384 * 4 + 2) div 3"
    using assms(2) by (intro div_le_mono) (simp add: SEALED_MAX_BYTES_def)
  then have b: "check_string w (JStr (b64url_encode blob)) True None (Some ((SEALED_MAX_BYTES * 4 + 2) div 3)) = Inr []"
    for w using assms(3) by (simp add: check_string_clean length_b64url_encode SEALED_MAX_BYTES_def)
  show ?thesis using kid b validate_has_known [OF sealed_has_known, of x]
    by (simp add: validate_sealed_def get_Cons SEALED_FIELDS_def lit_inject string_value_def collect_def unless_def
        del: lit_simps)
qed

text \<open>What sealing into a payload gives.\<close>

lemma seal_into_opens:
  assumes ok: "seal_ext_ok S" and sk: "length sk = KEY_LEN" and x: "sealed_ok x" "sealed_text_ok x"
    and "\<not> sealed_empty x" and out: "seal_into S fleet eph cfg x (Some (se_public S sk)) = Inr out"
  shows "open_sealed S fl out sk = Inr x" "k \<noteq> lit ''sealed'' \<Longrightarrow> get out k = get (sealed_base cfg) k"
    "validate_sealed (get out (lit ''sealed''))
      = Inr (if sealed_has x = [] then err (lit ''sealed.has'') HasEmpty else [])"
    "\<exists>b. get out (lit ''sealed'') = JObj [(lit ''kid'', JStr (hex (fleet_kid S (se_public S sk)))),
       (lit ''has'', JList (map JStr (sealed_has x))), (lit ''b'', JStr b)]"
proof -
  from out assms(5) obtain blob where sealed: "seal_secrets S fleet eph x (Some (se_public S sk)) = Inr blob"
    by (auto simp: seal_into_eq bindE_eq_Inr split: if_splits)
  obtain raw body where blob: "unseal S blob sk = Inr raw" "utf8_decode raw = Some body"
    "loads fl body = Some (JObj (to_body x))" "blob_key_id blob = Inr (hex (fleet_kid S (se_public S sk)))"
    "length blob \<le> SEALED_MAX_BYTES"
    using seal_secrets_opens [OF ok sk x sealed] by metis
  let ?section = "JObj [(lit ''kid'', JStr (hex (fleet_kid S (se_public S sk)))),
     (lit ''has'', JList (map JStr (sealed_has x))), (lit ''b'', JStr (b64url_encode blob))]"
  have out': "out = put (sealed_base cfg) (lit ''sealed'') ?section"
    using out assms(5) sealed blob(4) by (simp add: seal_into_eq lift_seal_def del: lit_simps split: if_splits)
  then have sect: "get out (lit ''sealed'') = ?section" by simp
  show "open_sealed S fl out sk = Inr x"
    using sect blob from_body_to_body [OF x(1)]
    by (simp add: open_sealed_def lit_inject lift_seal_def del: lit_simps)
  show "k \<noteq> lit ''sealed'' \<Longrightarrow> get out k = get (sealed_base cfg) k"
    unfolding out' by (simp del: lit_simps)
  have "blob \<noteq> []" using blob(4) by (auto simp: blob_key_id_def seal_lengths)
  then show "validate_sealed (get out (lit ''sealed''))
      = Inr (if sealed_has x = [] then err (lit ''sealed.has'') HasEmpty else [])"
    unfolding sect by (intro validate_sealed_emitted length_fleet_kid ok blob(5))
  show "\<exists>b. get out (lit ''sealed'') = JObj [(lit ''kid'', JStr (hex (fleet_kid S (se_public S sk)))),
      (lit ''has'', JList (map JStr (sealed_has x))), (lit ''b'', JStr b)]"
    using sect by blast
qed

section \<open>Properties\<close>

text \<open>
  C19. Sealing a configuration and opening the payload again gives back exactly the secrets, through the
  JSON body, the envelope and base64, for the holder of the private key. The payload around the envelope is the
  configuration as it was, marked as a settings payload of the sealed version, with nothing removed but the
  storage section's secret, of which no copy is left in the clear (a Wi-Fi passphrase is not sealed in this
  version and stays where it was). The envelope section names the fleet key by its id and lists just the
  secrets sealed in it, and \<open>validate\<close> passes it unless there is neither a storage secret nor a key change to
  announce.
\<close>

theorem sealed_settings_open_to_the_secrets:
  assumes "seal_ext_ok S" and "length sk = KEY_LEN" and "sealed_ok x" and "sealed_text_ok x"
    and "\<not> sealed_empty x" and "seal_into S fleet eph cfg x (Some (se_public S sk)) = Inr out"
  shows "open_sealed S fl out sk = Inr x
    \<and> get out (lit ''v'') = JInt 2 \<and> get out (lit ''t'') = JStr (lit ''visio-settings'')
    \<and> get out (lit ''storage'') = (case get cfg (lit ''storage'') of
         JObj m \<Rightarrow> JObj (filter (\<lambda>(f, _). f \<noteq> lit ''secret_access_key'') m) | v \<Rightarrow> v)
    \<and> (\<exists>b. get out (lit ''sealed'') = JObj [(lit ''kid'', JStr (hex (fleet_kid S (se_public S sk)))),
         (lit ''has'', JList (map JStr ((if ss_storage x = None then [] else [lit ''sk''])
           @ (if touches_recording_key x then [lit ''rk''] else [])))), (lit ''b'', JStr b)])
    \<and> (\<forall>m. get out (lit ''storage'') = JObj m \<longrightarrow> lit ''secret_access_key'' \<notin> fst ` set m)
    \<and> (\<forall>k. k \<notin> {lit ''t'', lit ''v'', lit ''storage'', lit ''sealed''} \<longrightarrow> get out k = get cfg k)
    \<and> (validate_sealed (get out (lit ''sealed'')) = Inr [] \<longleftrightarrow> ss_storage x \<noteq> None \<or> touches_recording_key x)"
proof -
  note opens = seal_into_opens [OF assms]
  have v: "get out (lit ''v'') = JInt 2" and t: "get out (lit ''t'') = JStr (lit ''visio-settings'')"
    and storage: "get out (lit ''storage'') = get (sealed_base cfg) (lit ''storage'')"
    using opens(2) sealed_base_get(1,2) [of cfg] by (simp_all add: lit_inject PAYLOAD_TYPE_def del: lit_simps)
  have has: "sealed_has x = (if ss_storage x = None then [] else [lit ''sk''])
      @ (if touches_recording_key x then [lit ''rk''] else [])"
    by (simp add: sealed_has_def SEAL_STORAGE_SECRET_def SEAL_RECORDING_KEY_def del: lit_simps)
  have other: "get out k = get cfg k" if "k \<notin> {lit ''t'', lit ''v'', lit ''storage'', lit ''sealed''}" for k
    using opens(2) [of k] sealed_base_get(4) [of k cfg] that by (simp del: lit_simps)
  have "validate_sealed (get out (lit ''sealed'')) = Inr [] \<longleftrightarrow> sealed_has x \<noteq> []"
    unfolding opens(3) by (auto simp: err_def)
  then have "validate_sealed (get out (lit ''sealed'')) = Inr [] \<longleftrightarrow> ss_storage x \<noteq> None \<or> touches_recording_key x"
    by (auto simp: sealed_has_def)
  with opens(1) v t other show ?thesis
    using storage sealed_base_get(5) [of cfg] sealed_base_get(3) [of cfg] opens(4) [unfolded has]
    by (intro conjI; (simp only:)?) blast+
qed

definition sample_secrets :: sealed_secrets where
  "sample_secrets = \<lparr>ss_storage = Some (lit ''s''), ss_key = None, ss_old_key = None, ss_devices = [], ss_expires = None\<rparr>"

theorem sealed_settings_open_to_the_secrets_witness:
  "\<exists>out. seal_into sample_seal (Inl NotX25519) (replicate 32 4)
       [(lit ''storage'', JObj [(lit ''bucket'', JStr (lit ''b'')), (lit ''secret_access_key'', JStr (lit ''s''))])] sample_secrets (Some (replicate 32 9)) = Inr out
     \<and> open_sealed sample_seal (\<lambda>_. NaN) out (replicate 32 9) = Inr sample_secrets
     \<and> get out (lit ''storage'') = JObj [(lit ''bucket'', JStr (lit ''b''))]"
proof -
  let ?cfg = "[(lit ''storage'', JObj [(lit ''bucket'', JStr (lit ''b'')), (lit ''secret_access_key'', JStr (lit ''s''))])]"
  let ?pub = "se_public sample_seal (replicate 32 9)"
  have pub: "?pub = replicate 32 9" by (simp add: sample_seal_def)
  have x: "sealed_ok sample_secrets" "sealed_text_ok sample_secrets" "\<not> sealed_empty sample_secrets"
    by (simp_all add: sealed_ok_def sealed_text_ok_def sample_secrets_def scalar_def sealed_empty_def to_body_def)
  have sk: "length (replicate 32 (9 :: byte)) = KEY_LEN" by (simp add: seal_lengths)
  obtain raw where raw: "utf8 (dumps (\<lambda>_. []) True (JObj (to_body sample_secrets))) = Some raw" "length raw = 10"
    by (simp add: to_body_def sample_secrets_def SEAL_STORAGE_SECRET_def json_string_def json_char_def utf8_char_def)
  have "\<exists>blob. seal sample_seal (Inl NotX25519) (replicate 32 4) raw (Some ?pub) = Inr blob \<and> length blob = 66"
    using seal_parts [OF sample_seal_ok, of ?pub "replicate 32 4"] raw(2) length_fleet_kid [OF sample_seal_ok]
    by (simp add: seal_def raw_public_def pub seal_lengths) (simp add: sample_seal_def length_toy_mac seal_lengths)
  then obtain blob where blob: "seal sample_seal (Inl NotX25519) (replicate 32 4) raw (Some ?pub) = Inr blob"
    "length blob = 66" by blast
  have "blob_key_id blob = Inr (hex (fleet_kid sample_seal ?pub))"
    using sealed_opens [OF sample_seal_ok sk sk blob(1)] key_id_eq [of ?pub sample_seal] pub by simp
  then obtain out where out: "seal_into sample_seal (Inl NotX25519) (replicate 32 4) ?cfg sample_secrets (Some ?pub)
      = Inr out" "out = put (sealed_base ?cfg) (lit ''sealed'') (JObj
        [(lit ''kid'', JStr (hex (fleet_kid sample_seal ?pub))), (lit ''has'', JList (map JStr (sealed_has sample_secrets))),
         (lit ''b'', JStr (b64url_encode blob))])"
    using x(3) raw blob by (simp add: seal_into_eq seal_secrets_def lift_seal_def SEALED_MAX_BYTES_def lit_inject del: lit_simps)
  note opened = sealed_settings_open_to_the_secrets [OF sample_seal_ok sk x out(1)]
  have "get out (lit ''storage'') = JObj [(lit ''bucket'', JStr (lit ''b''))]"
    using opened [THEN conjunct2, THEN conjunct2, THEN conjunct2, THEN conjunct1]
    by (simp add: get_Cons lit_inject del: lit_simps)
  with opened [THEN conjunct1] out(1) pub show ?thesis by auto
qed

text \<open>
  C20. Nothing turns into a key change by accident: a body that opens at all asks to clear the recording
  key exactly when its \<open>rk\<close> is the empty text, to set one exactly when it is the canonical base64url of
  32 bytes, and to leave it alone when it is absent; an old key, too, is 32 bytes in canonical form.
\<close>

theorem body_never_clears_by_accident:
  assumes "from_body (JObj m) = Inr x"
  shows "(clears_recording_key x \<longleftrightarrow> get m SEAL_RECORDING_KEY = JStr [])
    \<and> (touches_recording_key x \<longleftrightarrow> get m SEAL_RECORDING_KEY \<noteq> JNull)
    \<and> (sets_recording_key x \<longleftrightarrow> (\<exists>k. length k = 32 \<and> ss_key x = Some k
          \<and> get m SEAL_RECORDING_KEY = JStr (b64url_encode k)))
    \<and> (\<forall>k. ss_old_key x = Some k \<longleftrightarrow> length k = 32 \<and> get m SEAL_OLD_RECORDING_KEY = JStr (b64url_encode k))
    \<and> (\<forall>s. ss_storage x = Some s \<longleftrightarrow> get m SEAL_STORAGE_SECRET = JStr s)"
proof -
  obtain key old ds where
    rk: "(if get m SEAL_RECORDING_KEY = JNull then Inr None else if get m SEAL_RECORDING_KEY = JStr [] then Inr (Some [])
      else bindE (checked_b64_key (get m SEAL_RECORDING_KEY) SEAL_RECORDING_KEY) (\<lambda>k. Inr (Some k))) = Inr key"
    and rko: "(if get m SEAL_OLD_RECORDING_KEY = JNull then Inr None
      else bindE (checked_b64_key (get m SEAL_OLD_RECORDING_KEY) SEAL_OLD_RECORDING_KEY) (\<lambda>k. Inr (Some k))) = Inr old"
    and init: "sealed_init (get m SEAL_STORAGE_SECRET) key old ds (get m SEAL_EXPIRES) = Inr x"
    using assms by (auto simp: from_body_def Let_def bindE_eq_Inr split: if_splits)
  from init have x: "ss_key x = key" "ss_old_key x = old" "\<forall>k. key = Some k \<longrightarrow> k = [] \<or> length k = 32"
    "\<forall>k. old = Some k \<longrightarrow> length k = 32"
    "ss_storage x = (if get m SEAL_STORAGE_SECRET = JNull then None else Some (string_value (get m SEAL_STORAGE_SECRET)))"
    "get m SEAL_STORAGE_SECRET = JNull \<or> is_text (get m SEAL_STORAGE_SECRET)"
    by (auto simp: sealed_init_def bindE_eq_Inr require_key_length_def RECORDING_KEY_BYTES_def split: option.splits if_splits)
  have rk': "key = (case get m SEAL_RECORDING_KEY of JNull \<Rightarrow> None | _ \<Rightarrow> key)"
    "get m SEAL_RECORDING_KEY \<noteq> JNull \<longleftrightarrow> (\<exists>k. key = Some k \<and> get m SEAL_RECORDING_KEY = JStr (b64url_encode k))"
    using rk by (auto simp: bindE_eq_Inr checked_b64_key_iff split: if_splits json.splits)
  have rko': "old = Some k \<longleftrightarrow> length k = 32 \<and> get m SEAL_OLD_RECORDING_KEY = JStr (b64url_encode k)" for k
    using rko x(4) by (auto simp: bindE_eq_Inr checked_b64_key_iff split: if_splits)
  have storage: "ss_storage x = Some s \<longleftrightarrow> get m SEAL_STORAGE_SECRET = JStr s" for s
    using x(5,6) by (auto simp: is_text_def string_value_def split: json.splits)
  show ?thesis
  proof (cases key)
    case None
    then have "get m SEAL_RECORDING_KEY = JNull" using rk' by auto
    then show ?thesis using None x rko' storage
      by (simp add: clears_recording_key_def touches_recording_key_def sets_recording_key_def)
  next
    case (Some k)
    then have "get m SEAL_RECORDING_KEY = JStr (b64url_encode k)" using rk rk'(2) by (auto split: if_splits)
    then show ?thesis using Some x rko' storage
      by (auto simp: clears_recording_key_def touches_recording_key_def sets_recording_key_def)
  qed
qed

theorem body_never_clears_by_accident_witness:
  "\<exists>x. from_body (JObj [(SEAL_RECORDING_KEY, JStr []), (SEAL_OLD_RECORDING_KEY, JStr (b64url_encode (replicate 32 7)))]) = Inr x
     \<and> clears_recording_key x"
proof -
  let ?m = "[(SEAL_RECORDING_KEY, JStr []), (SEAL_OLD_RECORDING_KEY, JStr (b64url_encode (replicate 32 7)))]"
  have rko: "checked_b64_key (JStr (b64url_encode (replicate 32 7))) w = Inr (replicate 32 7)" for w
    by (simp add: checked_b64_key_iff)
  have "\<exists>x. from_body (JObj ?m) = Inr x"
    using names_differ [symmetric] rko
    by (simp add: from_body_def get_Cons get_def BODY_FIELDS_def Let_def is_text_def devices_of_def sealed_init_def
        require_key_length_def RECORDING_KEY_BYTES_def)
  then obtain x where x: "from_body (JObj ?m) = Inr x" by blast
  then show ?thesis using body_never_clears_by_accident [OF x] by (auto simp: get_Cons)
qed

text \<open>
  A payload sealed only to restrict it (to devices, or in time) announces nothing, and \<open>validate\<close> refuses
  it: such a code cannot be printed.
\<close>

theorem restriction_alone_is_refused:
  assumes "seal_ext_ok S" and "length sk = KEY_LEN" and "sealed_ok x" and "sealed_text_ok x"
    and "\<not> sealed_empty x" and "seal_into S fleet eph cfg x (Some (se_public S sk)) = Inr out"
    and "ss_storage x = None" and "\<not> touches_recording_key x"
  shows "validate_sealed (get out (lit ''sealed'')) = Inr (err (lit ''sealed.has'') HasEmpty)"
  using seal_into_opens(3) [OF assms(1-6)] assms(7,8) by (simp add: sealed_has_def)

end
