(* ===== verification/McapFile.thy ===== *)
theory McapFile
  imports Registry Text "HOL-Library.Multiset" "HOL-Library.List_Lexorder"
begin

text \<open>
  Recordings: the MCAP writer with its rotation into parts (\<open>mcap/writer.py\<close>), the replay of a file as
  rows (\<open>mcap/reader.py\<close>), and the recording endpoint (\<open>mcap/writer_endpoint.py\<close>).

  A part is the sequence of records that the \<open>mcap\<close> package is given, with the ids it hands out.
  \<open>mcap_ext\<close> holds that package and protobuf's time stamps; \<open>mcap_ext_ok\<close> states what is documented of
  them: ids of different registrations differ, reading gives every message once with its own channel
  and schema, in ascending log time, and a time stamp survives its nanoseconds. The clock readings of a
  call are its arguments.
\<close>

section \<open>Records\<close>

record mcap_schema =
  sc_name :: ustr
  sc_encoding :: ustr
  sc_data :: bytes

record mcap_channel =
  cn_id :: int
  cn_topic :: ustr
  cn_encoding :: ustr

record mcap_message =
  mm_log_time :: int
  mm_publish_time :: int
  mm_sequence :: int
  mm_data :: bytes

datatype mcap_record = StartRec ustr "ustr option" | SchemaRec int mcap_schema
  | ChannelRec int ustr ustr int | MessageRec int mcap_message | MetadataRec ustr "(ustr \<times> ustr) list"

text \<open>What a part holds, by kind of record, and its messages with channel and schema.\<close>

definition part_schemas :: "mcap_record list \<Rightarrow> (int \<times> mcap_schema) list" where
  "part_schemas recs = concat (map (\<lambda>r. case r of SchemaRec i s \<Rightarrow> [(i, s)] | _ \<Rightarrow> []) recs)"

definition part_channels :: "mcap_record list \<Rightarrow> (int \<times> mcap_channel \<times> int) list" where
  "part_channels recs = concat (map (\<lambda>r. case r of
     ChannelRec i t e s \<Rightarrow> [(i, \<lparr>cn_id = i, cn_topic = t, cn_encoding = e\<rparr>, s)] | _ \<Rightarrow> []) recs)"

definition part_messages :: "mcap_record list \<Rightarrow> (int \<times> mcap_message) list" where
  "part_messages recs = concat (map (\<lambda>r. case r of MessageRec c m \<Rightarrow> [(c, m)] | _ \<Rightarrow> []) recs)"

type_synonym mcap_row = "mcap_schema option \<times> mcap_channel \<times> mcap_message"

definition part_rows :: "mcap_record list \<Rightarrow> mcap_row list" where
  "part_rows recs = map (\<lambda>(c, m).
     let (ch, s) = the (map_of (part_channels recs) c) in (map_of (part_schemas recs) s, ch, m)) (part_messages recs)"

record mcap_ext =
  mx_schema_id :: "nat \<Rightarrow> int"
  mx_channel_id :: "nat \<Rightarrow> int"
  mx_read :: "mcap_record list \<Rightarrow> mcap_row list"
  mx_to_ns :: "timestamp \<Rightarrow> int"
  mx_from_ns :: "int \<Rightarrow> timestamp"

definition mcap_ext_ok :: "mcap_ext \<Rightarrow> bool" where
  "mcap_ext_ok X \<longleftrightarrow> inj (mx_schema_id X) \<and> inj (mx_channel_id X)
     \<and> (\<forall>recs. mset (mx_read X recs) = mset (part_rows recs)
          \<and> sorted (map (\<lambda>(s, c, m). mm_log_time m) (mx_read X recs)))
     \<and> (\<forall>n. mx_to_ns X (mx_from_ns X n) = n)"

section \<open>The writer\<close>

datatype mcap_error = TopicConflict ustr ustr ustr | MetadataAfterClose ustr | MetadataNotText ustr ustr
  | RotationNeedsPath | NeedsSeekable

record mcap_writer =
  mw_path :: "(ustr \<times> ustr) option"
  mw_profile :: ustr
  mw_library :: "ustr option"
  mw_max_bytes :: "int option"
  mw_max_duration :: "int option"
  mw_closed :: bool
  mw_part_index :: nat
  mw_metadata :: "(ustr \<times> (ustr \<times> ustr) list) list"
  mw_schema_ids :: "ustr \<rightharpoonup> int"
  mw_channel_ids :: "ustr \<rightharpoonup> int"
  mw_channel_schemas :: "ustr \<rightharpoonup> ustr"
  mw_part_start :: int
  mw_part_bytes :: int
  mw_part :: "mcap_record list"
  mw_finished :: "(ustr option \<times> mcap_record list) list"

definition mw_rotating :: "mcap_writer \<Rightarrow> bool" where
  "mw_rotating w \<longleftrightarrow> mw_max_bytes w \<noteq> None \<or> mw_max_duration w \<noteq> None"

text \<open>\<open>f"{n:04d}"\<close>\<close>

definition pad4 :: "nat \<Rightarrow> ustr" where
  "pad4 n = replicate (4 - length (dec_nat n)) 48 @ dec_nat n"

text \<open>The file name of the part: the path's stem and suffix are the two parts of \<open>mw_path\<close>.\<close>

definition part_name :: "mcap_writer \<Rightarrow> ustr option" where
  "part_name w = map_option (\<lambda>(stem, suffix).
     if mw_rotating w then stem @ 95 # pad4 (mw_part_index w) @ suffix else stem @ suffix) (mw_path w)"

definition open_part :: "int \<Rightarrow> mcap_writer \<Rightarrow> mcap_writer" where
  "open_part now w = w\<lparr>mw_schema_ids := Map.empty, mw_channel_ids := Map.empty, mw_channel_schemas := Map.empty,
     mw_part_start := now, mw_part_bytes := 0,
     mw_part := StartRec (mw_profile w) (mw_library w) # map (\<lambda>(n, kv). MetadataRec n kv) (mw_metadata w)\<rparr>"

text \<open>
  The constructor: a path, or a stream that is seekable or not. \<open>max_duration\<close> is the limit in
  nanoseconds.
\<close>

definition init_mcap :: "(ustr \<times> ustr) option \<Rightarrow> bool \<Rightarrow> int option \<Rightarrow> int option \<Rightarrow> ustr \<Rightarrow> ustr option \<Rightarrow> int
    \<Rightarrow> mcap_error + mcap_writer" where
  "init_mcap path seekable max_bytes max_duration profile library now =
     (if path = None \<and> (max_bytes \<noteq> None \<or> max_duration \<noteq> None) then Inl RotationNeedsPath
      else if path = None \<and> \<not> seekable then Inl NeedsSeekable
      else Inr (open_part now \<lparr>mw_path = path, mw_profile = profile, mw_library = library, mw_max_bytes = max_bytes,
        mw_max_duration = max_duration, mw_closed = False, mw_part_index = 0, mw_metadata = [],
        mw_schema_ids = Map.empty, mw_channel_ids = Map.empty, mw_channel_schemas = Map.empty, mw_part_start = 0,
        mw_part_bytes = 0, mw_part = [], mw_finished = []\<rparr>))"

definition should_roll :: "int \<Rightarrow> mcap_writer \<Rightarrow> bool" where
  "should_roll now w \<longleftrightarrow> mw_part_bytes w \<noteq> 0 \<and>
     ((\<exists>b \<in> set_option (mw_max_bytes w). mw_part_bytes w \<ge> b)
      \<or> (\<exists>d \<in> set_option (mw_max_duration w). now - mw_part_start w \<ge> d))"

definition roll :: "int \<Rightarrow> mcap_writer \<Rightarrow> mcap_writer" where
  "roll now w = open_part now (w\<lparr>mw_finished := mw_finished w @ [(part_name w, mw_part w)],
                               mw_part_index := mw_part_index w + 1\<rparr>)"

text \<open>The schema and the channel of a message, registered on first use in the part.\<close>

definition schema_of :: "channel \<Rightarrow> mcap_schema" where
  "schema_of ch = \<lparr>sc_name = ch_schema_name ch, sc_encoding = or_protobuf (ch_schema_encoding ch),
                   sc_data = ch_schema ch\<rparr>"

definition use_schema :: "mcap_ext \<Rightarrow> channel \<Rightarrow> mcap_writer \<Rightarrow> int \<times> mcap_writer" where
  "use_schema X ch w = (case mw_schema_ids w (ch_schema_name ch) of
       Some i \<Rightarrow> (i, w)
     | None \<Rightarrow>
         let i = mx_schema_id X (length (part_schemas (mw_part w)))
         in (i, w\<lparr>mw_part := mw_part w @ [SchemaRec i (schema_of ch)],
                  mw_schema_ids := (mw_schema_ids w)(ch_schema_name ch \<mapsto> i)\<rparr>))"

definition use_channel :: "mcap_ext \<Rightarrow> channel \<Rightarrow> int \<Rightarrow> mcap_writer \<Rightarrow> (mcap_error + int) \<times> mcap_writer" where
  "use_channel X ch sid w = (case mw_channel_ids w (ch_topic ch) of
       None \<Rightarrow>
         let i = mx_channel_id X (length (part_channels (mw_part w)))
         in (Inr i, w\<lparr>mw_part := mw_part w @ [ChannelRec i (ch_topic ch) (or_protobuf (ch_encoding ch)) sid],
                      mw_channel_ids := (mw_channel_ids w)(ch_topic ch \<mapsto> i),
                      mw_channel_schemas := (mw_channel_schemas w)(ch_topic ch \<mapsto> ch_schema_name ch)\<rparr>)
     | Some i \<Rightarrow>
         if mw_channel_schemas w (ch_topic ch) \<noteq> Some (ch_schema_name ch)
         then (Inl (TopicConflict (ch_topic ch) (the (mw_channel_schemas w (ch_topic ch))) (ch_schema_name ch)), w)
         else (Inr i, w))"

text \<open>\<open>write\<close>, with the clock read by the size and age check and by the opening of a part.\<close>

definition mcap_write :: "mcap_ext \<Rightarrow> int \<Rightarrow> int \<Rightarrow> message \<Rightarrow> channel \<Rightarrow> mcap_writer
    \<Rightarrow> (mcap_error + unit) \<times> mcap_writer" where
  "mcap_write X now opened msg ch w =
     (if mw_closed w then (Inr (), w)
      else let w = (if mw_rotating w \<and> should_roll now w then roll opened w else w);
               (sid, w) = use_schema X ch w;
               (cid, w) = use_channel X ch sid w
           in (case cid of
                 Inl e \<Rightarrow> (Inl e, w)
               | Inr i \<Rightarrow>
                   let ts = mx_to_ns X (m_timestamp msg)
                   in (Inr (), w\<lparr>mw_part := mw_part w @ [MessageRec i
                         \<lparr>mm_log_time = ts, mm_publish_time = ts, mm_sequence = m_seq msg, mm_data = m_payload msg\<rparr>],
                       mw_part_bytes := mw_part_bytes w + int (length (m_payload msg))\<rparr>)))"

text \<open>\<open>add_metadata\<close>; a value that is no text is \<open>None\<close>.\<close>

definition add_metadata :: "ustr \<Rightarrow> (ustr \<times> ustr option) list \<Rightarrow> mcap_writer \<Rightarrow> (mcap_error + unit) \<times> mcap_writer" where
  "add_metadata name kv w =
     (if mw_closed w then (Inl (MetadataAfterClose name), w)
      else case find (\<lambda>(k, v). v = None) kv of
             Some (k, _) \<Rightarrow> (Inl (MetadataNotText name k), w)
           | None \<Rightarrow>
               let record = (name, map (\<lambda>(k, v). (k, the v)) kv)
               in (Inr (), w\<lparr>mw_metadata := mw_metadata w @ [record],
                             mw_part := mw_part w @ [MetadataRec (fst record) (snd record)]\<rparr>))"

definition mcap_close :: "mcap_writer \<Rightarrow> mcap_writer" where
  "mcap_close w =
     (if mw_closed w then w
      else w\<lparr>mw_closed := True, mw_finished := mw_finished w @ [(part_name w, mw_part w)]\<rparr>)"

section \<open>The reader\<close>

text \<open>\<open>read_mcap\<close> on the records of a file; a channel without schema is skipped.\<close>

definition replay_row :: "mcap_ext \<Rightarrow> mcap_schema \<Rightarrow> mcap_channel \<Rightarrow> mcap_message \<Rightarrow> message \<times> channel" where
  "replay_row X s c m =
     (default_message\<lparr>m_stream_id := cn_id c, m_payload := mm_data m, m_seq := mm_sequence m,
                      m_timestamp := mx_from_ns X (mm_log_time m)\<rparr>,
      \<lparr>ch_id = cn_id c, ch_topic = cn_topic c, ch_encoding = or_protobuf (cn_encoding c),
       ch_schema_name = sc_name s, ch_schema = sc_data s, ch_schema_encoding = or_protobuf (sc_encoding s)\<rparr>)"

definition read_mcap :: "mcap_ext \<Rightarrow> mcap_record list \<Rightarrow> (message \<times> channel) list" where
  "read_mcap X recs = concat (map (\<lambda>(s, c, m). case s of None \<Rightarrow> [] | Some s \<Rightarrow> [replay_row X s c m])
                             (mx_read X recs))"

section \<open>The recording endpoint\<close>

text \<open>
  \<open>McapWriterEndpoint\<close>: senders put resolved messages on a queue that the endpoint's thread writes. A
  step is one call or one batch of the thread, with the clock readings of its writes; an exception in a
  write ends the thread.
\<close>

record mcap_endpoint =
  me_writer :: mcap_writer
  me_queue :: "(channel \<times> message) list"
  me_stop :: bool
  me_thread :: bool
  me_crashed :: bool

definition me_start :: "mcap_endpoint \<Rightarrow> mcap_endpoint" where
  "me_start e = e\<lparr>me_stop := False, me_thread := True, me_crashed := (if me_thread e then me_crashed e else False)\<rparr>"

definition me_send :: "(int \<Rightarrow> channel option) \<Rightarrow> message \<Rightarrow> mcap_endpoint \<Rightarrow> mcap_endpoint" where
  "me_send lookup msg e = (case lookup (m_stream_id msg) of
       None \<Rightarrow> e
     | Some ch \<Rightarrow> e\<lparr>me_queue := me_queue e @ [(ch, msg)]\<rparr>)"

fun write_batch :: "mcap_ext \<Rightarrow> (int \<times> int) list \<Rightarrow> (channel \<times> message) list \<Rightarrow> mcap_writer
    \<Rightarrow> (mcap_error + unit) \<times> mcap_writer" where
  "write_batch X clocks [] w = (Inr (), w)"
| "write_batch X clocks ((ch, msg) # batch) w =
     (let (now, opened) = (case clocks of [] \<Rightarrow> (0, 0) | c # _ \<Rightarrow> c);
          (r, w) = mcap_write X now opened msg ch w
      in case r of Inl e \<Rightarrow> (Inl e, w) | Inr _ \<Rightarrow> write_batch X (tl clocks) batch w)"

text \<open>One turn of the writer thread that finds work: it takes the whole queue.\<close>

definition me_turn :: "mcap_ext \<Rightarrow> (int \<times> int) list \<Rightarrow> mcap_endpoint \<Rightarrow> mcap_endpoint" where
  "me_turn X clocks e =
     (if me_thread e \<and> \<not> me_crashed e then
        let (r, w) = write_batch X clocks (me_queue e) (me_writer e)
        in e\<lparr>me_writer := w, me_queue := [], me_crashed := isl r\<rparr>
      else e)"

text \<open>\<open>stop\<close>: the thread, if it still runs, writes what is queued before it ends; then the file is closed.\<close>

definition me_end :: "mcap_ext \<Rightarrow> (int \<times> int) list \<Rightarrow> mcap_endpoint \<Rightarrow> mcap_endpoint" where
  "me_end X clocks e =
     (if me_stop e then e
      else let e = (if me_thread e then (me_turn X clocks (e\<lparr>me_stop := True\<rparr>))\<lparr>me_thread := False\<rparr>
                    else e\<lparr>me_stop := True\<rparr>)
           in e\<lparr>me_writer := mcap_close (me_writer e)\<rparr>)"

section \<open>What a part holds\<close>

lemma part_simps [simp]:
  "part_schemas [] = []" "part_channels [] = []" "part_messages [] = []"
  "part_schemas (a @ b) = part_schemas a @ part_schemas b"
  "part_channels (a @ b) = part_channels a @ part_channels b"
  "part_messages (a @ b) = part_messages a @ part_messages b"
  "part_schemas (r # a) = (case r of SchemaRec i s \<Rightarrow> [(i, s)] | _ \<Rightarrow> []) @ part_schemas a"
  "part_channels (r # a) = (case r of ChannelRec i t e s \<Rightarrow> [(i, \<lparr>cn_id = i, cn_topic = t, cn_encoding = e\<rparr>, s)] | _ \<Rightarrow> [])
     @ part_channels a"
  "part_messages (r # a) = (case r of MessageRec c m \<Rightarrow> [(c, m)] | _ \<Rightarrow> []) @ part_messages a"
  by (simp_all add: part_schemas_def part_channels_def part_messages_def)

lemma part_metadata [simp]:
  "part_schemas (map (\<lambda>(n, kv). MetadataRec n kv) kvs) = []"
  "part_channels (map (\<lambda>(n, kv). MetadataRec n kv) kvs) = []"
  "part_messages (map (\<lambda>(n, kv). MetadataRec n kv) kvs) = []"
  by (induction kvs) auto

text \<open>
  Rows that fit one file: a topic has one schema and encoding, and a schema name one definition.
\<close>

definition consistent :: "channel list \<Rightarrow> bool" where
  "consistent chs \<longleftrightarrow> (\<forall>a \<in> set chs. \<forall>b \<in> set chs.
     (ch_schema_name a = ch_schema_name b \<longrightarrow> schema_of a = schema_of b)
     \<and> (ch_topic a = ch_topic b \<longrightarrow> ch_schema_name a = ch_schema_name b
          \<and> or_protobuf (ch_encoding a) = or_protobuf (ch_encoding b)))"

definition stored_message :: "mcap_ext \<Rightarrow> message \<Rightarrow> mcap_message" where
  "stored_message X msg = (let ts = mx_to_ns X (m_timestamp msg)
     in \<lparr>mm_log_time = ts, mm_publish_time = ts, mm_sequence = m_seq msg, mm_data = m_payload msg\<rparr>)"

text \<open>
  The invariant of an open part that was given \<open>seg\<close>, of rows whose channels are among \<open>chs\<close>: the maps
  point to the records, and the records are those rows.
\<close>

definition ids_inv :: "mcap_ext \<Rightarrow> mcap_record list \<Rightarrow> bool" where
  "ids_inv X recs \<longleftrightarrow>
     map fst (part_schemas recs) = map (mx_schema_id X) [0..<length (part_schemas recs)]
     \<and> map fst (part_channels recs) = map (mx_channel_id X) [0..<length (part_channels recs)]"

definition schemas_inv :: "channel list \<Rightarrow> mcap_record list \<Rightarrow> (ustr \<rightharpoonup> int) \<Rightarrow> bool" where
  "schemas_inv chs recs ids \<longleftrightarrow> (\<forall>n i. ids n = Some i \<longrightarrow>
     (\<exists>ch \<in> set chs. ch_schema_name ch = n \<and> map_of (part_schemas recs) i = Some (schema_of ch)))"

definition channel_rec :: "int \<Rightarrow> channel \<Rightarrow> mcap_channel" where
  "channel_rec i ch = \<lparr>cn_id = i, cn_topic = ch_topic ch, cn_encoding = or_protobuf (ch_encoding ch)\<rparr>"

definition channels_inv :: "channel list \<Rightarrow> mcap_record list \<Rightarrow> (ustr \<rightharpoonup> int) \<Rightarrow> (ustr \<rightharpoonup> ustr) \<Rightarrow> (ustr \<rightharpoonup> int)
    \<Rightarrow> bool" where
  "channels_inv chs recs ids schemas sids \<longleftrightarrow> (\<forall>t i. ids t = Some i \<longrightarrow>
     (\<exists>ch \<in> set chs. \<exists>sid. ch_topic ch = t \<and> schemas t = Some (ch_schema_name ch)
        \<and> sids (ch_schema_name ch) = Some sid \<and> map_of (part_channels recs) i = Some (channel_rec i ch, sid)))"

definition mcap_inv :: "mcap_ext \<Rightarrow> channel list \<Rightarrow> (message \<times> channel) list \<Rightarrow> mcap_writer \<Rightarrow> bool" where
  "mcap_inv X chs seg w \<longleftrightarrow> ids_inv X (mw_part w) \<and> schemas_inv chs (mw_part w) (mw_schema_ids w)
     \<and> channels_inv chs (mw_part w) (mw_channel_ids w) (mw_channel_schemas w) (mw_schema_ids w)
     \<and> part_messages (mw_part w) = map (\<lambda>(m, ch). (the (mw_channel_ids w (ch_topic ch)), stored_message X m)) seg
     \<and> (\<forall>(m, ch) \<in> set seg. ch \<in> set chs \<and> mw_channel_ids w (ch_topic ch) \<noteq> None)
     \<and> mw_part_bytes w = (\<Sum>(m, ch) \<leftarrow> seg. int (length (m_payload m)))"

lemma map_of_snoc: "map_of xs i = Some v \<Longrightarrow> map_of (xs @ ys) i = Some v"
  "map_of xs i = None \<Longrightarrow> map_of (xs @ [(i, v)]) i = Some v"
  by (simp_all add: map_add_def)

lemma schemas_inv_keep: "schemas_inv chs recs ids \<Longrightarrow> schemas_inv chs (recs @ more_recs) ids"
  unfolding schemas_inv_def part_simps by (blast intro: map_of_snoc(1))

lemma channels_inv_keep: "channels_inv chs recs ids schemas sids \<Longrightarrow> channels_inv chs (recs @ more_recs) ids schemas sids"
  unfolding channels_inv_def part_simps by (blast intro: map_of_snoc(1))

lemma schemas_inv_new:
  assumes "schemas_inv chs recs ids" "map_of (part_schemas recs) i = None" "ch \<in> set chs"
  shows "schemas_inv chs (recs @ [SchemaRec i (schema_of ch)]) (ids(ch_schema_name ch \<mapsto> i))"
  unfolding schemas_inv_def
proof (intro allI impI)
  fix n j assume j: "(ids(ch_schema_name ch \<mapsto> i)) n = Some j"
  show "\<exists>c \<in> set chs. ch_schema_name c = n
      \<and> map_of (part_schemas (recs @ [SchemaRec i (schema_of ch)])) j = Some (schema_of c)"
  proof (cases "n = ch_schema_name ch")
    case True
    then show ?thesis using assms j map_of_snoc(2) [OF assms(2)] by auto
  next
    case False
    then have "ids n = Some j" using j by simp
    then show ?thesis using schemas_inv_keep [OF assms(1)] unfolding schemas_inv_def by blast
  qed
qed

lemma channels_inv_new:
  assumes "channels_inv chs recs ids schemas sids" "map_of (part_channels recs) i = None" "ch \<in> set chs"
    and "sids (ch_schema_name ch) = Some sid"
  shows "channels_inv chs (recs @ [ChannelRec i (ch_topic ch) (or_protobuf (ch_encoding ch)) sid])
    (ids(ch_topic ch \<mapsto> i)) (schemas(ch_topic ch \<mapsto> ch_schema_name ch)) sids"
  unfolding channels_inv_def
proof (intro allI impI)
  let ?recs = "recs @ [ChannelRec i (ch_topic ch) (or_protobuf (ch_encoding ch)) sid]"
  fix t j assume j: "(ids(ch_topic ch \<mapsto> i)) t = Some j"
  show "\<exists>c \<in> set chs. \<exists>s. ch_topic c = t \<and> (schemas(ch_topic ch \<mapsto> ch_schema_name ch)) t = Some (ch_schema_name c)
      \<and> sids (ch_schema_name c) = Some s \<and> map_of (part_channels ?recs) j = Some (channel_rec j c, s)"
  proof (cases "t = ch_topic ch")
    case True
    then have "map_of (part_channels ?recs) j = Some (channel_rec j ch, sid)"
      using j map_of_snoc(2) [OF assms(2)] by (simp add: channel_rec_def)
    then show ?thesis using True assms by auto
  next
    case False
    then have "ids t = Some j" "(schemas(ch_topic ch \<mapsto> ch_schema_name ch)) t = schemas t" using j by simp_all
    then show ?thesis using channels_inv_keep [OF assms(1)] unfolding channels_inv_def by metis
  qed
qed

lemma channels_inv_schemas:
  "channels_inv chs recs ids schemas sids \<Longrightarrow> sids n = None \<Longrightarrow> channels_inv chs recs ids schemas (sids(n \<mapsto> i))"
  unfolding channels_inv_def by (metis fun_upd_other option.distinct(1))

lemma fresh_id: "inj f \<Longrightarrow> map fst xs = map f [0..<length xs] \<Longrightarrow> map_of xs (f (length xs)) = None"
proof -
  assume f: "inj f" and xs: "map fst xs = map f [0..<length xs]"
  have "f (length xs) \<notin> set (map fst xs)" unfolding xs using f by (auto dest: injD)
  then show ?thesis by (simp add: map_of_eq_None_iff)
qed

lemma open_part_inv: "mcap_inv X chs [] (open_part now w)"
  by (simp add: mcap_inv_def open_part_def ids_inv_def schemas_inv_def channels_inv_def)

lemma use_schema_inv:
  assumes ok: "mcap_ext_ok X" and inv: "mcap_inv X chs seg w" and ch: "ch \<in> set chs"
    and use: "use_schema X ch w = (sid, w')"
  shows "mcap_inv X chs seg w' \<and> mw_schema_ids w' (ch_schema_name ch) = Some sid
    \<and> mw_channel_ids w' = mw_channel_ids w"
proof (cases "mw_schema_ids w (ch_schema_name ch)")
  case None
  let ?i = "mx_schema_id X (length (part_schemas (mw_part w)))"
  have new: "map_of (part_schemas (mw_part w)) ?i = None"
    using ok inv by (intro fresh_id) (simp_all add: mcap_ext_ok_def mcap_inv_def ids_inv_def)
  have "sid = ?i" "w' = w\<lparr>mw_part := mw_part w @ [SchemaRec ?i (schema_of ch)],
      mw_schema_ids := (mw_schema_ids w)(ch_schema_name ch \<mapsto> ?i)\<rparr>"
    using use None by (auto simp: use_schema_def Let_def)
  moreover have "ids_inv X (mw_part w @ [SchemaRec ?i (schema_of ch)])" using inv by (simp add: mcap_inv_def ids_inv_def)
  ultimately show ?thesis using inv ch new None schemas_inv_new [of chs "mw_part w"] channels_inv_schemas channels_inv_keep
    by (simp add: mcap_inv_def)
qed (use assms in \<open>simp add: use_schema_def\<close>)

lemma use_channel_inv:
  assumes ok: "mcap_ext_ok X" and inv: "mcap_inv X chs seg w" and ch: "ch \<in> set chs" and cons: "consistent chs"
    and sid: "mw_schema_ids w (ch_schema_name ch) = Some sid"
  obtains cid w' where "use_channel X ch sid w = (Inr cid, w')" "mcap_inv X chs seg w'"
    "mw_channel_ids w' (ch_topic ch) = Some cid"
proof (cases "mw_channel_ids w (ch_topic ch)")
  case None
  let ?i = "mx_channel_id X (length (part_channels (mw_part w)))"
  let ?w = "w\<lparr>mw_part := mw_part w @ [ChannelRec ?i (ch_topic ch) (or_protobuf (ch_encoding ch)) sid],
      mw_channel_ids := (mw_channel_ids w)(ch_topic ch \<mapsto> ?i),
      mw_channel_schemas := (mw_channel_schemas w)(ch_topic ch \<mapsto> ch_schema_name ch)\<rparr>"
  have new: "map_of (part_channels (mw_part w)) ?i = None"
    using ok inv by (intro fresh_id) (simp_all add: mcap_ext_ok_def mcap_inv_def ids_inv_def)
  have "ids_inv X (mw_part ?w)" using inv by (simp add: mcap_inv_def ids_inv_def)
  moreover have "schemas_inv chs (mw_part ?w) (mw_schema_ids w)"
    using inv schemas_inv_keep by (simp add: mcap_inv_def)
  moreover have "channels_inv chs (mw_part ?w) (mw_channel_ids ?w) (mw_channel_schemas ?w) (mw_schema_ids w)"
    using inv channels_inv_new [where sids = "mw_schema_ids w", OF _ new ch sid] by (simp add: mcap_inv_def)
  moreover have "ch_topic c \<noteq> ch_topic ch" if "(m, c) \<in> set seg" for m c
    using inv None that by (auto simp: mcap_inv_def)
  ultimately have "mcap_inv X chs seg ?w" using inv by (auto simp: mcap_inv_def)
  then show thesis using None by (intro that [of ?i ?w]) (simp_all add: use_channel_def Let_def)
next
  case (Some i)
  with inv obtain c where "c \<in> set chs" "ch_topic c = ch_topic ch"
    "mw_channel_schemas w (ch_topic ch) = Some (ch_schema_name c)"
    unfolding mcap_inv_def channels_inv_def by blast
  moreover from this have "ch_schema_name c = ch_schema_name ch" using cons ch unfolding consistent_def by blast
  ultimately show thesis using Some inv by (intro that [of i w]) (simp_all add: use_channel_def)
qed

lemma append_message_inv:
  assumes "mcap_inv X chs seg w" "ch \<in> set chs" "mw_channel_ids w (ch_topic ch) = Some cid"
  shows "mcap_inv X chs (seg @ [(m, ch)]) (w\<lparr>mw_part := mw_part w @ [MessageRec cid (stored_message X m)],
      mw_part_bytes := mw_part_bytes w + int (length (m_payload m))\<rparr>)"
  using assms by (auto simp: mcap_inv_def ids_inv_def intro: schemas_inv_keep channels_inv_keep)

text \<open>What an invariant part reads as: each row with the channel and schema it was written with.\<close>

definition stored_row :: "mcap_ext \<Rightarrow> message \<times> channel \<Rightarrow> mcap_schema \<times> ustr \<times> ustr \<times> mcap_message" where
  "stored_row X = (\<lambda>(m, ch). (schema_of ch, ch_topic ch, or_protobuf (ch_encoding ch), stored_message X m))"

definition row_content :: "mcap_row \<Rightarrow> mcap_schema option \<times> ustr \<times> ustr \<times> mcap_message" where
  "row_content = (\<lambda>(s, c, m). (s, cn_topic c, cn_encoding c, m))"

lemma part_rows_inv:
  assumes inv: "mcap_inv X chs seg w" and cons: "consistent chs"
  shows "map row_content (part_rows (mw_part w)) = map (\<lambda>r. let (s, t, e, m) = stored_row X r in (Some s, t, e, m)) seg"
proof -
  have row: "row_content (let (c, s) = the (map_of (part_channels (mw_part w)) (the (mw_channel_ids w (ch_topic ch))))
        in (map_of (part_schemas (mw_part w)) s, c, x)) = (Some (schema_of ch), ch_topic ch, or_protobuf (ch_encoding ch), x)"
    if "(m, ch) \<in> set seg" for m ch x
  proof -
    have ch: "ch \<in> set chs" "mw_channel_ids w (ch_topic ch) \<noteq> None" using inv that by (auto simp: mcap_inv_def)
    then obtain i where i: "mw_channel_ids w (ch_topic ch) = Some i" by blast
    with inv obtain c sid where c: "c \<in> set chs" "ch_topic c = ch_topic ch"
      "mw_schema_ids w (ch_schema_name c) = Some sid"
      "map_of (part_channels (mw_part w)) i
         = Some (channel_rec i c, sid)"
      unfolding mcap_inv_def channels_inv_def by blast
    with inv obtain c' where c': "c' \<in> set chs" "ch_schema_name c' = ch_schema_name c"
      "map_of (part_schemas (mw_part w)) sid = Some (schema_of c')" unfolding mcap_inv_def schemas_inv_def by blast
    have "schema_of c' = schema_of ch" "or_protobuf (ch_encoding c) = or_protobuf (ch_encoding ch)"
      using cons ch c c' unfolding consistent_def by metis+
    then show ?thesis using i c c' by (simp add: row_content_def channel_rec_def)
  qed
  have "part_messages (mw_part w) = map (\<lambda>(m, ch). (the (mw_channel_ids w (ch_topic ch)), stored_message X m)) seg"
    using inv by (simp add: mcap_inv_def)
  then show ?thesis using row by (auto simp: part_rows_def stored_row_def)
qed

section \<open>Writing rows\<close>

text \<open>What a write leaves alone.\<close>

definition same_setup :: "mcap_writer \<Rightarrow> mcap_writer \<Rightarrow> bool" where
  "same_setup w w' \<longleftrightarrow> mw_path w' = mw_path w \<and> mw_max_bytes w' = mw_max_bytes w
     \<and> mw_max_duration w' = mw_max_duration w \<and> mw_closed w' = mw_closed w \<and> mw_metadata w' = mw_metadata w"

definition same_part :: "mcap_writer \<Rightarrow> mcap_writer \<Rightarrow> bool" where
  "same_part w w' \<longleftrightarrow> same_setup w w' \<and> mw_finished w' = mw_finished w \<and> mw_part_index w' = mw_part_index w
     \<and> set (mw_part w) \<subseteq> set (mw_part w') \<and> mw_part_bytes w' = mw_part_bytes w"

lemma use_schema_same: "use_schema X ch w = (sid, w') \<Longrightarrow> same_part w w'"
  by (auto simp: use_schema_def same_part_def same_setup_def Let_def split: option.splits)

lemma use_channel_same: "use_channel X ch sid w = (r, w') \<Longrightarrow> same_part w w'"
  by (auto simp: use_channel_def same_part_def same_setup_def Let_def split: option.splits if_splits)

lemma same_part_trans: "same_part a b \<Longrightarrow> same_part b c \<Longrightarrow> same_part a c"
  by (auto simp: same_part_def same_setup_def)

definition metadata_recs :: "mcap_writer \<Rightarrow> mcap_record set" where
  "metadata_recs w = (\<lambda>(n, kv). MetadataRec n kv) ` set (mw_metadata w)"

text \<open>The part that a write goes to: the open one, or the next after a roll.\<close>

definition ready :: "int \<Rightarrow> int \<Rightarrow> mcap_writer \<Rightarrow> mcap_writer" where
  "ready now opened w = (if mw_rotating w \<and> should_roll now w then roll opened w else w)"

lemma mcap_write_cases:
  assumes ok: "mcap_ext_ok X" and inv: "mcap_inv X chs seg (ready now opened w)" and ch: "ch \<in> set chs"
    and cons: "consistent chs" and open_: "\<not> mw_closed w"
  obtains w' where "mcap_write X now opened msg ch w = (Inr (), w')" "mcap_inv X chs (seg @ [(msg, ch)]) w'"
    "same_setup w w'" "mw_finished w' = mw_finished (ready now opened w)"
    "mw_part_index w' = mw_part_index (ready now opened w)" "set (mw_part (ready now opened w)) \<subseteq> set (mw_part w')"
proof -
  let ?w = "ready now opened w"
  obtain sid w1 where w1: "use_schema X ch ?w = (sid, w1)" by (cases "use_schema X ch ?w") auto
  from use_schema_inv [OF ok inv ch w1] have inv1: "mcap_inv X chs seg w1" "mw_schema_ids w1 (ch_schema_name ch) = Some sid"
    by simp_all
  obtain cid w2 where w2: "use_channel X ch sid w1 = (Inr cid, w2)" "mcap_inv X chs seg w2"
    "mw_channel_ids w2 (ch_topic ch) = Some cid"
    using use_channel_inv [OF ok inv1(1) ch cons inv1(2)] by blast
  let ?r = "w2\<lparr>mw_part := mw_part w2 @ [MessageRec cid (stored_message X msg)],
      mw_part_bytes := mw_part_bytes w2 + int (length (m_payload msg))\<rparr>"
  have "same_part ?w w2" using use_schema_same [OF w1] use_channel_same [OF w2(1)] by (rule same_part_trans)
  moreover have "same_setup w ?w" by (simp add: ready_def roll_def open_part_def same_setup_def)
  ultimately have same: "same_setup w ?r" "mw_finished ?r = mw_finished ?w" "mw_part_index ?r = mw_part_index ?w"
    "set (mw_part ?w) \<subseteq> set (mw_part ?r)" by (auto simp: same_part_def same_setup_def)
  have "mcap_write X now opened msg ch w = (Inr (), ?r)"
    using open_ w1 w2(1) by (simp add: mcap_write_def Let_def ready_def [symmetric] stored_message_def)
  from that [OF this append_message_inv [OF w2(2) ch w2(3)] same] show thesis .
qed

text \<open>A session: rows and metadata in any order, with the clock readings of each write.\<close>

datatype mcap_op = WriteOp int int message channel | MetaOp ustr "(ustr \<times> ustr option) list"

fun mcap_op_step :: "mcap_ext \<Rightarrow> mcap_op \<Rightarrow> mcap_writer \<Rightarrow> (mcap_error + unit) \<times> mcap_writer" where
  "mcap_op_step X (WriteOp now opened m ch) w = mcap_write X now opened m ch w"
| "mcap_op_step X (MetaOp n kv) w = add_metadata n kv w"

fun mcap_session :: "mcap_ext \<Rightarrow> mcap_op list \<Rightarrow> mcap_writer \<Rightarrow> (mcap_error + unit) \<times> mcap_writer" where
  "mcap_session X [] w = (Inr (), w)"
| "mcap_session X (op # ops) w = (case mcap_op_step X op w of
     (Inl e, w) \<Rightarrow> (Inl e, w) | (Inr _, w) \<Rightarrow> mcap_session X ops w)"

definition written_rows :: "mcap_op list \<Rightarrow> (message \<times> channel) list" where
  "written_rows ops = concat (map (\<lambda>op. case op of WriteOp _ _ m ch \<Rightarrow> [(m, ch)] | MetaOp _ _ \<Rightarrow> []) ops)"

definition meta_ok :: "mcap_op \<Rightarrow> bool" where
  "meta_ok op \<longleftrightarrow> (case op of WriteOp _ _ _ _ \<Rightarrow> True | MetaOp _ kv \<Rightarrow> list_all (\<lambda>(k, v). v \<noteq> None) kv)"

lemma add_metadata_inv:
  assumes "mcap_inv X chs seg w" "\<not> mw_closed w" "list_all (\<lambda>(k, v). v \<noteq> None) kv"
  obtains w' r where "add_metadata n kv w = (Inr (), w')" "w' = w\<lparr>mw_metadata := mw_metadata w @ [(n, r)],
      mw_part := mw_part w @ [MetadataRec n r]\<rparr>" "mcap_inv X chs seg w'" "r = map (\<lambda>(k, v). (k, the v)) kv"
proof -
  have none: "find (\<lambda>(k, v). v = None) kv = None" using assms(3) by (auto simp: find_None_iff list_all_iff)
  let ?r = "map (\<lambda>(k, v). (k, the v)) kv"
  let ?w = "w\<lparr>mw_metadata := mw_metadata w @ [(n, ?r)], mw_part := mw_part w @ [MetadataRec n ?r]\<rparr>"
  have "mcap_inv X chs seg ?w"
    using assms(1) by (auto simp: mcap_inv_def ids_inv_def intro: schemas_inv_keep channels_inv_keep)
  then show thesis using none assms(2) by (intro that [of ?w ?r]) (simp_all add: add_metadata_def)
qed

text \<open>
  The invariant of a session: the rows written so far fall into segments, one for each finished part and
  one for the open part, each part holds its segment and is named by its number, no finished part is
  empty, and no part has passed the size limit before its last message.
\<close>

definition part_is :: "mcap_ext \<Rightarrow> mcap_record list \<Rightarrow> (message \<times> channel) list \<Rightarrow> bool" where
  "part_is X recs seg \<longleftrightarrow> map row_content (part_rows recs)
     = map (\<lambda>r. let (s, t, e, m) = stored_row X r in (Some s, t, e, m)) seg"

definition payload_bytes :: "(message \<times> channel) list \<Rightarrow> int" where
  "payload_bytes seg = (\<Sum>(m, ch) \<leftarrow> seg. int (length (m_payload m)))"

definition within_limit :: "int option \<Rightarrow> (message \<times> channel) list \<Rightarrow> bool" where
  "within_limit limit seg \<longleftrightarrow> (\<forall>b. limit = Some b \<longrightarrow> 0 < b \<longrightarrow> payload_bytes (butlast seg) < b)"

definition session_inv :: "mcap_ext \<Rightarrow> channel list \<Rightarrow> mcap_writer \<Rightarrow> (message \<times> channel) list list
    \<Rightarrow> (message \<times> channel) list \<Rightarrow> mcap_writer \<Rightarrow> bool" where
  "session_inv X chs w0 segs seg w \<longleftrightarrow> mcap_inv X chs seg w \<and> \<not> mw_closed w
     \<and> mw_path w = mw_path w0 \<and> mw_max_bytes w = mw_max_bytes w0 \<and> mw_max_duration w = mw_max_duration w0
     \<and> list_all2 (\<lambda>(name, recs). part_is X recs) (mw_finished w) segs
     \<and> map fst (mw_finished w) = map (\<lambda>k. part_name (w0\<lparr>mw_part_index := k\<rparr>)) [0..<length segs]
     \<and> mw_part_index w = length segs \<and> (mw_rotating w0 \<or> segs = [])
     \<and> (\<forall>s \<in> set (segs @ [seg]). within_limit (mw_max_bytes w0) s) \<and> (\<forall>s \<in> set segs. s \<noteq> [])
     \<and> metadata_recs w \<subseteq> set (mw_part w)"

lemma part_name_setup:
  "mw_path w = mw_path w0 \<Longrightarrow> mw_max_bytes w = mw_max_bytes w0 \<Longrightarrow> mw_max_duration w = mw_max_duration w0
     \<Longrightarrow> part_name w = part_name (w0\<lparr>mw_part_index := mw_part_index w\<rparr>)"
  by (cases "mw_path w0") (auto simp: part_name_def mw_rotating_def)

lemma inv_payload_bytes: "mcap_inv X chs seg w \<Longrightarrow> mw_part_bytes w = payload_bytes seg"
  by (simp add: mcap_inv_def payload_bytes_def)

text \<open>A roll closes the segment.\<close>

lemma roll_session_inv:
  assumes inv: "session_inv X chs w0 segs seg w" and cons: "consistent chs" and "should_roll now w" and "mw_rotating w"
  shows "session_inv X chs w0 (segs @ [seg]) [] (roll opened w)"
proof -
  from inv have m: "mcap_inv X chs seg w" by (simp add: session_inv_def)
  have "seg \<noteq> []" using assms(3) inv_payload_bytes [OF m] by (auto simp: should_roll_def payload_bytes_def)
  moreover have "part_is X (mw_part w) seg" using part_rows_inv [OF m cons] by (simp add: part_is_def)
  moreover have "part_name w = part_name (w0\<lparr>mw_part_index := length segs\<rparr>)"
    using inv part_name_setup [of w w0] by (simp add: session_inv_def)
  moreover have "mcap_inv X chs [] (roll opened w)" by (simp add: roll_def open_part_inv)
  moreover have "within_limit (mw_max_bytes w0) []" by (simp add: within_limit_def payload_bytes_def)
  moreover have "metadata_recs (roll opened w) \<subseteq> set (mw_part (roll opened w))"
    by (auto simp: roll_def open_part_def metadata_recs_def)
  moreover have "mw_finished (roll opened w) = mw_finished w @ [(part_name w, mw_part w)]"
    "mw_part_index (roll opened w) = mw_part_index w + 1" "same_setup w (roll opened w)"
    by (simp_all add: roll_def open_part_def same_setup_def)
  moreover have "mw_rotating w0" using assms(4) inv by (simp add: mw_rotating_def session_inv_def)
  ultimately show ?thesis using inv by (auto simp: session_inv_def same_setup_def list_all2_appendI)
qed

lemma write_session_inv:
  assumes ok: "mcap_ext_ok X" and inv: "session_inv X chs w0 segs seg w" and ch: "ch \<in> set chs"
    and cons: "consistent chs"
  obtains w' segs' seg' where "mcap_write X now opened msg ch w = (Inr (), w')"
    "session_inv X chs w0 segs' seg' w'" "concat segs' @ seg' = concat segs @ seg @ [(msg, ch)]"
    "\<exists>more_parts. mw_finished w' = mw_finished w @ more_parts"
    "set (mw_part w) \<subseteq> set (mw_part w') \<or> metadata_recs w \<subseteq> set (mw_part w')"
    "mw_metadata w' = mw_metadata w"
proof -
  let ?w = "ready now opened w" and ?roll = "mw_rotating w \<and> should_roll now w"
  define segs1 seg1 where seg1: "segs1 = (if ?roll then segs @ [seg] else segs)" "seg1 = (if ?roll then [] else seg)"
  have inv1: "session_inv X chs w0 segs1 seg1 ?w"
  proof (cases ?roll)
    case True
    then show ?thesis using roll_session_inv [OF inv cons] unfolding seg1 ready_def if_P [OF True] by blast
  next
    case False
    show ?thesis using inv unfolding seg1 ready_def if_not_P [OF False] .
  qed
  then have m1: "mcap_inv X chs seg1 ?w" by (simp add: session_inv_def)
  have "\<not> mw_closed w" using inv by (simp add: session_inv_def)
  from mcap_write_cases [OF ok m1 ch cons this] obtain w' where w': "mcap_write X now opened msg ch w = (Inr (), w')"
    "mcap_inv X chs (seg1 @ [(msg, ch)]) w'" "same_setup w w'" "mw_finished w' = mw_finished ?w"
    "mw_part_index w' = mw_part_index ?w" "set (mw_part ?w) \<subseteq> set (mw_part w')" by blast
  have lim: "within_limit (mw_max_bytes w0) (seg1 @ [(msg, ch)])"
  proof (cases ?roll)
    case False
    then show ?thesis using inv inv_payload_bytes [of X chs seg w]
      by (auto simp: session_inv_def within_limit_def seg1 mw_rotating_def should_roll_def)
  qed (simp add: seg1 within_limit_def payload_bytes_def)
  have "session_inv X chs w0 segs1 (seg1 @ [(msg, ch)]) w'"
  proof -
    have "same_setup w ?w" by (simp add: ready_def roll_def open_part_def same_setup_def)
    then have "same_setup ?w w'" using w'(3) by (simp add: same_setup_def)
    then show ?thesis using inv1 w'(2,4,5,6) lim by (auto simp: session_inv_def same_setup_def metadata_recs_def)
  qed
  moreover have "concat segs1 @ seg1 @ [(msg, ch)] = concat segs @ seg @ [(msg, ch)]" by (simp add: seg1)
  moreover have "\<exists>more_parts. mw_finished w' = mw_finished w @ more_parts"
    using w'(4) by (auto simp: ready_def roll_def open_part_def)
  moreover have "set (mw_part w) \<subseteq> set (mw_part w') \<or> metadata_recs w \<subseteq> set (mw_part w')"
    using w'(6) by (auto simp: ready_def roll_def open_part_def metadata_recs_def split: if_splits)
  ultimately show thesis
    using w'(1,3) by (intro that [of w' segs1 "seg1 @ [(msg, ch)]"]) (simp_all add: same_setup_def)
qed

lemma meta_session_inv:
  assumes inv: "session_inv X chs w0 segs seg w" and "meta_ok (MetaOp n kv)"
  obtains w' r where "add_metadata n kv w = (Inr (), w')" "session_inv X chs w0 segs seg w'"
    "r = map (\<lambda>(k, v). (k, the v)) kv" "(n, r) \<in> set (mw_metadata w')"
proof -
  from inv have w: "mcap_inv X chs seg w" "\<not> mw_closed w" by (simp_all add: session_inv_def)
  obtain w' r where w': "add_metadata n kv w = (Inr (), w')" "w' = w\<lparr>mw_metadata := mw_metadata w @ [(n, r)],
      mw_part := mw_part w @ [MetadataRec n r]\<rparr>" "mcap_inv X chs seg w'" "r = map (\<lambda>(k, v). (k, the v)) kv"
    using add_metadata_inv [OF w, of kv n] assms(2) by (auto simp: meta_ok_def)
  moreover have "session_inv X chs w0 segs seg w'"
    using inv w'(3) unfolding w'(2) by (auto simp: session_inv_def metadata_recs_def)
  moreover have "(n, r) \<in> set (mw_metadata w')" unfolding w'(2) by simp
  ultimately show thesis by (intro that)
qed

lemma session_run:
  assumes "mcap_ext_ok X" "consistent chs" "session_inv X chs w0 segs seg w"
    and "snd ` set (written_rows ops) \<subseteq> set chs" "list_all meta_ok ops"
  shows "\<exists>w' segs' seg'. mcap_session X ops w = (Inr (), w') \<and> session_inv X chs w0 segs' seg' w'
    \<and> concat segs' @ seg' = concat segs @ seg @ written_rows ops"
  using assms(3-5)
proof (induction ops arbitrary: w segs seg)
  case Nil
  then show ?case by (intro exI [of _ w] exI [of _ segs] exI [of _ seg]) (simp add: written_rows_def)
next
  case (Cons op ops)
  show ?case
  proof (cases op)
    case (WriteOp now opened m ch)
    have "ch \<in> set chs" using Cons.prems(2) WriteOp by (simp add: written_rows_def)
    then obtain w1 segs1 seg1 where w1: "mcap_write X now opened m ch w = (Inr (), w1)"
      "session_inv X chs w0 segs1 seg1 w1" "concat segs1 @ seg1 = concat segs @ seg @ [(m, ch)]"
      using write_session_inv [OF assms(1) Cons.prems(1) _ assms(2)] by metis
    have "snd ` set (written_rows ops) \<subseteq> set chs" "list_all meta_ok ops"
      using Cons.prems WriteOp by (auto simp: written_rows_def)
    from Cons.IH [OF w1(2) this] obtain w' segs' seg' where "mcap_session X ops w1 = (Inr (), w')"
      "session_inv X chs w0 segs' seg' w'" "concat segs' @ seg' = (concat segs1 @ seg1) @ written_rows ops" by auto
    then show ?thesis using w1 WriteOp
      by (intro exI [of _ w'] exI [of _ segs'] exI [of _ seg']) (simp add: written_rows_def)
  next
    case (MetaOp n kv)
    obtain w1 where w1: "add_metadata n kv w = (Inr (), w1)" "session_inv X chs w0 segs seg w1"
      using meta_session_inv [OF Cons.prems(1), of n kv] Cons.prems(3) MetaOp by auto
    have "snd ` set (written_rows ops) \<subseteq> set chs" "list_all meta_ok ops"
      using Cons.prems MetaOp by (auto simp: written_rows_def)
    from Cons.IH [OF w1(2) this] show ?thesis using w1 MetaOp by (simp add: written_rows_def)
  qed
qed

lemma init_session_inv:
  "init_mcap path seekable max_bytes max_duration profile library now = Inr w \<Longrightarrow> session_inv X chs w [] [] w"
  by (auto simp: init_mcap_def session_inv_def open_part_inv within_limit_def payload_bytes_def split: if_splits)
    (auto simp: open_part_def metadata_recs_def)

section \<open>Reading a part back\<close>

definition replay_view :: "message \<times> channel \<Rightarrow> (bytes \<times> int \<times> timestamp) \<times> ustr \<times> ustr \<times> ustr \<times> bytes \<times> ustr" where
  "replay_view = (\<lambda>(m, ch). ((m_payload m, m_seq m, m_timestamp m), ch_topic ch, ch_encoding ch, ch_schema_name ch,
     ch_schema ch, ch_schema_encoding ch))"

text \<open>A row as a recording keeps it: the time stamp through its nanoseconds, an empty encoding as protobuf.\<close>

definition recorded :: "mcap_ext \<Rightarrow> message \<times> channel \<Rightarrow> message \<times> channel" where
  "recorded X = (\<lambda>(m, ch). (m\<lparr>m_timestamp := mx_from_ns X (mx_to_ns X (m_timestamp m))\<rparr>,
     ch\<lparr>ch_encoding := or_protobuf (ch_encoding ch), ch_schema_encoding := or_protobuf (ch_schema_encoding ch)\<rparr>))"

lemma or_protobuf_idem [simp]: "or_protobuf (or_protobuf e) = or_protobuf e"
  by (simp add: or_protobuf_def PROTOBUF_def)

definition row_view :: "mcap_ext \<Rightarrow> mcap_schema option \<times> ustr \<times> ustr \<times> mcap_message
    \<Rightarrow> (bytes \<times> int \<times> timestamp) \<times> ustr \<times> ustr \<times> ustr \<times> bytes \<times> ustr" where
  "row_view X = (\<lambda>(s, t, e, m). ((mm_data m, mm_sequence m, mx_from_ns X (mm_log_time m)), t, or_protobuf e,
     sc_name (the s), sc_data (the s), or_protobuf (sc_encoding (the s))))"

lemma read_all_schemas:
  "\<forall>r \<in> set rows. fst r \<noteq> None \<Longrightarrow>
     concat (map (\<lambda>(s, c, m). case s of None \<Rightarrow> [] | Some s \<Rightarrow> [replay_row X s c m]) rows)
       = map (\<lambda>(s, c, m). replay_row X (the s) c m) rows"
  by (induction rows) (auto split: option.splits)

lemma read_part:
  assumes ok: "mcap_ext_ok X" and part: "part_is X recs seg"
  shows "mset (map replay_view (read_mcap X recs)) = mset (map (replay_view \<circ> recorded X) seg)"
    "sorted (map (\<lambda>(m, ch). mx_to_ns X (m_timestamp m)) (read_mcap X recs))"
proof -
  from ok have ms: "mset (mx_read X recs) = mset (part_rows recs)"
    and sorted: "sorted (map (\<lambda>(s, c, m). mm_log_time m) (mx_read X recs))"
    and ns: "\<And>n. mx_to_ns X (mx_from_ns X n) = n" by (auto simp: mcap_ext_ok_def)
  have "fst (row_content r) \<noteq> None" if "r \<in> set (part_rows recs)" for r
  proof -
    have "row_content r \<in> set (map row_content (part_rows recs))" using that by simp
    then show ?thesis unfolding part [unfolded part_is_def] by (auto simp: Let_def case_prod_beta)
  qed
  then have some: "fst r \<noteq> None" if "r \<in> set (mx_read X recs)" for r
    using that mset_eq_setD [OF ms] by (cases r) (force simp: row_content_def)
  have read: "read_mcap X recs = map (\<lambda>(s, c, m). replay_row X (the s) c m) (mx_read X recs)"
    using some unfolding read_mcap_def by (intro read_all_schemas) blast
  have view: "replay_view (case r of (s, c, m) \<Rightarrow> replay_row X (the s) c m) = row_view X (row_content r)" for r
    by (auto simp: replay_view_def replay_row_def row_view_def row_content_def split: prod.splits)
  have "mset (map replay_view (read_mcap X recs)) = image_mset (row_view X \<circ> row_content) (mset (mx_read X recs))"
    by (simp add: read view multiset.map_comp comp_def)
  also have "\<dots> = mset (map (row_view X) (map row_content (part_rows recs)))"
    by (simp add: ms multiset.map_comp)
  also have "map (row_view X) (map row_content (part_rows recs)) = map (replay_view \<circ> recorded X) seg"
    unfolding part [unfolded part_is_def]
    by (auto simp: row_view_def replay_view_def recorded_def stored_row_def stored_message_def schema_of_def Let_def
        split: prod.splits)
  finally show "mset (map replay_view (read_mcap X recs)) = mset (map (replay_view \<circ> recorded X) seg)" .
  have "map (\<lambda>(m, ch). mx_to_ns X (m_timestamp m)) (read_mcap X recs) = map (\<lambda>(s, c, m). mm_log_time m) (mx_read X recs)"
    by (auto simp: read replay_row_def ns split: prod.splits)
  then show "sorted (map (\<lambda>(m, ch). mx_to_ns X (m_timestamp m)) (read_mcap X recs))" using sorted by simp
qed

section \<open>The names of the parts\<close>

lemma undec_pad4: "undec (pad4 n) = n"
proof -
  have "undec (replicate k 48 @ s) = undec s" for k s by (induction k) simp_all
  then show ?thesis using undec_dec_nat by (simp add: pad4_def del: undec.simps)
qed

lemma pad4_inject [simp]: "pad4 a = pad4 b \<longleftrightarrow> a = b"
  by (metis undec_pad4)

lemma dec_nat_steps:
  "n < 10 \<Longrightarrow> dec_nat n = [48 + n]"
  "10 \<le> n \<Longrightarrow> n < 100 \<Longrightarrow> dec_nat n = [48 + n div 10, 48 + n mod 10]"
  "100 \<le> n \<Longrightarrow> n < 1000 \<Longrightarrow> dec_nat n = [48 + n div 100, 48 + n div 10 mod 10, 48 + n mod 10]"
  "1000 \<le> n \<Longrightarrow> n < 10000 \<Longrightarrow> dec_nat n = [48 + n div 1000, 48 + n div 100 mod 10, 48 + n div 10 mod 10, 48 + n mod 10]"
proof -
  have one: "dec_nat n = [48 + n]" if "n < 10" for n using that by (simp add: dec_nat.simps [of n])
  have two: "dec_nat n = [48 + n div 10, 48 + n mod 10]" if "10 \<le> n" "n < 100" for n
    using that one [of "n div 10"] by (simp add: dec_nat.simps [of n] div_less_iff_less_mult)
  have three: "dec_nat n = [48 + n div 100, 48 + n div 10 mod 10, 48 + n mod 10]" if "100 \<le> n" "n < 1000" for n
    using that two [of "n div 10"]
    by (simp add: dec_nat.simps [of n] div_less_iff_less_mult less_eq_div_iff_mult_less_eq div_mult2_eq [symmetric])
  show "n < 10 \<Longrightarrow> dec_nat n = [48 + n]" "10 \<le> n \<Longrightarrow> n < 100 \<Longrightarrow> dec_nat n = [48 + n div 10, 48 + n mod 10]"
    "100 \<le> n \<Longrightarrow> n < 1000 \<Longrightarrow> dec_nat n = [48 + n div 100, 48 + n div 10 mod 10, 48 + n mod 10]"
    using one two three by blast+
  show "dec_nat n = [48 + n div 1000, 48 + n div 100 mod 10, 48 + n div 10 mod 10, 48 + n mod 10]"
    if "1000 \<le> n" "n < 10000"
    using that three [of "n div 10"]
    by (simp add: dec_nat.simps [of n] div_less_iff_less_mult less_eq_div_iff_mult_less_eq div_mult2_eq [symmetric])
qed

lemma pad4_digits:
  assumes "n < 10000"
  shows "pad4 n = [48 + n div 1000, 48 + n div 100 mod 10, 48 + n div 10 mod 10, 48 + n mod 10]"
proof -
  have r: "replicate 2 x = [x, x]" "replicate 3 x = [x, x, x]" for x :: nat
    by (simp_all add: numeral_2_eq_2 numeral_3_eq_3)
  consider "n < 10" | "10 \<le> n" "n < 100" | "100 \<le> n" "n < 1000" | "1000 \<le> n" using assms by linarith
  then show ?thesis
    using assms by cases (simp_all add: pad4_def dec_nat_steps r div_less_iff_less_mult)
qed

text \<open>Up to part 9999 the order of the names is the order of the parts.\<close>

lemma digits_order:
  fixes a0 a1 a2 a3 b0 b1 b2 b3 :: nat
  assumes "1000 * a3 + 100 * a2 + 10 * a1 + a0 < 1000 * b3 + 100 * b2 + 10 * b1 + b0"
    and "a0 < 10" "a1 < 10" "a2 < 10" "b0 < 10" "b1 < 10" "b2 < 10"
  shows "a3 < b3 \<or> a3 = b3 \<and> (a2 < b2 \<or> a2 = b2 \<and> (a1 < b1 \<or> a1 = b1 \<and> a0 < b0))"
  using assms by (cases a3 b3 rule: linorder_cases; cases a2 b2 rule: linorder_cases;
      cases a1 b1 rule: linorder_cases) linarith+

lemma pad4_order:
  assumes "a < b" "b < 10000"
  shows "pad4 a < pad4 b"
proof -
  have d: "1000 * (n div 1000) + 100 * (n div 100 mod 10) + 10 * (n div 10 mod 10) + n mod 10 = n" for n :: nat
  proof -
    have "n div 100 = n div 10 div 10" "n div 1000 = n div 100 div 10" by (simp_all flip: div_mult2_eq)
    then show ?thesis
      using div_mult_mod_eq [of n 10] div_mult_mod_eq [of "n div 10" 10] div_mult_mod_eq [of "n div 100" 10] by linarith
  qed
  then show ?thesis
    using assms digits_order [of "a div 1000" "a div 100 mod 10" "a div 10 mod 10" "a mod 10"
      "b div 1000" "b div 100 mod 10" "b div 10 mod 10" "b mod 10"]
    by (simp add: pad4_digits)
qed

lemma middle_order:
  fixes x y :: ustr
  assumes "length x = length y" "x < y"
  shows "p @ x @ s < p @ y @ s"
proof -
  have "x @ s < y @ s" using assms by (induction rule: list_induct2) auto
  then show ?thesis by (induction p) simp_all
qed

section \<open>What a finished part holds\<close>

lemma part_is_messages:
  assumes "part_is X recs seg"
  shows "map snd (part_messages recs) = map (stored_message X \<circ> fst) seg"
proof -
  have "map snd (part_messages recs) = map (\<lambda>(s, t, e, m). m) (map row_content (part_rows recs))"
    by (auto simp: part_rows_def row_content_def Let_def split: prod.splits)
  also have "\<dots> = map (stored_message X \<circ> fst) seg"
    unfolding assms [unfolded part_is_def] by (auto simp: stored_row_def Let_def split: prod.splits)
  finally show ?thesis .
qed

definition part_bytes :: "(int \<times> mcap_message) list \<Rightarrow> int" where
  "part_bytes ms = (\<Sum>(c, m) \<leftarrow> ms. int (length (mm_data m)))"

lemma part_is_bytes:
  assumes "part_is X recs seg"
  shows "part_bytes (butlast (part_messages recs)) = payload_bytes (butlast seg)"
    "part_messages recs = [] \<longleftrightarrow> seg = []"
proof -
  note ms = part_is_messages [OF assms]
  have "part_bytes ms = (\<Sum>m \<leftarrow> map snd ms. int (length (mm_data m)))" for ms
    unfolding part_bytes_def by (induction ms) auto
  moreover have "payload_bytes s = (\<Sum>m \<leftarrow> map (stored_message X \<circ> fst) s. int (length (mm_data m)))" for s
    unfolding payload_bytes_def by (induction s) (auto simp: stored_message_def Let_def)
  ultimately show "part_bytes (butlast (part_messages recs)) = payload_bytes (butlast seg)"
    by (simp add: map_butlast [symmetric] ms del: map_map) (simp add: map_butlast ms)
  show "part_messages recs = [] \<longleftrightarrow> seg = []" using ms by (metis Nil_is_map_conv)
qed

text \<open>Closing makes the open part the last finished one.\<close>

lemma close_session:
  assumes inv: "session_inv X chs w0 segs seg w" and cons: "consistent chs"
  shows "list_all2 (\<lambda>(name, recs). part_is X recs) (mw_finished (mcap_close w)) (segs @ [seg])"
    "map fst (mw_finished (mcap_close w)) = map (\<lambda>k. part_name (w0\<lparr>mw_part_index := k\<rparr>)) [0..<Suc (length segs)]"
proof -
  have "part_is X (mw_part w) seg" using inv part_rows_inv [OF _ cons] by (simp add: session_inv_def part_is_def)
  moreover have "part_name w = part_name (w0\<lparr>mw_part_index := length segs\<rparr>)"
    using inv part_name_setup [of w w0] by (simp add: session_inv_def)
  ultimately show "list_all2 (\<lambda>(name, recs). part_is X recs) (mw_finished (mcap_close w)) (segs @ [seg])"
    "map fst (mw_finished (mcap_close w)) = map (\<lambda>k. part_name (w0\<lparr>mw_part_index := k\<rparr>)) [0..<Suc (length segs)]"
    using inv by (simp_all add: mcap_close_def session_inv_def list_all2_appendI)
qed

lemma session_closed:
  assumes "mcap_ext_ok X" "init_mcap path seekable mb md prof lib now = Inr w"
    and "consistent (map snd (written_rows ops))" "list_all meta_ok ops"
  obtains w' segs seg where "mcap_session X ops w = (Inr (), w')"
    "session_inv X (map snd (written_rows ops)) w segs seg w'" "concat (segs @ [seg]) = written_rows ops"
proof -
  have "snd ` set (written_rows ops) \<subseteq> set (map snd (written_rows ops))" by simp
  from session_run [OF assms(1,3) init_session_inv [OF assms(2)] this assms(4)]
  show thesis using that by auto
qed

text \<open>A metadata record, once added, is in the open part and in every part finished from then on.\<close>

definition carries :: "nat \<Rightarrow> ustr \<Rightarrow> (ustr \<times> ustr) list \<Rightarrow> mcap_writer \<Rightarrow> bool" where
  "carries k n r w \<longleftrightarrow> k \<le> length (mw_finished w) \<and> (\<forall>p \<in> set (drop k (mw_finished w)). MetadataRec n r \<in> set (snd p))
     \<and> MetadataRec n r \<in> set (mw_part w) \<and> (n, r) \<in> set (mw_metadata w) \<and> \<not> mw_closed w"

lemma carries_same_part: "carries k n r w \<Longrightarrow> same_part w w' \<Longrightarrow> carries k n r w'"
  by (auto simp: carries_def same_part_def same_setup_def)

lemma carries_roll: "carries k n r w \<Longrightarrow> carries k n r (roll now w)"
  by (auto simp: carries_def roll_def open_part_def)

lemma carries_step: "carries k n r w \<Longrightarrow> carries k n r (snd (mcap_op_step X op w))"
proof (cases op)
  case (WriteOp now opened m ch)
  assume c: "carries k n r w"
  let ?w = "ready now opened w"
  obtain sid w1 where w1: "use_schema X ch ?w = (sid, w1)" by (cases "use_schema X ch ?w") auto
  obtain cid w2 where w2: "use_channel X ch sid w1 = (cid, w2)" by (cases "use_channel X ch sid w1") auto
  have "carries k n r ?w" using c by (simp add: ready_def carries_roll)
  then have "carries k n r w2"
    using carries_same_part same_part_trans [OF use_schema_same [OF w1] use_channel_same [OF w2]] by blast
  moreover have "\<not> mw_closed w" using c by (simp add: carries_def)
  ultimately show ?thesis using w1 w2 unfolding WriteOp
    by (auto simp: mcap_write_def Let_def ready_def [symmetric] carries_def split: sum.splits)
next
  case (MetaOp n' kv)
  then show "carries k n r w \<Longrightarrow> ?thesis" by (auto simp: add_metadata_def Let_def carries_def split: option.splits)
qed

lemma carries_session: "carries k n r w \<Longrightarrow> carries k n r (snd (mcap_session X ops w))"
proof (induction ops arbitrary: w)
  case (Cons op ops)
  then show ?case using carries_step [OF Cons.prems, of X op] by (auto split: prod.splits sum.splits)
qed simp

section \<open>The endpoint's queue\<close>

lemma write_batch_inv:
  assumes "mcap_ext_ok X" "consistent chs" "session_inv X chs w0 segs seg w" "fst ` set q \<subseteq> set chs"
  shows "\<exists>w' segs' seg'. write_batch X clocks q w = (Inr (), w') \<and> session_inv X chs w0 segs' seg' w'
    \<and> concat segs' @ seg' = concat segs @ seg @ map prod.swap q"
  using assms(3,4)
proof (induction q arbitrary: clocks w segs seg)
  case Nil
  then show ?case by (intro exI [of _ w] exI [of _ segs] exI [of _ seg]) simp
next
  case (Cons cm q)
  obtain ch m where cm: "cm = (ch, m)" by fastforce
  obtain now opened where c: "(case clocks of [] \<Rightarrow> (0, 0) | c # _ \<Rightarrow> c) = (now, opened)" by fastforce
  have ch: "ch \<in> set chs" using Cons.prems(2) cm by simp
  obtain w1 segs1 seg1 where w1: "mcap_write X now opened m ch w = (Inr (), w1)"
    "session_inv X chs w0 segs1 seg1 w1" "concat segs1 @ seg1 = concat segs @ seg @ [(m, ch)]"
    using write_session_inv [OF assms(1) Cons.prems(1) ch assms(2)] by metis
  have "fst ` set q \<subseteq> set chs" using Cons.prems(2) by simp
  from Cons.IH [OF w1(2) this, of "tl clocks"] obtain w' segs' seg' where
    "write_batch X (tl clocks) q w1 = (Inr (), w')" "session_inv X chs w0 segs' seg' w'"
    "concat segs' @ seg' = (concat segs1 @ seg1) @ map prod.swap q" by auto
  then show ?case using w1 c cm by (intro exI [of _ w'] exI [of _ segs'] exI [of _ seg']) simp
qed

text \<open>A history of the endpoint between \<open>start\<close> and \<open>stop\<close>: sends, and turns of its thread, in any order.\<close>

datatype me_op = SendOp message | TurnOp "(int \<times> int) list"

fun me_step :: "mcap_ext \<Rightarrow> (int \<Rightarrow> channel option) \<Rightarrow> mcap_endpoint \<Rightarrow> me_op \<Rightarrow> mcap_endpoint" where
  "me_step X lookup e (SendOp m) = me_send lookup m e"
| "me_step X lookup e (TurnOp clocks) = me_turn X clocks e"

definition sent_rows :: "(int \<Rightarrow> channel option) \<Rightarrow> me_op list \<Rightarrow> (message \<times> channel) list" where
  "sent_rows lookup ops = concat (map (\<lambda>op. case op of
     SendOp m \<Rightarrow> (case lookup (m_stream_id m) of None \<Rightarrow> [] | Some ch \<Rightarrow> [(m, ch)]) | TurnOp _ \<Rightarrow> []) ops)"

definition me_inv :: "mcap_ext \<Rightarrow> channel list \<Rightarrow> mcap_writer \<Rightarrow> (message \<times> channel) list \<Rightarrow> mcap_endpoint \<Rightarrow> bool" where
  "me_inv X chs w0 rows e \<longleftrightarrow> me_thread e \<and> \<not> me_crashed e \<and> \<not> me_stop e \<and> fst ` set (me_queue e) \<subseteq> set chs
     \<and> (\<exists>segs seg. session_inv X chs w0 segs seg (me_writer e)
          \<and> concat segs @ seg @ map prod.swap (me_queue e) = rows)"

lemma me_turn_inv:
  assumes "mcap_ext_ok X" "consistent chs" "me_inv X chs w0 rows e"
  shows "me_inv X chs w0 rows (me_turn X clocks e)" "me_queue (me_turn X clocks e) = []"
proof -
  from assms(3) obtain segs seg where e: "me_thread e" "\<not> me_crashed e" "\<not> me_stop e" "fst ` set (me_queue e) \<subseteq> set chs"
    "session_inv X chs w0 segs seg (me_writer e)" "concat segs @ seg @ map prod.swap (me_queue e) = rows"
    unfolding me_inv_def by blast
  from write_batch_inv [OF assms(1,2) e(5,4), of clocks] obtain w' segs' seg' where w':
    "write_batch X clocks (me_queue e) (me_writer e) = (Inr (), w')" "session_inv X chs w0 segs' seg' w'"
    "concat segs' @ seg' = concat segs @ seg @ map prod.swap (me_queue e)" by blast
  then have turn: "me_turn X clocks e = e\<lparr>me_writer := w', me_queue := [], me_crashed := False\<rparr>"
    using e by (simp add: me_turn_def)
  show "me_inv X chs w0 rows (me_turn X clocks e)" unfolding turn me_inv_def using e w'(2,3) by auto
  show "me_queue (me_turn X clocks e) = []" unfolding turn by simp
qed

lemma me_step_inv:
  assumes "mcap_ext_ok X" "consistent chs" "me_inv X chs w0 rows e" "snd ` set (sent_rows lookup [op]) \<subseteq> set chs"
  shows "me_inv X chs w0 (rows @ sent_rows lookup [op]) (me_step X lookup e op)"
proof (cases op)
  case (SendOp m)
  then show ?thesis using assms(3,4) by (auto simp: me_send_def sent_rows_def me_inv_def split: option.splits)
qed (use me_turn_inv [OF assms(1-3)] in \<open>simp add: sent_rows_def\<close>)

lemma me_run_inv:
  assumes "mcap_ext_ok X" "consistent chs" "me_inv X chs w0 rows e" "snd ` set (sent_rows lookup ops) \<subseteq> set chs"
  shows "me_inv X chs w0 (rows @ sent_rows lookup ops) (foldl (me_step X lookup) e ops)"
  using assms(3,4)
proof (induction ops arbitrary: rows e)
  case (Cons op ops)
  have s: "sent_rows lookup (op # ops) = sent_rows lookup [op] @ sent_rows lookup ops" by (simp add: sent_rows_def)
  have "me_inv X chs w0 (rows @ sent_rows lookup [op]) (me_step X lookup e op)"
    using me_step_inv [OF assms(1,2) Cons.prems(1)] Cons.prems(2) s by auto
  from Cons.IH [OF this] show ?case using Cons.prems(2) s by auto
qed (simp add: sent_rows_def)

definition init_endpoint :: "mcap_writer \<Rightarrow> mcap_endpoint" where
  "init_endpoint w = \<lparr>me_writer = w, me_queue = [], me_stop = False, me_thread = False, me_crashed = False\<rparr>"

lemma start_inv:
  "session_inv X chs w [] [] w \<Longrightarrow> me_inv X chs w [] (me_start (init_endpoint w))"
  by (auto simp: me_inv_def me_start_def init_endpoint_def intro!: exI [of _ "[]"])

lemma end_inv:
  assumes "mcap_ext_ok X" "consistent chs" "me_inv X chs w0 rows e"
  obtains w segs seg where "me_writer (me_end X clocks e) = mcap_close w" "session_inv X chs w0 segs seg w"
    "concat (segs @ [seg]) = rows" "\<not> me_crashed (me_end X clocks e)"
proof -
  let ?t = "me_turn X clocks e"
  from me_turn_inv [OF assms, of clocks] obtain segs seg where t: "session_inv X chs w0 segs seg (me_writer ?t)"
    "concat segs @ seg = rows" "\<not> me_crashed ?t" unfolding me_inv_def by auto
  have stop: "me_writer (me_turn X clocks (e\<lparr>me_stop := True\<rparr>)) = me_writer ?t"
    "me_crashed (me_turn X clocks (e\<lparr>me_stop := True\<rparr>)) = me_crashed ?t"
    by (simp_all add: me_turn_def case_prod_beta)
  have "me_thread e" "\<not> me_stop e" using assms(3) by (simp_all add: me_inv_def)
  then show thesis using t stop by (intro that [of "me_writer ?t" segs seg]) (simp_all add: me_end_def)
qed

text \<open>Once its thread has died, an endpoint writes nothing more.\<close>

lemma crashed_run: "me_crashed e \<Longrightarrow> me_writer (foldl (me_step X lookup) e ops) = me_writer e
    \<and> me_crashed (foldl (me_step X lookup) e ops) \<and> me_stop (foldl (me_step X lookup) e ops) = me_stop e
    \<and> me_thread (foldl (me_step X lookup) e ops) = me_thread e"
proof (induction ops arbitrary: e)
  case (Cons op ops)
  have "me_crashed (me_step X lookup e op)" "me_writer (me_step X lookup e op) = me_writer e"
    "me_stop (me_step X lookup e op) = me_stop e" "me_thread (me_step X lookup e op) = me_thread e"
    using Cons.prems by (cases op; auto simp: me_send_def me_turn_def split: option.splits)+
  then show ?case using Cons.IH by simp
qed simp

lemma crashed_end: "me_crashed e \<Longrightarrow> \<not> me_stop e \<Longrightarrow> me_writer (me_end X clocks e) = mcap_close (me_writer e)"
  by (auto simp: me_end_def me_turn_def)

lemma write_batch_append:
  "write_batch X clocks (q @ q') w = (let (r, w') = write_batch X clocks q w
     in case r of Inl e \<Rightarrow> (Inl e, w') | Inr _ \<Rightarrow> write_batch X (drop (length q) clocks) q' w')"
  by (induction X clocks q w rule: write_batch.induct) (auto simp: Let_def drop_Suc split: prod.splits sum.splits)

section \<open>Properties\<close>

definition sample_mcap :: mcap_ext where
  "sample_mcap = \<lparr>mx_schema_id = (\<lambda>n. int n + 1), mx_channel_id = int,
     mx_read = (\<lambda>recs. sort_key (\<lambda>(s, c, m). mm_log_time m) (part_rows recs)),
     mx_to_ns = (\<lambda>t. ts_seconds t * 1000000000 + ts_nanos t),
     mx_from_ns = (\<lambda>n. \<lparr>ts_seconds = n div 1000000000, ts_nanos = n mod 1000000000\<rparr>)\<rparr>"

lemma sample_mcap_ok: "mcap_ext_ok sample_mcap"
  unfolding mcap_ext_ok_def
proof (intro conjI allI)
  fix recs
  show "sorted (map (\<lambda>(s, c, m). mm_log_time m) (mx_read sample_mcap recs))"
    using sorted_sort_key [of "\<lambda>(s, c, m). mm_log_time m" "part_rows recs"] by (simp add: sample_mcap_def)
qed (auto simp: sample_mcap_def inj_on_def)

definition sample_writer :: mcap_writer where
  "sample_writer = open_part 0 \<lparr>mw_path = Some ([97], [98]), mw_profile = [], mw_library = None, mw_max_bytes = Some 2,
     mw_max_duration = None, mw_closed = False, mw_part_index = 0, mw_metadata = [], mw_schema_ids = Map.empty,
     mw_channel_ids = Map.empty, mw_channel_schemas = Map.empty, mw_part_start = 0, mw_part_bytes = 0, mw_part = [],
     mw_finished = []\<rparr>"

lemma sample_writer_init: "init_mcap (Some ([97], [98])) True (Some 2) None [] None 0 = Inr sample_writer"
  by (simp add: init_mcap_def sample_writer_def)

definition sample_rows :: "mcap_op list" where
  "sample_rows = [WriteOp 0 0 (sample_message 16 [1, 2]) (sample_channel 16 [97]),
     MetaOp [109] [([107], Some [118])], WriteOp 1 1 (sample_message 17 [3]) (sample_channel 17 [98])]"

lemma sample_rows_ok: "consistent (map snd (written_rows sample_rows))" "list_all meta_ok sample_rows"
  by (simp_all add: sample_rows_def written_rows_def consistent_def meta_ok_def sample_channel_def schema_of_def)

text \<open>
  C21. A recording reads back. Whatever rows and metadata are written, with whatever rotation, as long as
  no topic changes its schema and no schema name its definition: no write fails, the rows fall into one
  segment for each part, and each finished part reads as exactly its segment (payload, sequence number,
  time stamp, topic, encodings, schema), in log time order.
\<close>

theorem recording_reads_back:
  assumes "mcap_ext_ok X" and "init_mcap path seekable mb md prof lib now = Inr w"
    and "consistent (map snd (written_rows ops))" and "list_all meta_ok ops"
  shows "\<exists>w' segs. mcap_session X ops w = (Inr (), w') \<and> concat segs = written_rows ops
    \<and> list_all2 (\<lambda>(name, recs) seg.
          mset (map replay_view (read_mcap X recs)) = mset (map (replay_view \<circ> recorded X) seg)
          \<and> sorted (map (\<lambda>(m, ch). mx_to_ns X (m_timestamp m)) (read_mcap X recs)))
        (mw_finished (mcap_close w')) segs"
proof -
  from session_closed [OF assms] obtain w' segs seg where w': "mcap_session X ops w = (Inr (), w')"
    "session_inv X (map snd (written_rows ops)) w segs seg w'" "concat (segs @ [seg]) = written_rows ops" .
  from close_session(1) [OF w'(2) assms(3)]
  have "list_all2 (\<lambda>(name, recs) seg. mset (map replay_view (read_mcap X recs)) = mset (map (replay_view \<circ> recorded X) seg)
          \<and> sorted (map (\<lambda>(m, ch). mx_to_ns X (m_timestamp m)) (read_mcap X recs)))
        (mw_finished (mcap_close w')) (segs @ [seg])"
    by (rule list_all2_mono) (use read_part [OF assms(1)] in auto)
  with w' show ?thesis by blast
qed

theorem recording_reads_back_witness:
  "fst (mcap_session sample_mcap sample_rows sample_writer) = Inr ()"
  using recording_reads_back [OF sample_mcap_ok sample_writer_init sample_rows_ok] by auto

text \<open>
  C22. Rotation. A recording with \<open>max_bytes\<close> overshoots in a part by at most its last message; no part
  but the last is without message; and the parts are named by a number of four digits, so that up to
  ten thousand parts the order of the names is the order of the parts.
\<close>

theorem parts_stay_within_limit:
  assumes "mcap_ext_ok X" and "init_mcap (Some (stem, ext)) seekable mb md prof lib now = Inr w"
    and "mb \<noteq> None \<or> md \<noteq> None"
    and "consistent (map snd (written_rows ops))" and "list_all meta_ok ops"
    and "mcap_session X ops w = (r, w')" and "parts = mw_finished (mcap_close w')"
  shows "(\<forall>(name, recs) \<in> set parts. \<forall>b. mb = Some b \<longrightarrow> 0 < b \<longrightarrow> part_bytes (butlast (part_messages recs)) < b)
    \<and> (\<forall>(name, recs) \<in> set (butlast parts). part_messages recs \<noteq> [])
    \<and> map fst parts = map (\<lambda>k. Some (stem @ 95 # pad4 k @ ext)) [0..<length parts]
    \<and> (length parts \<le> 10000 \<longrightarrow> sorted_wrt (\<lambda>a b. the (fst a) < the (fst b)) parts)"
proof -
  have w: "mw_path w = Some (stem, ext)" "mw_max_bytes w = mb" "mw_max_duration w = md"
    using assms(2) by (auto simp: init_mcap_def open_part_def split: if_splits)
  obtain segs seg where s: "session_inv X (map snd (written_rows ops)) w segs seg w'"
    using session_closed [OF assms(1,2,4,5)] assms(6) by (metis prod.inject)
  note parts = close_session [OF s assms(4), folded assms(7)]
  have len: "length parts = Suc (length segs)" using list_all2_lengthD [OF parts(1)] by simp
  have nth: "part_is X (snd (parts ! k)) ((segs @ [seg]) ! k)" if "k < length parts" for k
    using list_all2_nthD [OF parts(1) that] by (simp add: case_prod_beta)
  have lim: "within_limit mb ((segs @ [seg]) ! k)" if "k < length parts" for k
    using s that w len nth_mem [of k "segs @ [seg]"] by (auto simp: session_inv_def)
  have "part_bytes (butlast (part_messages (snd (parts ! k)))) < b" if "k < length parts" "mb = Some b" "0 < b" for k b
    using lim [OF that(1)] that(2,3) part_is_bytes(1) [OF nth [OF that(1)]] by (simp add: within_limit_def)
  then have bounds: "\<forall>(name, recs) \<in> set parts. \<forall>b. mb = Some b \<longrightarrow> 0 < b \<longrightarrow> part_bytes (butlast (part_messages recs)) < b"
    by (auto simp: in_set_conv_nth) (metis snd_conv)
  have "part_messages (snd (parts ! k)) \<noteq> []" if "k < length segs" for k
    using part_is_bytes(2) [OF nth [of k]] that len s by (auto simp: session_inv_def nth_append)
  then have filled: "\<forall>(name, recs) \<in> set (butlast parts). part_messages recs \<noteq> []"
    by (auto simp: in_set_conv_nth nth_butlast len) (metis snd_conv)
  have names: "map fst parts = map (\<lambda>k. Some (stem @ 95 # pad4 k @ ext)) [0..<length parts]"
    unfolding parts(2) len using w assms(3) by (auto simp: part_name_def mw_rotating_def)
  have "sorted_wrt (\<lambda>a b. the (fst a) < the (fst b)) parts" if small: "length parts \<le> 10000"
    unfolding sorted_wrt_iff_nth_less
  proof (intro allI impI)
    fix i j assume ij: "i < j" "j < length parts"
    have name: "fst (parts ! k) = Some (stem @ 95 # pad4 k @ ext)" if "k < length parts" for k
      using arg_cong [OF names, of "\<lambda>l. l ! k"] that by simp
    have "pad4 i < pad4 j" "length (pad4 i) = length (pad4 j)"
      using pad4_order [of i j] ij small by (simp_all add: pad4_digits)
    then show "the (fst (parts ! i)) < the (fst (parts ! j))"
      using name [of i] name [of j] ij middle_order [of "pad4 i" "pad4 j" "stem @ [95]" ext] by simp
  qed
  with bounds filled names show ?thesis by blast
qed

theorem parts_stay_within_limit_witness:
  "map fst (mw_finished (mcap_close (snd (mcap_session sample_mcap sample_rows sample_writer))))
     = [Some [97, 95, 48, 48, 48, 48, 98], Some [97, 95, 48, 48, 48, 49, 98]]"
proof -
  obtain r w' where run: "mcap_session sample_mcap sample_rows sample_writer = (r, w')" by fastforce
  have "length (mw_finished (mcap_close (snd (mcap_session sample_mcap sample_rows sample_writer)))) = 2"
    by (simp add: sample_rows_def sample_writer_def sample_mcap_def sample_message_def sample_channel_def mcap_write_def
        mw_rotating_def should_roll_def roll_def open_part_def use_schema_def use_channel_def add_metadata_def
        mcap_close_def default_message_def)
  then have "length (mw_finished (mcap_close w')) = 2" by (simp add: run)
  then show ?thesis
    using parts_stay_within_limit [OF sample_mcap_ok sample_writer_init _ sample_rows_ok run refl] run
    by (simp add: upt_rec numeral_2_eq_2 pad4_digits)
qed

text \<open>
  C23. Provenance stands alone in every part: a metadata record, once added, is in the part that is open
  and in every part that the rest of the recording makes, whatever is written and whichever writes fail.
\<close>

theorem provenance_in_every_part:
  assumes "add_metadata n kv w = (Inr (), w1)" and "mcap_session X ops w1 = (r, w2)"
    and "parts = drop (length (mw_finished w)) (mw_finished (mcap_close w2))"
  shows "parts \<noteq> [] \<and> (\<forall>p \<in> set parts. MetadataRec n (map (\<lambda>(k, v). (k, the v)) kv) \<in> set (snd p))"
proof -
  have "carries (length (mw_finished w)) n (map (\<lambda>(k, v). (k, the v)) kv) w1"
    using assms(1) by (auto simp: add_metadata_def carries_def Let_def split: if_splits option.splits)
  from carries_session [OF this, of X ops] assms(2)
  have "carries (length (mw_finished w)) n (map (\<lambda>(k, v). (k, the v)) kv) w2" by simp
  then show ?thesis unfolding assms(3) by (auto simp: carries_def mcap_close_def)
qed

theorem provenance_in_every_part_witness:
  "\<exists>p. p \<in> set (mw_finished (mcap_close (snd (mcap_session sample_mcap sample_rows
      (snd (add_metadata [112] [([107], Some [118])] sample_writer))))))
    \<and> MetadataRec [112] [([107], [118])] \<in> set (snd p)"
proof -
  have m: "add_metadata [112] [([107], Some [118])] sample_writer
      = (Inr (), snd (add_metadata [112] [([107], Some [118])] sample_writer))"
    by (simp add: add_metadata_def sample_writer_def open_part_def)
  from provenance_in_every_part [OF m surjective_pairing refl, of sample_mcap sample_rows]
  show ?thesis by (auto simp del: drop_eq_Nil) (metis in_set_dropD list.set_sel(1) snd_conv surj_pair)
qed

text \<open>
  C24. What is sent is recorded. Between \<open>start\<close> and \<open>stop\<close>, in whatever order senders and the
  endpoint's thread run and however the thread's batches fall: when \<open>stop\<close> returns, the parts of the
  closed recording hold exactly the messages that were sent on known channels, in the order sent.
\<close>

theorem what_is_sent_is_recorded:
  assumes "mcap_ext_ok X" and "init_mcap path seekable mb md prof lib now = Inr w"
    and "consistent (map snd (sent_rows lookup ops))"
    and "e = me_end X clocks (foldl (me_step X lookup) (me_start (init_endpoint w)) ops)"
  shows "\<not> me_crashed e \<and> mw_closed (me_writer e)
    \<and> concat (map (map snd \<circ> part_messages \<circ> snd) (mw_finished (me_writer e)))
        = map (stored_message X \<circ> fst) (sent_rows lookup ops)"
proof -
  have "snd ` set (sent_rows lookup ops) \<subseteq> set (map snd (sent_rows lookup ops))" by simp
  from me_run_inv [OF assms(1,3) start_inv [OF init_session_inv [OF assms(2)]] this]
  have run: "me_inv X (map snd (sent_rows lookup ops)) w (sent_rows lookup ops)
      (foldl (me_step X lookup) (me_start (init_endpoint w)) ops)" by simp
  obtain w' segs seg where e: "me_writer e = mcap_close w'"
    "session_inv X (map snd (sent_rows lookup ops)) w segs seg w'" "concat (segs @ [seg]) = sent_rows lookup ops"
    "\<not> me_crashed e"
    using end_inv [OF assms(1,3) run, of clocks] unfolding assms(4) by blast
  have "concat (map (map snd \<circ> part_messages \<circ> snd) parts) = map (stored_message X \<circ> fst) (concat ss)"
    if "list_all2 (\<lambda>(name, recs). part_is X recs) parts ss" for parts ss
    using that by (induction rule: list_all2_induct) (auto simp: part_is_messages)
  from this [OF close_session(1) [OF e(2) assms(3)]] e(1,3,4) show ?thesis by (simp del: concat_append) (simp add: mcap_close_def)
qed

definition sample_lookup :: "int \<Rightarrow> channel option" where
  "sample_lookup i = (if i = 16 then Some (sample_channel 16 [97]) else None)"

theorem what_is_sent_is_recorded_witness:
  "concat (map (map snd \<circ> part_messages \<circ> snd) (mw_finished (me_writer (me_end sample_mcap []
     (foldl (me_step sample_mcap sample_lookup) (me_start (init_endpoint sample_writer))
       [SendOp (sample_message 16 [1]), TurnOp [], SendOp (sample_message 16 [2]), SendOp (sample_message 17 [3])])))))
   = [stored_message sample_mcap (sample_message 16 [1]), stored_message sample_mcap (sample_message 16 [2])]"
proof -
  let ?ops = "[SendOp (sample_message 16 [1]), TurnOp [], SendOp (sample_message 16 [2]), SendOp (sample_message 17 [3])]"
  have rows: "sent_rows sample_lookup ?ops
      = [(sample_message 16 [1], sample_channel 16 [97]), (sample_message 16 [2], sample_channel 16 [97])]"
    by (simp add: sent_rows_def sample_lookup_def sample_message_def)
  have "consistent (map snd (sent_rows sample_lookup ?ops))" unfolding rows by (simp add: consistent_def)
  from what_is_sent_is_recorded [OF sample_mcap_ok sample_writer_init this refl, of "[]"] show ?thesis
    unfolding rows by simp
qed

text \<open>
  C25. One message that conflicts with its topic's schema ends the recording: the exception kills the
  writer thread, the rest of the batch is lost, whatever is sent afterwards is never written, and
  \<open>stop\<close> closes the file as if nothing had happened.
\<close>

theorem conflict_ends_the_recording:
  assumes "me_thread e" and "\<not> me_crashed e" and "\<not> me_stop e" and "me_queue e = q @ (ch, m) # rest"
    and "write_batch X clocks q (me_writer e) = (Inr (), w)"
    and "\<not> mw_closed w" and "\<not> mw_rotating w"
    and "mw_channel_ids w (ch_topic ch) = Some i" and "mw_channel_schemas w (ch_topic ch) \<noteq> Some (ch_schema_name ch)"
  shows "me_crashed (me_turn X clocks e) \<and> me_queue (me_turn X clocks e) = []
    \<and> part_messages (snd (last (mw_finished (me_writer (me_end X clocks'
          (foldl (me_step X lookup) (me_turn X clocks e) later)))))) = part_messages (mw_part w)"
proof -
  obtain sid w1 where w1: "use_schema X ch w = (sid, w1)" by (cases "use_schema X ch w") auto
  have same: "mw_channel_ids w1 = mw_channel_ids w" "mw_channel_schemas w1 = mw_channel_schemas w"
    "part_messages (mw_part w1) = part_messages (mw_part w)" "mw_closed w1 = mw_closed w"
    using w1 by (auto simp: use_schema_def Let_def split: option.splits)
  have "use_channel X ch sid w1 = (Inl (TopicConflict (ch_topic ch) (the (mw_channel_schemas w (ch_topic ch)))
      (ch_schema_name ch)), w1)" using assms(8,9) same by (simp add: use_channel_def)
  then have fails: "\<exists>err. mcap_write X now opened m ch w = (Inl err, w1)" for now opened
    using assms(6,7) w1 by (simp add: mcap_write_def Let_def)
  obtain now opened where clock: "(case drop (length q) clocks of [] \<Rightarrow> (0, 0) | c # _ \<Rightarrow> c) = (now, opened)" by fastforce
  have "\<exists>err. write_batch X clocks (me_queue e) (me_writer e) = (Inl err, w1)"
    unfolding assms(4) write_batch_append assms(5) using fails [of now opened] clock by auto
  then have turn: "me_turn X clocks e = e\<lparr>me_writer := w1, me_queue := [], me_crashed := True\<rparr>"
    using assms(1,2) by (auto simp: me_turn_def)
  let ?e = "foldl (me_step X lookup) (me_turn X clocks e) later"
  have "me_crashed ?e" "me_writer ?e = w1" "\<not> me_stop ?e" using crashed_run [of "me_turn X clocks e"] turn assms(3) by simp_all
  from crashed_end [OF this(1,3)] this(2) have "me_writer (me_end X clocks' ?e) = mcap_close w1" by simp
  then show ?thesis using same assms(6) turn by (simp add: mcap_close_def)
qed

definition sample_plain_writer :: mcap_writer where
  "sample_plain_writer = snd (mcap_write sample_mcap 0 0 (sample_message 16 [1]) (sample_channel 16 [97])
     (sample_writer\<lparr>mw_max_bytes := None\<rparr>))"

theorem conflict_ends_the_recording_witness:
  "part_messages (snd (last (mw_finished (me_writer (me_end sample_mcap [] (foldl (me_step sample_mcap sample_lookup)
      (me_turn sample_mcap [] \<lparr>me_writer = sample_plain_writer,
         me_queue = [(sample_channel 16 [97]\<lparr>ch_schema_name := [99]\<rparr>, sample_message 16 [2])],
         me_stop = False, me_thread = True, me_crashed = False\<rparr>) [SendOp (sample_message 16 [3])]))))))
   = [(0, stored_message sample_mcap (sample_message 16 [1]))]"
proof -
  have w: "\<not> mw_closed sample_plain_writer" "\<not> mw_rotating sample_plain_writer"
    "mw_channel_ids sample_plain_writer [97] = Some 0" "mw_channel_schemas sample_plain_writer [97] = Some []"
    "part_messages (mw_part sample_plain_writer) = [(0, stored_message sample_mcap (sample_message 16 [1]))]"
    by (simp_all add: sample_plain_writer_def sample_writer_def mcap_write_def mw_rotating_def open_part_def
        use_schema_def use_channel_def sample_channel_def sample_mcap_def stored_message_def Let_def)
  let ?e = "\<lparr>me_writer = sample_plain_writer,
         me_queue = [(sample_channel 16 [97]\<lparr>ch_schema_name := [99]\<rparr>, sample_message 16 [2])],
         me_stop = False, me_thread = True, me_crashed = False\<rparr>"
  from conflict_ends_the_recording [where e = ?e and q = "[]" and ch = "sample_channel 16 [97]\<lparr>ch_schema_name := [99]\<rparr>"
      and m = "sample_message 16 [2]" and rest = "[]" and X = sample_mcap and clocks = "[]" and w = sample_plain_writer
      and i = 0 and clocks' = "[]" and lookup = sample_lookup and later = "[SendOp (sample_message 16 [3])]"] w
  show ?thesis by (simp add: sample_channel_def)
qed

end
