(* ===== verification/Replay.thy ===== *)
theory Replay
  imports McapFile "HOL-Library.Countable"
begin

text \<open>
  Replaying a recording as a live link: \<open>mcap/reader_endpoint.py\<close>. The replay declares the channels of
  the file in a registry of its own, announces them like a device, and sends every row on the declared
  id. A step of the loop has its environment as argument: whether \<open>stop\<close> was called before the row, the
  clock, and whether \<open>stop\<close> came during the pause. Clock readings and the playback speed are rationals;
  the rounding of Python's floats is not modelled. The consumer's callback is given and does not raise.
\<close>

section \<open>The endpoint\<close>

record replay_env =
  re_stop :: bool
  re_now :: rat
  re_woken :: bool

record replay_state =
  rp_registry :: registry
  rp_seen :: "ustr set"
  rp_t0 :: "(rat \<times> int) option"
  rp_out :: "message list"

datatype replay_end = ReplayEnded | ReplayStopped | ReplayFailed registry_error

text \<open>The constructor's check of \<open>speed\<close>.\<close>

definition replay_speed_ok :: "rat option \<Rightarrow> bool" where
  "replay_speed_ok speed \<longleftrightarrow> (case speed of None \<Rightarrow> True | Some s \<Rightarrow> 0 < s)"

text \<open>The announce, the first time a topic is seen.\<close>

definition replay_announce :: "reg_ext \<Rightarrow> (int set \<Rightarrow> int list) \<Rightarrow> channel \<Rightarrow> replay_state
    \<Rightarrow> registry_error + replay_state" where
  "replay_announce R order ch s =
     (if ch_topic ch \<in> rp_seen s then Inr s
      else let reg = snd (declare_channel (ch_topic ch) (ch_schema_name ch) (ch_schema ch) (ch_encoding ch)
                            (ch_schema_encoding ch) (rp_registry s))
           in bindE (self_info order reg) (\<lambda>di. Inr (s\<lparr>rp_seen := insert (ch_topic ch) (rp_seen s), rp_registry := reg,
                rp_out := rp_out s @ [default_message\<lparr>m_stream_id := DEVICE_INFO, m_payload := dinfo_ser R di\<rparr>]\<rparr>)))"

text \<open>The pacing: the state with its reference point, and how long the loop has to pause.\<close>

definition replay_pace :: "rat option \<Rightarrow> replay_env \<Rightarrow> int \<Rightarrow> replay_state \<Rightarrow> rat \<times> replay_state" where
  "replay_pace speed env ts s = (case speed of
       None \<Rightarrow> (0, s)
     | Some v \<Rightarrow> (case rp_t0 s of
           None \<Rightarrow> (0, s\<lparr>rp_t0 := Some (re_now env, ts)\<rparr>)
         | Some (wall, t0) \<Rightarrow> (wall + of_int (ts - t0) / 1000000000 / v - re_now env, s)))"

definition replay_send :: "message \<Rightarrow> channel \<Rightarrow> replay_state \<Rightarrow> registry_error + replay_state" where
  "replay_send msg ch s = bindE (local_id_for (rp_registry s) (ch_topic ch)) (\<lambda>i. Inr (s\<lparr>rp_out := rp_out s @
     [default_message\<lparr>m_stream_id := i, m_payload := m_payload msg, m_seq := m_seq msg,
                      m_timestamp := m_timestamp msg\<rparr>]\<rparr>))"

text \<open>
  \<open>_replay_loop\<close> over the rows of the file, one environment for each row; the last result says whether
  \<open>on_closed\<close> is called.
\<close>

fun replay_loop :: "reg_ext \<Rightarrow> mcap_ext \<Rightarrow> (int set \<Rightarrow> int list) \<Rightarrow> rat option \<Rightarrow> (nat \<Rightarrow> replay_env)
    \<Rightarrow> (message \<times> channel) list \<Rightarrow> replay_state \<Rightarrow> replay_end \<times> replay_state" where
  "replay_loop R X order speed env [] s = ((if re_stop (env 0) then ReplayStopped else ReplayEnded), s)"
| "replay_loop R X order speed env ((msg, ch) # rows) s =
     (let rest = replay_loop R X order speed (\<lambda>n. env (Suc n)) rows
      in if re_stop (env 0) then (ReplayStopped, s)
         else if ch_topic ch = DEVICE_INFO_TOPIC then rest s
         else case replay_announce R order ch s of
                Inl e \<Rightarrow> (ReplayFailed e, s)
              | Inr s \<Rightarrow>
                  let (pause, s) = replay_pace speed (env 0) (mx_to_ns X (m_timestamp msg)) s
                  in if pause > 0 \<and> re_woken (env 0) then (ReplayStopped, s)
                     else case replay_send msg ch s of Inl e \<Rightarrow> (ReplayFailed e, s) | Inr s \<Rightarrow> rest s)"

definition replay :: "reg_ext \<Rightarrow> mcap_ext \<Rightarrow> (int set \<Rightarrow> int list) \<Rightarrow> ustr \<Rightarrow> rat option \<Rightarrow> (nat \<Rightarrow> replay_env)
    \<Rightarrow> mcap_record list \<Rightarrow> replay_end \<times> message list" where
  "replay R X order device_name speed env recs =
     (case init_registry R device_name [] [] [] 0 [] [] of
        Inl e \<Rightarrow> (ReplayFailed e, [])
      | Inr reg \<Rightarrow>
          let (end', s) = replay_loop R X order speed env (read_mcap X recs)
                \<lparr>rp_registry = reg, rp_seen = {}, rp_t0 = None, rp_out = []\<rparr>
          in (end', rp_out s))"

section \<open>A consumer that follows the announces\<close>

text \<open>What the consumer knows is part of what the device declared.\<close>

definition follows :: "registry \<Rightarrow> registry \<Rightarrow> bool" where
  "follows c d \<longleftrightarrow> map_of (r_by_id c) \<subseteq>\<^sub>m map_of (r_by_id d) \<and> r_topic_to_id c \<subseteq>\<^sub>m r_topic_to_id d"

lemma learn_follows:
  assumes d: "reg_inv d" and f: "follows c d" and ch: "map_of (r_by_id d) (ch_id ch) = Some ch"
  shows "follows (learn_or_log c ch) d" "map_of (r_by_id (learn_or_log c ch)) (ch_id ch) = Some ch"
    "map_of (r_by_id c) \<subseteq>\<^sub>m map_of (r_by_id (learn_or_log c ch))"
proof -
  have t: "r_topic_to_id d (ch_topic ch) = Some (ch_id ch)" using reg_inv_live [OF d ch] by blast
  have free: "r_topic_to_id c (ch_topic ch) \<in> {None, Some (ch_id ch)}"
    using f t by (cases "r_topic_to_id c (ch_topic ch)") (auto simp: follows_def map_le_def dom_def)
  then have l: "learn_or_log c ch = c\<lparr>r_by_id := AList.update (ch_id ch) ch (r_by_id c),
      r_topic_to_id := (r_topic_to_id c)(ch_topic ch \<mapsto> ch_id ch)\<rparr>"
    by (auto simp: learn_or_log_def learn_def)
  show "map_of (r_by_id (learn_or_log c ch)) (ch_id ch) = Some ch" by (simp add: l map_of_AList_update)
  show "follows (learn_or_log c ch) d"
    using f t ch unfolding l follows_def map_le_def by (auto simp: map_of_AList_update)
  show "map_of (r_by_id c) \<subseteq>\<^sub>m map_of (r_by_id (learn_or_log c ch))"
    using f ch unfolding l follows_def map_le_def by (auto simp: map_of_AList_update dom_def)
qed

lemma announce_follows:
  assumes d: "reg_inv d" and f: "follows c d" and chs: "\<forall>ch \<in> set chs. map_of (r_by_id d) (ch_id ch) = Some ch"
  shows "follows (foldl learn_or_log c chs) d \<and> map_of (r_by_id c) \<subseteq>\<^sub>m map_of (r_by_id (foldl learn_or_log c chs))
    \<and> (\<forall>ch \<in> set chs. map_of (r_by_id (foldl learn_or_log c chs)) (ch_id ch) = Some ch)"
  using f chs
proof (induction chs arbitrary: c)
  case (Cons ch chs)
  note l = learn_follows [OF d Cons.prems(1), of ch]
  have "follows (learn_or_log c ch) d" using l Cons.prems(2) by simp
  note IH = Cons.IH [OF this]
  show ?case using l IH Cons.prems(2) by (auto simp: map_le_def dom_def)
qed simp

section \<open>The replay seen by a consumer\<close>

text \<open>What the device has declared: one live channel for each topic seen, with that topic's content.\<close>

definition declared :: "(ustr \<Rightarrow> channel) \<Rightarrow> replay_state \<Rightarrow> bool" where
  "declared content s \<longleftrightarrow> reg_inv (rp_registry s)
     \<and> (\<forall>i ch. map_of (r_by_id (rp_registry s)) i = Some ch \<longrightarrow> i \<in> r_own_ids (rp_registry s))
     \<and> dom (r_topic_to_id (rp_registry s)) = rp_seen s
     \<and> (\<forall>t \<in> rp_seen s. \<exists>i. r_topic_to_id (rp_registry s) t = Some i
          \<and> map_of (r_by_id (rp_registry s)) i = Some (content t\<lparr>ch_id := i\<rparr>) \<and> ch_topic (content t) = t)"

lemma declared_topic:
  assumes "declared content s" "t \<in> rp_seen s"
  obtains i where "r_topic_to_id (rp_registry s) t = Some i"
    "map_of (r_by_id (rp_registry s)) i = Some (content t\<lparr>ch_id := i\<rparr>)" "ch_topic (content t) = t"
proof -
  have "\<forall>t \<in> rp_seen s. \<exists>i. r_topic_to_id (rp_registry s) t = Some i
      \<and> map_of (r_by_id (rp_registry s)) i = Some (content t\<lparr>ch_id := i\<rparr>) \<and> ch_topic (content t) = t"
    using assms(1) unfolding declared_def by (elim conjE)
  from this [rule_format, OF assms(2)] show thesis using that by (elim exE conjE)
qed

lemma declare_new:
  assumes "r_topic_to_id r t = None"
  shows "r_by_id (snd (declare_channel t sn b e se r)) = AList.update (r_next_id r)
      \<lparr>ch_id = r_next_id r, ch_topic = t, ch_encoding = e, ch_schema_name = sn, ch_schema = b, ch_schema_encoding = se\<rparr>
      (r_by_id r)"
    "r_topic_to_id (snd (declare_channel t sn b e se r)) = (r_topic_to_id r)(t \<mapsto> r_next_id r)"
    "r_own_ids (snd (declare_channel t sn b e se r)) = insert (r_next_id r) (r_own_ids r)"
  using assms by (simp_all add: declare_channel_def alloc_def)

lemma next_id_free: "reg_inv r \<Longrightarrow> (\<forall>i ch. map_of (r_by_id r) i = Some ch \<longrightarrow> i \<in> r_own_ids r)
    \<Longrightarrow> map_of (r_by_id r) (r_next_id r) = None"
  unfolding reg_inv_def by (metis less_irrefl not_None_eq)

lemma announce_declared:
  assumes inv: "declared content s" and ch: "\<And>i. content (ch_topic ch)\<lparr>ch_id := i\<rparr> = ch\<lparr>ch_id := i\<rparr>" and "ch_topic ch \<notin> rp_seen s"
    and order: "\<And>S. finite S \<Longrightarrow> set (order S) = S" and "finite (r_own_ids (rp_registry s))"
  obtains s' di where "replay_announce R order ch s = Inr s'" "declared content s'"
    "rp_seen s' = insert (ch_topic ch) (rp_seen s)"
    "rp_out s' = rp_out s @ [default_message\<lparr>m_stream_id := DEVICE_INFO, m_payload := dinfo_ser R di\<rparr>]"
    "self_info order (rp_registry s') = Inr di" "finite (r_own_ids (rp_registry s'))"
    "map_of (r_by_id (rp_registry s)) \<subseteq>\<^sub>m map_of (r_by_id (rp_registry s'))"
    "r_topic_to_id (rp_registry s) \<subseteq>\<^sub>m r_topic_to_id (rp_registry s')"
proof -
  let ?r = "rp_registry s"
  define reg where "reg = snd (declare_channel (ch_topic ch) (ch_schema_name ch) (ch_schema ch) (ch_encoding ch)
                 (ch_schema_encoding ch) ?r)"
  have inv': "reg_inv ?r" "\<forall>i ch. map_of (r_by_id ?r) i = Some ch \<longrightarrow> i \<in> r_own_ids ?r"
    "dom (r_topic_to_id ?r) = rp_seen s" using inv by (simp_all add: declared_def)
  have none: "r_topic_to_id ?r (ch_topic ch) = None" using inv'(3) assms(3) by (auto simp: dom_def)
  have free: "map_of (r_by_id ?r) (r_next_id ?r) = None" using next_id_free inv' by blast
  note new = declare_new [OF none, of "ch_schema_name ch" "ch_schema ch" "ch_encoding ch" "ch_schema_encoding ch", folded reg_def]
  have reg: "reg_inv reg" unfolding reg_def using inv'(1) by (rule declare_channel_inv)
  have fin: "finite (r_own_ids reg)" using assms(5) new(3) by simp
  then obtain di where di: "self_info order reg = Inr di" using self_info_total [OF reg] order by blast
  let ?s = "s\<lparr>rp_seen := insert (ch_topic ch) (rp_seen s), rp_registry := reg,
      rp_out := rp_out s @ [default_message\<lparr>m_stream_id := DEVICE_INFO, m_payload := dinfo_ser R di\<rparr>]\<rparr>"
  have chan: "\<lparr>ch_id = i, ch_topic = ch_topic ch, ch_encoding = ch_encoding ch, ch_schema_name = ch_schema_name ch,
      ch_schema = ch_schema ch, ch_schema_encoding = ch_schema_encoding ch\<rparr> = ch\<lparr>ch_id := i\<rparr>" for i
    by (cases ch) simp
  have le: "map_of (r_by_id ?r) \<subseteq>\<^sub>m map_of (r_by_id reg)" "r_topic_to_id ?r \<subseteq>\<^sub>m r_topic_to_id reg"
    unfolding new map_of_AList_update using free none by (simp_all add: map_le_def dom_def)
  have dec: "declared content ?s"
  proof -
    have "\<exists>i. r_topic_to_id reg t = Some i \<and> map_of (r_by_id reg) i = Some (content t\<lparr>ch_id := i\<rparr>)
        \<and> ch_topic (content t) = t" if "t \<in> insert (ch_topic ch) (rp_seen s)" for t
    proof (cases "t = ch_topic ch")
      case True
      moreover have "ch_topic (content (ch_topic ch)) = ch_topic ch" using arg_cong [OF ch [of 0], of ch_topic] by simp
      ultimately show ?thesis unfolding new map_of_AList_update by (simp add: chan ch)
    next
      case False
      then have "t \<in> rp_seen s" using that by blast
      from declared_topic [OF inv this] obtain i where i: "r_topic_to_id ?r t = Some i"
        "map_of (r_by_id ?r) i = Some (content t\<lparr>ch_id := i\<rparr>)" "ch_topic (content t) = t" .
      have "map_of (r_by_id ?r) i \<noteq> map_of (r_by_id ?r) (r_next_id ?r)" unfolding i(2) free by (rule option.distinct)
      then have "i \<noteq> r_next_id ?r" by (rule contrapos_nn) (rule arg_cong)
      then show ?thesis using i False unfolding new map_of_AList_update by simp
    qed
    moreover have "i \<in> r_own_ids reg" if "map_of (r_by_id reg) i = Some c" for i c
      using that inv'(2) unfolding new map_of_AList_update by (auto split: if_splits)
    moreover have "dom (r_topic_to_id reg) = insert (ch_topic ch) (rp_seen s)" unfolding new using inv'(3) by simp
    ultimately show ?thesis using reg by (simp add: declared_def)
  qed
  have "replay_announce R order ch s = Inr ?s" using assms(3) di by (simp add: replay_announce_def reg_def [symmetric])
  from that [OF this dec, of di] show thesis using di fin le by simp
qed

lemma resolved_append:
  "resolved announce (a @ b) r = (let (x, r1) = resolved announce a r; (y, r2) = resolved announce b r1 in (x @ y, r2))"
  by (induction a arbitrary: r) (auto simp: Let_def split: prod.splits option.splits)

text \<open>
  The consumer after what was sent so far: it has made \<open>rows\<close> of it, and knows every channel of the device.
\<close>

definition caught_up :: "reg_ext \<Rightarrow> registry \<Rightarrow> (message \<times> channel) list \<Rightarrow> replay_state \<Rightarrow> bool" where
  "caught_up R c0 rows s \<longleftrightarrow> (\<exists>c. resolved (on_announce R) (rp_out s) c0 = (rows, c) \<and> follows c (rp_registry s)
     \<and> map_of (r_by_id c) = map_of (r_by_id (rp_registry s)) \<and> r_dropped_unmapped c = 0)"

lemma announce_caught_up:
  assumes R: "reg_ext_ok R" and order: "\<And>S. finite S \<Longrightarrow> set (order S) = S" "\<And>S. distinct (order S)"
    and up: "caught_up R c0 rows s" and dec: "declared content s'"
    and out: "rp_out s' = rp_out s @ [default_message\<lparr>m_stream_id := DEVICE_INFO, m_payload := dinfo_ser R di\<rparr>]"
    and di: "self_info order (rp_registry s') = Inr di" and fin: "finite (r_own_ids (rp_registry s'))"
    and le: "map_of (r_by_id (rp_registry s)) \<subseteq>\<^sub>m map_of (r_by_id (rp_registry s'))"
      "r_topic_to_id (rp_registry s) \<subseteq>\<^sub>m r_topic_to_id (rp_registry s')"
  shows "caught_up R c0 rows s'"
proof -
  let ?d = "rp_registry s'"
  obtain c where c: "resolved (on_announce R) (rp_out s) c0 = (rows, c)" "follows c (rp_registry s)" "r_dropped_unmapped c = 0"
    using up unfolding caught_up_def by blast
  have d: "reg_inv ?d" "\<And>i ch. map_of (r_by_id ?d) i = Some ch \<Longrightarrow> i \<in> r_own_ids ?d"
    using dec by (simp_all add: declared_def)
  obtain chs where own: "own_channels order ?d = Inr chs" "di_channels di = chs"
    using di by (auto simp: self_info_def bindE_eq_Inr)
  note chs = own_channels_set [OF d(1) own(1) order(2)]
  have f: "follows c ?d" using c(2) le unfolding follows_def by (blast intro: map_le_trans)
  note ann = announce_follows [OF d(1) f chs(4)]
  let ?c = "foldl learn_or_log c chs"
  have "map_of (r_by_id ?c) i = map_of (r_by_id ?d) i" for i
  proof (cases "map_of (r_by_id ?d) i")
    case None
    then show ?thesis using ann unfolding follows_def map_le_def by (metis domIff)
  next
    case (Some ch)
    then have "i \<in> set (map ch_id chs)" using d(2) chs(1) order(1) [OF fin] by simp
    then show ?thesis using ann chs(4) by auto
  qed
  then have same: "map_of (r_by_id ?c) = map_of (r_by_id ?d)" by (rule ext)
  have "on_announce R (dinfo_ser R di) c = ?c" using R own(2) by (simp add: on_announce_def reg_ext_ok_def)
  then have "resolved (on_announce R) (rp_out s') c0 = (rows, ?c)"
    by (simp add: out resolved_append c(1) accept_def default_message_def)
  moreover have "r_dropped_unmapped ?c = 0"
    using c(3) on_announce_dropped [of R "dinfo_ser R di" c] \<open>on_announce R (dinfo_ser R di) c = ?c\<close> by simp
  ultimately show ?thesis using ann same unfolding caught_up_def by blast
qed

lemma send_caught_up:
  assumes up: "caught_up R c0 rows s" and dec: "declared content s" and seen: "ch_topic ch \<in> rp_seen s"
    and ch: "\<And>i. content (ch_topic ch)\<lparr>ch_id := i\<rparr> = ch\<lparr>ch_id := i\<rparr>"
  obtains s' m i where "replay_send msg ch s = Inr s'" "caught_up R c0 (rows @ [(m, ch\<lparr>ch_id := i\<rparr>)]) s'"
    "declared content s'" "rp_registry s' = rp_registry s" "rp_seen s' = rp_seen s"
    "m_payload m = m_payload msg" "m_seq m = m_seq msg" "m_timestamp m = m_timestamp msg"
proof -
  from declared_topic [OF dec seen] obtain i where i: "r_topic_to_id (rp_registry s) (ch_topic ch) = Some i"
    "map_of (r_by_id (rp_registry s)) i = Some (ch\<lparr>ch_id := i\<rparr>)" unfolding ch .
  have "FIRST_DYNAMIC \<le> i" using dec i(2) by (auto simp: declared_def reg_inv_def)
  then have id: "i \<noteq> DEVICE_INFO" "\<not> i < FIRST_DYNAMIC" by (auto simp: stream_ids)
  let ?m = "default_message\<lparr>m_stream_id := i, m_payload := m_payload msg, m_seq := m_seq msg,
      m_timestamp := m_timestamp msg\<rparr>"
  let ?s = "s\<lparr>rp_out := rp_out s @ [?m]\<rparr>"
  obtain c where c: "resolved (on_announce R) (rp_out s) c0 = (rows, c)" "follows c (rp_registry s)"
    "map_of (r_by_id c) = map_of (r_by_id (rp_registry s))" "r_dropped_unmapped c = 0" using up unfolding caught_up_def by blast
  have "accept (on_announce R) ?m c = (\<lparr>rt_message = Some ?m, rt_channel = Some (ch\<lparr>ch_id := i\<rparr>)\<rparr>, c)"
    using id c(3) i(2) by (simp add: accept_def)
  then have "resolved (on_announce R) (rp_out ?s) c0 = (rows @ [(?m, ch\<lparr>ch_id := i\<rparr>)], c)"
    by (simp add: resolved_append c(1))
  then have "caught_up R c0 (rows @ [(?m, ch\<lparr>ch_id := i\<rparr>)]) ?s" using c(2,3,4) unfolding caught_up_def by auto
  moreover have "replay_send msg ch s = Inr ?s" using i by (simp add: replay_send_def local_id_for_def)
  moreover have "declared content ?s" using dec by (simp add: declared_def)
  ultimately show thesis by (intro that [of ?s ?m i]) simp_all
qed

lemma pace_keeps:
  "replay_pace speed e ts s = (p, s') \<Longrightarrow> rp_registry s' = rp_registry s \<and> rp_seen s' = rp_seen s \<and> rp_out s' = rp_out s"
  by (auto simp: replay_pace_def split: option.splits)

lemma same_replay_state:
  assumes "rp_registry s' = rp_registry s" "rp_seen s' = rp_seen s" "rp_out s' = rp_out s"
  shows "declared content s' = declared content s" "caught_up R c0 rows s' = caught_up R c0 rows s"
  by (simp_all add: declared_def caught_up_def assms)

definition of_data :: "(message \<times> channel) list \<Rightarrow> (message \<times> channel) list" where
  "of_data rows = filter (\<lambda>(m, ch). ch_topic ch \<noteq> DEVICE_INFO_TOPIC) rows"

lemma row_caught_up:
  assumes R: "reg_ext_ok R" and order: "\<And>S. finite S \<Longrightarrow> set (order S) = S" "\<And>S. distinct (order S)"
    and up: "caught_up R c0 rows s" "declared content s" "finite (r_own_ids (rp_registry s))"
    and ch: "\<And>i. content (ch_topic ch)\<lparr>ch_id := i\<rparr> = ch\<lparr>ch_id := i\<rparr>"
  obtains s1 where "replay_announce R order ch s = Inr s1" "caught_up R c0 rows s1" "declared content s1"
    "finite (r_own_ids (rp_registry s1))" "ch_topic ch \<in> rp_seen s1"
proof (cases "ch_topic ch \<in> rp_seen s")
  case True
  then show ?thesis using up by (intro that [of s]) (simp_all add: replay_announce_def)
next
  case False
  from announce_declared [where R = R, OF up(2) ch this order(1) up(3)] obtain s1 di where
    s1: "replay_announce R order ch s = Inr s1" "declared content s1" "rp_seen s1 = insert (ch_topic ch) (rp_seen s)"
      "rp_out s1 = rp_out s @ [default_message\<lparr>m_stream_id := DEVICE_INFO, m_payload := dinfo_ser R di\<rparr>]"
      "self_info order (rp_registry s1) = Inr di" "finite (r_own_ids (rp_registry s1))"
      "map_of (r_by_id (rp_registry s)) \<subseteq>\<^sub>m map_of (r_by_id (rp_registry s1))"
      "r_topic_to_id (rp_registry s) \<subseteq>\<^sub>m r_topic_to_id (rp_registry s1)" by metis
  from announce_caught_up [OF R order up(1) s1(2,4,5,6,7,8)] s1 show ?thesis by (intro that [of s1]) simp_all
qed

lemma loop_caught_up:
  assumes R: "reg_ext_ok R" and order: "\<And>S. finite S \<Longrightarrow> set (order S) = S" "\<And>S. distinct (order S)"
    and "\<forall>n. \<not> re_stop (env n) \<and> \<not> re_woken (env n)"
    and "\<forall>(m, ch) \<in> set rows. \<forall>i. content (ch_topic ch)\<lparr>ch_id := i\<rparr> = ch\<lparr>ch_id := i\<rparr>"
    and "caught_up R c0 out s" "declared content s" "finite (r_own_ids (rp_registry s))"
  shows "\<exists>s' out'. replay_loop R X order speed env rows s = (ReplayEnded, s') \<and> caught_up R c0 (out @ out') s'
    \<and> map replay_view out' = map replay_view (of_data rows)"
  using assms(4-)
proof (induction rows arbitrary: env s out)
  case Nil
  then show ?case by (intro exI [of _ s] exI [of _ "[]"]) (simp add: of_data_def)
next
  case (Cons row rows)
  obtain msg ch where row: "row = (msg, ch)" by fastforce
  have ch: "content (ch_topic ch)\<lparr>ch_id := i\<rparr> = ch\<lparr>ch_id := i\<rparr>" for i using Cons.prems(2) row by simp
  have env: "\<forall>n. \<not> re_stop (env (Suc n)) \<and> \<not> re_woken (env (Suc n))" "\<not> re_stop (env 0)" "\<not> re_woken (env 0)"
    using Cons.prems(1) by simp_all
  have rest: "\<forall>(m, ch) \<in> set rows. \<forall>i. content (ch_topic ch)\<lparr>ch_id := i\<rparr> = ch\<lparr>ch_id := i\<rparr>"
    using Cons.prems(2) by simp
  note IH = Cons.IH [OF env(1) rest]
  show ?case
  proof (cases "ch_topic ch = DEVICE_INFO_TOPIC")
    case True
    then show ?thesis using IH [OF Cons.prems(3-5)] env row by (simp add: of_data_def)
  next
    case False
    obtain s1 where s1: "replay_announce R order ch s = Inr s1" "caught_up R c0 out s1" "declared content s1"
      "finite (r_own_ids (rp_registry s1))" "ch_topic ch \<in> rp_seen s1"
      using row_caught_up [OF R order Cons.prems(3-5) ch] by blast
    obtain pause s2 where s2: "replay_pace speed (env 0) (mx_to_ns X (m_timestamp msg)) s1 = (pause, s2)" by fastforce
    note keeps = pace_keeps [OF s2]
    have up2: "caught_up R c0 out s2" "declared content s2" "ch_topic ch \<in> rp_seen s2"
      using s1 same_replay_state [of s2 s1] keeps by simp_all
    from send_caught_up [OF up2 ch] obtain s3 m i where s3: "replay_send msg ch s2 = Inr s3"
      "caught_up R c0 (out @ [(m, ch\<lparr>ch_id := i\<rparr>)]) s3" "declared content s3" "rp_registry s3 = rp_registry s2"
      "m_payload m = m_payload msg" "m_seq m = m_seq msg" "m_timestamp m = m_timestamp msg" by metis
    have "finite (r_own_ids (rp_registry s3))" using s1(4) keeps s3(4) by simp
    from IH [OF s3(2,3) this] obtain s' out' where "replay_loop R X order speed (\<lambda>n. env (Suc n)) rows s3 = (ReplayEnded, s')"
      "caught_up R c0 (out @ (m, ch\<lparr>ch_id := i\<rparr>) # out') s'" "map replay_view out' = map replay_view (of_data rows)" by auto
    moreover have "replay_view (m, ch\<lparr>ch_id := i\<rparr>) = replay_view (msg, ch)" using s3(5-7) by (simp add: replay_view_def)
    ultimately show ?thesis using env s1(1) s2 s3(1) False row
      by (intro exI [of _ s'] exI [of _ "(m, ch\<lparr>ch_id := i\<rparr>) # out'"]) (simp add: of_data_def)
  qed
qed

section \<open>Properties\<close>

definition never_stopped :: "nat \<Rightarrow> replay_env" where
  "never_stopped n = \<lparr>re_stop = False, re_now = 0, re_woken = False\<rparr>"

text \<open>
  C26. A replay reaches the consumer like a live link. If nobody stops it, the loop ends by itself
  whatever the playback speed and the clock, and a fresh consumer that follows the announces makes of the
  messages sent exactly the rows of the file, in the file's order, except a recorded \<open>/device_info\<close>: same
  payload, sequence number, time stamp, topic, schema and encodings, and none is dropped as unmapped.
\<close>

theorem replay_reaches_the_consumer:
  assumes "reg_ext_ok R" and "\<And>S. finite S \<Longrightarrow> set (order S) = S" and "\<And>S. distinct (order S)"
    and "\<forall>n. \<not> re_stop (env n) \<and> \<not> re_woken (env n)"
    and "\<forall>(m, a) \<in> set (read_mcap X recs). \<forall>(m', b) \<in> set (read_mcap X recs).
           ch_topic a = ch_topic b \<longrightarrow> a\<lparr>ch_id := 0\<rparr> = b\<lparr>ch_id := 0\<rparr>"
    and "init_registry R n fw hw ser boot et [] = Inr consumer"
    and "replay R X order device_name speed env recs = (end', sent)"
  shows "end' = ReplayEnded
    \<and> map replay_view (fst (resolved (on_announce R) sent consumer)) = map replay_view (of_data (read_mcap X recs))
    \<and> r_dropped_unmapped (snd (resolved (on_announce R) sent consumer)) = 0"
proof -
  define rows where "rows = read_mcap X recs"
  define content where "content t = snd (hd (filter (\<lambda>(m, ch). ch_topic ch = t) rows))" for t
  have content: "\<forall>(m, ch) \<in> set rows. \<forall>i. content (ch_topic ch)\<lparr>ch_id := i\<rparr> = ch\<lparr>ch_id := i\<rparr>"
  proof (clarify)
    fix m ch i assume in_rows: "(m, ch) \<in> set rows"
    let ?same = "filter (\<lambda>(m, c). ch_topic c = ch_topic ch) rows"
    have "(m, ch) \<in> set ?same" using in_rows by simp
    then have "hd ?same \<in> set ?same" by (intro hd_in_set) (metis empty_iff empty_set)
    then have "(fst (hd ?same), content (ch_topic ch)) \<in> set rows" "ch_topic (content (ch_topic ch)) = ch_topic ch"
      by (auto simp: content_def)
    then have same0: "content (ch_topic ch)\<lparr>ch_id := 0\<rparr> = ch\<lparr>ch_id := 0\<rparr>" using assms(5) in_rows unfolding rows_def by blast
    show "content (ch_topic ch)\<lparr>ch_id := i\<rparr> = ch\<lparr>ch_id := i\<rparr>" using arg_cong [OF same0, of "\<lambda>c. c\<lparr>ch_id := i\<rparr>"] by simp
  qed
  have fresh: "r_by_id r = []" "r_topic_to_id r = Map.empty" "r_own_ids r = {}" "r_dropped_unmapped r = 0"
    if "init_registry R n fw hw ser boot et [] = Inr r" for n fw hw ser boot et r
    using that by (auto simp: init_registry_def bindE_eq_Inr)
  obtain schema where "file_descriptors R DEVICE_INFO_SCHEMA = Inr schema" using assms(6)
    by (auto simp: init_registry_def bindE_eq_Inr)
  then obtain reg where reg: "init_registry R device_name [] [] [] 0 [] [] = Inr reg" by (simp add: init_registry_def)
  let ?s = "\<lparr>rp_registry = reg, rp_seen = {}, rp_t0 = None, rp_out = []\<rparr>"
  have start: "caught_up R consumer [] ?s" "declared content ?s" "finite (r_own_ids (rp_registry ?s))"
    using fresh [OF reg] fresh [OF assms(6)] init_registry_inv [OF reg]
    by (simp_all add: caught_up_def declared_def follows_def)
  from loop_caught_up [OF assms(1-4) content start, of X speed] obtain s' out where
    s': "replay_loop R X order speed env rows ?s = (ReplayEnded, s')" "caught_up R consumer out s'"
    "map replay_view out = map replay_view (of_data rows)" by auto
  have "end' = ReplayEnded" "sent = rp_out s'" using assms(7) s'(1) by (auto simp: replay_def reg rows_def [symmetric])
  with s'(2,3) show ?thesis unfolding caught_up_def rows_def by auto
qed

text \<open>A wire format for the witness: any device description as a number in unary.\<close>

definition channel_key :: "channel \<Rightarrow> int \<times> ustr \<times> ustr \<times> ustr \<times> nat list \<times> ustr" where
  "channel_key ch = (ch_id ch, ch_topic ch, ch_encoding ch, ch_schema_name ch, map unat (ch_schema ch), ch_schema_encoding ch)"

definition channel_of_key :: "int \<times> ustr \<times> ustr \<times> ustr \<times> nat list \<times> ustr \<Rightarrow> channel" where
  "channel_of_key = (\<lambda>(i, t, e, n, b, se). \<lparr>ch_id = i, ch_topic = t, ch_encoding = e, ch_schema_name = n,
     ch_schema = map word_of_nat b, ch_schema_encoding = se\<rparr>)"

lemma channel_of_key [simp]: "channel_of_key (channel_key ch) = ch"
  by (cases ch) (simp add: channel_of_key_def channel_key_def comp_def)

definition info_key :: "device_info \<Rightarrow> ustr \<times> ustr \<times> (int \<times> ustr \<times> ustr \<times> ustr \<times> nat list \<times> ustr) list \<times> ustr \<times> ustr
    \<times> ustr \<times> int" where
  "info_key d = (di_device_name d, di_equipment_type d, map channel_key (di_channels d), di_firmware_version d,
     di_hardware_revision d, di_serial d, di_boot_unix_seconds d)"

definition info_of_key :: "ustr \<times> ustr \<times> (int \<times> ustr \<times> ustr \<times> ustr \<times> nat list \<times> ustr) list \<times> ustr \<times> ustr \<times> ustr \<times> int
    \<Rightarrow> device_info" where
  "info_of_key = (\<lambda>(n, et, chs, fw, hw, ser, boot). \<lparr>di_device_name = n, di_equipment_type = et,
     di_channels = map channel_of_key chs, di_firmware_version = fw, di_hardware_revision = hw, di_serial = ser,
     di_boot_unix_seconds = boot\<rparr>)"

lemma info_of_key [simp]: "info_of_key (info_key d) = d"
  by (cases d) (simp add: info_of_key_def info_key_def comp_def)

definition sample_wire :: reg_ext where
  "sample_wire = \<lparr>fds = \<lambda>_. Some [1], dinfo_ser = \<lambda>d. replicate (to_nat (info_key d)) 0,
     dinfo_parse = \<lambda>bs. Some (info_of_key (from_nat (length bs)))\<rparr>"

lemma sample_wire_ok: "reg_ext_ok sample_wire"
  by (simp add: reg_ext_ok_def sample_wire_def)

definition sample_part :: "mcap_record list" where
  "sample_part = [SchemaRec 1 (schema_of (sample_channel 16 [97])), ChannelRec 0 [97] PROTOBUF 1,
     MessageRec 0 (stored_message sample_mcap (sample_message 16 [7]))]"

theorem replay_reaches_the_consumer_witness:
  "map replay_view (fst (resolved (on_announce sample_wire) (snd (replay sample_wire sample_mcap sorted_list_of_set [114]
      (Some 1) never_stopped sample_part)) sample_registry))
   = [(([7], 0, \<lparr>ts_seconds = 0, ts_nanos = 0\<rparr>), [97], PROTOBUF, [], [], PROTOBUF)]"
proof -
  have init: "init_registry sample_wire [] [] [] [] 0 [] [] = Inr sample_registry"
    by (simp add: init_registry_def sample_wire_def file_descriptors_def sample_registry_def FIRST_DYNAMIC_def DEVICE_INFO_def)
  have rows: "read_mcap sample_mcap sample_part = [(default_message\<lparr>m_payload := [7]\<rparr>, (sample_channel 0 [97]))]"
    by (simp add: read_mcap_def sample_mcap_def sample_part_def part_rows_def stored_message_def replay_row_def
        sample_message_def sample_channel_def schema_of_def default_message_def or_protobuf_def PROTOBUF_def Let_def)
  have data: "[97] \<noteq> DEVICE_INFO_TOPIC" by (simp add: DEVICE_INFO_TOPIC_def)
  obtain e sent where run: "replay sample_wire sample_mcap sorted_list_of_set [114] (Some 1) never_stopped sample_part
      = (e, sent)" by fastforce
  have "\<forall>n. \<not> re_stop (never_stopped n) \<and> \<not> re_woken (never_stopped n)" by (simp add: never_stopped_def)
  from replay_reaches_the_consumer [OF sample_wire_ok set_sorted_list_of_set distinct_sorted_list_of_set this _ init run] rows
  show ?thesis using data by (simp add: run of_data_def replay_view_def default_message_def sample_channel_def)
qed

end
