(* ===== verification/SessionIndex.thy ===== *)
theory SessionIndex
  imports McapFile Hex "HOL-Library.Product_Lexorder"
begin

text \<open>
  Opening a recording session (\<open>reader/session.py\<close>): the index of each file, the order of the files, the
  device prefix of the topics and the reorder window.

  A file is what the \<open>mcap\<close> package makes of it, the fields of \<open>session_file\<close>: the result of
  \<open>get_summary\<close>, what its indexed reader yields for topics and a window, the rows and metadata of a
  linear pass with the error that ends it. A generator that raises is what it yielded and the error.
  Logging is left out.
\<close>

section \<open>Files\<close>

record session_row =
  sr_schema :: "mcap_schema option"
  sr_channel :: int
  sr_topic :: ustr
  sr_time :: int
  sr_sequence :: int
  sr_data :: bytes

datatype read_error = Truncation | Environment | OtherRead

record file_summary =
  su_schemas :: "(int \<times> mcap_schema) list"
  su_channels :: "(int \<times> ustr \<times> int) list"
  su_stats :: "((int \<times> nat) list \<times> nat \<times> int \<times> int) option"
  su_metadata_names :: "ustr list"
  su_chunked :: bool

datatype summary_read = NotMcap | GotSummary file_summary | NoSummary | CutSummary | EnvironmentSummary

type_synonym metadata = "(ustr \<times> (ustr \<times> ustr) list) list"

record session_file =
  sf_path :: ustr
  sf_size :: nat
  sf_summary :: summary_read
  sf_linear :: "session_row list \<times> read_error option"
  sf_indexed :: "ustr list option \<Rightarrow> int option \<Rightarrow> int option \<Rightarrow> session_row list \<times> read_error option"
  sf_metadata :: "metadata \<times> read_error option"
  sf_linear_metadata :: "metadata \<times> read_error option"

datatype session_error = NoFiles | NotAnMcap ustr | CannotRead ustr read_error | NoIndex ustr bool
  | DuplicateRotation ustr | InvalidRotation ustr | BadTopicMode | PreserveWithDevice | UnknownAdapters

text \<open>\<open>_in_window\<close>: half open, either bound may be absent.\<close>

definition in_window :: "int \<Rightarrow> int option \<Rightarrow> int option \<Rightarrow> bool" where
  "in_window t start_ns end_ns \<longleftrightarrow>
     (\<forall>s \<in> set_option start_ns. t \<ge> s) \<and> (\<forall>e \<in> set_option end_ns. t < e)"

text \<open>\<open>_linear_messages\<close> and \<open>_iter_messages_truncated\<close>: the same rows; the second takes the cut as the end.\<close>

definition linear_messages :: "session_file \<Rightarrow> ustr list option \<Rightarrow> int option \<Rightarrow> int option
    \<Rightarrow> session_row list \<times> read_error option" where
  "linear_messages f topics start_ns end_ns =
     (filter (\<lambda>r. (\<forall>ts \<in> set_option topics. sr_topic r \<in> set ts) \<and> in_window (sr_time r) start_ns end_ns)
        (fst (sf_linear f)), snd (sf_linear f))"

definition tolerate :: "'x list \<times> read_error option \<Rightarrow> 'x list \<times> read_error option" where
  "tolerate r = (fst r, if snd r = Some Truncation then None else snd r)"

definition iter_messages_truncated :: "session_file \<Rightarrow> ustr list option \<Rightarrow> int option \<Rightarrow> int option
    \<Rightarrow> session_row list \<times> read_error option" where
  "iter_messages_truncated f topics start_ns end_ns = tolerate (linear_messages f topics start_ns end_ns)"

section \<open>The index of a file\<close>

record file_index =
  ix_chan :: "(int \<times> ustr \<times> ustr) list"
  ix_counts :: "(int \<times> nat) list"
  ix_start :: "int option"
  ix_end :: "int option"
  ix_schema_rec :: "(ustr \<times> mcap_schema) list"
  ix_truncated :: bool
  ix_chunk_indexed :: bool
  ix_metadata_names :: "ustr list option"

definition empty_index :: "bool \<Rightarrow> file_index" where
  "empty_index partial = \<lparr>ix_chan = [], ix_counts = [], ix_start = None, ix_end = None, ix_schema_rec = [],
     ix_truncated = partial, ix_chunk_indexed = False, ix_metadata_names = None\<rparr>"

definition schema_name_of :: "mcap_schema option \<Rightarrow> ustr" where
  "schema_name_of s = (case s of None \<Rightarrow> [] | Some s \<Rightarrow> sc_name s)"

definition put_default :: "'k \<Rightarrow> 'v \<Rightarrow> ('k \<times> 'v) list \<Rightarrow> ('k \<times> 'v) list" where
  "put_default k v d = (if map_of d k = None then d @ [(k, v)] else d)"

definition count_of :: "file_index \<Rightarrow> int \<Rightarrow> nat" where
  "count_of ix cid = (case map_of (ix_counts ix) cid of None \<Rightarrow> 0 | Some n \<Rightarrow> n)"

definition scan_row :: "session_row \<Rightarrow> file_index \<Rightarrow> file_index" where
  "scan_row r ix = ix\<lparr>
     ix_schema_rec := (case sr_schema r of None \<Rightarrow> ix_schema_rec ix
                                         | Some s \<Rightarrow> put_default (sc_name s) s (ix_schema_rec ix)),
     ix_chan := AList.update (sr_channel r) (sr_topic r, schema_name_of (sr_schema r)) (ix_chan ix),
     ix_counts := AList.update (sr_channel r) (count_of ix (sr_channel r) + 1) (ix_counts ix),
     ix_start := Some (case ix_start ix of None \<Rightarrow> sr_time r | Some t \<Rightarrow> min t (sr_time r)),
     ix_end := Some (case ix_end ix of None \<Rightarrow> sr_time r | Some t \<Rightarrow> max t (sr_time r))\<rparr>"

definition scan_file :: "bool \<Rightarrow> session_file \<Rightarrow> session_error + file_index" where
  "scan_file partial f =
     (let (rows, err) = (if partial then iter_messages_truncated f None None None else linear_messages f None None None)
      in case err of
           Some e \<Rightarrow> Inl (CannotRead (sf_path f) e)
         | None \<Rightarrow> Inr (fold scan_row rows (empty_index partial)))"

definition index_summary :: "file_summary \<Rightarrow> file_index" where
  "index_summary su =
     (let ix = (empty_index False)\<lparr>
            ix_metadata_names := Some (su_metadata_names su),
            ix_chunk_indexed := su_chunked su,
            ix_schema_rec := fold (\<lambda>(i, s). AList.update (sc_name s) s) (su_schemas su) [],
            ix_chan := map (\<lambda>(cid, topic, sid). (cid, topic, schema_name_of (map_of (su_schemas su) sid))) (su_channels su)\<rparr>
      in case su_stats su of
           None \<Rightarrow> ix
         | Some (counts, n, first, final) \<Rightarrow>
             ix\<lparr>ix_counts := counts, ix_start := (if n \<noteq> 0 then Some first else None),
                ix_end := (if n \<noteq> 0 then Some final else None)\<rparr>)"

definition make_index :: "bool \<Rightarrow> session_file \<Rightarrow> session_error + file_index" where
  "make_index require_index f =
     (case sf_summary f of
        NotMcap \<Rightarrow> Inl (NotAnMcap (sf_path f))
      | EnvironmentSummary \<Rightarrow> Inl (CannotRead (sf_path f) Environment)
      | GotSummary su \<Rightarrow> Inr (index_summary su)
      | NoSummary \<Rightarrow> (if require_index then Inl (NoIndex (sf_path f) False) else scan_file False f)
      | CutSummary \<Rightarrow> (if require_index then Inl (NoIndex (sf_path f) True) else scan_file True f))"

definition ix_topics :: "file_index \<Rightarrow> (ustr \<times> ustr \<times> nat) list" where
  "ix_topics ix = map (\<lambda>(cid, t, s). (t, s, count_of ix cid)) (ix_chan ix)"

text \<open>\<open>_spans_window\<close>\<close>

definition spans_window :: "file_index \<Rightarrow> int option \<Rightarrow> int option \<Rightarrow> bool" where
  "spans_window ix start_ns end_ns =
     (case (ix_start ix, ix_end ix) of
        (Some s, Some e) \<Rightarrow> (\<forall>w \<in> set_option end_ns. s < w) \<and> (\<forall>w \<in> set_option start_ns. e \<ge> w)
      | _ \<Rightarrow> True)"

section \<open>The device prefix\<close>

definition GILABS :: ustr where "GILABS = lit ''GILABS-''"

definition starts_with :: "ustr \<Rightarrow> ustr \<Rightarrow> bool" where
  "starts_with p s \<longleftrightarrow> take (length p) s = p"

text \<open>\<open>topic.split("/", 2)[1]\<close>, if there are two parts.\<close>

definition second_part :: "ustr \<Rightarrow> ustr option" where
  "second_part topic = (if 47 \<in> set topic then Some (takeWhile (\<lambda>c. c \<noteq> 47) (tl (dropWhile (\<lambda>c. c \<noteq> 47) topic)))
                        else None)"

definition strip_device_topic_prefix :: "ustr \<Rightarrow> ustr option \<Rightarrow> ustr option" where
  "strip_device_topic_prefix topic device =
     (case device of
        None \<Rightarrow> Some topic
      | Some d \<Rightarrow>
          if d = [] then Some topic
          else if topic = 47 # d then Some [47]
          else if starts_with ((47 # d) @ [47]) topic then Some (drop (length (47 # d)) topic)
          else case second_part topic of
                 Some h \<Rightarrow> if starts_with GILABS h then None else Some topic
               | None \<Rightarrow> Some topic)"

text \<open>\<open>_detect_device\<close>: the one device that every topic is prefixed with.\<close>

definition topic_device :: "ustr \<Rightarrow> ustr option" where
  "topic_device t = (case second_part t of Some h \<Rightarrow> if starts_with GILABS h then Some h else None | None \<Rightarrow> None)"

definition the_only :: "'x list \<Rightarrow> 'x option" where
  "the_only xs = (case remdups xs of [x] \<Rightarrow> Some x | _ \<Rightarrow> None)"

definition detect_device :: "ustr list \<Rightarrow> ustr option" where
  "detect_device topics = (if list_all (\<lambda>t. topic_device t \<noteq> None) topics
     then the_only (map (the \<circ> topic_device) topics) else None)"

definition auto_device :: "file_index list \<Rightarrow> ustr option" where
  "auto_device idx = the_only (concat (map (\<lambda>ix. case detect_device (map fst (ix_topics ix)) of
     None \<Rightarrow> [] | Some d \<Rightarrow> [d]) idx))"

section \<open>Rotation marks\<close>

text \<open>
  \<open>int(s)\<close> of a text: white space around it, a sign, and digits with single underscores between them. The
  digits of other scripts, which Python takes too, are not.
\<close>

definition decimal_digit :: "nat \<Rightarrow> bool" where
  "decimal_digit c \<longleftrightarrow> 48 \<le> c \<and> c \<le> 57"

fun digits_grouped :: "ustr \<Rightarrow> bool" where
  "digits_grouped [] \<longleftrightarrow> False"
| "digits_grouped [c] \<longleftrightarrow> decimal_digit c"
| "digits_grouped (c # d # s) \<longleftrightarrow> decimal_digit c \<and> (if d = 95 then digits_grouped s else digits_grouped (d # s))"

definition py_int :: "ustr \<Rightarrow> int option" where
  "py_int s =
     (let t = strip s;
          (neg, u) = (case t of c # r \<Rightarrow> if c = 45 then (True, r) else if c = 43 then (False, r) else (False, t)
                              | [] \<Rightarrow> (False, []))
      in if digits_grouped u
         then let n = foldl (\<lambda>n c. n * 10 + int (c - 48)) 0 (filter decimal_digit u) in Some (if neg then - n else n)
         else None)"

type_synonym rotation = "ustr \<times> int \<times> bool"

definition ROTATION :: ustr where "ROTATION = lit ''visio.rotation''"

definition parse_rotation :: "(ustr \<times> ustr) list \<Rightarrow> rotation option" where
  "parse_rotation row =
     (case (Option.bind (map_of row (lit ''part_index'')) py_int, map_of row (lit ''recording_id''),
            map_of row (lit ''version''), map_of row (lit ''video_continuation'')) of
        (Some part, Some identity, Some version, Some continuation) \<Rightarrow>
          if version = lit ''1'' \<and> (continuation = lit ''true'' \<or> continuation = lit ''false'') \<and> identity \<noteq> []
             \<and> part \<ge> 0
          then Some (identity, part, continuation = lit ''true'') else None
      | _ \<Rightarrow> None)"

definition file_metadata :: "session_file \<Rightarrow> file_index \<Rightarrow> metadata \<times> read_error option" where
  "file_metadata f ix = (if ix_truncated ix then tolerate (sf_linear_metadata f) else sf_metadata f)"

definition rotation_identity :: "session_file \<Rightarrow> file_index \<Rightarrow> session_error + rotation option" where
  "rotation_identity f ix =
     (if (\<exists>names. ix_metadata_names ix = Some names \<and> ROTATION \<notin> set names) then Inr None
      else case file_metadata f ix of
             (_, Some e) \<Rightarrow> Inl (CannotRead (sf_path f) e)
           | (records, None) \<Rightarrow>
               (case filter (\<lambda>m. fst m = ROTATION) records of
                  [] \<Rightarrow> Inr None
                | [row] \<Rightarrow> (case parse_rotation (snd row) of
                     None \<Rightarrow> Inl (InvalidRotation (sf_path f)) | Some r \<Rightarrow> Inr (Some r))
                | _ \<Rightarrow> Inl (DuplicateRotation (sf_path f))))"

section \<open>Opening a session\<close>

text \<open>A source: a directory with its \<open>*.mcap\<close> files, a file of that name, or something else.\<close>

datatype source = DirSource "session_file list" | FileSource session_file | OtherSource

fun expand_source :: "source \<Rightarrow> session_file list" where
  "expand_source (DirSource fs) = sort_key sf_path fs"
| "expand_source (FileSource f) = [f]"
| "expand_source OtherSource = []"

definition expand_sources :: "source list \<Rightarrow> session_file list" where
  "expand_sources ss = concat (map expand_source ss)"

text \<open>A file of the session: its stream, itself, its index and its rotation mark.\<close>

record member =
  me_owner :: nat
  me_file :: session_file
  me_index :: file_index
  me_rotation :: "rotation option"

definition or_zero :: "int option \<Rightarrow> int" where
  "or_zero t = (case t of None \<Rightarrow> 0 | Some n \<Rightarrow> n)"

definition member_start :: "member \<Rightarrow> int" where
  "member_start m = or_zero (ix_start (me_index m))"

definition chain_of :: "member \<Rightarrow> (nat \<times> ustr) option" where
  "chain_of m = map_option (\<lambda>(identity, part, c). (me_owner m, identity)) (me_rotation m)"

definition chain_start :: "member list \<Rightarrow> nat \<times> ustr \<Rightarrow> int" where
  "chain_start ms key = Min (set (map member_start (filter (\<lambda>m. chain_of m = Some key) ms)))"

definition file_order :: "member list \<Rightarrow> member \<Rightarrow> int \<times> nat \<times> ustr \<times> int" where
  "file_order ms m = (case me_rotation m of
       None \<Rightarrow> (member_start m, me_owner m, [], 0)
     | Some (identity, part, _) \<Rightarrow> (chain_start ms (me_owner m, identity), me_owner m, identity, part))"

definition sorted_members :: "member list \<Rightarrow> member list" where
  "sorted_members ms = sort_key (file_order ms) ms"

text \<open>The members of each stream, by their place in the sorted order.\<close>

definition stream_members :: "nat \<Rightarrow> member list \<Rightarrow> nat list list" where
  "stream_members n ms = map (\<lambda>sid. filter (\<lambda>i. me_owner (ms ! i) = sid) [0..<length ms]) [0..<n]"

definition MAX_SEAM_SLACK_NS :: int where "MAX_SEAM_SLACK_NS = 5000000000"

text \<open>
  The overlap of two files that follow each other in a stream, 0 if there is none or if they look like
  parallel streams. \<open>overlap > span * 0.5\<close> is read without rounding.
\<close>

definition same_chain :: "member \<Rightarrow> member \<Rightarrow> bool" where
  "same_chain a b \<longleftrightarrow> (case (me_rotation a, me_rotation b) of
     (Some (ia, pa, _), Some (ib, pb, _)) \<Rightarrow> ia = ib \<and> pb = pa + 1 | _ \<Rightarrow> False)"

definition parallel_pair :: "member \<Rightarrow> member \<Rightarrow> int \<Rightarrow> int \<Rightarrow> int \<Rightarrow> bool" where
  "parallel_pair a b sa ea sb \<longleftrightarrow> (let overlap = ea - sb in
     \<not> same_chain a b \<and> \<bar>sb - sa\<bar> < overlap \<and> 2 * overlap > ea - sa)"

definition seam_overlap :: "member \<Rightarrow> member \<Rightarrow> int" where
  "seam_overlap a b =
     (case (ix_start (me_index a), ix_end (me_index a), ix_start (me_index b), ix_end (me_index b)) of
        (Some sa, Some ea, Some sb, Some eb) \<Rightarrow>
          if ea - sb \<le> 0 then 0 else if parallel_pair a b sa ea sb then 0 else ea - sb
      | _ \<Rightarrow> 0)"

definition seam_slack :: "member list \<Rightarrow> nat list list \<Rightarrow> int" where
  "seam_slack ms streams =
     min MAX_SEAM_SLACK_NS (fold max (concat (map (\<lambda>s. map (\<lambda>(a, b). seam_overlap (ms ! a) (ms ! b)) (zip s (tl s)))
       streams)) 0)"

record session =
  se_members :: "member list"
  se_streams :: "nat list list"
  se_origin :: "nat list"
  se_reorder_ns :: int
  se_device :: "ustr option"
  se_adapters :: "ustr list"

datatype topic_mode = AutoTopics | PreserveTopics | OtherMode

definition index_member :: "bool \<Rightarrow> nat \<times> session_file \<Rightarrow> session_error + member" where
  "index_member require_index = (\<lambda>(o', f). bindE (make_index require_index f) (\<lambda>ix.
     Inr \<lparr>me_owner = o', me_file = f, me_index = ix, me_rotation = None\<rparr>))"

definition mark_member :: "member \<Rightarrow> session_error + member" where
  "mark_member m = bindE (rotation_identity (me_file m) (me_index m)) (\<lambda>r. Inr (m\<lparr>me_rotation := r\<rparr>))"

text \<open>\<open>Session.__init__\<close>; \<open>adapters\<close> are the schemas with an adapter of the caller's.\<close>

definition open_session :: "source list list \<Rightarrow> ustr option \<Rightarrow> int \<Rightarrow> ustr list \<Rightarrow> bool \<Rightarrow> topic_mode
    \<Rightarrow> session_error + session" where
  "open_session streams device reorder_ns adapters require_index topic_mode =
     (let groups_raw = map expand_sources streams;
          origin = filter (\<lambda>i. groups_raw ! i \<noteq> []) [0..<length groups_raw];
          groups = filter (\<lambda>g. g \<noteq> []) groups_raw;
          flat = concat (map (\<lambda>sid. map (\<lambda>f. (sid, f)) (groups ! sid)) [0..<length groups])
      in bindE (guardE (groups \<noteq> []) NoFiles) (\<lambda>_.
         bindE (mapE (index_member require_index) flat) (\<lambda>indexed.
         bindE (mapE mark_member indexed) (\<lambda>marked.
         let ms = sorted_members marked; ss = stream_members (length groups) ms
         in bindE (guardE (topic_mode \<noteq> OtherMode) BadTopicMode) (\<lambda>_.
            bindE (guardE (\<not> (topic_mode = PreserveTopics \<and> device \<noteq> None)) PreserveWithDevice) (\<lambda>_.
            bindE (guardE (\<forall>a \<in> set adapters. \<exists>m \<in> set ms. a \<in> fst ` set (ix_schema_rec (me_index m))) UnknownAdapters) (\<lambda>_.
              Inr \<lparr>se_members = ms, se_streams = ss, se_origin = origin, se_reorder_ns = reorder_ns + seam_slack ms ss,
                   se_device = (if topic_mode = PreserveTopics then None
                                else if device \<noteq> None then device else auto_device (map me_index ms)),
                   se_adapters = adapters\<rparr>)))))))"

section \<open>What a session says of its files\<close>

definition truncated_files :: "session \<Rightarrow> ustr list" where
  "truncated_files s = map (sf_path \<circ> me_file) (filter (ix_truncated \<circ> me_index) (se_members s))"

text \<open>\<open>_read_messages\<close>\<close>

definition read_messages :: "member \<Rightarrow> ustr list option \<Rightarrow> int option \<Rightarrow> int option
    \<Rightarrow> session_row list \<times> read_error option" where
  "read_messages m topics start_ns end_ns =
     (if ix_truncated (me_index m) then iter_messages_truncated (me_file m) topics start_ns end_ns
      else sf_indexed (me_file m) topics start_ns end_ns)"

definition canonical_topics :: "session \<Rightarrow> (ustr \<times> ustr \<times> nat) list" where
  "canonical_topics s = concat (map (\<lambda>m. concat (map (\<lambda>(t, schema, n).
     case strip_device_topic_prefix t (se_device s) of None \<Rightarrow> [] | Some c \<Rightarrow> [(c, schema, n)])
       (ix_topics (me_index m)))) (se_members s))"

definition add_topic :: "ustr \<times> ustr \<times> nat \<Rightarrow> (ustr \<times> ustr \<times> nat) list \<Rightarrow> (ustr \<times> ustr \<times> nat) list" where
  "add_topic = (\<lambda>(c, schema, n) agg.
     let (schema0, n0) = (case map_of agg c of None \<Rightarrow> (schema, 0) | Some x \<Rightarrow> x)
     in AList.update c (if schema \<noteq> [] then schema else schema0, n0 + n) agg)"

definition session_topics :: "session \<Rightarrow> (ustr \<times> ustr \<times> nat) list" where
  "session_topics s = sort_key fst (fold add_topic (canonical_topics s) [])"

definition schema_conflicts :: "session \<Rightarrow> (ustr \<times> ustr list) list" where
  "schema_conflicts s = filter (\<lambda>(t, v). length v > 1)
     (fold (\<lambda>(c, schema, n) seen. if schema = [] then seen
        else let v = (case map_of seen c of None \<Rightarrow> [] | Some v \<Rightarrow> v)
             in AList.update c (if schema \<in> set v then v else v @ [schema]) seen) (canonical_topics s) [])"

definition topics_of_schema :: "session \<Rightarrow> ustr \<Rightarrow> ustr list" where
  "topics_of_schema s schema = sort (map fst (filter (\<lambda>(t, sc, n). sc = schema) (session_topics s)))"

record file_status =
  fs_path :: ustr
  fs_size :: nat
  fs_truncated :: bool
  fs_messages :: nat
  fs_start :: "int option"
  fs_end :: "int option"
  fs_metadata_names :: "ustr list option"

definition stream_summaries :: "session \<Rightarrow> (nat \<times> file_status list) list" where
  "stream_summaries s = map (\<lambda>(members, origin). (origin, map (\<lambda>i.
     let m = se_members s ! i; ix = me_index m
     in \<lparr>fs_path = sf_path (me_file m), fs_size = sf_size (me_file m), fs_truncated = ix_truncated ix,
         fs_messages = sum_list (map snd (ix_counts ix)), fs_start = ix_start ix, fs_end = ix_end ix,
         fs_metadata_names = ix_metadata_names ix\<rparr>) members)) (zip (se_streams s) (se_origin s))"

text \<open>\<open>_read_metadata\<close>: the capture record of the first file that has a non-empty one, and the bounds.\<close>

definition CAPTURE_METADATA :: ustr where "CAPTURE_METADATA = lit ''visio.capture''"

fun read_capture :: "member list \<Rightarrow> session_error + (ustr \<times> ustr) list" where
  "read_capture [] = Inr []"
| "read_capture (m # ms) =
     (let (records, err) = file_metadata (me_file m) (me_index m)
      in case find (\<lambda>r. fst r = CAPTURE_METADATA) records of
           Some r \<Rightarrow> if snd r \<noteq> [] then Inr (snd r) else read_capture ms
         | None \<Rightarrow> (case err of Some e \<Rightarrow> Inl (CannotRead (sf_path (me_file m)) e) | None \<Rightarrow> read_capture ms))"

definition bound_of :: "(int list \<Rightarrow> int) \<Rightarrow> int option list \<Rightarrow> int option" where
  "bound_of f ts = (let known = map the (filter (\<lambda>t. t \<noteq> None) ts) in if known = [] then None else Some (f known))"

definition session_bounds :: "session \<Rightarrow> int option \<times> int option" where
  "session_bounds s = (bound_of (\<lambda>ts. Min (set ts)) (map (ix_start \<circ> me_index) (se_members s)),
     bound_of (\<lambda>ts. Max (set ts)) (map (ix_end \<circ> me_index) (se_members s)))"

section \<open>Prefixes\<close>

lemma starts_with_append: "starts_with p s \<longleftrightarrow> (\<exists>r. s = p @ r)"
  by (auto simp: starts_with_def) (metis append_take_drop_id)

lemma second_part_of: "47 \<notin> set a \<Longrightarrow> 47 \<notin> set h \<Longrightarrow> second_part (a @ 47 # h @ 47 # r) = Some h"
  "47 \<notin> set a \<Longrightarrow> 47 \<notin> set h \<Longrightarrow> second_part (a @ 47 # h) = Some h"
  by (auto simp: second_part_def dropWhile_append takeWhile_append)

lemma strip_own: "d \<noteq> [] \<Longrightarrow> strip_device_topic_prefix (47 # d @ 47 # r) (Some d) = Some (47 # r)"
  by (simp add: strip_device_topic_prefix_def starts_with_append)

lemma strip_foreign:
  assumes "47 \<notin> set d" "second_part t = Some h" "h \<noteq> d"
  shows "t \<noteq> 47 # d" "\<not> starts_with ((47 # d) @ [47]) t"
proof -
  show "t \<noteq> 47 # d" using second_part_of(2) [of "[]" d] assms by auto
  show "\<not> starts_with ((47 # d) @ [47]) t"
    using second_part_of(1) [of "[]" d] assms by (auto simp: starts_with_append)
qed

section \<open>The order of the files\<close>

lemma open_session_members:
  assumes "open_session streams device reorder_ns adapters require_index mode = Inr s"
  obtains indexed marked n where
    "mapE (index_member require_index)
       (concat (map (\<lambda>sid. map (\<lambda>f. (sid, f)) (filter (\<lambda>g. g \<noteq> []) (map expand_sources streams) ! sid)) [0..<n])) = Inr indexed"
    "mapE mark_member indexed = Inr marked" "n = length (filter (\<lambda>g. g \<noteq> []) (map expand_sources streams))"
    "se_members s = sorted_members marked" "se_streams s = stream_members n (se_members s)"
    "se_reorder_ns s = reorder_ns + seam_slack (se_members s) (se_streams s)"
  using assms by (auto simp: open_session_def Let_def bindE_eq_Inr)

lemma mapE_members:
  "mapE (index_member r) fs = Inr ms \<Longrightarrow> map (\<lambda>m. (me_owner m, me_file m)) ms = fs"
proof (induction fs arbitrary: ms)
  case (Cons x fs)
  then show ?case by (cases x) (auto simp: bindE_eq_Inr index_member_def)
qed simp

lemma mapE_marks: "mapE mark_member ms = Inr ms' \<Longrightarrow> map (\<lambda>m. (me_owner m, me_file m)) ms' = map (\<lambda>m. (me_owner m, me_file m)) ms"
  by (induction ms arbitrary: ms') (auto simp: bindE_eq_Inr mark_member_def)

lemma concat_groups: "concat (map (\<lambda>i. xs ! i) [0..<length xs]) = concat xs"
  by (simp add: map_nth)

lemma concat_filter_nonempty: "concat (filter (\<lambda>g. g \<noteq> []) gs) = concat gs"
  by (induction gs) auto

lemma session_files:
  assumes "open_session streams device reorder_ns adapters require_index mode = Inr s"
  shows "mset (map me_file (se_members s)) = mset (concat (map expand_sources streams))"
    "\<forall>m \<in> set (se_members s). me_owner m < length (se_streams s)"
proof -
  obtain indexed marked n where o: "mapE (index_member require_index)
      (concat (map (\<lambda>sid. map (\<lambda>f. (sid, f)) (filter (\<lambda>g. g \<noteq> []) (map expand_sources streams) ! sid)) [0..<n])) = Inr indexed"
    "mapE mark_member indexed = Inr marked" "n = length (filter (\<lambda>g. g \<noteq> []) (map expand_sources streams))"
    "se_members s = sorted_members marked" "se_streams s = stream_members n (se_members s)"
    using assms by (rule open_session_members)
  have pairs: "map (\<lambda>m. (me_owner m, me_file m)) marked = concat (map (\<lambda>sid. map (\<lambda>f. (sid, f))
      (filter (\<lambda>g. g \<noteq> []) (map expand_sources streams) ! sid)) [0..<n])"
    using mapE_marks [OF o(2)] mapE_members [OF o(1)] by simp
  have "map me_file marked = map snd (map (\<lambda>m. (me_owner m, me_file m)) marked)" by simp
  also have "\<dots> = concat (map (\<lambda>sid. filter (\<lambda>g. g \<noteq> []) (map expand_sources streams) ! sid) [0..<n])"
    unfolding pairs by (simp add: map_concat comp_def)
  finally have "map me_file marked = concat (map expand_sources streams)"
    unfolding o(3) concat_groups concat_filter_nonempty .
  then show "mset (map me_file (se_members s)) = mset (concat (map expand_sources streams))"
    by (metis mset_map mset_sort o(4) sorted_members_def)
  have "\<forall>m \<in> set marked. me_owner m < n"
  proof
    fix m assume "m \<in> set marked"
    then have "(me_owner m, me_file m) \<in> set (map (\<lambda>m. (me_owner m, me_file m)) marked)" by force
    then show "me_owner m < n" unfolding pairs by auto
  qed
  then show "\<forall>m \<in> set (se_members s). me_owner m < length (se_streams s)"
    using o(4,5) by (simp add: stream_members_def sorted_members_def)
qed

lemma session_sorted:
  assumes "open_session streams device reorder_ns adapters require_index mode = Inr s" "i < j" "j < length (se_members s)"
  shows "\<exists>ms. file_order ms (se_members s ! i) \<le> file_order ms (se_members s ! j)"
proof -
  obtain marked where "se_members s = sorted_members marked" using assms(1) by (rule open_session_members)
  then have "sorted (map (file_order marked) (se_members s))" by (simp add: sorted_members_def)
  from sorted_nth_mono [OF this, of i j] show ?thesis using assms(2,3) by auto
qed

lemma stream_members_partition:
  assumes "\<forall>m \<in> set ms. me_owner m < n"
  shows "mset (concat (stream_members n ms)) = mset [0..<length ms]" "\<forall>s \<in> set (stream_members n ms). sorted_wrt (<) s"
proof -
  have "mset (concat (map (\<lambda>sid. filter (\<lambda>i. f i = sid) xs) [0..<n])) = filter_mset (\<lambda>i. f i < n) (mset xs)"
    for f :: "nat \<Rightarrow> nat" and xs
    by (induction n) (auto simp: multiset_eq_iff less_Suc_eq)
  then have "mset (concat (stream_members n ms)) = filter_mset (\<lambda>i. me_owner (ms ! i) < n) (mset [0..<length ms])"
    by (simp add: stream_members_def)
  also have "\<dots> = mset [0..<length ms]" using assms
    by (auto simp flip: mset_filter simp: filter_id_conv)
  finally show "mset (concat (stream_members n ms)) = mset [0..<length ms]" .
  show "\<forall>s \<in> set (stream_members n ms). sorted_wrt (<) s" by (auto simp: stream_members_def intro: sorted_wrt_filter)
qed

section \<open>The window for the seams\<close>


lemma seam_overlap_nonneg: "0 \<le> seam_overlap a b"
  by (auto simp: seam_overlap_def split: option.splits)











section \<open>Properties\<close>

text \<open>A file of one channel, for the witnesses.\<close>

definition sample_schema :: mcap_schema where
  "sample_schema = \<lparr>sc_name = [115], sc_encoding = PROTOBUF, sc_data = []\<rparr>"

definition sample_stat :: "session_row list \<Rightarrow> ((int \<times> nat) list \<times> nat \<times> int \<times> int) option" where
  "sample_stat rows = Some ([(1, length rows)], length rows, sr_time (hd rows), sr_time (last rows))"

definition sample_srow :: "int \<Rightarrow> session_row" where
  "sample_srow t = \<lparr>sr_schema = Some sample_schema, sr_channel = 1, sr_topic = [47, 116], sr_time = t, sr_sequence = 0,
     sr_data = []\<rparr>"

definition sample_file :: "ustr \<Rightarrow> session_row list \<Rightarrow> session_file" where
  "sample_file path rows = \<lparr>sf_path = path, sf_size = 0,
     sf_summary = GotSummary \<lparr>su_schemas = [(1, sample_schema)], su_channels = [(1, [47, 116], 1)],
       su_stats = sample_stat rows, su_metadata_names = [], su_chunked = True\<rparr>,
     sf_linear = (rows, None),
     sf_indexed = (\<lambda>topics start_ns end_ns. (filter (\<lambda>r. (\<forall>ts \<in> set_option topics. sr_topic r \<in> set ts)
        \<and> in_window (sr_time r) start_ns end_ns) rows, None)),
     sf_metadata = ([], None), sf_linear_metadata = ([], None)\<rparr>"

definition sample_index :: "session_row list \<Rightarrow> file_index" where
  "sample_index rows = \<lparr>ix_chan = [(1, [47, 116], [115])], ix_counts = [(1, length rows)],
     ix_start = Some (sr_time (hd rows)), ix_end = Some (sr_time (last rows)), ix_schema_rec = [([115], sample_schema)],
     ix_truncated = False, ix_chunk_indexed = True, ix_metadata_names = Some []\<rparr>"

lemma sample_make_index: "rows \<noteq> [] \<Longrightarrow> make_index r (sample_file path rows) = Inr (sample_index rows)"
  by (simp add: make_index_def sample_file_def index_summary_def empty_index_def sample_stat_def sample_index_def
      sample_schema_def schema_name_of_def Let_def)

definition rows_a :: "session_row list" where "rows_a = map sample_srow [0, 500, 1000]"
definition rows_b :: "session_row list" where "rows_b = map sample_srow [900, 2000]"

definition sample_member :: "ustr \<Rightarrow> session_row list \<Rightarrow> member" where
  "sample_member p rows = \<lparr>me_owner = 0, me_file = sample_file p rows, me_index = sample_index rows, me_rotation = None\<rparr>"

definition sample_session :: session where
  "sample_session = \<lparr>se_members = [sample_member [97] rows_a, sample_member [98] rows_b], se_streams = [[0, 1]],
     se_origin = [0], se_reorder_ns = 100, se_device = None, se_adapters = []\<rparr>"

lemma sample_mark: "mark_member (sample_member p rows) = Inr (sample_member p rows)"
  by (simp add: mark_member_def sample_member_def rotation_identity_def sample_index_def)

lemma sample_index_member: "rows \<noteq> [] \<Longrightarrow> index_member r (0, sample_file p rows) = Inr (sample_member p rows)"
  by (simp add: index_member_def sample_make_index sample_member_def)

lemma sample_device: "auto_device (map me_index [sample_member [97] rows_a, sample_member [98] rows_b]) = None"
  by (simp add: auto_device_def sample_member_def detect_device_def sample_index_def ix_topics_def
      topic_device_def second_part_def starts_with_def GILABS_def the_only_def count_of_def)

lemma sample_order: "file_order ms (sample_member p rows) = (sr_time (hd rows), 0, [], 0)"
  by (simp add: file_order_def sample_member_def member_start_def sample_index_def or_zero_def)

lemma sample_slack: "seam_overlap (sample_member [97] rows_a) (sample_member [98] rows_b) = 100"
  by (simp add: seam_overlap_def sample_member_def sample_index_def sample_srow_def parallel_pair_def same_chain_def
      rows_a_def rows_b_def)

lemma sample_open:
  "open_session [[FileSource (sample_file [98] rows_b), FileSource (sample_file [97] rows_a)]] None 0 [] False AutoTopics
     = Inr sample_session"
proof -
  let ?a = "sample_member [97] rows_a" and ?b = "sample_member [98] rows_b"
  have ex: "expand_sources [FileSource (sample_file [98] rows_b), FileSource (sample_file [97] rows_a)]
      = [sample_file [98] rows_b, sample_file [97] rows_a]" by (simp add: expand_sources_def)
  have rows: "rows_a \<noteq> []" "rows_b \<noteq> []" by (simp_all add: rows_a_def rows_b_def)
  have sorted: "sorted_members [?b, ?a] = [?a, ?b]"
    unfolding sorted_members_def by (simp add: sample_order rows_a_def rows_b_def sample_srow_def)
  have "me_owner ?a = 0" "me_owner ?b = 0" by (simp_all add: sample_member_def)
  then have ss: "stream_members (Suc 0) [?a, ?b] = [[0, 1]]"
    by (simp add: stream_members_def upt_rec less_Suc_eq)
  show ?thesis using sample_device
    by (simp add: open_session_def ex rows sample_index_member sample_mark sorted ss sample_slack seam_slack_def
        MAX_SEAM_SLACK_NS_def sample_session_def Let_def)
qed

text \<open>
  The device prefix. A topic of the session's device loses exactly the prefix; a topic of another
  device is dropped; a topic without a device name, as a sidecar writes it, passes unchanged.
\<close>

theorem device_prefix_stripped:
  assumes "device \<noteq> []" and "47 \<notin> set device"
  shows "strip_device_topic_prefix (47 # device @ 47 # rest) (Some device) = Some (47 # rest)
    \<and> (topic_device t = Some other \<longrightarrow> other \<noteq> device \<longrightarrow> strip_device_topic_prefix t (Some device) = None)
    \<and> (topic_device t = None \<longrightarrow> second_part t \<noteq> Some device \<longrightarrow> strip_device_topic_prefix t (Some device) = Some t)"
proof (intro conjI impI)
  show "strip_device_topic_prefix (47 # device @ 47 # rest) (Some device) = Some (47 # rest)"
    by (rule strip_own [OF assms(1)])
next
  assume t: "topic_device t = Some other" "other \<noteq> device"
  then have "second_part t = Some other" "starts_with GILABS other"
    by (auto simp: topic_device_def split: option.splits if_splits)
  then show "strip_device_topic_prefix t (Some device) = None"
    using strip_foreign [OF assms(2) _ t(2)] assms(1) by (simp add: strip_device_topic_prefix_def)
next
  assume t: "topic_device t = None" "second_part t \<noteq> Some device"
  show "strip_device_topic_prefix t (Some device) = Some t"
  proof (cases "second_part t")
    case None
    then have "t \<noteq> 47 # device" "\<not> starts_with ((47 # device) @ [47]) t"
      by (auto simp: second_part_def starts_with_append split: if_splits)
    then show ?thesis using None by (simp add: strip_device_topic_prefix_def)
  next
    case (Some h)
    then show ?thesis using strip_foreign [OF assms(2) Some] t by (simp add: strip_device_topic_prefix_def topic_device_def split: if_splits)
  qed
qed

theorem device_prefix_stripped_witness:
  "strip_device_topic_prefix (47 # lit ''GILABS-1'' @ 47 # lit ''imu'') (Some (lit ''GILABS-1'')) = Some (47 # lit ''imu'')"
proof -
  have "lit ''GILABS-1'' \<noteq> []" "47 \<notin> set (lit ''GILABS-1'')" by simp_all
  from device_prefix_stripped [OF this, of "lit ''imu''" "[]" "[]"] show ?thesis by blast
qed

text \<open>
  C30. The order of a session's files. Every file given is read exactly once, each by one stream and in
  ascending position there; the parts of one recording follow each other by part number, whatever their
  time stamps say; files without a rotation mark follow each other by their first message.
\<close>

theorem files_in_order:
  assumes "open_session streams device reorder_ns adapters require_index mode = Inr s"
  shows "mset (map me_file (se_members s)) = mset (concat (map expand_sources streams))
    \<and> mset (concat (se_streams s)) = mset [0..<length (se_members s)]
    \<and> (\<forall>members \<in> set (se_streams s). sorted_wrt (\<lambda>i j. i < j
         \<and> (\<forall>identity p c p' c'. me_rotation (se_members s ! i) = Some (identity, p, c) \<longrightarrow>
              me_rotation (se_members s ! j) = Some (identity, p', c') \<longrightarrow> p \<le> p')
         \<and> (me_rotation (se_members s ! i) = None \<longrightarrow> me_rotation (se_members s ! j) = None \<longrightarrow>
              member_start (se_members s ! i) \<le> member_start (se_members s ! j))) members)"
proof -
  note files = session_files [OF assms]
  obtain n where ss: "se_streams s = stream_members n (se_members s)" using assms by (rule open_session_members)
  have n: "n = length (se_streams s)" by (simp add: ss stream_members_def)
  note part = stream_members_partition [OF files(2) [folded n], folded ss]
  have owner: "me_owner (se_members s ! i) = me_owner (se_members s ! j) \<and> j < length (se_members s)"
    if "members \<in> set (se_streams s)" "i \<in> set members" "j \<in> set members" for members i j
    using that by (auto simp: ss stream_members_def)
  let ?R = "\<lambda>i j. i < j
      \<and> (\<forall>identity p c p' c'. me_rotation (se_members s ! i) = Some (identity, p, c) \<longrightarrow>
              me_rotation (se_members s ! j) = Some (identity, p', c') \<longrightarrow> p \<le> p')
      \<and> (me_rotation (se_members s ! i) = None \<longrightarrow> me_rotation (se_members s ! j) = None \<longrightarrow>
              member_start (se_members s ! i) \<le> member_start (se_members s ! j))"
  have "sorted_wrt ?R members" if m: "members \<in> set (se_streams s)" for members
  proof (rule sorted_wrt_mono_rel)
    show "sorted_wrt (<) members" using part(2) m by blast
    fix i j assume ij: "i \<in> set members" "j \<in> set members" "i < j"
    from session_sorted [OF assms ij(3)] owner [OF m ij(1,2)] obtain ms where
      "file_order ms (se_members s ! i) \<le> file_order ms (se_members s ! j)" by blast
    then show "?R i j" using ij(3) owner [OF m ij(1,2)] by (auto simp: file_order_def less_eq_prod_def)
  qed
  then show ?thesis using files(1) part(1) by blast
qed

theorem files_in_order_witness:
  "mset (map me_file (se_members sample_session))
     = {#sample_file [98] rows_b, sample_file [97] rows_a#}"
  using files_in_order [OF sample_open] by (simp add: expand_sources_def)



end
