(* ===== verification/Sync.thy ===== *)
theory Sync
  imports Reorder
begin

text \<open>
  Grouping the streams of a session onto shared instants (\<open>reader/ops.py\<close>): the matcher, the resampler and
  \<open>sync\<close>. An element is its topic, its time stamp and itself; \<open>blend\<close> (\<open>reader/interp.py\<close>) is an argument
  of the operations, an error of it ends the generator. A generator is the list of what it yields, with
  the error that ends it.
\<close>

section \<open>The matcher\<close>

type_synonym 'e stamped = "ustr \<times> int \<times> 'e"

definition st_topic :: "'e stamped \<Rightarrow> ustr" where "st_topic e = fst e"
definition st_time :: "'e stamped \<Rightarrow> int" where "st_time e = fst (snd e)"

datatype sample_method = SMatched | SExact | SNearest | SHeld | SInterpolated | SExtrapolated

record 'e sampled =
  sd_element :: "'e stamped"
  sd_method :: sample_method
  sd_residual :: int

datatype 'e outcome = is_Formed: Formed (fm_time: int) (fm_members: "(ustr \<times> 'e sampled) list") | Gone "'e stamped"

type_synonym 'e buffers = "ustr \<Rightarrow> 'e stamped list"

record matcher =
  mt_keys :: "ustr list"
  mt_tol :: int
  mt_window :: nat
  mt_partial :: bool

text \<open>The constructor's check.\<close>

definition matcher_ok :: "matcher \<Rightarrow> bool" where
  "matcher_ok m \<longleftrightarrow> mt_keys m \<noteq> [] \<and> distinct (mt_keys m) \<and> 1 \<le> mt_window m \<and> 0 \<le> mt_tol m"

definition min_list_of :: "int list \<Rightarrow> int" where "min_list_of ts = fold min (tl ts) (hd ts)"
definition max_list_of :: "int list \<Rightarrow> int" where "max_list_of ts = fold max (tl ts) (hd ts)"

text \<open>\<open>min(keys, key=...)\<close>: the first of the keys with the least value.\<close>

fun first_min :: "('k \<Rightarrow> int) \<Rightarrow> 'k \<Rightarrow> 'k list \<Rightarrow> 'k" where
  "first_min f k [] = k"
| "first_min f k (x # xs) = first_min f (if f x < f k then x else k) xs"

definition head_time :: "'e buffers \<Rightarrow> ustr \<Rightarrow> int" where
  "head_time buf k = st_time (hd (buf k))"

definition all_filled :: "ustr list \<Rightarrow> 'e buffers \<Rightarrow> bool" where
  "all_filled keys buf \<longleftrightarrow> keys \<noteq> [] \<and> (\<forall>k \<in> set keys. buf k \<noteq> [])"

definition oldest_key :: "ustr list \<Rightarrow> 'e buffers \<Rightarrow> ustr" where
  "oldest_key keys buf = first_min (head_time buf) (hd keys) (tl keys)"

definition drop_heads :: "ustr list \<Rightarrow> 'e buffers \<Rightarrow> 'e buffers" where
  "drop_heads keys buf = (\<lambda>k. if k \<in> set keys then tl (buf k) else buf k)"

definition formed :: "ustr list \<Rightarrow> 'e buffers \<Rightarrow> 'e outcome" where
  "formed keys buf = (let lo = min_list_of (map (head_time buf) keys)
     in Formed lo (map (\<lambda>k. (k, \<lparr>sd_element = hd (buf k), sd_method = SMatched, sd_residual = head_time buf k - lo\<rparr>)) keys))"

definition spread :: "ustr list \<Rightarrow> 'e buffers \<Rightarrow> int" where
  "spread keys buf = max_list_of (map (head_time buf) keys) - min_list_of (map (head_time buf) keys)"

definition held :: "ustr list \<Rightarrow> 'e buffers \<Rightarrow> nat" where
  "held keys buf = sum_list (map (\<lambda>k. length (buf k)) keys)"

lemma first_min_mem: "first_min f k xs \<in> insert k (set xs)"
  by (induction f k xs rule: first_min.induct) (auto split: if_splits)

lemma oldest_key_mem: "keys \<noteq> [] \<Longrightarrow> oldest_key keys buf \<in> set keys"
  using first_min_mem [of "head_time buf" "hd keys" "tl keys"] by (cases keys) (auto simp: oldest_key_def)

lemma held_less:
  assumes "\<forall>k \<in> set keys. length (b k) \<le> length (a k)" "k \<in> set keys" "length (b k) < length (a k)"
  shows "held keys b < held keys a"
  using assms unfolding held_def
proof (induction keys)
  case (Cons x keys)
  have le: "sum_list (map (\<lambda>k. length (b k)) keys) \<le> sum_list (map (\<lambda>k. length (a k)) keys)"
    using Cons.prems(1) by (intro sum_list_mono) simp
  show ?case
  proof (cases "k \<in> set keys")
    case True
    then show ?thesis using Cons by (simp add: add_le_less_mono)
  next
    case False
    then show ?thesis using Cons.prems le by (auto intro: add_less_le_mono)
  qed
qed simp

lemma held_drop_oldest: "all_filled keys buf \<Longrightarrow>
    held keys (buf(oldest_key keys buf := tl (buf (oldest_key keys buf)))) < held keys buf"
  using oldest_key_mem [of keys buf]
  by (intro held_less [of keys _ buf "oldest_key keys buf"]) (auto simp: all_filled_def)

lemma held_drop_heads: "all_filled keys buf \<Longrightarrow> held keys (drop_heads keys buf) < held keys buf"
  by (intro held_less [of keys _ buf "hd keys"]) (auto simp: all_filled_def drop_heads_def)

text \<open>\<open>flush\<close>; a dropped element is yielded only with \<open>emit_partial\<close>.\<close>

function flush :: "ustr list \<Rightarrow> int \<Rightarrow> bool \<Rightarrow> 'e buffers \<Rightarrow> 'e outcome list \<times> 'e buffers" where
  "flush keys tol partial buf =
     (if \<not> all_filled keys buf then ([], buf)
      else if spread keys buf > tol then
        let k = oldest_key keys buf; (outs, b) = flush keys tol partial (buf(k := tl (buf k)))
        in ((if partial then [Gone (hd (buf k))] else []) @ outs, b)
      else
        let (outs, b) = flush keys tol partial (drop_heads keys buf)
        in (formed keys buf # outs, b))"
  by pat_completeness auto
termination
  by (relation "measure (\<lambda>(keys, tol, partial, buf). held keys buf)") (simp_all add: held_drop_oldest held_drop_heads)

declare flush.simps [simp del]

definition push :: "matcher \<Rightarrow> 'e stamped \<Rightarrow> 'e buffers \<Rightarrow> 'e outcome list \<times> 'e buffers" where
  "push m el buf =
     (let k = st_topic el; b = buf k @ [el];
          (gone, b) = (if length b > mt_window m then (if mt_partial m then [Gone (hd b)] else [], tl b) else ([], b));
          (outs, buf) = flush (mt_keys m) (mt_tol m) (mt_partial m) (buf(k := b))
      in (gone @ outs, buf))"

text \<open>\<open>oldest_ns\<close>, \<open>clear\<close> and \<open>finish\<close>.\<close>

definition oldest_ns :: "ustr list \<Rightarrow> 'e buffers \<Rightarrow> int option" where
  "oldest_ns keys buf = (let heads = map (head_time buf) (filter (\<lambda>k. buf k \<noteq> []) keys)
     in if heads = [] then None else Some (min_list_of heads))"

definition clear_matcher :: "ustr list \<Rightarrow> 'e buffers \<Rightarrow> nat \<times> 'e buffers" where
  "clear_matcher keys buf = (held keys buf, \<lambda>k. if k \<in> set keys then [] else buf k)"

definition finish_matcher :: "matcher \<Rightarrow> 'e buffers \<Rightarrow> 'e outcome list \<times> 'e buffers" where
  "finish_matcher m buf =
     (let (outs, b) = flush (mt_keys m) (mt_tol m) (mt_partial m) buf
      in (outs @ (if mt_partial m then map Gone (sort_key st_time (concat (map b (mt_keys m)))) else []),
          snd (clear_matcher (mt_keys m) b)))"

section \<open>The resampler\<close>

datatype resample_mode = HoldLast | Nearest | Interpolate

record resampler =
  rs_topics :: "(ustr \<times> resample_mode) list"
  rs_extrapolate :: bool
  rs_stale :: "int option"

text \<open>Append, or insert behind the last element that is not later.\<close>

definition resampler_push :: "'e stamped \<Rightarrow> 'e buffers \<Rightarrow> 'e buffers" where
  "resampler_push el buf = (let b = buf (st_topic el)
     in buf(st_topic el := if b \<noteq> [] \<and> st_time el < st_time (last b)
          then takeWhile (\<lambda>x. st_time x \<le> st_time el) b @ el # dropWhile (\<lambda>x. st_time x \<le> st_time el) b
          else b @ [el]))"

text \<open>\<open>KEEP_BEFORE\<close> is 2: two samples at or before the instant are kept.\<close>

fun prune :: "int \<Rightarrow> 'e stamped list \<Rightarrow> 'e stamped list" where
  "prune t (a # b # c # rest) = (if st_time c \<le> t then prune t (b # c # rest) else a # b # c # rest)"
| "prune t xs = xs"

definition prune_before :: "resampler \<Rightarrow> int \<Rightarrow> 'e buffers \<Rightarrow> 'e buffers" where
  "prune_before r t buf = (\<lambda>k. if k \<in> fst ` set (rs_topics r) then prune t (buf k) else buf k)"

type_synonym ('e, 'x) blender = "'e stamped \<Rightarrow> 'e stamped \<Rightarrow> int \<Rightarrow> 'x + 'e stamped option"

definition bracketed :: "('e, 'x) blender \<Rightarrow> 'e stamped \<Rightarrow> 'e stamped \<Rightarrow> int \<Rightarrow> resample_mode \<Rightarrow> 'x + 'e sampled" where
  "bracketed blend lo hi t mode =
     (let residual = min (t - st_time lo) (st_time hi - t);
          near = \<lparr>sd_element = (if t - st_time lo \<le> st_time hi - t then lo else hi), sd_method = SNearest, sd_residual = residual\<rparr>
      in case mode of
           HoldLast \<Rightarrow> Inr \<lparr>sd_element = lo, sd_method = SHeld, sd_residual = t - st_time lo\<rparr>
         | Interpolate \<Rightarrow> bindE (blend lo hi t) (\<lambda>mixed. case mixed of
               Some e \<Rightarrow> Inr \<lparr>sd_element = e, sd_method = SInterpolated, sd_residual = residual\<rparr>
             | None \<Rightarrow> Inr near)
         | Nearest \<Rightarrow> Inr near)"

definition past_end :: "('e, 'x) blender \<Rightarrow> bool \<Rightarrow> 'e stamped list \<Rightarrow> int \<Rightarrow> 'x + 'e sampled" where
  "past_end blend extrapolate buf t =
     (let lo = last buf; age = t - st_time lo;
          hold = \<lparr>sd_element = lo, sd_method = SHeld, sd_residual = age\<rparr>
      in if extrapolate \<and> length buf \<ge> 2 \<and> st_time (last (butlast buf)) < st_time lo
         then bindE (blend (last (butlast buf)) lo t) (\<lambda>projected. case projected of
                Some e \<Rightarrow> Inr \<lparr>sd_element = e, sd_method = SExtrapolated, sd_residual = age\<rparr>
              | None \<Rightarrow> Inr hold)
         else Inr hold)"

text \<open>\<open>_value_at\<close>; the buffer is sorted, so the bisection splits it at the instant.\<close>

definition value_at :: "('e, 'x) blender \<Rightarrow> bool \<Rightarrow> 'e stamped list \<Rightarrow> int \<Rightarrow> resample_mode \<Rightarrow> 'x + 'e sampled option" where
  "value_at blend extrapolate buf t mode =
     (let before = takeWhile (\<lambda>e. st_time e \<le> t) buf; after = dropWhile (\<lambda>e. st_time e \<le> t) buf
      in if buf = [] then Inr None
         else if before \<noteq> [] \<and> st_time (last before) = t
              then Inr (Some \<lparr>sd_element = last before, sd_method = SExact, sd_residual = 0\<rparr>)
         else if before = [] then Inr (Some \<lparr>sd_element = hd after, sd_method = SNearest, sd_residual = st_time (hd after) - t\<rparr>)
         else if after = [] then bindE (past_end blend extrapolate buf t) (Inr \<circ> Some)
         else bindE (bracketed blend (last before) (hd after) t mode) (Inr \<circ> Some))"

text \<open>\<open>at\<close>: the values and the missing topics.\<close>

fun resample_at :: "('e, 'x) blender \<Rightarrow> resampler \<Rightarrow> 'e buffers \<Rightarrow> int \<Rightarrow> (ustr \<times> resample_mode) list
    \<Rightarrow> 'x + (ustr \<times> 'e sampled) list \<times> ustr list" where
  "resample_at blend r buf t [] = Inr ([], [])"
| "resample_at blend r buf t ((topic, mode) # ts) =
     bindE (value_at blend (rs_extrapolate r) (buf topic) t mode) (\<lambda>got.
     bindE (resample_at blend r buf t ts) (\<lambda>(values, missing). Inr
       (case got of
          Some s \<Rightarrow> if \<exists>limit \<in> set_option (rs_stale r). sd_residual s > limit then (values, topic # missing)
                    else ((topic, s) # values, missing)
        | None \<Rightarrow> (values, topic # missing))))"

record 'e sync_group =
  sg_time :: int
  sg_by_topic :: "(ustr \<times> 'e sampled) list"
  sg_missing :: "ustr list"

definition close_group :: "('e, 'x) blender \<Rightarrow> resampler \<Rightarrow> 'e buffers \<Rightarrow> int \<times> (ustr \<times> 'e sampled) list
    \<Rightarrow> 'x + 'e sync_group" where
  "close_group blend r buf matched = bindE (resample_at blend r buf (fst matched) (rs_topics r)) (\<lambda>(values, missing).
     Inr \<lparr>sg_time = fst matched, sg_by_topic = snd matched @ values, sg_missing = missing\<rparr>)"

section \<open>The driver\<close>

datatype 'e sync_out = Group "'e sync_group" | Passed "'e stamped"

record 'e sync_state =
  sy_match :: "'e buffers"
  sy_res :: "'e buffers"
  sy_pending :: "(int \<times> (ustr \<times> 'e sampled) list) list"
  sy_watermark :: int

record sync_args =
  sa_matcher :: matcher
  sa_resampler :: resampler
  sa_lag :: int
  sa_passthrough :: bool

definition sync_ok :: "sync_args \<Rightarrow> bool" where
  "sync_ok a \<longleftrightarrow> matcher_ok (sa_matcher a) \<and> set (mt_keys (sa_matcher a)) \<inter> fst ` set (rs_topics (sa_resampler a)) = {}"

text \<open>\<open>_absorb\<close>\<close>

definition passed_of :: "'e outcome list \<Rightarrow> 'e sync_out list" where
  "passed_of outs = concat (map (\<lambda>x. case x of Gone e \<Rightarrow> [Passed e] | Formed _ _ \<Rightarrow> []) outs)"

definition formed_of :: "'e outcome list \<Rightarrow> (int \<times> (ustr \<times> 'e sampled) list) list" where
  "formed_of outs = concat (map (\<lambda>x. case x of Gone _ \<Rightarrow> [] | Formed t ms \<Rightarrow> [(t, ms)]) outs)"

definition frontier :: "ustr list \<Rightarrow> 'e sync_state \<Rightarrow> int" where
  "frontier keys s = (case sy_pending s of
       (t, _) # _ \<Rightarrow> t
     | [] \<Rightarrow> (case oldest_ns keys (sy_match s) of None \<Rightarrow> sy_watermark s | Some t \<Rightarrow> t))"

text \<open>The groups closed while their instant is due, the error of one of them, and what stays pending.\<close>

fun close_due :: "('e, 'x) blender \<Rightarrow> resampler \<Rightarrow> 'e buffers \<Rightarrow> (int \<Rightarrow> bool)
    \<Rightarrow> (int \<times> (ustr \<times> 'e sampled) list) list
    \<Rightarrow> ('e sync_out list \<times> 'x option) \<times> (int \<times> (ustr \<times> 'e sampled) list) list" where
  "close_due blend r buf due [] = (([], None), [])"
| "close_due blend r buf due (p # ps) =
     (if due (fst p) then
        (case close_group blend r buf p of
           Inl e \<Rightarrow> (([], Some e), ps)
         | Inr g \<Rightarrow> let ((gs, err), rest) = close_due blend r buf due ps in ((Group g # gs, err), rest))
      else (([], None), p # ps))"

definition sync_take :: "sync_args \<Rightarrow> 'e stamped \<Rightarrow> 'e sync_state \<Rightarrow> 'e sync_out list \<times> 'e sync_state" where
  "sync_take a el s =
     (let s = s\<lparr>sy_watermark := max (sy_watermark s) (st_time el)\<rparr>
      in if st_topic el \<in> set (mt_keys (sa_matcher a)) then
           let (outs, buf) = push (sa_matcher a) el (sy_match s)
           in (passed_of outs, s\<lparr>sy_match := buf, sy_pending := sy_pending s @ formed_of outs\<rparr>)
         else if st_topic el \<in> fst ` set (rs_topics (sa_resampler a)) then
           ([], s\<lparr>sy_res := resampler_push el (sy_res s)\<rparr>)
         else ((if sa_passthrough a then [Passed el] else []), s))"

definition sync_prune :: "sync_args \<Rightarrow> 'e sync_state \<Rightarrow> 'e sync_state" where
  "sync_prune a s = (if rs_topics (sa_resampler a) = [] then s
     else s\<lparr>sy_res := prune_before (sa_resampler a) (frontier (mt_keys (sa_matcher a)) s) (sy_res s)\<rparr>)"

definition sync_step :: "('e, 'x) blender \<Rightarrow> sync_args \<Rightarrow> 'e stamped \<Rightarrow> 'e sync_state
    \<Rightarrow> ('e sync_out list \<times> 'x option) \<times> 'e sync_state" where
  "sync_step blend a el s =
     (let (outs, s) = sync_take a el s;
          ((gs, err), pending) = close_due blend (sa_resampler a) (sy_res s) (\<lambda>t. t \<le> sy_watermark s - sa_lag a) (sy_pending s)
      in ((outs @ gs, err), sync_prune a (s\<lparr>sy_pending := pending\<rparr>)))"

definition init_sync :: "'e sync_state" where
  "init_sync = \<lparr>sy_match = (\<lambda>_. []), sy_res = (\<lambda>_. []), sy_pending = [], sy_watermark = 0\<rparr>"

definition sync_end :: "('e, 'x) blender \<Rightarrow> sync_args \<Rightarrow> 'e sync_state \<Rightarrow> 'e sync_out list \<times> 'x option" where
  "sync_end blend a s =
     (let m = sa_matcher a; (outs, buf) = flush (mt_keys m) (mt_tol m) (mt_partial m) (sy_match s);
          ((gs, err), _) = close_due blend (sa_resampler a) (sy_res s) (\<lambda>_. True) (sy_pending s @ formed_of outs)
      in (passed_of outs @ gs, err))"

fun sync_run :: "('e, 'x) blender \<Rightarrow> sync_args \<Rightarrow> 'e stamped list \<Rightarrow> 'e sync_state \<Rightarrow> 'e sync_out list \<times> 'x option" where
  "sync_run blend a [] s = sync_end blend a s"
| "sync_run blend a (el # els) s =
     (case sync_step blend a el s of
        ((outs, Some e), _) \<Rightarrow> (outs, Some e)
      | ((outs, None), s) \<Rightarrow> let (rest, err) = sync_run blend a els s in (outs @ rest, err))"

definition sync :: "('e, 'x) blender \<Rightarrow> sync_args \<Rightarrow> 'e stamped list \<Rightarrow> unit + 'e sync_out list \<times> 'x option" where
  "sync blend a els = (if sync_ok a then Inr (sync_run blend a els init_sync) else Inl ())"

section \<open>Matching depends on each key's own elements only\<close>

definition join_buf :: "'e buffers \<Rightarrow> 'e buffers \<Rightarrow> 'e buffers" where
  "join_buf a b = (\<lambda>k. a k @ b k)"

lemma flush_stop: "\<not> all_filled keys buf \<Longrightarrow> flush keys tol p buf = ([], buf)"
  by (simp add: flush.simps)

lemma flush_wide:
  "all_filled keys buf \<Longrightarrow> spread keys buf > tol \<Longrightarrow> flush keys tol p buf =
     (let k = oldest_key keys buf; r = flush keys tol p (buf(k := tl (buf k)))
      in ((if p then [Gone (hd (buf k))] else []) @ fst r, snd r))"
  by (subst flush.simps) (simp add: Let_def case_prod_beta)

lemma flush_tight:
  "all_filled keys buf \<Longrightarrow> \<not> spread keys buf > tol \<Longrightarrow> flush keys tol p buf =
     (let r = flush keys tol p (drop_heads keys buf) in (formed keys buf # fst r, snd r))"
  by (subst flush.simps) (simp add: Let_def case_prod_beta)

lemma all_filled_join: "all_filled keys buf \<Longrightarrow> all_filled keys (join_buf buf ext)
    \<and> (\<forall>k \<in> set keys. hd (join_buf buf ext k) = hd (buf k) \<and> tl (join_buf buf ext k) = tl (buf k) @ ext k)"
  by (auto simp: all_filled_def join_buf_def)

lemma heads_cong: "(\<forall>k \<in> set keys. hd (a k) = hd (b k)) \<Longrightarrow> map (head_time a) keys = map (head_time b) keys"
  by (simp add: head_time_def)

lemma first_min_cong: "(\<forall>k \<in> insert x (set xs). f k = g k) \<Longrightarrow> first_min f x xs = first_min g x xs"
  by (induction f x xs rule: first_min.induct) auto

lemma oldest_key_cong: "keys \<noteq> [] \<Longrightarrow> (\<forall>k \<in> set keys. hd (a k) = hd (b k)) \<Longrightarrow> oldest_key keys a = oldest_key keys b"
  unfolding oldest_key_def by (rule first_min_cong) (cases keys; auto simp: head_time_def)

lemma formed_cong:
  assumes "\<forall>k \<in> set keys. hd (a k) = hd (b k)"
  shows "formed keys a = formed keys b" "spread keys a = spread keys b"
  unfolding formed_def spread_def heads_cong [OF assms] using assms by (simp_all add: Let_def head_time_def)

lemma flush_append:
  "flush keys tol p (join_buf buf ext) =
     (let (outs, b) = flush keys tol p buf; (outs', b') = flush keys tol p (join_buf b ext) in (outs @ outs', b'))"
proof (induction keys tol p buf rule: flush.induct)
  case (1 keys tol p buf)
  show ?case
  proof (cases "all_filled keys buf")
    case True
    note j = all_filled_join [OF True, of ext]
    have keys: "keys \<noteq> []" using True by (simp add: all_filled_def)
    have hd: "\<forall>k \<in> set keys. hd (join_buf buf ext k) = hd (buf k)" using j by blast
    have same: "spread keys (join_buf buf ext) = spread keys buf" "oldest_key keys (join_buf buf ext) = oldest_key keys buf"
      "formed keys (join_buf buf ext) = formed keys buf"
      by (rule formed_cong(2) [OF hd], rule oldest_key_cong [OF keys hd], rule formed_cong(1) [OF hd])
    let ?k = "oldest_key keys buf"
    have one: "(join_buf buf ext)(?k := tl (join_buf buf ext ?k)) = join_buf (buf(?k := tl (buf ?k))) ext"
      using j oldest_key_mem [OF keys, of buf] by (auto simp: join_buf_def fun_eq_iff)
    have all: "drop_heads keys (join_buf buf ext) = join_buf (drop_heads keys buf) ext"
      using j by (auto simp: drop_heads_def join_buf_def fun_eq_iff)
    show ?thesis
    proof (cases "spread keys buf > tol")
      case wide: True
      define b where "b = buf(?k := tl (buf ?k))"
      have hd_k: "hd (join_buf buf ext ?k) = hd (buf ?k)" using hd oldest_key_mem [OF keys] by blast
      have IH: "flush keys tol p (join_buf b ext) = (let (outs, b) = flush keys tol p b;
          (outs', b') = flush keys tol p (join_buf b ext) in (outs @ outs', b'))"
        unfolding b_def by (rule "1.IH"(1)) (use True wide in simp_all)
      have wide': "all_filled keys (join_buf buf ext)" "spread keys (join_buf buf ext) > tol" using j wide same by simp_all
      show ?thesis
        unfolding flush_wide [OF wide'] flush_wide [OF True wide] Let_def same one b_def [symmetric] hd_k IH
        by (simp add: case_prod_beta)
    next
      case False
      show ?thesis
        using flush_tight [OF True False, of p] flush_tight [of keys "join_buf buf ext" tol p] "1.IH"(2) True False j
        by (simp add: same all Let_def case_prod_beta)
    qed
  qed (simp add: flush_stop)
qed

lemma flush_idem: "flush keys tol p (snd (flush keys tol p buf)) = ([], snd (flush keys tol p buf))"
proof -
  have e: "join_buf b (\<lambda>_. []) = b" for b :: "'e buffers" by (simp add: join_buf_def)
  obtain outs b where 1: "flush keys tol p buf = (outs, b)" by fastforce
  obtain outs' b' where 2: "flush keys tol p b = (outs', b')" by fastforce
  show ?thesis using flush_append [of keys tol p buf "\<lambda>_. []"] 1 2 by (simp add: e)
qed

fun feed :: "matcher \<Rightarrow> 'e stamped list \<Rightarrow> 'e buffers \<Rightarrow> 'e outcome list \<times> 'e buffers" where
  "feed m [] buf = ([], buf)"
| "feed m (e # es) buf = (let (outs, buf) = push m e buf; (rest, buf) = feed m es buf in (outs @ rest, buf))"

text \<open>No push finds its key's buffer full.\<close>

fun fits :: "matcher \<Rightarrow> 'e stamped list \<Rightarrow> 'e buffers \<Rightarrow> bool" where
  "fits m [] buf \<longleftrightarrow> True"
| "fits m (e # es) buf \<longleftrightarrow> length (buf (st_topic e)) < mt_window m \<and> fits m es (snd (push m e buf))"

definition by_key :: "'e stamped list \<Rightarrow> 'e buffers" where
  "by_key es = (\<lambda>k. filter (\<lambda>e. st_topic e = k) es)"

definition match_all :: "matcher \<Rightarrow> 'e buffers \<Rightarrow> 'e outcome list \<times> 'e buffers" where
  "match_all m buf = flush (mt_keys m) (mt_tol m) (mt_partial m) buf"

lemma push_fits: "length (buf (st_topic e)) < mt_window m \<Longrightarrow> push m e buf = match_all m (join_buf buf (by_key [e]))"
proof -
  have "buf(st_topic e := buf (st_topic e) @ [e]) = join_buf buf (by_key [e])"
    by (auto simp: join_buf_def by_key_def fun_eq_iff)
  then show "length (buf (st_topic e)) < mt_window m \<Longrightarrow> ?thesis"
    by (simp add: push_def match_all_def Let_def case_prod_beta)
qed

lemma feed_offline:
  "fits m es buf \<Longrightarrow> match_all m buf = ([], buf) \<Longrightarrow> feed m es buf = match_all m (join_buf buf (by_key es))"
proof (induction es arbitrary: buf)
  case Nil
  then show ?case by (simp add: join_buf_def by_key_def)
next
  case (Cons e es)
  obtain outs b where push: "push m e buf = (outs, b)" by fastforce
  have off: "match_all m (join_buf buf (by_key [e])) = (outs, b)" using push push_fits [of buf e m] Cons.prems(1) by simp
  then have "match_all m b = ([], b)" using flush_idem [of "mt_keys m" "mt_tol m" "mt_partial m" "join_buf buf (by_key [e])"]
    by (simp add: match_all_def)
  then have rest: "feed m es b = match_all m (join_buf b (by_key es))" using Cons push by simp
  have "join_buf buf (by_key (e # es)) = join_buf (join_buf buf (by_key [e])) (by_key es)"
    by (auto simp: join_buf_def by_key_def fun_eq_iff)
  then show ?case
    using flush_append [of "mt_keys m" "mt_tol m" "mt_partial m" "join_buf buf (by_key [e])" "by_key es"] off rest push
    by (simp add: match_all_def case_prod_beta)
qed

section \<open>What a formed group holds\<close>

lemma fold_min_le: fixes a :: int shows "fold min xs a \<le> a" "x \<in> set xs \<Longrightarrow> fold min xs a \<le> x" "fold min xs a \<in> insert a (set xs)"
proof -
  have a: "fold min ys a \<le> a" for a :: int and ys by (induction ys arbitrary: a) (auto intro: order_trans [OF _ min.cobounded2])
  show "fold min xs a \<le> a" by (rule a)
  show "x \<in> set xs \<Longrightarrow> fold min xs a \<le> x"
  proof (induction xs arbitrary: a)
    case (Cons y ys)
    then show ?case using order_trans [OF a [of ys "min y a"]] by auto
  qed simp
  show "fold min xs a \<in> insert a (set xs)" by (induction xs arbitrary: a) (auto simp: min_def split: if_splits)
qed

lemma fold_max_ge: fixes a :: int shows "a \<le> fold max xs a" "x \<in> set xs \<Longrightarrow> x \<le> fold max xs a" "fold max xs a \<in> insert a (set xs)"
proof -
  have a: "a \<le> fold max ys a" for a :: int and ys by (induction ys arbitrary: a) (auto intro: order_trans [OF max.cobounded2])
  show "a \<le> fold max xs a" by (rule a)
  show "x \<in> set xs \<Longrightarrow> x \<le> fold max xs a"
  proof (induction xs arbitrary: a)
    case (Cons y ys)
    then show ?case using order_trans [OF _ a [of "max y a" ys]] by auto
  qed simp
  show "fold max xs a \<in> insert a (set xs)" by (induction xs arbitrary: a) (auto simp: max_def split: if_splits)
qed

lemma min_list_of: "x \<in> set ts \<Longrightarrow> min_list_of ts \<le> x" "ts \<noteq> [] \<Longrightarrow> min_list_of ts \<in> set ts"
  using fold_min_le [where xs = "tl ts" and a = "hd ts"] by (cases ts; auto simp: min_list_of_def)+

lemma max_list_of: "x \<in> set ts \<Longrightarrow> x \<le> max_list_of ts" "ts \<noteq> [] \<Longrightarrow> max_list_of ts \<in> set ts"
  using fold_max_ge [where xs = "tl ts" and a = "hd ts"] by (cases ts; auto simp: max_list_of_def)+

definition group_ok :: "matcher \<Rightarrow> 'e buffers \<Rightarrow> 'e outcome \<Rightarrow> bool" where
  "group_ok m buf x \<longleftrightarrow> (case x of Gone e \<Rightarrow> True
     | Formed t ms \<Rightarrow> map fst ms = mt_keys m \<and> t \<in> (\<lambda>(k, s). st_time (sd_element s)) ` set ms
         \<and> (\<forall>(k, s) \<in> set ms. sd_element s \<in> set (buf k) \<and> sd_method s = SMatched
              \<and> sd_residual s = st_time (sd_element s) - t \<and> 0 \<le> sd_residual s \<and> sd_residual s \<le> mt_tol m))"

lemma formed_ok:
  assumes "all_filled (mt_keys m) buf" "\<not> spread (mt_keys m) buf > mt_tol m"
  shows "group_ok m buf (formed (mt_keys m) buf)"
proof -
  let ?ts = "map (head_time buf) (mt_keys m)"
  have ne: "?ts \<noteq> []" using assms(1) by (simp add: all_filled_def)
  from min_list_of(2) [OF ne] have "min_list_of ?ts \<in> head_time buf ` set (mt_keys m)" by simp
  moreover have "0 \<le> head_time buf k - min_list_of ?ts" "head_time buf k - min_list_of ?ts \<le> mt_tol m"
    if "k \<in> set (mt_keys m)" for k
  proof -
    have "head_time buf k \<in> set ?ts" using that by simp
    from min_list_of(1) [OF this] max_list_of(1) [OF this] assms(2)
    show "0 \<le> head_time buf k - min_list_of ?ts" "head_time buf k - min_list_of ?ts \<le> mt_tol m"
      by (simp_all add: spread_def)
  qed
  moreover have "hd (buf k) \<in> set (buf k)" if "k \<in> set (mt_keys m)" for k using assms(1) that by (simp add: all_filled_def)
  ultimately show ?thesis by (auto simp: formed_def group_ok_def Let_def head_time_def comp_def image_image)
qed

definition within_buf :: "'e buffers \<Rightarrow> 'e buffers \<Rightarrow> bool" where
  "within_buf a b \<longleftrightarrow> (\<forall>k. set (a k) \<subseteq> set (b k))"

lemma group_ok_within: "group_ok m a x \<Longrightarrow> within_buf a b \<Longrightarrow> group_ok m b x"
  by (cases x) (fastforce simp: group_ok_def within_buf_def)+

lemma tl_mem: "x \<in> set (tl xs) \<Longrightarrow> x \<in> set xs"
  by (cases xs) simp_all

lemma within_dropped: "all_filled keys buf \<Longrightarrow> within_buf (buf(k := tl (buf k))) buf" "within_buf (drop_heads keys buf) buf"
  by (auto simp: within_buf_def drop_heads_def all_filled_def dest: tl_mem)

lemma match_all_ok: "x \<in> set (fst (match_all m buf)) \<Longrightarrow> group_ok m buf x"
  unfolding match_all_def
proof (induction "mt_keys m" "mt_tol m" "mt_partial m" buf rule: flush.induct)
  case (1 buf)
  show ?case
  proof (cases "all_filled (mt_keys m) buf")
    case True
    show ?thesis
    proof (cases "spread (mt_keys m) buf > mt_tol m")
      case wide: True
      let ?b = "buf(oldest_key (mt_keys m) buf := tl (buf (oldest_key (mt_keys m) buf)))"
      have "x = Gone (hd (buf (oldest_key (mt_keys m) buf))) \<or> x \<in> set (fst (flush (mt_keys m) (mt_tol m) (mt_partial m) ?b))"
        using 1(3) unfolding flush_wide [OF True wide] Let_def by (auto split: if_splits)
      then show ?thesis
      proof
        assume "x \<in> set (fst (flush (mt_keys m) (mt_tol m) (mt_partial m) ?b))"
        from 1(1) [OF _ wide refl this] True show ?thesis using group_ok_within within_dropped(1) by blast
      qed (simp add: group_ok_def)
    next
      case False
      have "x = formed (mt_keys m) buf \<or> x \<in> set (fst (flush (mt_keys m) (mt_tol m) (mt_partial m) (drop_heads (mt_keys m) buf)))"
        using 1(3) unfolding flush_tight [OF True False] Let_def by auto
      then show ?thesis
      proof
        assume "x \<in> set (fst (flush (mt_keys m) (mt_tol m) (mt_partial m) (drop_heads (mt_keys m) buf)))"
        from 1(2) [OF _ False this] True show ?thesis using group_ok_within within_dropped(2) by blast
      qed (use formed_ok [OF True False] in simp)
    qed
  qed (use 1(3) in \<open>simp add: flush_stop\<close>)
qed

section \<open>No match is missed\<close>

lemma first_min_least: "x \<in> insert k (set xs) \<Longrightarrow> f (first_min f k xs) \<le> f x"
proof (induction f k xs arbitrary: x rule: first_min.induct)
  case (2 f k y ys)
  show ?case using "2.IH" [of "if f y < f k then y else k"] "2.IH" [of x] "2.prems" by (auto split: if_splits)
qed simp

lemma oldest_key_min: "keys \<noteq> [] \<Longrightarrow> head_time buf (oldest_key keys buf) = min_list_of (map (head_time buf) keys)"
proof (rule antisym)
  assume ne: "keys \<noteq> []"
  then obtain k where "k \<in> set keys" "head_time buf k = min_list_of (map (head_time buf) keys)"
    using min_list_of(2) [of "map (head_time buf) keys"] by auto
  then show "head_time buf (oldest_key keys buf) \<le> min_list_of (map (head_time buf) keys)"
    using first_min_least [of k "hd keys" "tl keys" "head_time buf"] ne by (cases keys) (auto simp: oldest_key_def)
  have "head_time buf (oldest_key keys buf) \<in> set (map (head_time buf) keys)"
    unfolding set_map by (rule imageI) (rule oldest_key_mem [OF ne])
  then show "min_list_of (map (head_time buf) keys) \<le> head_time buf (oldest_key keys buf)" by (rule min_list_of(1))
qed

definition sorted_bufs :: "ustr list \<Rightarrow> 'e buffers \<Rightarrow> bool" where
  "sorted_bufs keys buf \<longleftrightarrow> (\<forall>k \<in> set keys. sorted (map st_time (buf k)))"

lemma sorted_bufs_dropped:
  "sorted_bufs keys buf \<Longrightarrow> sorted_bufs keys (buf(k := tl (buf k)))"
  "sorted_bufs keys buf \<Longrightarrow> sorted_bufs keys (drop_heads keys buf)"
  by (auto simp: sorted_bufs_def drop_heads_def map_tl sorted_tl)

lemma head_least: "sorted (map st_time xs) \<Longrightarrow> x \<in> set xs \<Longrightarrow> st_time (hd xs) \<le> st_time x"
  by (cases xs) auto

definition used :: "ustr list \<Rightarrow> (ustr \<Rightarrow> 'e stamped) \<Rightarrow> 'e outcome list \<Rightarrow> bool" where
  "used keys u outs \<longleftrightarrow> (\<exists>x \<in> set outs. \<exists>k \<in> set keys. \<exists>s. (k, s) \<in> set (fm_members x) \<and> is_Formed x \<and> sd_element s = u k)"

lemma used_more: "used keys u outs \<Longrightarrow> set outs \<subseteq> set outs' \<Longrightarrow> used keys u outs'"
  unfolding used_def by blast

lemma flush_complete:
  assumes "sorted_bufs keys buf" "keys \<noteq> []" "\<forall>k \<in> set keys. u k \<in> set (buf k)"
    and "\<forall>k \<in> set keys. \<forall>k' \<in> set keys. st_time (u k') - st_time (u k) \<le> tol"
  shows "used keys u (fst (flush keys tol p buf))"
  using assms
proof (induction keys tol p buf rule: flush.induct)
  case (1 keys tol p buf)
  have fill: "all_filled keys buf" using "1.prems"(2,3) by (force simp: all_filled_def)
  show ?case
  proof (cases "spread keys buf > tol")
    case wide: True
    let ?k = "oldest_key keys buf"
    let ?b = "buf(?k := tl (buf ?k))"
    have k: "?k \<in> set keys" using oldest_key_mem "1.prems"(2) by blast
    have "u ?k \<noteq> hd (buf ?k) \<or> u ?k \<in> set (tl (buf ?k))"
    proof (rule ccontr)
      assume "\<not> ?thesis"
      then have u: "u ?k = hd (buf ?k)" by blast
      obtain k2 where k2: "k2 \<in> set keys" "head_time buf k2 = max_list_of (map (head_time buf) keys)"
        using max_list_of(2) [of "map (head_time buf) keys"] "1.prems"(2) by auto
      have "head_time buf ?k = min_list_of (map (head_time buf) keys)" using oldest_key_min "1.prems"(2) by blast
      then have "head_time buf k2 - head_time buf ?k > tol" using wide k2 by (simp add: spread_def)
      moreover have "head_time buf k2 \<le> st_time (u k2)"
        using head_least [of "buf k2" "u k2"] "1.prems"(1,3) k2(1) by (simp add: sorted_bufs_def head_time_def)
      ultimately have "st_time (u k2) - st_time (u ?k) > tol" using u by (simp add: head_time_def)
      then show False using "1.prems"(4) k k2(1) by fastforce
    qed
    moreover have "u ?k \<in> set (buf ?k)" "buf ?k \<noteq> []" using "1.prems"(3) k fill by (auto simp: all_filled_def)
    ultimately have "u ?k \<in> set (tl (buf ?k))" by (cases "buf ?k") auto
    then have "\<forall>k \<in> set keys. u k \<in> set (?b k)" using "1.prems"(3) by simp
    note IH = "1.IH"(1) [OF _ wide refl sorted_bufs_dropped(1) [OF "1.prems"(1)] "1.prems"(2) this "1.prems"(4)]
    have "used keys u (fst (flush keys tol p ?b))" by (rule IH) (simp add: fill)
    then show ?thesis unfolding flush_wide [OF fill wide] Let_def fst_conv by (rule used_more) auto
  next
    case False
    show ?thesis
    proof (cases "\<exists>k \<in> set keys. u k = hd (buf k)")
      case True
      then show ?thesis unfolding flush_tight [OF fill False]
        by (auto simp: used_def Let_def formed_def intro!: bexI exI)
    next
      case none: False
      have "u k \<in> set (drop_heads keys buf k)" if "k \<in> set keys" for k
      proof -
        have "u k \<in> set (buf k)" "u k \<noteq> hd (buf k)" using "1.prems"(3) none that by blast+
        then show ?thesis using that by (cases "buf k") (auto simp: drop_heads_def)
      qed
      then have "\<forall>k \<in> set keys. u k \<in> set (drop_heads keys buf k)" by blast
      then have "used keys u (fst (flush keys tol p (drop_heads keys buf)))"
        using fill False "1.prems"(2,4) sorted_bufs_dropped(2) [OF "1.prems"(1)] by (intro "1.IH"(2)) simp_all
      then show ?thesis unfolding flush_tight [OF fill False] Let_def fst_conv by (rule used_more) auto
    qed
  qed
qed

section \<open>The order of the instants\<close>

text \<open>On sorted buffers the instants come in order, and what stays in the buffers is not before them.\<close>

definition formed_times :: "'e outcome list \<Rightarrow> int list" where
  "formed_times outs = map fst (formed_of outs)"

lemma formed_of_simps [simp]:
  "formed_of [] = []" "formed_of (Gone e # outs) = formed_of outs" "formed_of (Formed t ms # outs) = (t, ms) # formed_of outs"
  "formed_of (a @ b) = formed_of a @ formed_of b"
  by (simp_all add: formed_of_def)

lemma formed_of_formed [simp]: "formed_of (formed keys buf # outs) = (min_list_of (map (head_time buf) keys),
    fm_members (formed keys buf)) # formed_of outs"
  by (simp add: formed_def Let_def)

definition ordered_result :: "ustr list \<Rightarrow> int \<Rightarrow> 'e buffers \<Rightarrow> 'e outcome list \<times> 'e buffers \<Rightarrow> bool" where
  "ordered_result keys L buf r \<longleftrightarrow> sorted (formed_times (fst r))
     \<and> (\<forall>t \<in> set (formed_times (fst r)). L \<le> t \<and> (\<forall>k \<in> set keys. \<forall>e \<in> set (snd r k). t \<le> st_time e))
     \<and> sorted_bufs keys (snd r) \<and> within_buf (snd r) buf"

lemma within_buf_trans: "within_buf a b \<Longrightarrow> within_buf b c \<Longrightarrow> within_buf a c"
  unfolding within_buf_def by blast

lemma ordered_result_gone: "ordered_result keys L b (outs, c) \<Longrightarrow> within_buf b buf \<Longrightarrow>
    ordered_result keys L buf ((if p then [Gone e] else []) @ outs, c)"
  by (auto simp: ordered_result_def formed_times_def intro: within_buf_trans)

lemma ordered_result_formed:
  "ordered_result keys (min_list_of (map (head_time buf) keys)) b (outs, c) \<Longrightarrow> within_buf b buf \<Longrightarrow>
     L \<le> min_list_of (map (head_time buf) keys) \<Longrightarrow>
     \<forall>k \<in> set keys. \<forall>e \<in> set (buf k). min_list_of (map (head_time buf) keys) \<le> st_time e \<Longrightarrow>
     ordered_result keys L buf (formed keys buf # outs, c)"
  by (auto simp: ordered_result_def formed_times_def intro: within_buf_trans)
    (meson subsetD within_buf_def within_buf_trans)

lemma flush_order:
  assumes "sorted_bufs keys buf" and "\<forall>k \<in> set keys. \<forall>e \<in> set (buf k). L \<le> st_time e"
  shows "ordered_result keys L buf (flush keys tol p buf)"
  using assms
proof (induction keys tol p buf arbitrary: L rule: flush.induct)
  case (1 keys tol p buf)
  show ?case
  proof (cases "all_filled keys buf")
    case True
    then have ne: "keys \<noteq> []" by (simp add: all_filled_def)
    show ?thesis
    proof (cases "spread keys buf > tol")
      case wide: True
      let ?b = "buf(oldest_key keys buf := tl (buf (oldest_key keys buf)))"
      have "\<forall>k \<in> set keys. \<forall>e \<in> set (?b k). L \<le> st_time e"
        using "1.prems"(2) within_dropped(1) [OF True, of "oldest_key keys buf"] unfolding within_buf_def by blast
      note IH = "1.IH"(1) [OF _ wide refl sorted_bufs_dropped(1) [OF "1.prems"(1)] this]
      have "ordered_result keys L ?b (flush keys tol p ?b)" by (rule IH) (simp add: True)
      then have "ordered_result keys L ?b (fst (flush keys tol p ?b), snd (flush keys tol p ?b))" by simp
      from ordered_result_gone [OF this within_dropped(1) [OF True]]
      show ?thesis unfolding flush_wide [OF True wide] Let_def .
    next
      case False
      let ?b = "drop_heads keys buf" and ?lo = "min_list_of (map (head_time buf) keys)"
      have least: "\<forall>k \<in> set keys. \<forall>e \<in> set (buf k). ?lo \<le> st_time e"
      proof (intro ballI)
        fix k e assume e: "k \<in> set keys" "e \<in> set (buf k)"
        have "head_time buf k \<in> set (map (head_time buf) keys)" using e(1) by simp
        from min_list_of(1) [OF this] show "?lo \<le> st_time e"
          using head_least [of "buf k" e] "1.prems"(1) e by (simp add: sorted_bufs_def head_time_def)
      qed
      have "L \<le> ?lo"
      proof -
        from min_list_of(2) [of "map (head_time buf) keys"] ne obtain k where "k \<in> set keys" "?lo = head_time buf k" by auto
        then show ?thesis using "1.prems"(2) True by (simp add: all_filled_def head_time_def)
      qed
      have "\<forall>k \<in> set keys. \<forall>e \<in> set (?b k). ?lo \<le> st_time e"
        using least within_dropped(2) [of keys buf] unfolding within_buf_def by blast
      note IH = "1.IH"(2) [OF _ False sorted_bufs_dropped(2) [OF "1.prems"(1)] this]
      have "ordered_result keys ?lo ?b (flush keys tol p ?b)" by (rule IH) (simp add: True)
      then have "ordered_result keys ?lo ?b (fst (flush keys tol p ?b), snd (flush keys tol p ?b))" by simp
      from ordered_result_formed [OF this within_dropped(2) \<open>L \<le> ?lo\<close> least]
      show ?thesis unfolding flush_tight [OF True False] Let_def .
    qed
  qed (use "1.prems" in \<open>simp add: flush_stop ordered_result_def formed_times_def within_buf_def\<close>)
qed

section \<open>Pruning is invisible\<close>

text \<open>What is kept of a track, and up to which instant the rest may be dropped.\<close>

definition kept :: "int \<Rightarrow> 'e stamped list \<Rightarrow> 'e stamped list \<Rightarrow> bool" where
  "kept F p f \<longleftrightarrow> (\<exists>d. p = drop d f \<and> (d = 0 \<or> 2 \<le> length p \<and> st_time (p ! 1) \<le> F))"

lemma prune_kept: "\<exists>d. prune t xs = drop d xs \<and> (d = 0 \<or> 2 \<le> length (prune t xs) \<and> st_time (prune t xs ! 1) \<le> t)"
proof (induction t xs rule: prune.induct)
  case (1 t a b c rest)
  show ?case
  proof (cases "st_time c \<le> t")
    case True
    from 1 [OF True] obtain d where d: "prune t (b # c # rest) = drop d (b # c # rest)"
      "d = 0 \<or> 2 \<le> length (prune t (b # c # rest)) \<and> st_time (prune t (b # c # rest) ! 1) \<le> t" by blast
    then show ?thesis using True by (intro exI [of _ "Suc d"]) auto
  qed (intro exI [of _ 0], simp)
qed (intro exI [of _ 0], simp)+

lemma kept_prune:
  assumes "kept F p f" "F \<le> t"
  shows "kept t (prune t p) f"
proof -
  from assms(1) obtain d where d: "p = drop d f" "d = 0 \<or> 2 \<le> length p \<and> st_time (p ! 1) \<le> F" unfolding kept_def by blast
  obtain e where e: "prune t p = drop e p" "e = 0 \<or> 2 \<le> length (prune t p) \<and> st_time (prune t p ! 1) \<le> t"
    using prune_kept [of t p] by blast
  then show ?thesis using d assms(2) unfolding kept_def by (intro exI [of _ "d + e"]) (auto simp: add.commute)
qed

lemma kept_later: "kept F p f \<Longrightarrow> F \<le> t \<Longrightarrow> kept t p f"
  unfolding kept_def by fastforce

lemma kept_snoc:
  assumes "kept F p f"
  shows "kept F (p @ [x]) (f @ [x])"
proof -
  from assms obtain d where d: "p = drop d f" "d = 0 \<or> 2 \<le> length p \<and> st_time (p ! 1) \<le> F" unfolding kept_def by blast
  show ?thesis
  proof (cases "d = 0")
    case False
    then have "2 \<le> length p" using d by simp
    then have "d \<le> length f" using d(1) by simp
    then show ?thesis using d False by (auto simp: kept_def nth_append intro!: exI [of _ d])
  qed (use d in \<open>auto simp: kept_def intro!: exI [of _ 0]\<close>)
qed

lemma kept_value_at:
  assumes "sorted (map st_time f)" "kept F p f" "F \<le> t"
  shows "value_at blend x p t mode = value_at blend x f t mode"
proof -
  from assms(2) obtain d where d: "p = drop d f" "d = 0 \<or> 2 \<le> length p \<and> st_time (p ! 1) \<le> F" unfolding kept_def by blast
  show ?thesis
  proof (cases "d = 0")
    case False
    then have two: "2 \<le> length p" "st_time (p ! 1) \<le> t" using d assms(3) by auto
    then obtain a b r where p: "p = a # b # r" by (metis One_nat_def Suc_le_length_iff numeral_2_eq_2)
    have f: "f = take d f @ a # b # r" using d(1) p by (metis append_take_drop_id)
    have s: "sorted (map st_time (take d f @ a # b # r))" using assms(1) f by simp
    then have low: "\<forall>e \<in> set (take d f @ [a, b]). st_time e \<le> t"
      using two p by (auto simp: sorted_append)
    have tw: "takeWhile (\<lambda>e. st_time e \<le> t) f = take d f @ a # b # takeWhile (\<lambda>e. st_time e \<le> t) r"
      "dropWhile (\<lambda>e. st_time e \<le> t) f = dropWhile (\<lambda>e. st_time e \<le> t) r"
      using low by (subst f, simp add: takeWhile_append dropWhile_append)+
    have tp: "takeWhile (\<lambda>e. st_time e \<le> t) p = a # b # takeWhile (\<lambda>e. st_time e \<le> t) r"
      "dropWhile (\<lambda>e. st_time e \<le> t) p = dropWhile (\<lambda>e. st_time e \<le> t) r" using low p by simp_all
    have "last p = last f" "last (butlast p) = last (butlast f)" "2 \<le> length f"
      unfolding p by (subst f, simp add: butlast_append)+
    then have "past_end blend x p t = past_end blend x f t" using two(1) unfolding past_end_def Let_def by simp
    moreover have "f \<noteq> []" "p \<noteq> []" using f p by auto
    ultimately show ?thesis unfolding value_at_def Let_def tw tp by simp
  qed (use d in simp)
qed

text \<open>The reference that never prunes.\<close>

definition keep_step :: "('e, 'x) blender \<Rightarrow> sync_args \<Rightarrow> 'e stamped \<Rightarrow> 'e sync_state
    \<Rightarrow> ('e sync_out list \<times> 'x option) \<times> 'e sync_state" where
  "keep_step blend a el s =
     (let (outs, s) = sync_take a el s;
          ((gs, err), pending) = close_due blend (sa_resampler a) (sy_res s) (\<lambda>t. t \<le> sy_watermark s - sa_lag a) (sy_pending s)
      in ((outs @ gs, err), s\<lparr>sy_pending := pending\<rparr>))"

fun keep_run :: "('e, 'x) blender \<Rightarrow> sync_args \<Rightarrow> 'e stamped list \<Rightarrow> 'e sync_state \<Rightarrow> 'e sync_out list \<times> 'x option" where
  "keep_run blend a [] s = sync_end blend a s"
| "keep_run blend a (el # els) s =
     (case keep_step blend a el s of
        ((outs, Some e), _) \<Rightarrow> (outs, Some e)
      | ((outs, None), s) \<Rightarrow> let (rest, err) = keep_run blend a els s in (outs @ rest, err))"

definition is_resampled :: "sync_args \<Rightarrow> ustr \<Rightarrow> bool" where
  "is_resampled a k \<longleftrightarrow> k \<in> fst ` set (rs_topics (sa_resampler a))"

text \<open>
  The state with pruned tracks against the one without: all else is the same, in order, and no instant that
  is pending or can still form is before \<open>F\<close>.
\<close>

definition pruned_of :: "sync_args \<Rightarrow> int \<Rightarrow> 'e sync_state \<Rightarrow> 'e sync_state \<Rightarrow> bool" where
  "pruned_of a F s f \<longleftrightarrow> sy_match s = sy_match f \<and> sy_pending s = sy_pending f \<and> sy_watermark s = sy_watermark f
     \<and> (\<forall>k. is_resampled a k \<longrightarrow> kept F (sy_res s k) (sy_res f k))"

definition in_order :: "sync_args \<Rightarrow> int \<Rightarrow> 'e sync_state \<Rightarrow> bool" where
  "in_order a F s \<longleftrightarrow> F \<le> sy_watermark s \<and> sorted (map fst (sy_pending s)) \<and> (\<forall>q \<in> set (sy_pending s). F \<le> fst q \<and> fst q \<le> sy_watermark s)
     \<and> sorted_bufs (mt_keys (sa_matcher a)) (sy_match s)
     \<and> (\<forall>k \<in> set (mt_keys (sa_matcher a)). \<forall>e \<in> set (sy_match s k). F \<le> st_time e \<and> st_time e \<le> sy_watermark s
          \<and> (\<forall>q \<in> set (sy_pending s). fst q \<le> st_time e))
     \<and> (\<forall>k. is_resampled a k \<longrightarrow> sorted (map st_time (sy_res s k)) \<and> (\<forall>e \<in> set (sy_res s k). st_time e \<le> sy_watermark s))"

lemma resample_at_cong:
  "\<forall>k \<in> fst ` set ts. \<forall>mode. value_at blend (rs_extrapolate r) (p k) t mode = value_at blend (rs_extrapolate r) (f k) t mode
     \<Longrightarrow> resample_at blend r p t ts = resample_at blend r f t ts"
  by (induction blend r p t ts rule: resample_at.induct) auto

lemma close_group_kept:
  assumes "pruned_of a F s f" "\<forall>k. is_resampled a k \<longrightarrow> sorted (map st_time (sy_res f k))" "F \<le> fst q"
  shows "close_group blend (sa_resampler a) (sy_res s) q = close_group blend (sa_resampler a) (sy_res f) q"
  unfolding close_group_def
  using assms by (subst resample_at_cong [where f = "sy_res f"])
    (auto simp: pruned_of_def is_resampled_def intro!: kept_value_at)

lemma close_due_kept:
  assumes "pruned_of a F s f" "\<forall>k. is_resampled a k \<longrightarrow> sorted (map st_time (sy_res f k))" "\<forall>q \<in> set ps. F \<le> fst q"
  shows "close_due blend (sa_resampler a) (sy_res s) due ps = close_due blend (sa_resampler a) (sy_res f) due ps"
  using assms(3) by (induction ps) (simp_all add: close_group_kept [OF assms(1,2)] split: sum.split)

lemma close_due_suffix:
  "close_due blend r buf due ps = (x, rest) \<Longrightarrow> \<exists>done. ps = done @ rest"
proof (induction ps arbitrary: x rest)
  case (Cons p ps)
  show ?case
  proof (cases "due (fst p)")
    case True
    show ?thesis
    proof (cases "close_group blend r buf p")
      case (Inl e)
      then show ?thesis using Cons.prems True by (intro exI [of _ "[p]"]) simp
    next
      case (Inr g)
      then have "snd (close_due blend r buf due ps) = rest" using Cons.prems True by (auto simp: Let_def split: prod.splits)
      then obtain d where "ps = d @ rest" using Cons.IH [of "fst (close_due blend r buf due ps)" rest] by (metis prod.collapse)
      then show ?thesis by (intro exI [of _ "p # d"]) simp
    qed
  next
    case False
    then show ?thesis using Cons.prems by (intro exI [of _ "[]"]) simp
  qed
qed simp

lemma in_order_frontier:
  assumes "in_order a F s" "F \<le> sy_watermark s"
  shows "F \<le> frontier (mt_keys (sa_matcher a)) s" "in_order a (frontier (mt_keys (sa_matcher a)) s) s"
proof -
  let ?keys = "mt_keys (sa_matcher a)" and ?F = "frontier (mt_keys (sa_matcher a)) s"
  have heads: "\<exists>k \<in> set ?keys. sy_match s k \<noteq> [] \<and> t = head_time (sy_match s) k
      \<and> (\<forall>j \<in> set ?keys. sy_match s j \<noteq> [] \<longrightarrow> t \<le> head_time (sy_match s) j)" if "oldest_ns ?keys (sy_match s) = Some t" for t
  proof -
    let ?hs = "map (head_time (sy_match s)) (filter (\<lambda>k. sy_match s k \<noteq> []) ?keys)"
    have "?hs \<noteq> []" "t = min_list_of ?hs" using that by (auto simp: oldest_ns_def Let_def split: if_splits)
    then show ?thesis using min_list_of(2) [of ?hs] min_list_of(1) [of _ ?hs] by fastforce
  qed
  have none: "\<forall>k \<in> set ?keys. sy_match s k = []" if "oldest_ns ?keys (sy_match s) = None"
    using that by (auto simp: oldest_ns_def Let_def filter_empty_conv split: if_splits)
  have least: "t \<le> st_time e" if "oldest_ns ?keys (sy_match s) = Some t" "k \<in> set ?keys" "e \<in> set (sy_match s k)" for t k e
  proof -
    have "sy_match s k \<noteq> []" using that(3) by auto
    then have "t \<le> head_time (sy_match s) k" using heads [OF that(1)] that(2) by blast
    also have "\<dots> \<le> st_time e" using head_least [of "sy_match s k" e] assms(1) that by (simp add: in_order_def sorted_bufs_def head_time_def)
    finally show ?thesis .
  qed
  have bound: "F \<le> t \<and> t \<le> sy_watermark s" if "oldest_ns ?keys (sy_match s) = Some t" for t
    using heads [OF that] assms(1) by (auto simp: in_order_def head_time_def)
  show "F \<le> ?F" using assms bound by (auto simp: frontier_def in_order_def split: list.splits option.splits)
  show "in_order a ?F s"
  proof (cases "sy_pending s")
    case Nil
    then show ?thesis
      using assms none least bound by (cases "oldest_ns ?keys (sy_match s)") (auto simp: frontier_def in_order_def)
  next
    case (Cons q qs)
    then show ?thesis using assms(1) by (auto simp: frontier_def in_order_def split: prod.splits)
  qed
qed

lemma push_match:
  assumes "b = (if length (buf (st_topic el) @ [el]) > mt_window m then tl (buf (st_topic el) @ [el]) else buf (st_topic el) @ [el])"
  shows "push m el buf =
     ((if length (buf (st_topic el) @ [el]) > mt_window m \<and> mt_partial m then [Gone (hd (buf (st_topic el) @ [el]))] else [])
        @ fst (match_all m (buf(st_topic el := b))), snd (match_all m (buf(st_topic el := b))))"
  unfolding assms push_def match_all_def Let_def
  by (cases "length (buf (st_topic el) @ [el]) > mt_window m"; cases "mt_partial m") (simp_all add: case_prod_beta)

lemma push_order:
  assumes "sorted_bufs (mt_keys m) buf" and "\<forall>k \<in> set (mt_keys m). \<forall>e \<in> set (buf k). L \<le> st_time e \<and> st_time e \<le> W"
    and "st_topic el \<in> set (mt_keys m)" and "W \<le> st_time el" and "L \<le> W" and push: "push m el buf = (outs, b)"
  shows "ordered_result (mt_keys m) L (buf(st_topic el := buf (st_topic el) @ [el])) (outs, b)"
    "\<forall>t \<in> set (formed_times outs). t \<le> st_time el"
proof -
  let ?k = "st_topic el"
  let ?full = "buf(?k := buf ?k @ [el])"
  define b0 where "b0 = (if length (buf ?k @ [el]) > mt_window m then tl (buf ?k @ [el]) else buf ?k @ [el])"
  have "set (tl ys) \<subseteq> set ys" for ys :: "'a stamped list" by (cases ys) auto
  from this [of "buf ?k @ [el]"] have sub: "set b0 \<subseteq> insert el (set (buf ?k))" unfolding b0_def by simp
  have "sorted (map st_time (buf ?k @ [el]))" using assms(1,2,3,4) by (fastforce simp: sorted_bufs_def sorted_append)
  then have "sorted (map st_time b0)" unfolding b0_def by (simp add: map_tl sorted_tl)
  then have s: "sorted_bufs (mt_keys m) (buf(?k := b0))" using assms(1) by (simp add: sorted_bufs_def)
  have mem: "e = el \<or> e \<in> set (buf k)" if "e \<in> set ((buf(?k := b0)) k)" for k e
    using that sub by (cases "k = ?k") auto
  have lo: "\<forall>k \<in> set (mt_keys m). \<forall>e \<in> set ((buf(?k := b0)) k). L \<le> st_time e"
  proof (intro ballI)
    fix k e assume k: "k \<in> set (mt_keys m)" and "e \<in> set ((buf(?k := b0)) k)"
    from mem [OF this(2)] show "L \<le> st_time e"
    proof
      assume "e = el"
      then show ?thesis using assms(4,5) by (meson order_trans)
    qed (use assms(2) k in blast)
  qed
  have within: "within_buf (buf(?k := b0)) ?full" using sub by (auto simp: within_buf_def)
  define pre where "pre = (if length (buf ?k @ [el]) > mt_window m \<and> mt_partial m then [Gone (hd (buf ?k @ [el]))] else [])"
  have outs: "outs = pre @ fst (match_all m (buf(?k := b0)))" "b = snd (match_all m (buf(?k := b0)))" "formed_of pre = []"
    using push push_match [where m = m and el = el and buf = buf and b = b0, OF b0_def] unfolding pre_def by simp_all
  have ord: "ordered_result (mt_keys m) L (buf(?k := b0)) (match_all m (buf(?k := b0)))"
    unfolding match_all_def by (rule flush_order [OF s lo])
  then show "ordered_result (mt_keys m) L ?full (outs, b)"
    using within outs by (auto simp: ordered_result_def formed_times_def intro: within_buf_trans)
  have up: "st_time e \<le> st_time el" if "k \<in> set (mt_keys m)" "e \<in> set ((buf(?k := b0)) k)" for k e
    using mem [OF that(2)]
  proof
    assume "e \<in> set (buf k)"
    then show ?thesis using assms(2,4) that(1) by (meson order_trans)
  qed simp
  have "t \<le> st_time el" if x: "Formed t ms \<in> set (fst (match_all m (buf(?k := b0))))" for t ms
  proof -
    from match_all_ok [OF x] obtain k sd where "(k, sd) \<in> set ms" "t = st_time (sd_element sd)"
      "sd_element sd \<in> set ((buf(?k := b0)) k)" "map fst ms = mt_keys m" by (force simp: group_ok_def)
    moreover from this have "k \<in> set (mt_keys m)" by (metis fst_conv image_eqI set_map)
    ultimately show ?thesis using up by blast
  qed
  then show "\<forall>t \<in> set (formed_times outs). t \<le> st_time el"
    using outs(1,3) by (auto simp: formed_times_def formed_of_def split: outcome.splits)
qed

lemma resampler_push_later:
  assumes "\<forall>e \<in> set (buf (st_topic el)). st_time e \<le> st_time el"
  shows "resampler_push el buf = buf(st_topic el := buf (st_topic el) @ [el])"
proof -
  have "\<not> (buf (st_topic el) \<noteq> [] \<and> st_time el < st_time (last (buf (st_topic el))))" using assms last_in_set by fastforce
  then show ?thesis unfolding resampler_push_def Let_def by (rule if_not_P [THEN arg_cong])
qed

lemma sorted_le_last: "sorted (xs :: int list) \<Longrightarrow> x \<in> set xs \<Longrightarrow> x \<le> last xs"
  by (induction xs) (auto split: if_splits)

lemma take_in_order:
  assumes "in_order a F s" "sy_watermark s \<le> st_time el" "sync_ok a" "sync_take a el s = (outs, s')"
  shows "in_order a F s'"
proof -
  let ?m = "sa_matcher a" and ?W = "sy_watermark s"
  have w: "max ?W (st_time el) = st_time el" using assms(2) by simp
  show ?thesis
  proof (cases "st_topic el \<in> set (mt_keys ?m)")
    case True
    obtain outs' b where p: "push ?m el (sy_match s) = (outs', b)" by fastforce
    define L where "L = (if sy_pending s = [] then F else fst (last (sy_pending s)))"
    have last_max: "fst q \<le> L" if "q \<in> set (sy_pending s)" for q
      using sorted_le_last [of "map fst (sy_pending s)" "fst q"] assms(1) that by (auto simp: in_order_def L_def last_map)
    have L: "F \<le> L" "L \<le> ?W" using assms(1) by (auto simp: L_def in_order_def)
    have "\<forall>k \<in> set (mt_keys ?m). \<forall>e \<in> set (sy_match s k). L \<le> st_time e \<and> st_time e \<le> ?W"
      using assms(1) by (auto simp: in_order_def L_def)
    note po = push_order [OF _ this True assms(2) L(2) p]
    have s': "s' = s\<lparr>sy_watermark := st_time el, sy_match := b, sy_pending := sy_pending s @ formed_of outs'\<rparr>"
      using assms(4) True p w by (simp add: sync_take_def Let_def)
    have ord: "ordered_result (mt_keys ?m) L ((sy_match s)(st_topic el := sy_match s (st_topic el) @ [el])) (outs', b)"
      "\<forall>t \<in> set (formed_times outs'). t \<le> st_time el" using po assms(1) by (simp_all add: in_order_def)
    have bnd: "\<forall>k \<in> set (mt_keys ?m). \<forall>e \<in> set (sy_match s k). L \<le> st_time e \<and> st_time e \<le> ?W"
      using assms(1) by (auto simp: in_order_def L_def)
    have in_b: "L \<le> st_time e" "st_time e \<le> st_time el" if "k \<in> set (mt_keys ?m)" "e \<in> set (b k)" for k e
    proof -
      have "set (b k) \<subseteq> set (((sy_match s)(st_topic el := sy_match s (st_topic el) @ [el])) k)"
        using ord(1) unfolding ordered_result_def within_buf_def snd_conv by blast
      then have "e = el \<or> e \<in> set (sy_match s k)" using that(2) by (cases "k = st_topic el") auto
      then show "L \<le> st_time e" "st_time e \<le> st_time el" using bnd that(1) L(2) assms(2) by force+
    qed
    have sorted_p: "sorted (map fst (sy_pending s @ formed_of outs'))"
      using assms(1) ord(1) last_max by (force simp: in_order_def ordered_result_def formed_times_def sorted_append)
    have new: "F \<le> fst q" "fst q \<le> st_time el" if "q \<in> set (formed_of outs')" for q
      using ord L(1) that by (auto simp: ordered_result_def formed_times_def)
    have old: "F \<le> fst q" "fst q \<le> st_time el" if "q \<in> set (sy_pending s)" for q
      using assms(1,2) that by (auto simp: in_order_def)
    have sep: "fst q \<le> st_time e" if "k \<in> set (mt_keys ?m)" "e \<in> set (b k)" "q \<in> set (sy_pending s) \<or> q \<in> set (formed_of outs')" for k e q
      using that(3)
    proof
      assume "q \<in> set (sy_pending s)"
      from order_trans [OF last_max [OF this] in_b(1) [OF that(1,2)]] show ?thesis .
    next
      assume "q \<in> set (formed_of outs')"
      then show ?thesis using ord(1) that(1,2) by (auto simp: ordered_result_def formed_times_def)
    qed
    have res: "sorted (map st_time (sy_res s k)) \<and> (\<forall>e \<in> set (sy_res s k). st_time e \<le> st_time el)" if "is_resampled a k" for k
      using assms(1,2) that by (force simp: in_order_def)
    have "F \<le> st_time el" using L assms(2) by simp
    moreover have "F \<le> st_time e" if "k \<in> set (mt_keys ?m)" "e \<in> set (b k)" for k e using L(1) in_b(1) [OF that] by simp
    moreover have "sorted_bufs (mt_keys ?m) b" using ord(1) by (simp add: ordered_result_def)
    ultimately show ?thesis using sorted_p new old sep res in_b(2) unfolding s' in_order_def by auto
  next
    case False
    have res: "sorted (map st_time (sy_res s k @ [el]))" if "is_resampled a k" for k
      using assms(1,2) that by (fastforce simp: in_order_def sorted_append)
    have "s' = s\<lparr>sy_watermark := st_time el, sy_res := (if is_resampled a (st_topic el) then resampler_push el (sy_res s) else sy_res s)\<rparr>"
      using assms(4) False w by (auto simp: sync_take_def Let_def is_resampled_def split: if_splits)
    moreover have "resampler_push el (sy_res s) = (sy_res s)(st_topic el := sy_res s (st_topic el) @ [el])" if "is_resampled a (st_topic el)"
      by (rule resampler_push_later) (use assms(1,2) that in \<open>force simp: in_order_def\<close>)
    ultimately show ?thesis using assms(1,2) res by (fastforce simp: in_order_def)
  qed
qed

lemma take_kept:
  assumes "pruned_of a F s f" "in_order a F f" "sy_watermark f \<le> st_time el"
  shows "fst (sync_take a el s) = fst (sync_take a el f)" "pruned_of a F (snd (sync_take a el s)) (snd (sync_take a el f))"
proof -
  have sub: "\<forall>e \<in> set (sy_res s k). st_time e \<le> st_time el" "\<forall>e \<in> set (sy_res f k). st_time e \<le> st_time el" if "is_resampled a k" for k
  proof -
    have "kept F (sy_res s k) (sy_res f k)" using assms(1) that by (simp add: pruned_of_def)
    then have "set (sy_res s k) \<subseteq> set (sy_res f k)" unfolding kept_def by (auto dest: in_set_dropD)
    then show "\<forall>e \<in> set (sy_res s k). st_time e \<le> st_time el" "\<forall>e \<in> set (sy_res f k). st_time e \<le> st_time el"
      using assms(2,3) that unfolding in_order_def by (meson order_trans subsetD)+
  qed
  have r: "kept F (resampler_push el (sy_res s) k) (resampler_push el (sy_res f) k)" if "is_resampled a (st_topic el)" "is_resampled a k" for k
    using assms(1) that(2) resampler_push_later [where buf = "sy_res s" and el = el, OF sub(1) [OF that(1)]]
      resampler_push_later [where buf = "sy_res f" and el = el, OF sub(2) [OF that(1)]] by (auto simp: pruned_of_def intro: kept_snoc)
  have eq: "sy_match s = sy_match f" "sy_pending s = sy_pending f" "sy_watermark s = sy_watermark f"
    using assms(1) by (simp_all add: pruned_of_def)
  show "fst (sync_take a el s) = fst (sync_take a el f)" by (simp add: sync_take_def Let_def eq case_prod_beta)
  show "pruned_of a F (snd (sync_take a el s)) (snd (sync_take a el f))"
    using assms(1) r by (simp add: sync_take_def Let_def eq case_prod_beta pruned_of_def is_resampled_def)
qed

lemma in_order_pending: "in_order a F s \<Longrightarrow> sy_pending s = d @ ps \<Longrightarrow> in_order a F (s\<lparr>sy_pending := ps\<rparr>)"
  by (simp add: in_order_def sorted_append)

lemma pruned_of_pending: "pruned_of a F s f \<Longrightarrow> pruned_of a F (s\<lparr>sy_pending := ps\<rparr>) (f\<lparr>sy_pending := ps\<rparr>)"
  by (simp add: pruned_of_def)

lemma prune_pruned:
  assumes "pruned_of a F s f" "in_order a F f"
  shows "\<exists>F. pruned_of a F (sync_prune a s) f \<and> in_order a F f"
proof -
  let ?F = "frontier (mt_keys (sa_matcher a)) f"
  have F: "F \<le> ?F" "in_order a ?F f" using in_order_frontier [OF assms(2)] assms(2) by (simp_all add: in_order_def)
  have "sy_match s = sy_match f" "sy_pending s = sy_pending f" "sy_watermark s = sy_watermark f"
    using assms(1) by (simp_all add: pruned_of_def)
  then have same: "frontier (mt_keys (sa_matcher a)) s = ?F" by (simp add: frontier_def split: list.split option.split)
  have "pruned_of a ?F (sync_prune a s) f"
    using assms(1) F(1) unfolding sync_prune_def same
    by (auto simp: pruned_of_def is_resampled_def prune_before_def intro: kept_prune kept_later)
  then show ?thesis using F(2) by blast
qed

lemma step_kept:
  assumes "pruned_of a F s f" "in_order a F f" "sy_watermark f \<le> st_time el" "sync_ok a"
  shows "fst (sync_step blend a el s) = fst (keep_step blend a el f)"
    "\<exists>F. pruned_of a F (snd (sync_step blend a el s)) (snd (keep_step blend a el f)) \<and> in_order a F (snd (keep_step blend a el f))"
    "sy_watermark (snd (keep_step blend a el f)) = st_time el"
proof -
  obtain outs s1 where s1: "sync_take a el s = (outs, s1)" by fastforce
  obtain f1 where f1: "sync_take a el f = (outs, f1)" using take_kept(1) [OF assms(1-3)] s1 by (metis fst_conv prod.collapse)
  have pr: "pruned_of a F s1 f1" using take_kept(2) [OF assms(1-3)] s1 f1 by simp
  have ord: "in_order a F f1" by (rule take_in_order [OF assms(2,3,4) f1])
  have eq: "sy_pending s1 = sy_pending f1" "sy_watermark s1 = sy_watermark f1" using pr by (simp_all add: pruned_of_def)
  have due: "close_due blend (sa_resampler a) (sy_res s1) d (sy_pending f1) = close_due blend (sa_resampler a) (sy_res f1) d (sy_pending f1)" for d
    using ord by (intro close_due_kept [OF pr]) (auto simp: in_order_def)
  obtain x ps where cd: "close_due blend (sa_resampler a) (sy_res f1) (\<lambda>t. t \<le> sy_watermark f1 - sa_lag a) (sy_pending f1) = (x, ps)" by fastforce
  obtain d where d: "sy_pending f1 = d @ ps" using close_due_suffix [OF cd] by blast
  note ps = in_order_pending [OF ord d] pruned_of_pending [OF pr, of ps]
  show "fst (sync_step blend a el s) = fst (keep_step blend a el f)"
    by (simp add: sync_step_def keep_step_def s1 f1 eq due cd case_prod_beta)
  have "snd (sync_step blend a el s) = sync_prune a (s1\<lparr>sy_pending := ps\<rparr>)" "snd (keep_step blend a el f) = f1\<lparr>sy_pending := ps\<rparr>"
    by (simp_all add: sync_step_def keep_step_def s1 f1 eq due cd case_prod_beta)
  then show "\<exists>F. pruned_of a F (snd (sync_step blend a el s)) (snd (keep_step blend a el f)) \<and> in_order a F (snd (keep_step blend a el f))"
    using prune_pruned [OF ps(2,1)] by simp
  have "sy_watermark f1 = st_time el" using f1 assms(3) by (auto simp: sync_take_def Let_def split: if_splits prod.splits)
  then show "sy_watermark (snd (keep_step blend a el f)) = st_time el" by (simp add: \<open>snd (keep_step blend a el f) = _\<close>)
qed

lemma end_kept:
  assumes "pruned_of a F s f" "in_order a F f"
  shows "sync_end blend a s = sync_end blend a f"
proof -
  let ?m = "sa_matcher a"
  let ?ps = "sy_pending f @ formed_of (fst (flush (mt_keys ?m) (mt_tol ?m) (mt_partial ?m) (sy_match f)))"
  have "ordered_result (mt_keys ?m) F (sy_match f) (flush (mt_keys ?m) (mt_tol ?m) (mt_partial ?m) (sy_match f))"
    using assms(2) by (intro flush_order) (auto simp: in_order_def)
  then have "\<forall>q \<in> set ?ps. F \<le> fst q"
    using assms(2) by (auto simp: in_order_def ordered_result_def formed_times_def)
  moreover have "\<forall>k. is_resampled a k \<longrightarrow> sorted (map st_time (sy_res f k))" using assms(2) by (simp add: in_order_def)
  ultimately have due: "close_due blend (sa_resampler a) (sy_res s) d ?ps = close_due blend (sa_resampler a) (sy_res f) d ?ps" for d
    by (intro close_due_kept [OF assms(1)])
  have "sy_match s = sy_match f" "sy_pending s = sy_pending f" using assms(1) by (simp_all add: pruned_of_def)
  then show ?thesis unfolding sync_end_def Let_def case_prod_beta by (simp only: due)
qed

lemma run_kept:
  assumes "pruned_of a F s f" "in_order a F f" "sorted (sy_watermark f # map st_time els)" "sync_ok a"
  shows "sync_run blend a els s = keep_run blend a els f"
  using assms
proof (induction els arbitrary: F s f)
  case (Cons el els)
  have le: "sy_watermark f \<le> st_time el" using Cons.prems(3) by simp
  note st = step_kept [OF Cons.prems(1,2) le Cons.prems(4), of blend]
  obtain F' where F': "pruned_of a F' (snd (sync_step blend a el s)) (snd (keep_step blend a el f))"
    "in_order a F' (snd (keep_step blend a el f))" using st(2) by blast
  have "sorted (sy_watermark (snd (keep_step blend a el f)) # map st_time els)" using st(3) Cons.prems(3) by simp
  note rest = Cons.IH [OF F' this Cons.prems(4)]
  obtain outs err s' where a: "sync_step blend a el s = ((outs, err), s')" by (metis prod.collapse)
  obtain f' where b: "keep_step blend a el f = ((outs, err), f')" using st(1) a by (metis fst_conv prod.collapse)
  show ?case using rest a b by (cases err) simp_all
qed (simp add: end_kept)

section \<open>Properties\<close>

lemma flush_within: "within_buf (snd (flush keys tol p buf)) buf"
proof (induction keys tol p buf rule: flush.induct)
  case (1 keys tol p buf)
  show ?case
  proof (cases "all_filled keys buf")
    case True
    show ?thesis
    proof (cases "spread keys buf > tol")
      case wide: True
      let ?b = "buf(oldest_key keys buf := tl (buf (oldest_key keys buf)))"
      have "within_buf (snd (flush keys tol p ?b)) ?b" by (rule "1.IH"(1) [OF _ wide refl]) (simp add: True)
      from within_buf_trans [OF this within_dropped(1) [OF True]] show ?thesis unfolding flush_wide [OF True wide] Let_def snd_conv .
    next
      case False
      have "within_buf (snd (flush keys tol p (drop_heads keys buf))) (drop_heads keys buf)"
        by (rule "1.IH"(2) [OF _ False]) (simp add: True)
      from within_buf_trans [OF this within_dropped(2)] show ?thesis unfolding flush_tight [OF True False] Let_def snd_conv .
    qed
  qed (simp add: flush_stop within_buf_def)
qed

lemma push_ok:
  assumes "push m el buf = (outs, b)"
  shows "\<forall>x \<in> set outs. group_ok m (join_buf buf (by_key [el])) x" "within_buf b (join_buf buf (by_key [el]))"
proof -
  define b0 where "b0 = (if length (buf (st_topic el) @ [el]) > mt_window m then tl (buf (st_topic el) @ [el]) else buf (st_topic el) @ [el])"
  define pre where "pre = (if length (buf (st_topic el) @ [el]) > mt_window m \<and> mt_partial m then [Gone (hd (buf (st_topic el) @ [el]))] else [])"
  have p: "outs = pre @ fst (match_all m (buf(st_topic el := b0)))" "b = snd (match_all m (buf(st_topic el := b0)))"
    using assms push_match [where m = m and el = el and buf = buf and b = b0, OF b0_def] unfolding pre_def by simp_all
  have "set b0 \<subseteq> set (buf (st_topic el) @ [el])" unfolding b0_def by (auto simp del: tl_append2 dest: tl_mem)
  then have w: "within_buf (buf(st_topic el := b0)) (join_buf buf (by_key [el]))"
    by (auto simp: within_buf_def join_buf_def by_key_def)
  have "group_ok m (join_buf buf (by_key [el])) x" if "x \<in> set pre" for x using that by (auto simp: pre_def group_ok_def split: if_splits)
  then show "\<forall>x \<in> set outs. group_ok m (join_buf buf (by_key [el])) x"
    using group_ok_within [OF match_all_ok w] p(1) by auto
  show "within_buf b (join_buf buf (by_key [el]))"
    using within_buf_trans [OF flush_within w] p(2) by (simp add: match_all_def)
qed

lemma join_by_key: "join_buf (join_buf buf (by_key [e])) (by_key es) = join_buf buf (by_key (e # es))"
  by (auto simp: join_buf_def by_key_def fun_eq_iff)

lemma within_join: "within_buf a b \<Longrightarrow> within_buf (join_buf a c) (join_buf b c)"
  by (auto simp: within_buf_def join_buf_def)

lemma feed_ok: "x \<in> set (fst (feed m es buf)) \<Longrightarrow> group_ok m (join_buf buf (by_key es)) x"
proof (induction es arbitrary: buf)
  case (Cons e es)
  obtain outs b where p: "push m e buf = (outs, b)" by fastforce
  note ok = push_ok [OF p]
  have "x \<in> set outs \<or> x \<in> set (fst (feed m es b))" using Cons.prems p by (auto simp: case_prod_beta)
  then show ?case
  proof
    assume "x \<in> set outs"
    then have "group_ok m (join_buf buf (by_key [e])) x" using ok(1) by blast
    then show ?thesis by (rule group_ok_within) (auto simp: within_buf_def join_buf_def by_key_def)
  next
    assume "x \<in> set (fst (feed m es b))"
    from group_ok_within [OF Cons.IH [OF this] within_join [OF ok(2)]] show ?thesis by (simp add: join_by_key)
  qed
qed simp

definition empty_buffers :: "'e buffers" where "empty_buffers = (\<lambda>_. [])"

lemma join_empty [simp]: "join_buf empty_buffers b = b"
  by (simp add: join_buf_def empty_buffers_def)

lemma match_empty: "match_all m empty_buffers = ([], empty_buffers)"
  unfolding match_all_def by (rule flush_stop) (auto simp: all_filled_def empty_buffers_def)

text \<open>A whole stream through the matcher: every element pushed, then \<open>finish\<close>.\<close>

definition match_stream :: "matcher \<Rightarrow> 'e stamped list \<Rightarrow> 'e outcome list" where
  "match_stream m es = (let (outs, buf) = feed m es empty_buffers in outs @ fst (finish_matcher m buf))"

lemma match_stream_offline: "fits m es empty_buffers \<Longrightarrow> match_stream m es =
    (let (outs, buf) = match_all m (by_key es) in outs @ fst (finish_matcher m buf))"
  using feed_offline [OF _ match_empty, of m es] by (simp add: match_stream_def)

definition sample_matcher :: matcher where
  "sample_matcher = \<lparr>mt_keys = [[1], [2]], mt_tol = 5, mt_window = 8, mt_partial = True\<rparr>"

definition sample_stream :: "nat stamped list" where
  "sample_stream = [([1], 0, 0), ([2], 3, 1), ([3], 4, 4), ([2], 50, 5), ([1], 100, 2), ([3], 101, 6), ([2], 104, 3)]"

definition sample_sync :: sync_args where
  "sample_sync = \<lparr>sa_matcher = sample_matcher,
     sa_resampler = \<lparr>rs_topics = [([3], Interpolate)], rs_extrapolate = True, rs_stale = None\<rparr>, sa_lag = 10, sa_passthrough = False\<rparr>"

lemma sample_fits: "fits sample_matcher sample_stream empty_buffers"
  by code_simp

text \<open>
  C27. Matching does not depend on how the streams interleave. \<open>StreamMatcher\<close> is fed one element at a time in
  arrival order; two arrival orders that agree on the elements of each topic, and fill no buffer, give the same
  groups and the same unmatched elements in the same order, the end of the stream included.
\<close>

theorem matching_ignores_interleaving:
  assumes "fits m es empty_buffers" and "fits m es' empty_buffers" and "\<forall>k. filter (\<lambda>e. st_topic e = k) es = filter (\<lambda>e. st_topic e = k) es'"
  shows "match_stream m es = match_stream m es'"
proof -
  have "by_key es = by_key es'" using assms(3) by (simp add: by_key_def)
  then show ?thesis using match_stream_offline [OF assms(1)] match_stream_offline [OF assms(2)] by simp
qed

lemma matching_ignores_interleaving_witness:
  "match_stream sample_matcher [([1], 0, 0), ([2], 3, 1), ([2], 50, 5), ([1], 100, 2), ([2], 104, 3 :: nat)]
     = match_stream sample_matcher [([2], 3, 1), ([2], 50, 5), ([1], 0, 0), ([2], 104, 3), ([1], 100, 2)]"
  by (rule matching_ignores_interleaving) (code_simp, code_simp, auto simp: st_topic_def)

text \<open>
  C28. No match is missed, and every group is a match. A matcher whose buffers do not overflow on topics that
  each come in time order: whichever elements, one of every key, lie within the tolerance of each other, at
  least one of them is in a formed group. And every formed group has one member per key, in key order, each an
  element of the stream, at most the tolerance after the group's instant, which is the time of the earliest.
\<close>

theorem no_match_missed:
  assumes "matcher_ok m" and "fits m es empty_buffers" and "\<forall>k \<in> set (mt_keys m). sorted (map st_time (by_key es k))"
    and "\<forall>k \<in> set (mt_keys m). u k \<in> set (by_key es k)"
    and "\<forall>k \<in> set (mt_keys m). \<forall>k' \<in> set (mt_keys m). st_time (u k') - st_time (u k) \<le> mt_tol m"
  shows "used (mt_keys m) u (fst (feed m es empty_buffers)) \<and> (\<forall>x \<in> set (fst (feed m es empty_buffers)). group_ok m (by_key es) x)"
proof -
  have "feed m es empty_buffers = match_all m (by_key es)" using feed_offline [OF assms(2) match_empty] by simp
  moreover have "used (mt_keys m) u (fst (match_all m (by_key es)))"
    unfolding match_all_def using assms by (intro flush_complete) (simp_all add: matcher_ok_def sorted_bufs_def)
  ultimately show ?thesis using feed_ok [of _ m es empty_buffers] by simp
qed

lemma no_match_missed_witness:
  "used [[1], [2]] (\<lambda>k. if k = [1] then ([1], 0, 0) else ([2], 3, 1)) (fst (feed sample_matcher sample_stream empty_buffers))
     \<and> list_all (group_ok sample_matcher (by_key sample_stream)) (fst (feed sample_matcher sample_stream empty_buffers))"
proof -
  let ?u = "\<lambda>k. if k = [1] then ([1], 0, 0) else ([2], 3, 1) :: nat stamped"
  have keys: "mt_keys sample_matcher = [[1], [2]]" by (simp add: sample_matcher_def)
  have "used (mt_keys sample_matcher) ?u (fst (feed sample_matcher sample_stream empty_buffers))
     \<and> (\<forall>x \<in> set (fst (feed sample_matcher sample_stream empty_buffers)). group_ok sample_matcher (by_key sample_stream) x)"
    by (rule no_match_missed) (code_simp, rule sample_fits, (simp add: keys sample_stream_def by_key_def st_topic_def st_time_def)+,
      simp add: sample_matcher_def st_time_def)
  then show ?thesis unfolding keys list_all_iff .
qed

text \<open>
  C29. Forgetting is invisible. \<open>sync\<close> drops the samples of a resampled track that no later instant can ask
  for; over a stream in time order what it yields, a blending error included, is what the driver yields that
  keeps every sample.
\<close>

theorem pruning_is_invisible:
  assumes "sync_ok a" and "sorted (map st_time els)" and "\<forall>el \<in> set els. 0 \<le> st_time el"
  shows "sync blend a els = Inr (keep_run blend a els init_sync)"
proof -
  have "pruned_of a 0 init_sync init_sync" "in_order a 0 init_sync"
    by (auto simp: pruned_of_def in_order_def init_sync_def kept_def sorted_bufs_def)
  then have "sync_run blend a els init_sync = keep_run blend a els init_sync"
    using assms by (intro run_kept) (auto simp: init_sync_def)
  then show ?thesis using assms(1) by (simp add: sync_def)
qed

lemma pruning_is_invisible_witness:
  "sync (\<lambda>lo hi t. Inr (Some lo) :: nat + nat stamped option) sample_sync sample_stream
     = Inr (keep_run (\<lambda>lo hi t. Inr (Some lo)) sample_sync sample_stream init_sync)"
  by (rule pruning_is_invisible)
    (auto simp: sample_sync_def sync_ok_def sample_matcher_def matcher_ok_def sample_stream_def st_time_def)

end
