(* ===== verification/Exposure.thy ===== *)
theory Exposure
  imports Sync SessionIndex Adapters
begin

text \<open>
  The exposure of a frame: the timeline of a camera's \<open>frame_info\<close> entries (\<open>reader/session.py\<close>,
  \<open>_ExposureTrack\<close> and what builds it) and the join of those entries into one ordered stream
  (\<open>reader/exposure.py\<close>). Floats are reals, with \<open>round\<close> written out; the fields of a parsed
  \<open>CameraFrameInfo\<close> and of an embedded descriptor are what the protobuf parser gives, an argument.
\<close>

section \<open>Entries\<close>

definition FRAME_INFO_SUFFIX :: ustr where "FRAME_INFO_SUFFIX = lit ''/frame_info''"
definition FRAME_INFO_SCHEMA :: ustr where "FRAME_INFO_SCHEMA = lit ''visio_schema.v1.sensor.CameraFrameInfo''"

record frame_info_msg =
  fi_exposure_us :: int
  fi_exposure_mid_offset_us :: int
  fi_gain :: real
  fi_line_delay_ns :: int
  fi_readout_direction :: int

record exposure_entry =
  en_exposure_ns :: int
  en_mid_offset_ns :: int
  en_gain :: real
  en_line_delay_ns :: int
  en_readout_direction :: readout

datatype info_error = ZeroExposure ustr int | UnknownDirection ustr int int | DelayWithoutDirection ustr int int

definition readout_of :: "int \<Rightarrow> readout option" where
  "readout_of n = (if n = 0 then Some Unspecified else if n = 1 then Some TopToBottom
     else if n = 2 then Some BottomToTop else None)"

definition parse_frame_info :: "ustr \<Rightarrow> int \<Rightarrow> frame_info_msg \<Rightarrow> info_error + exposure_entry" where
  "parse_frame_info cam t_ns m =
     bindE (guardE (fi_exposure_us m \<noteq> 0) (ZeroExposure cam t_ns)) (\<lambda>_.
     case readout_of (fi_readout_direction m) of
       None \<Rightarrow> Inl (UnknownDirection cam t_ns (fi_readout_direction m))
     | Some direction \<Rightarrow>
         bindE (guardE (\<not> (fi_line_delay_ns m \<noteq> 0 \<and> direction = Unspecified))
           (DelayWithoutDirection cam t_ns (fi_line_delay_ns m))) (\<lambda>_.
         Inr \<lparr>en_exposure_ns = fi_exposure_us m * 1000, en_mid_offset_ns = fi_exposure_mid_offset_us m * 1000,
              en_gain = fi_gain m, en_line_delay_ns = fi_line_delay_ns m, en_readout_direction = direction\<rparr>))"

definition bind_entry :: "exposure_entry \<Rightarrow> int \<Rightarrow> bool \<Rightarrow> frame_exposure" where
  "bind_entry e t_ns interpolated =
     \<lparr>xp_exposure_ns = en_exposure_ns e, xp_mid_ns = t_ns + en_mid_offset_ns e, xp_gain = en_gain e,
      xp_line_delay_ns = en_line_delay_ns e, xp_readout_direction = en_readout_direction e,
      xp_interpolated = interpolated\<rparr>"

text \<open>Python's \<open>round\<close>: to the nearest integer, halves to the even one.\<close>

definition py_round :: "real \<Rightarrow> int" where
  "py_round x = (let f = \<lfloor>x\<rfloor>; d = x - of_int f
     in if d < 1 / 2 then f else if 1 / 2 < d then f + 1 else if even f then f else f + 1)"

definition mix :: "real \<Rightarrow> real \<Rightarrow> real \<Rightarrow> real" where
  "mix w a b = a + (b - a) * w"

definition lerp_entry :: "exposure_entry \<Rightarrow> exposure_entry \<Rightarrow> real \<Rightarrow> exposure_entry" where
  "lerp_entry lo hi w =
     (if w \<ge> 1 / 2 then hi else lo)
       \<lparr>en_exposure_ns := py_round (mix w (of_int (en_exposure_ns lo)) (of_int (en_exposure_ns hi))),
        en_mid_offset_ns := py_round (mix w (of_int (en_mid_offset_ns lo)) (of_int (en_mid_offset_ns hi))),
        en_gain := mix w (en_gain lo) (en_gain hi)\<rparr>"

section \<open>The timeline of a camera\<close>

type_synonym track = "(int \<times> exposure_entry) list"

text \<open>\<open>bisect_left\<close> on a sorted list of stamps.\<close>

definition bisect_left :: "int \<Rightarrow> track \<Rightarrow> nat" where
  "bisect_left t track = length (takeWhile (\<lambda>e. fst e < t) track)"

definition weight :: "int \<Rightarrow> int \<Rightarrow> int \<Rightarrow> real" where
  "weight lo_t hi_t t_ns = of_int (t_ns - lo_t) / of_int (hi_t - lo_t)"

definition track_at :: "track \<Rightarrow> int \<Rightarrow> frame_exposure" where
  "track_at track t_ns =
     (let i = bisect_left t_ns track
      in if i < length track \<and> fst (track ! i) = t_ns then bind_entry (snd (track ! i)) t_ns False
         else if i = 0 then bind_entry (snd (hd track)) t_ns True
         else if i = length track then bind_entry (snd (last track)) t_ns True
         else bind_entry (lerp_entry (snd (track ! (i - 1))) (snd (track ! i))
                (weight (fst (track ! (i - 1))) (fst (track ! i)) t_ns)) t_ns True)"

definition duplicate_stamp :: "track \<Rightarrow> int option" where
  "duplicate_stamp track = map_option (fst \<circ> fst) (find (\<lambda>(a, b). fst a = fst b) (zip track (tl track)))"

section \<open>The cameras with entries, and their tracks\<close>

text \<open>
  An embedded \<open>FileDescriptorSet\<close>: its files, each a package and its messages with their fields; \<open>None\<close> is
  the \<open>DecodeError\<close>.
\<close>

type_synonym descriptor_set = "(ustr \<times> (ustr \<times> ustr list) list) list"

datatype exposure_error = DescriptorUnreadable | InfoUnreadable | ReadFailed read_error | BadInfo info_error
  | DuplicateStamp ustr int | SlicedNone ustr

fun current_layout :: "descriptor_set \<Rightarrow> bool" where
  "current_layout [] = False"
| "current_layout ((package, messages) # files) =
     (case (if package = lit ''visio_schema.v1.sensor'' then map_of messages (lit ''CameraFrameInfo'') else None) of
        Some names \<Rightarrow> lit ''exposure_us'' \<in> set names
      | None \<Rightarrow> current_layout files)"

definition frame_info_topics :: "file_index \<Rightarrow> ustr list" where
  "frame_info_topics ix = map fst (filter (\<lambda>(t, s, n). s = FRAME_INFO_SCHEMA
     \<and> drop (length t - length FRAME_INFO_SUFFIX) t = FRAME_INFO_SUFFIX) (ix_topics ix))"

definition frame_info_is_current :: "(bytes \<Rightarrow> descriptor_set option) \<Rightarrow> file_index \<Rightarrow> exposure_error + bool" where
  "frame_info_is_current descriptors ix =
     (case map_of (ix_schema_rec ix) FRAME_INFO_SCHEMA of
        None \<Rightarrow> Inr False
      | Some rec \<Rightarrow> (case descriptors (sc_data rec) of
            None \<Rightarrow> Inl DescriptorUnreadable
          | Some d \<Rightarrow> Inr (current_layout d)))"

definition strip_suffix :: "ustr \<Rightarrow> ustr \<Rightarrow> ustr" where
  "strip_suffix topic suf =
     (if drop (length topic - length suf) topic = suf then take (length topic - length suf) topic else topic)"

text \<open>
  \<open>_exposure_cams\<close> and \<open>_exposure_tracks\<close>. The first slices what \<open>strip_device_topic_prefix\<close> returns, and that is
  \<open>None\<close> for a topic of another device: \<open>SlicedNone\<close> is the \<open>TypeError\<close>.
\<close>

definition exposure_cam :: "ustr option \<Rightarrow> ustr \<Rightarrow> exposure_error + ustr" where
  "exposure_cam device t = (case strip_device_topic_prefix t device of
     None \<Rightarrow> Inl (SlicedNone t) | Some c \<Rightarrow> Inr (take (length c - length FRAME_INFO_SUFFIX) c))"

definition exposure_cams :: "(bytes \<Rightarrow> descriptor_set option) \<Rightarrow> session \<Rightarrow> exposure_error + ustr list" where
  "exposure_cams descriptors s =
     bindE (mapE (\<lambda>m. bindE (frame_info_is_current descriptors (me_index m)) (\<lambda>current.
       bindE (mapE (exposure_cam (se_device s)) (frame_info_topics (me_index m))) (\<lambda>cams.
       Inr (if current then cams else [])))) (se_members s)) (\<lambda>cams. Inr (remdups (concat cams)))"

fun read_infos :: "(bytes \<Rightarrow> frame_info_msg option) \<Rightarrow> ustr option \<Rightarrow> session_row list \<Rightarrow> (ustr \<times> track) list
    \<Rightarrow> exposure_error + (ustr \<times> track) list" where
  "read_infos parse device [] by_cam = Inr by_cam"
| "read_infos parse device (r # rows) by_cam =
     (case (sr_schema r, strip_device_topic_prefix (sr_topic r) device) of
        (Some schema, Some canon) \<Rightarrow>
          if sc_name schema \<noteq> FRAME_INFO_SCHEMA then read_infos parse device rows by_cam
          else let cam = strip_suffix canon FRAME_INFO_SUFFIX
               in (case parse (sr_data r) of
                     None \<Rightarrow> Inl InfoUnreadable
                   | Some m \<Rightarrow> (case parse_frame_info cam (sr_time r) m of
                         Inl e \<Rightarrow> Inl (BadInfo e)
                       | Inr e \<Rightarrow> let track = (case map_of by_cam cam of None \<Rightarrow> [] | Some x \<Rightarrow> x)
                                  in read_infos parse device rows (AList.update cam (track @ [(sr_time r, e)]) by_cam)))
      | _ \<Rightarrow> read_infos parse device rows by_cam)"

fun read_info_files :: "(bytes \<Rightarrow> descriptor_set option) \<Rightarrow> (bytes \<Rightarrow> frame_info_msg option) \<Rightarrow> ustr option \<Rightarrow> ustr list
    \<Rightarrow> member list \<Rightarrow> (ustr \<times> track) list \<Rightarrow> exposure_error + (ustr \<times> track) list" where
  "read_info_files descriptors parse device want [] by_cam = Inr by_cam"
| "read_info_files descriptors parse device want (m # ms) by_cam =
     bindE (frame_info_is_current descriptors (me_index m)) (\<lambda>current.
       if \<not> current then read_info_files descriptors parse device want ms by_cam
       else let (rows, err) = read_messages m (Some want) None None
            in bindE (read_infos parse device rows by_cam) (\<lambda>by_cam.
               case err of Some e \<Rightarrow> Inl (ReadFailed e)
               | None \<Rightarrow> read_info_files descriptors parse device want ms by_cam))"

definition finish_track :: "ustr \<times> track \<Rightarrow> exposure_error + (ustr \<times> track)" where
  "finish_track = (\<lambda>(cam, track). let track = sort_key fst track
     in case duplicate_stamp track of Some t \<Rightarrow> Inl (DuplicateStamp cam t) | None \<Rightarrow> Inr (cam, track))"

definition exposure_tracks :: "(bytes \<Rightarrow> descriptor_set option) \<Rightarrow> (bytes \<Rightarrow> frame_info_msg option) \<Rightarrow> session
    \<Rightarrow> exposure_error + (ustr \<times> track) list" where
  "exposure_tracks descriptors parse s =
     bindE (mapE (\<lambda>m. bindE (frame_info_is_current descriptors (me_index m)) (\<lambda>current.
       Inr (if current then frame_info_topics (me_index m) else []))) (se_members s)) (\<lambda>topics.
     let want = sort (remdups (concat topics))
     in if want = [] then Inr []
        else bindE (read_info_files descriptors parse (se_device s) want (se_members s) []) (mapE finish_track))"

text \<open>\<open>_exposure_at\<close>\<close>

definition exposure_at :: "(bytes \<Rightarrow> descriptor_set option) \<Rightarrow> (bytes \<Rightarrow> frame_info_msg option) \<Rightarrow> session \<Rightarrow> ustr \<Rightarrow> int
    \<Rightarrow> exposure_error + frame_exposure option" where
  "exposure_at descriptors parse s canon t_ns =
     bindE (exposure_cams descriptors s) (\<lambda>cams.
       if canon \<notin> set cams then Inr None
       else bindE (exposure_tracks descriptors parse s) (\<lambda>tracks.
         Inr (case map_of tracks canon of
                None \<Rightarrow> None
              | Some track \<Rightarrow> if track = [] then None else Some (track_at track t_ns))))"

section \<open>The join\<close>

text \<open>What a record carries: the parsed message, or the wire bytes of a passthrough topic.\<close>

datatype 'p payload = Msg 'p | Wire bytes

type_synonym ('img, 'p) elem = "('img, 'p payload) element"

datatype join_error = LeadingGap ustr | InterpolationGap ustr | TailGap ustr | Unresolved ustr int
  | DuplicateInfo ustr | BadJoinInfo info_error | NoMessage ustr | ByteLimit

record ('img, 'p) join_args =
  ja_cameras :: "ustr list"
  ja_emit :: "ustr list"
  ja_max_gap :: int
  ja_max_bytes :: int
  ja_nbytes :: "'img \<Rightarrow> int"
  ja_fields :: "'p \<Rightarrow> frame_info_msg"

record ('img, 'p) join_state =
  jn_entries :: "ustr \<Rightarrow> track"
  jn_match :: "ustr \<Rightarrow> 'p payload option buffers"
  jn_ready :: "((ustr \<times> int) \<times> frame_exposure) list"
  jn_pending :: "('img, 'p) elem list"
  jn_bytes :: int

definition init_join :: "('img, 'p) join_state" where
  "init_join = \<lparr>jn_entries = (\<lambda>_. []), jn_match = (\<lambda>_ _. []), jn_ready = [], jn_pending = [], jn_bytes = 0\<rparr>"

definition join_matcher :: "ustr \<Rightarrow> matcher" where
  "join_matcher cam = \<lparr>mt_keys = [cam, cam @ FRAME_INFO_SUFFIX], mt_tol = 0, mt_window = 128, mt_partial = True\<rparr>"

definition info_camera :: "('img, 'p) join_args \<Rightarrow> ustr \<Rightarrow> ustr option" where
  "info_camera a topic = find (\<lambda>cam. topic = cam @ FRAME_INFO_SUFFIX) (ja_cameras a)"

fun is_frame :: "('img, 'p) element \<Rightarrow> bool" where
  "is_frame (Frame _ _ _ _ _) = True" | "is_frame _ = False"

fun is_record :: "('img, 'p) element \<Rightarrow> bool" where
  "is_record (Record _ _ _ _) = True" | "is_record _ = False"

fun with_exposure :: "frame_exposure \<Rightarrow> ('img, 'p) element \<Rightarrow> ('img, 'p) element" where
  "with_exposure x (Frame topic t img frame_id _) = Frame topic t img frame_id (Some x)"
| "with_exposure x el = el"

fun image_size :: "('img, 'p) join_args \<Rightarrow> ('img, 'p payload) element \<Rightarrow> int" where
  "image_size a (Frame _ _ img _ _) = ja_nbytes a img" | "image_size a _ = 0"

definition camera_frame :: "('img, 'p) join_args \<Rightarrow> ('img, 'p payload) element \<Rightarrow> bool" where
  "camera_frame a el \<longleftrightarrow> is_frame el \<and> el_topic el \<in> set (ja_cameras a)"

text \<open>\<open>exposure\<close>, without what is ready.\<close>

definition from_track :: "ustr \<Rightarrow> int \<Rightarrow> bool \<Rightarrow> track \<Rightarrow> int \<Rightarrow> join_error + frame_exposure option" where
  "from_track cam gap final track t =
     (let i = bisect_left t track
      in if i < length track then
           let (hi_t, hi) = track ! i
           in if hi_t = t then Inr (Some (bind_entry hi t False))
              else if i = 0 then
                (if hi_t - t > gap then Inl (LeadingGap cam) else Inr (Some (bind_entry hi t (hi_t \<noteq> t))))
              else let (lo_t, lo) = track ! (i - 1)
                   in if hi_t - lo_t > gap then Inl (InterpolationGap cam)
                      else Inr (Some (bind_entry (lerp_entry lo hi (weight lo_t hi_t t)) t True))
         else if final \<and> track \<noteq> [] then
           (if t - fst (last track) > gap then Inl (TailGap cam) else Inr (Some (bind_entry (snd (last track)) t True)))
         else Inr None)"

text \<open>\<open>drain\<close>: what it yields with the error that ends it, and what stays pending.\<close>

datatype verdict = Attach frame_exposure "((ustr \<times> int) \<times> frame_exposure) list" | Wait | Broken join_error

definition frame_verdict :: "('img, 'p) join_args \<Rightarrow> (ustr \<Rightarrow> track) \<Rightarrow> int \<Rightarrow> bool \<Rightarrow> ('img, 'p) elem
    \<Rightarrow> ((ustr \<times> int) \<times> frame_exposure) list \<Rightarrow> verdict" where
  "frame_verdict a entries watermark final el rdy =
     (let cam = el_topic el; t = el_t_ns el
      in case map_of rdy (cam, t) of
           Some x \<Rightarrow> Attach x (AList.delete (cam, t) rdy)
         | None \<Rightarrow> (case from_track cam (ja_max_gap a) final (entries cam) t of
               Inl e \<Rightarrow> Broken e
             | Inr None \<Rightarrow> if final \<or> watermark - t > ja_max_gap a then Broken (Unresolved cam t) else Wait
             | Inr (Some x) \<Rightarrow> if xp_interpolated x \<and> \<not> final \<and> watermark \<le> t then Wait else Attach x rdy))"

fun drain_pending :: "('img, 'p) join_args \<Rightarrow> int \<Rightarrow> bool \<Rightarrow> ('img, 'p) join_state \<Rightarrow> ('img, 'p) elem list
    \<Rightarrow> (('img, 'p) elem list \<times> join_error option) \<times> ('img, 'p) join_state" where
  "drain_pending a watermark final s [] = (([], None), s\<lparr>jn_pending := []\<rparr>)"
| "drain_pending a watermark final s (el # rest) =
     (case (if camera_frame a el then Some (frame_verdict a (jn_entries s) watermark final el (jn_ready s)) else None) of
        None \<Rightarrow> let ((outs, err), s) = drain_pending a watermark final (s\<lparr>jn_bytes := jn_bytes s - image_size a el\<rparr>) rest
                in ((el # outs, err), s)
      | Some (Attach x rdy) \<Rightarrow>
          let ((outs, err), s) = drain_pending a watermark final
                (s\<lparr>jn_ready := rdy, jn_bytes := jn_bytes s - image_size a el\<rparr>) rest
          in ((with_exposure x el # outs, err), s)
      | Some Wait \<Rightarrow> (([], None), s\<lparr>jn_pending := el # rest\<rparr>)
      | Some (Broken e) \<Rightarrow> (([], Some e), s\<lparr>jn_pending := el # rest\<rparr>))"

fun forget :: "int \<Rightarrow> track \<Rightarrow> track" where
  "forget front (a # b # c # rest) = (if fst b < front then forget front (b # c # rest) else a # b # c # rest)"
| "forget front track = track"

definition drain :: "('img, 'p) join_args \<Rightarrow> int \<Rightarrow> bool \<Rightarrow> ('img, 'p) join_state
    \<Rightarrow> (('img, 'p) elem list \<times> join_error option) \<times> ('img, 'p) join_state" where
  "drain a watermark final s =
     (let (r, s) = drain_pending a watermark final s (jn_pending s);
          front = (case jn_pending s of [] \<Rightarrow> watermark | el # _ \<Rightarrow> el_t_ns el)
      in (r, if snd r = None then s\<lparr>jn_entries := (\<lambda>cam. forget front (jn_entries s cam))\<rparr> else s))"

text \<open>One element of the stream: an entry is inserted by its stamp, then entry or frame go to the matcher.\<close>

definition add_info :: "('img, 'p) join_args \<Rightarrow> ustr \<Rightarrow> int \<Rightarrow> 'p payload \<Rightarrow> ('img, 'p) join_state
    \<Rightarrow> join_error + ('img, 'p) join_state" where
  "add_info a cam t msg s =
     (let track = jn_entries s cam; i = bisect_left t track
      in bindE (guardE (\<not> (i < length track \<and> fst (track ! i) = t)) (DuplicateInfo cam)) (\<lambda>_.
         case msg of
           Wire _ \<Rightarrow> Inl (NoMessage cam)
         | Msg m \<Rightarrow> (case parse_frame_info cam t (ja_fields a m) of
               Inl e \<Rightarrow> Inl (BadJoinInfo e)
             | Inr e \<Rightarrow> Inr (s\<lparr>jn_entries := (jn_entries s)(cam := take i track @ (t, e) # drop i track)\<rparr>))))"

text \<open>The groups a push forms: the entry of each is ready for its frame.\<close>

fun add_ready :: "('img, 'p) join_args \<Rightarrow> ustr \<Rightarrow> 'p payload option outcome list
    \<Rightarrow> ((ustr \<times> int) \<times> frame_exposure) list \<Rightarrow> join_error + ((ustr \<times> int) \<times> frame_exposure) list" where
  "add_ready a cam [] rdy = Inr rdy"
| "add_ready a cam (Gone _ # outs) rdy = add_ready a cam outs rdy"
| "add_ready a cam (Formed _ ms # outs) rdy =
     (case (map_of ms cam, map_of ms (cam @ FRAME_INFO_SUFFIX)) of
        (Some f, Some r) \<Rightarrow>
          (case snd (snd (sd_element r)) of
             Some (Msg m) \<Rightarrow>
               (case parse_frame_info cam (st_time (sd_element r)) (ja_fields a m) of
                  Inl e \<Rightarrow> Inl (BadJoinInfo e)
                | Inr e \<Rightarrow> let t = st_time (sd_element f)
                           in add_ready a cam outs (AList.update (cam, t) (bind_entry e t False) rdy))
           | _ \<Rightarrow> Inl (NoMessage cam))
      | _ \<Rightarrow> Inl (NoMessage cam))"

fun payload_of :: "('img, 'p payload) element \<Rightarrow> 'p payload option" where
  "payload_of (Record _ _ _ p) = Some p" | "payload_of _ = None"

definition identity :: "('img, 'p) elem \<Rightarrow> 'p payload option stamped" where
  "identity el = (el_topic el, el_t_ns el, payload_of el)"

definition match_info :: "('img, 'p) join_args \<Rightarrow> ustr \<Rightarrow> ('img, 'p) elem \<Rightarrow> ('img, 'p) join_state
    \<Rightarrow> join_error + ('img, 'p) join_state" where
  "match_info a cam el s =
     (let (outs, buf) = push (join_matcher cam) (identity el) (jn_match s cam)
      in bindE (add_ready a cam outs (jn_ready s)) (\<lambda>rdy.
         Inr (s\<lparr>jn_match := (jn_match s)(cam := buf), jn_ready := rdy\<rparr>)))"

definition join_camera :: "('img, 'p) join_args \<Rightarrow> ('img, 'p) elem \<Rightarrow> ustr option" where
  "join_camera a el = (case info_camera a (el_topic el) of
       Some cam \<Rightarrow> if is_record el then Some cam else if camera_frame a el then Some (el_topic el) else None
     | None \<Rightarrow> if camera_frame a el then Some (el_topic el) else None)"

definition join_take :: "('img, 'p) join_args \<Rightarrow> ('img, 'p) elem \<Rightarrow> ('img, 'p) join_state
    \<Rightarrow> join_error + ('img, 'p) join_state" where
  "join_take a el s =
     bindE (case (info_camera a (el_topic el), payload_of el) of
              (Some cam, Some msg) \<Rightarrow> add_info a cam (el_t_ns el) msg s
            | _ \<Rightarrow> Inr s) (\<lambda>s.
     bindE (case join_camera a el of Some cam \<Rightarrow> match_info a cam el s | None \<Rightarrow> Inr s) (\<lambda>s.
     Inr (if info_camera a (el_topic el) = None \<or> el_topic el \<in> set (ja_emit a)
          then s\<lparr>jn_pending := jn_pending s @ [el], jn_bytes := jn_bytes s + image_size a el\<rparr> else s)))"

definition join_step :: "('img, 'p) join_args \<Rightarrow> ('img, 'p) elem \<Rightarrow> ('img, 'p) join_state
    \<Rightarrow> (('img, 'p) elem list \<times> join_error option) \<times> ('img, 'p) join_state" where
  "join_step a el s =
     (case join_take a el s of
        Inl e \<Rightarrow> (([], Some e), s)
      | Inr s \<Rightarrow> (case drain a (el_t_ns el) False s of
            ((outs, None), s) \<Rightarrow> ((outs, if jn_bytes s > ja_max_bytes a then Some ByteLimit else None), s)
          | r \<Rightarrow> r))"

fun join_run :: "('img, 'p) join_args \<Rightarrow> ('img, 'p) elem list \<Rightarrow> ('img, 'p) join_state
    \<Rightarrow> (('img, 'p) elem list \<times> join_error option) \<times> ('img, 'p) join_state" where
  "join_run a [] s = (([], None), s)"
| "join_run a (el # els) s =
     (case join_step a el s of
        ((outs, Some e), s) \<Rightarrow> ((outs, Some e), s)
      | ((outs, None), s) \<Rightarrow> let ((rest, err), s) = join_run a els s in ((outs @ rest, err), s))"

text \<open>\<open>join_exposure\<close> over a generator: its own error, or the one of the stream.\<close>

definition join_end :: "('img, 'p) join_args \<Rightarrow> ('img, 'p) join_state \<Rightarrow> ('img, 'p) elem list \<times> join_error option" where
  "join_end a s = fst (drain a (if jn_pending s = [] then 0 else el_t_ns (last (jn_pending s))) True s)"

definition join_exposure :: "('img, 'p) join_args \<Rightarrow> ('img, 'p) elem list \<times> 'x option
    \<Rightarrow> ('img, 'p) elem list \<times> (join_error + 'x) option" where
  "join_exposure a gen =
     (case join_run a (fst gen) init_join of
        ((outs, Some e), _) \<Rightarrow> (outs, Some (Inl e))
      | ((outs, None), s) \<Rightarrow>
          (case snd gen of
             Some x \<Rightarrow> (outs, Some (Inr x))
           | None \<Rightarrow> let (rest, err) = join_end a s in (outs @ rest, map_option Inl err)))"

section \<open>The join against the whole track\<close>

text \<open>The entries of a camera in a stream, in stream order, and what the join is to make of an element.\<close>

definition entry_of :: "('img, 'p) join_args \<Rightarrow> ustr \<Rightarrow> ('img, 'p) elem \<Rightarrow> track" where
  "entry_of a cam el =
     (case (info_camera a (el_topic el), payload_of el) of
        (Some c, Some (Msg m)) \<Rightarrow> if c \<noteq> cam then [] else
          (case parse_frame_info cam (el_t_ns el) (ja_fields a m) of Inl _ \<Rightarrow> [] | Inr e \<Rightarrow> [(el_t_ns el, e)])
      | _ \<Rightarrow> [])"

definition entries_of :: "('img, 'p) join_args \<Rightarrow> ('img, 'p) elem list \<Rightarrow> ustr \<Rightarrow> track" where
  "entries_of a els cam = concat (map (entry_of a cam) els)"

definition attach :: "('img, 'p) join_args \<Rightarrow> (ustr \<Rightarrow> track) \<Rightarrow> ('img, 'p) elem \<Rightarrow> ('img, 'p) elem" where
  "attach a tracks el = (if camera_frame a el then with_exposure (track_at (tracks (el_topic el)) (el_t_ns el)) el else el)"

definition passes :: "('img, 'p) join_args \<Rightarrow> ('img, 'p) elem \<Rightarrow> bool" where
  "passes a el \<longleftrightarrow> info_camera a (el_topic el) = None \<or> el_topic el \<in> set (ja_emit a)"

abbreviation strict :: "track \<Rightarrow> bool" where "strict xs \<equiv> sorted_wrt (<) (map fst xs)"

lemma bisect_append:
  assumes "\<forall>x \<in> set d. fst x < t" "bisect_left t dq < length dq"
  shows "bisect_left t (d @ dq @ later) = length d + bisect_left t dq"
proof -
  obtain x where x: "x \<in> set dq" "\<not> fst x < t"
    using assms(2) unfolding bisect_left_def by (metis (no_types, lifting) nat_neq_iff takeWhile_eq_all_conv)
  then have "takeWhile (\<lambda>e. fst e < t) (dq @ later) = takeWhile (\<lambda>e. fst e < t) dq" by (rule takeWhile_append1)
  then show ?thesis using assms(1) by (simp add: bisect_left_def takeWhile_append2)
qed

lemma bisect_all: "\<forall>x \<in> set xs. fst x < t \<Longrightarrow> bisect_left t xs = length xs"
  by (simp add: bisect_left_def takeWhile_eq_all_conv [THEN iffD2])

lemma bisect_at: "bisect_left t xs < length xs \<Longrightarrow> t \<le> fst (xs ! bisect_left t xs)"
  using nth_length_takeWhile [of "\<lambda>e. fst e < t" xs] by (simp add: bisect_left_def)

lemma track_at_exact:
  assumes "strict xs" "(t, e) \<in> set xs"
  shows "track_at (xs @ ys) t = bind_entry e t False"
proof -
  obtain u v where xs: "xs = u @ (t, e) # v" using split_list [OF assms(2)] by blast
  have "\<forall>x \<in> set u. fst x < t" using assms(1) unfolding xs by (auto simp: sorted_wrt_append)
  then have "bisect_left t (xs @ ys) = length u" unfolding xs by (simp add: bisect_left_def takeWhile_append2)
  then show ?thesis unfolding xs by (simp add: track_at_def)
qed

definition window_of :: "int \<Rightarrow> track \<Rightarrow> track \<Rightarrow> bool" where
  "window_of F dq seen \<longleftrightarrow> (\<exists>d. seen = d @ dq \<and> (d = [] \<or> dq \<noteq> [] \<and> fst (hd dq) < F))"

lemma from_track_agrees:
  assumes "window_of F dq seen" "strict seen" "F \<le> t" "final \<longrightarrow> later = []"
    "from_track cam gap final dq t = Inr (Some x)"
  shows "x = track_at (seen @ later) t"
proof -
  obtain d where d: "seen = d @ dq" "d = [] \<or> dq \<noteq> [] \<and> fst (hd dq) < F" using assms(1) unfolding window_of_def by blast
  let ?i = "bisect_left t dq"
  have low: "\<forall>x \<in> set d. fst x < t"
  proof (cases "d = []")
    case False
    then have "dq \<noteq> []" "fst (hd dq) < t" using d(2) assms(3) by auto
    then show ?thesis using assms(2) d(1) by (cases dq) (fastforce simp: sorted_wrt_append)+
  qed simp
  have first: "d = []" if "?i = 0" "dq \<noteq> []"
    using that d(2) assms(3) by (cases dq) (auto simp: bisect_left_def split: if_splits)
  show ?thesis
  proof (cases "?i < length dq")
    case True
    note i = bisect_append [OF low True, of later]
    have nth: "(d @ dq @ later) ! (length d + j) = dq ! j" if "j < length dq" for j using that by (simp add: nth_append)
    have pred: "(d @ dq @ later) ! (length d + ?i - 1) = dq ! (?i - 1)" if "?i \<noteq> 0"
    proof -
      have "length d + ?i - 1 = length d + (?i - 1)" using that by simp
      then show ?thesis using nth [of "?i - 1"] True by simp
    qed
    have all: "track_at (seen @ later) t = (if fst (dq ! ?i) = t then bind_entry (snd (dq ! ?i)) t False
       else if length d + ?i = 0 then bind_entry (snd (hd (d @ dq @ later))) t True
       else bind_entry (lerp_entry (snd ((d @ dq @ later) ! (length d + ?i - 1))) (snd (dq ! ?i))
         (weight (fst ((d @ dq @ later) ! (length d + ?i - 1))) (fst (dq ! ?i)) t)) t True)"
      unfolding d(1) append_assoc track_at_def i Let_def using nth [OF True] True by simp
    show ?thesis
    proof (cases "?i = 0")
      case zero: True
      then have "d = []" using first True by force
      have "dq \<noteq> []" using True by auto
      then have "dq ! 0 = hd dq" "hd (dq @ later) = hd dq" by (cases dq; simp)+
      then show ?thesis using assms(5) True zero \<open>d = []\<close> unfolding all
        by (auto simp: from_track_def Let_def split: if_splits prod.splits)
    next
      case False
      then show ?thesis using assms(5) True pred unfolding all
        by (auto simp: from_track_def Let_def split: if_splits prod.splits)
    qed
  next
    case False
    then have f: "final" "dq \<noteq> []" "x = bind_entry (snd (last dq)) t True"
      using assms(5) by (auto simp: from_track_def Let_def split: if_splits)
    have "takeWhile (\<lambda>e. fst e < t) dq = dq"
    proof -
      have "length (takeWhile (\<lambda>e. fst e < t) dq) = length dq" using False length_takeWhile_le [of "\<lambda>e. fst e < t" dq]
        by (simp add: bisect_left_def)
      then show ?thesis by (metis append_Nil2 append_eq_append_conv takeWhile_dropWhile_id)
    qed
    then have "\<forall>x \<in> set dq. fst x < t" by (simp add: takeWhile_eq_all_conv)
    then have "bisect_left t seen = length seen" using low d(1) by (intro bisect_all) auto
    then show ?thesis using f assms(4) d(1) by (simp add: track_at_def)
  qed
qed

text \<open>
  The state after a prefix \<open>seen\<close> of the stream: the deques are windows of the entries so far, what is ready
  is exact, and the matchers hold only elements that were seen.
\<close>

definition ready_ok :: "('img, 'p) join_args \<Rightarrow> ('img, 'p) elem list \<Rightarrow> ((ustr \<times> int) \<times> frame_exposure) list \<Rightarrow> bool" where
  "ready_ok a seen rdy \<longleftrightarrow> (\<forall>cam t x. map_of rdy (cam, t) = Some x \<longrightarrow>
     (\<exists>e. x = bind_entry e t False \<and> (t, e) \<in> set (entries_of a seen cam)))"

definition match_ok :: "('img, 'p) elem list \<Rightarrow> (ustr \<Rightarrow> 'p payload option buffers) \<Rightarrow> bool" where
  "match_ok seen match \<longleftrightarrow> (\<forall>cam k. \<forall>e \<in> set (match cam k). st_topic e = k \<and> e \<in> identity ` set seen)"

definition windows_ok :: "('img, 'p) join_args \<Rightarrow> ('img, 'p) elem list \<Rightarrow> int \<Rightarrow> (ustr \<Rightarrow> track) \<Rightarrow> bool" where
  "windows_ok a seen F entries \<longleftrightarrow> (\<forall>cam. window_of F (entries cam) (entries_of a seen cam) \<and> strict (entries_of a seen cam))"

lemma verdict_attach:
  assumes "windows_ok a seen F (jn_entries s)" "ready_ok a seen (jn_ready s)" "F \<le> el_t_ns el" "final \<longrightarrow> later = (\<lambda>_. [])"
    "frame_verdict a (jn_entries s) w final el (jn_ready s) = Attach x rdy"
  shows "x = track_at (entries_of a seen (el_topic el) @ later (el_topic el)) (el_t_ns el) \<and> ready_ok a seen rdy"
proof (cases "map_of (jn_ready s) (el_topic el, el_t_ns el)")
  case None
  then have ft: "from_track (el_topic el) (ja_max_gap a) final (jn_entries s (el_topic el)) (el_t_ns el) = Inr (Some x)" "rdy = jn_ready s"
    using assms(5) by (auto simp: frame_verdict_def Let_def split: sum.splits option.splits if_splits)
  have w: "window_of F (jn_entries s (el_topic el)) (entries_of a seen (el_topic el))" "strict (entries_of a seen (el_topic el))"
    using assms(1) by (simp_all add: windows_ok_def)
  have "final \<longrightarrow> later (el_topic el) = []" using assms(4) by auto
  from from_track_agrees [OF w assms(3) this ft(1)] show ?thesis using assms(2) ft(2) by simp
next
  case (Some y)
  then have xy: "x = y" "rdy = AList.delete (el_topic el, el_t_ns el) (jn_ready s)" using assms(5) by (auto simp: frame_verdict_def Let_def)
  obtain e where e: "y = bind_entry e (el_t_ns el) False" "(el_t_ns el, e) \<in> set (entries_of a seen (el_topic el))"
    using assms(2) Some unfolding ready_ok_def by blast
  have "strict (entries_of a seen (el_topic el))" using assms(1) by (simp add: windows_ok_def)
  from track_at_exact [OF this e(2)] have "x = track_at (entries_of a seen (el_topic el) @ later (el_topic el)) (el_t_ns el)"
    using e(1) xy(1) by simp
  moreover have "ready_ok a seen rdy" using assms(2) unfolding xy(2) ready_ok_def by (auto simp: map_of_AList_delete split: if_splits)
  ultimately show ?thesis ..
qed

lemma with_exposure_attach:
  "camera_frame a el \<Longrightarrow> x = track_at (tracks (el_topic el)) (el_t_ns el) \<Longrightarrow> with_exposure x el = attach a tracks el"
  by (simp add: attach_def)

lemma drain_pending_agrees:
  assumes "windows_ok a seen F (jn_entries s)" "ready_ok a seen (jn_ready s)" "\<forall>el \<in> set els. F \<le> el_t_ns el"
    "final \<longrightarrow> later = (\<lambda>_. [])" "drain_pending a w final s els = ((outs, err), s')"
  shows "\<exists>d rest. els = d @ rest \<and> outs = map (attach a (\<lambda>cam. entries_of a seen cam @ later cam)) d \<and> jn_pending s' = rest
    \<and> jn_entries s' = jn_entries s \<and> jn_match s' = jn_match s \<and> ready_ok a seen (jn_ready s') \<and> (final \<longrightarrow> err = None \<longrightarrow> rest = [])"
  using assms
proof (induction a w final s els arbitrary: outs err s' rule: drain_pending.induct)
  case (1 a w final s)
  then show ?case by (intro exI [of _ "[]"]) auto
next
  case (2 a w final s el rest)
  let ?tracks = "\<lambda>cam. entries_of a seen cam @ later cam"
  have more: "\<exists>d r. el # rest = d @ r \<and> y # o1 = map (attach a ?tracks) d \<and> jn_pending s1 = r
    \<and> jn_entries s1 = jn_entries s \<and> jn_match s1 = jn_match s \<and> ready_ok a seen (jn_ready s1) \<and> (final \<longrightarrow> err = None \<longrightarrow> r = [])"
    if "y = attach a ?tracks el" "\<exists>d r. rest = d @ r \<and> o1 = map (attach a ?tracks) d \<and> jn_pending s1 = r
    \<and> jn_entries s1 = jn_entries s \<and> jn_match s1 = jn_match s \<and> ready_ok a seen (jn_ready s1) \<and> (final \<longrightarrow> err = None \<longrightarrow> r = [])" for y o1 s1
  proof -
    from that(2) obtain d r where d: "rest = d @ r" "o1 = map (attach a ?tracks) d" "jn_pending s1 = r"
      "jn_entries s1 = jn_entries s \<and> jn_match s1 = jn_match s \<and> ready_ok a seen (jn_ready s1) \<and> (final \<longrightarrow> err = None \<longrightarrow> r = [])" by blast
    show ?thesis by (intro exI [of _ "el # d"] exI [of _ r]) (use d that(1) in simp)
  qed
  show ?case
  proof (cases "camera_frame a el")
    case False
    define s0 where "s0 = s\<lparr>jn_bytes := jn_bytes s - image_size a el\<rparr>"
    obtain o1 where r: "drain_pending a w final s0 rest = ((o1, err), s')" "outs = el # o1"
      using "2.prems"(5) False by (auto simp: s0_def Let_def split: prod.splits)
    have "\<exists>d r. rest = d @ r \<and> o1 = map (attach a ?tracks) d \<and> jn_pending s' = r
      \<and> jn_entries s' = jn_entries s0 \<and> jn_match s' = jn_match s0 \<and> ready_ok a seen (jn_ready s') \<and> (final \<longrightarrow> err = None \<longrightarrow> r = [])"
      by (rule "2.IH"(1) [folded s0_def, OF _ _ _ _ _ r(1)]) (use "2.prems" False in \<open>simp_all add: s0_def\<close>)
    then show ?thesis unfolding r(2) by (intro more) (use False in \<open>simp_all add: attach_def s0_def\<close>)
  next
    case cam: True
    show ?thesis
    proof (cases "frame_verdict a (jn_entries s) w final el (jn_ready s)")
      case (Attach x rdy)
      define s0 where "s0 = s\<lparr>jn_ready := rdy, jn_bytes := jn_bytes s - image_size a el\<rparr>"
      have F: "F \<le> el_t_ns el" using "2.prems"(3) by simp
      note v = verdict_attach [OF "2.prems"(1,2) F "2.prems"(4) Attach]
      obtain o1 where r: "drain_pending a w final s0 rest = ((o1, err), s')" "outs = with_exposure x el # o1"
        using "2.prems"(5) cam Attach by (auto simp: s0_def Let_def split: prod.splits)
      have "\<exists>d r. rest = d @ r \<and> o1 = map (attach a ?tracks) d \<and> jn_pending s' = r
        \<and> jn_entries s' = jn_entries s0 \<and> jn_match s' = jn_match s0 \<and> ready_ok a seen (jn_ready s') \<and> (final \<longrightarrow> err = None \<longrightarrow> r = [])"
        unfolding s0_def by (rule "2.IH"(2) [OF _ refl _ _ _ _ r(1) [unfolded s0_def]]) (use "2.prems" cam Attach v in simp_all)
      then show ?thesis unfolding r(2)
        by (intro more with_exposure_attach cam) (use v in \<open>simp_all add: s0_def\<close>)
    next
      case Wait
      have "\<not> final" using Wait by (auto simp: frame_verdict_def Let_def split: option.splits sum.splits if_splits)
      then show ?thesis using "2.prems" cam Wait by - (rule exI [of _ "[]"], rule exI [of _ "el # rest"], auto)
    next
      case (Broken e)
      then show ?thesis using "2.prems" cam by - (rule exI [of _ "[]"], rule exI [of _ "el # rest"], auto)
    qed
  qed
qed

lemma entries_snoc: "entries_of a (seen @ [el]) cam = entries_of a seen cam @ entry_of a cam el"
  by (simp add: entries_of_def)

lemma entries_append: "entries_of a (xs @ ys) cam = entries_of a xs cam @ entries_of a ys cam"
  by (simp add: entries_of_def)

lemma entry_times: "x \<in> set (entry_of a cam el) \<Longrightarrow> fst x = el_t_ns el"
proof -
  assume x: "x \<in> set (entry_of a cam el)"
  then obtain m where "payload_of el = Some (Msg m)" "info_camera a (el_topic el) = Some cam"
    unfolding entry_of_def by (cases "info_camera a (el_topic el)"; cases "payload_of el") (auto split: payload.splits if_splits)
  then show ?thesis using x by (cases "parse_frame_info cam (el_t_ns el) (ja_fields a m)") (auto simp: entry_of_def)
qed

lemma entries_times: "x \<in> set (entries_of a els cam) \<Longrightarrow> \<exists>el \<in> set els. fst x = el_t_ns el"
  by (auto simp: entries_of_def dest: entry_times)

lemma ready_ok_more: "ready_ok a seen rdy \<Longrightarrow> ready_ok a (seen @ [el]) rdy"
  unfolding ready_ok_def entries_snoc by (metis Un_iff set_append)

lemma window_snoc: "window_of F dq seen \<Longrightarrow> window_of F (dq @ xs) (seen @ xs)"
  unfolding window_of_def by fastforce

lemma forget_suffix: "\<exists>d. track = d @ forget F track \<and> (d = [] \<or> forget F track \<noteq> [] \<and> fst (hd (forget F track)) < F)"
proof (induction F track rule: forget.induct)
  case (1 F a b c rest)
  show ?case
  proof (cases "fst b < F")
    case True
    then obtain d where "b # c # rest = d @ forget F (b # c # rest)"
      "d = [] \<or> forget F (b # c # rest) \<noteq> [] \<and> fst (hd (forget F (b # c # rest))) < F" using 1 by blast
    then show ?thesis using True by (intro exI [of _ "a # d"]) (cases d; auto)
  qed simp
qed (intro exI [of _ "[]"], simp)+

lemma window_forget:
  assumes "window_of F dq seen" "F \<le> G"
  shows "window_of G (forget G dq) seen"
proof -
  obtain d where d: "seen = d @ dq" "d = [] \<or> dq \<noteq> [] \<and> fst (hd dq) < F" using assms(1) unfolding window_of_def by blast
  obtain e where e: "dq = e @ forget G dq" "e = [] \<or> forget G dq \<noteq> [] \<and> fst (hd (forget G dq)) < G" using forget_suffix by blast
  have "seen = (d @ e) @ forget G dq" using d(1) e(1) by simp
  moreover have "d @ e = [] \<or> forget G dq \<noteq> [] \<and> fst (hd (forget G dq)) < G"
    using d(2) e assms(2) by (cases "e = []") auto
  ultimately show ?thesis unfolding window_of_def by blast
qed

lemma add_info_windows:
  assumes "add_info a cam t msg s = Inr s'" "windows_ok a seen F (jn_entries s)" "\<forall>e \<in> set seen. el_t_ns e \<le> t"
    and "info_camera a (el_topic el) = Some cam" "payload_of el = Some msg" "el_t_ns el = t"
  shows "windows_ok a (seen @ [el]) F (jn_entries s') \<and> jn_match s' = jn_match s \<and> jn_ready s' = jn_ready s
    \<and> jn_pending s' = jn_pending s"
proof -
  let ?dq = "jn_entries s cam"
  let ?i = "bisect_left t ?dq"
  have win: "window_of F ?dq (entries_of a seen cam)" "strict (entries_of a seen cam)" using assms(2) by (simp_all add: windows_ok_def)
  obtain m e where m: "msg = Msg m" "parse_frame_info cam t (ja_fields a m) = Inr e" "\<not> (?i < length ?dq \<and> fst (?dq ! ?i) = t)"
    "s' = s\<lparr>jn_entries := (jn_entries s)(cam := take ?i ?dq @ (t, e) # drop ?i ?dq)\<rparr>"
    using assms(1) by (auto simp: add_info_def Let_def bindE_eq_Inr guardE_def split: payload.splits sum.splits if_splits)
  have sub: "set ?dq \<subseteq> set (entries_of a seen cam)" using win(1) by (auto simp: window_of_def)
  have "fst x \<le> t" if "x \<in> set (entries_of a seen cam)" for x using entries_times [OF that] assms(3) by auto
  then have le: "\<forall>x \<in> set ?dq. fst x \<le> t" using sub by blast
  have i: "?i = length ?dq"
  proof (rule ccontr)
    assume "?i \<noteq> length ?dq"
    then have "?i < length ?dq" using length_takeWhile_le [of _ ?dq] by (simp add: bisect_left_def le_neq_implies_less)
    then show False using bisect_at [of t ?dq] le m(3) by (meson dual_order.antisym nth_mem)
  qed
  have dq: "take ?i ?dq @ (t, e) # drop ?i ?dq = ?dq @ [(t, e)]" unfolding i by simp
  have entry: "entry_of a cam el = [(t, e)]" "\<And>c. c \<noteq> cam \<Longrightarrow> entry_of a c el = []"
    using assms(4-6) m(1,2) by (simp_all add: entry_of_def)
  have low: "fst x < t" if "x \<in> set (entries_of a seen cam)" for x
  proof -
    obtain d where d: "entries_of a seen cam = d @ ?dq" "d = [] \<or> ?dq \<noteq> [] \<and> fst (hd ?dq) < F" using win(1) unfolding window_of_def by blast
    have "takeWhile (\<lambda>e. fst e < t) ?dq = ?dq"
      using i unfolding bisect_left_def by (metis append_Nil2 append_eq_append_conv takeWhile_dropWhile_id)
    then have all: "\<forall>x \<in> set ?dq. fst x < t" by (simp add: takeWhile_eq_all_conv)
    show ?thesis
    proof (cases "x \<in> set ?dq")
      case False
      then have "x \<in> set d" "?dq \<noteq> []" using that d by auto
      then have "fst x < fst (hd ?dq)" using win(2) unfolding d(1) by (auto simp: sorted_wrt_append)
      then show ?thesis using all \<open>?dq \<noteq> []\<close> by (meson hd_in_set order.strict_trans)
    qed (use all in blast)
  qed
  have "window_of F (jn_entries s' c) (entries_of a (seen @ [el]) c) \<and> strict (entries_of a (seen @ [el]) c)" for c
  proof (cases "c = cam")
    case True
    then show ?thesis using window_snoc [OF win(1)] win(2) low unfolding entries_snoc entry m(4) dq
      by (auto simp: sorted_wrt_append entry)
  next
    case False
    then show ?thesis using assms(2) unfolding entries_snoc m(4) by (simp add: entry windows_ok_def)
  qed
  then show ?thesis by (simp add: windows_ok_def m(4))
qed

lemma info_camera_own: "cam \<in> set (ja_cameras a) \<Longrightarrow> info_camera a (cam @ FRAME_INFO_SUFFIX) = Some cam"
proof -
  have "cam \<in> set cams \<Longrightarrow> find (\<lambda>c. cam @ FRAME_INFO_SUFFIX = c @ FRAME_INFO_SUFFIX) cams = Some cam" for cams
    by (induction cams) auto
  then show "cam \<in> set (ja_cameras a) \<Longrightarrow> ?thesis" by (simp add: info_camera_def)
qed

lemma join_camera_mem: "join_camera a el = Some cam \<Longrightarrow> cam \<in> set (ja_cameras a)"
  by (auto simp: join_camera_def info_camera_def camera_frame_def find_Some_iff split: option.splits if_splits)

definition seen_buffers :: "('img, 'p) elem list \<Rightarrow> 'p payload option buffers \<Rightarrow> bool" where
  "seen_buffers seen b \<longleftrightarrow> (\<forall>k. \<forall>e \<in> set (b k). st_topic e = k \<and> e \<in> identity ` set seen)"

lemma formed_ready:
  assumes "group_ok (join_matcher cam) b (Formed t ms)" "seen_buffers seen b" "cam \<in> set (ja_cameras a)"
    and "add_ready a cam (Formed t ms # outs) rdy = Inr rdy'"
  shows "\<exists>e. (t, e) \<in> set (entries_of a seen cam)
    \<and> add_ready a cam outs (AList.update (cam, t) (bind_entry e t False) rdy) = Inr rdy'"
proof -
  have keys: "map fst ms = [cam, cam @ FRAME_INFO_SUFFIX]" and
    mem: "\<And>k d. (k, d) \<in> set ms \<Longrightarrow> sd_element d \<in> set (b k) \<and> st_time (sd_element d) = t"
    using assms(1) by (auto simp: group_ok_def join_matcher_def)
  then obtain f r where ms: "ms = [(cam, f), (cam @ FRAME_INFO_SUFFIX, r)]"
    by (auto simp: map_eq_Cons_conv)
  have ne: "cam @ FRAME_INFO_SUFFIX \<noteq> cam" by (simp add: FRAME_INFO_SUFFIX_def lit_def)
  have times: "st_time (sd_element f) = t" "st_time (sd_element r) = t" using mem unfolding ms by auto
  have r: "st_topic (sd_element r) = cam @ FRAME_INFO_SUFFIX" "sd_element r \<in> identity ` set seen"
    using mem [of "cam @ FRAME_INFO_SUFFIX" r] assms(2) unfolding ms seen_buffers_def by auto
  obtain m e where m: "snd (snd (sd_element r)) = Some (Msg m)" "parse_frame_info cam t (ja_fields a m) = Inr e"
    "add_ready a cam outs (AList.update (cam, t) (bind_entry e t False) rdy) = Inr rdy'"
    using assms(4) ne times by (auto simp: ms Let_def split: option.splits payload.splits sum.splits)
  obtain el where el: "el \<in> set seen" "sd_element r = identity el" using r(2) by blast
  then have "el_topic el = cam @ FRAME_INFO_SUFFIX" "el_t_ns el = t" "payload_of el = Some (Msg m)"
    using r(1) times(2) m(1) by (simp_all add: identity_def st_topic_def st_time_def)
  then have "entry_of a cam el = [(t, e)]" using info_camera_own [OF assms(3)] m(2) by (simp add: entry_of_def)
  then have "(t, e) \<in> set (entries_of a seen cam)" using el(1) unfolding entries_of_def by (auto intro!: bexI [of _ el])
  then show ?thesis using m(3) by blast
qed

lemma add_ready_ok:
  "\<lbrakk>add_ready a cam outs rdy = Inr rdy'; ready_ok a seen rdy; \<forall>x \<in> set outs. group_ok (join_matcher cam) b x;
    seen_buffers seen b; cam \<in> set (ja_cameras a)\<rbrakk> \<Longrightarrow> ready_ok a seen rdy'"
proof (induction outs arbitrary: rdy)
  case (Cons x outs)
  show ?case
  proof (cases x)
    case (Formed t ms)
    then have "group_ok (join_matcher cam) b (Formed t ms)" "add_ready a cam (Formed t ms # outs) rdy = Inr rdy'"
      using Cons.prems by auto
    then obtain e where e: "(t, e) \<in> set (entries_of a seen cam)"
      "add_ready a cam outs (AList.update (cam, t) (bind_entry e t False) rdy) = Inr rdy'"
      using formed_ready Cons.prems(4,5) by blast
    have "ready_ok a seen (AList.update (cam, t) (bind_entry e t False) rdy)"
      using Cons.prems(2) e(1) unfolding ready_ok_def by (auto simp: map_of_AList_update split: if_splits)
    from Cons.IH [OF e(2) this] Cons.prems(3-5) show ?thesis by simp
  qed (use Cons in simp)
qed simp

lemma match_info_ok:
  assumes "match_info a cam el s = Inr s'" "join_camera a el = Some cam" "ready_ok a seen (jn_ready s)"
    "seen_buffers seen' (jn_match s cam)" "\<And>c. seen_buffers seen' (jn_match s c)" "set seen' \<subseteq> set seen" "el \<in> set seen"
  shows "ready_ok a seen (jn_ready s') \<and> (\<forall>c. seen_buffers seen (jn_match s' c)) \<and> jn_entries s' = jn_entries s \<and> jn_pending s' = jn_pending s"
proof -
  obtain outs buf where p: "push (join_matcher cam) (identity el) (jn_match s cam) = (outs, buf)" by fastforce
  obtain rdy where r: "add_ready a cam outs (jn_ready s) = Inr rdy" "s' = s\<lparr>jn_match := (jn_match s)(cam := buf), jn_ready := rdy\<rparr>"
    using assms(1) by (auto simp: match_info_def p bindE_eq_Inr)
  note ok = push_ok [OF p]
  have more: "seen_buffers seen (jn_match s c)" for c using assms(5) [of c] assms(6) unfolding seen_buffers_def by blast
  have full: "seen_buffers seen (join_buf (jn_match s cam) (by_key [identity el]))"
    using more [of cam] assms(7) unfolding seen_buffers_def join_buf_def by_key_def by auto
  then have "seen_buffers seen buf" using ok(2) unfolding seen_buffers_def within_buf_def by blast
  then have "seen_buffers seen (jn_match s' c)" for c using more unfolding r(2) by simp
  moreover have "ready_ok a seen rdy" by (rule add_ready_ok [OF r(1) assms(3) ok(1) full join_camera_mem [OF assms(2)]])
  ultimately show ?thesis unfolding r(2) by simp
qed

definition join_inv :: "('img, 'p) join_args \<Rightarrow> ('img, 'p) elem list \<Rightarrow> int \<Rightarrow> ('img, 'p) join_state \<Rightarrow> bool" where
  "join_inv a seen F s \<longleftrightarrow> windows_ok a seen F (jn_entries s) \<and> ready_ok a seen (jn_ready s)
     \<and> (\<forall>c. seen_buffers seen (jn_match s c)) \<and> sorted (map el_t_ns (jn_pending s))
     \<and> (\<forall>el \<in> set (jn_pending s). F \<le> el_t_ns el) \<and> set (jn_pending s) \<subseteq> set seen"

lemma no_entry: "info_camera a (el_topic el) = None \<or> payload_of el = None \<Longrightarrow> entry_of a cam el = []"
  by (auto simp: entry_of_def split: option.split)

lemma take_agrees:
  assumes inv: "join_inv a seen F s" and le: "\<forall>e \<in> set seen. el_t_ns e \<le> el_t_ns el" "F \<le> el_t_ns el"
    and take: "join_take a el s = Inr s'"
  shows "join_inv a (seen @ [el]) F s' \<and> jn_pending s' = jn_pending s @ filter (passes a) [el]"
proof -
  from take [unfolded join_take_def bindE_eq_Inr] obtain s1 s2 where
    s1: "(case (info_camera a (el_topic el), payload_of el) of
        (Some cam, Some msg) \<Rightarrow> add_info a cam (el_t_ns el) msg s | _ \<Rightarrow> Inr s) = Inr s1"
    and s2: "(case join_camera a el of Some cam \<Rightarrow> match_info a cam el s1 | None \<Rightarrow> Inr s1) = Inr s2"
    and "Inr (if info_camera a (el_topic el) = None \<or> el_topic el \<in> set (ja_emit a)
          then s2\<lparr>jn_pending := jn_pending s2 @ [el], jn_bytes := jn_bytes s2 + image_size a el\<rparr> else s2) = (Inr s' :: join_error + _)"
    by blast
  then have s': "s' = (if info_camera a (el_topic el) = None \<or> el_topic el \<in> set (ja_emit a)
          then s2\<lparr>jn_pending := jn_pending s2 @ [el], jn_bytes := jn_bytes s2 + image_size a el\<rparr> else s2)" by blast
  note i = inv [unfolded join_inv_def]
  have 1: "windows_ok a (seen @ [el]) F (jn_entries s1) \<and> jn_match s1 = jn_match s \<and> jn_ready s1 = jn_ready s \<and> jn_pending s1 = jn_pending s"
  proof (cases "\<exists>cam msg. info_camera a (el_topic el) = Some cam \<and> payload_of el = Some msg")
    case True
    then obtain cam msg where cm: "info_camera a (el_topic el) = Some cam" "payload_of el = Some msg" by blast
    then have "add_info a cam (el_t_ns el) msg s = Inr s1" using s1 by simp
    from add_info_windows [OF this _ le(1) cm refl] i show ?thesis by blast
  next
    case False
    then have "s1 = s" using s1 by (auto split: option.splits)
    moreover have "entry_of a cam el = []" for cam using False by (intro no_entry) auto
    ultimately show ?thesis using i by (simp add: windows_ok_def entries_snoc)
  qed
  have 2: "ready_ok a (seen @ [el]) (jn_ready s2) \<and> (\<forall>c. seen_buffers (seen @ [el]) (jn_match s2 c))
      \<and> jn_entries s2 = jn_entries s1 \<and> jn_pending s2 = jn_pending s1"
  proof (cases "join_camera a el")
    case None
    then show ?thesis using s2 1 i ready_ok_more [of a seen "jn_ready s" el] by (auto simp: seen_buffers_def)
  next
    case (Some cam)
    then have m: "match_info a cam el s1 = Inr s2" using s2 by simp
    have b: "seen_buffers seen (jn_match s1 c)" for c using i 1 by simp
    have "ready_ok a (seen @ [el]) (jn_ready s1)" using 1 i ready_ok_more [of a seen "jn_ready s" el] by simp
    from match_info_ok [OF m Some this b b] show ?thesis by (simp add: subset_insertI)
  qed
  have "sorted (map el_t_ns (jn_pending s @ [el]))" using i le(1) by (auto simp: sorted_append)
  then show ?thesis using 1 2 i le(2) unfolding s' join_inv_def passes_def by auto
qed

lemma drain_agrees:
  assumes inv: "join_inv a seen F s" and F: "F \<le> w" and fin: "final \<longrightarrow> later = (\<lambda>_. [])"
    and dr: "drain a w final s = ((outs, None), s')"
  shows "\<exists>d G. jn_pending s = d @ jn_pending s' \<and> outs = map (attach a (\<lambda>cam. entries_of a seen cam @ later cam)) d
    \<and> join_inv a seen G s' \<and> (\<forall>el \<in> set (jn_pending s'). el_t_ns el \<le> w \<longrightarrow> G \<le> w) \<and> (jn_pending s' = [] \<longrightarrow> G = w)
    \<and> (final \<longrightarrow> jn_pending s' = [])"
proof -
  note i = inv [unfolded join_inv_def]
  obtain s1 where p: "drain_pending a w final s (jn_pending s) = ((outs, None), s1)"
    and s': "s' = s1\<lparr>jn_entries := (\<lambda>cam. forget (case jn_pending s1 of [] \<Rightarrow> w | el # _ \<Rightarrow> el_t_ns el) (jn_entries s1 cam))\<rparr>"
    using dr by (auto simp: drain_def Let_def split: prod.splits)
  have "\<exists>d rest. jn_pending s = d @ rest \<and> outs = map (attach a (\<lambda>cam. entries_of a seen cam @ later cam)) d \<and> jn_pending s1 = rest
    \<and> jn_entries s1 = jn_entries s \<and> jn_match s1 = jn_match s \<and> ready_ok a seen (jn_ready s1) \<and> (final \<longrightarrow> None = (None :: join_error option) \<longrightarrow> rest = [])"
    by (rule drain_pending_agrees [where F = F, OF _ _ _ fin p]) (use i in simp_all)
  then obtain d where d: "jn_pending s = d @ jn_pending s1" "outs = map (attach a (\<lambda>cam. entries_of a seen cam @ later cam)) d"
    "jn_entries s1 = jn_entries s" "jn_match s1 = jn_match s" "ready_ok a seen (jn_ready s1)" "final \<longrightarrow> jn_pending s1 = []" by blast
  let ?G = "case jn_pending s1 of [] \<Rightarrow> w | el # _ \<Rightarrow> el_t_ns el"
  have pend: "sorted (map el_t_ns (jn_pending s1))" "set (jn_pending s1) \<subseteq> set (jn_pending s)"
    using i unfolding d(1) by (auto simp: sorted_append)
  then have G: "F \<le> ?G" "\<forall>el \<in> set (jn_pending s1). ?G \<le> el_t_ns el"
    using F i by (auto split: list.split) 
  have "windows_ok a seen ?G (jn_entries s')"
    using i window_forget [OF _ G(1)] unfolding s' windows_ok_def by (simp add: d(3))
  then have "join_inv a seen ?G s'" using i pend G(2) d(4,5) unfolding join_inv_def s' by auto
  moreover have "\<forall>el \<in> set (jn_pending s'). el_t_ns el \<le> w \<longrightarrow> ?G \<le> w" using G(2) unfolding s' by fastforce
  ultimately show ?thesis using d unfolding s' by (intro exI [of _ d] exI [of _ ?G]) auto
qed

lemma step_agrees:
  assumes inv: "join_inv a seen F s" and le: "\<forall>e \<in> set seen. el_t_ns e \<le> el_t_ns el" "F \<le> el_t_ns el"
    and step: "join_step a el s = ((outs, None), s')"
  shows "\<exists>d G. jn_pending s @ filter (passes a) [el] = d @ jn_pending s'
    \<and> outs = map (attach a (\<lambda>cam. entries_of a (seen @ [el]) cam @ later cam)) d
    \<and> join_inv a (seen @ [el]) G s' \<and> G \<le> el_t_ns el"
proof -
  obtain s1 where s1: "join_take a el s = Inr s1" and dr: "drain a (el_t_ns el) False s1 = ((outs, None), s')"
    using step by (auto simp: join_step_def split: sum.splits option.splits prod.splits if_splits)
  note t = take_agrees [OF inv le s1]
  have fin: "False \<longrightarrow> later = (\<lambda>_. [])" by simp
  obtain d G where d: "jn_pending s1 = d @ jn_pending s'" "outs = map (attach a (\<lambda>cam. entries_of a (seen @ [el]) cam @ later cam)) d"
    "join_inv a (seen @ [el]) G s'" "\<forall>e \<in> set (jn_pending s'). el_t_ns e \<le> el_t_ns el \<longrightarrow> G \<le> el_t_ns el" "jn_pending s' = [] \<longrightarrow> G = el_t_ns el"
    using drain_agrees [OF conjunct1 [OF t] le(2) fin dr] by blast
  have "G \<le> el_t_ns el"
  proof (cases "jn_pending s'")
    case (Cons e es)
    then have "e \<in> set (seen @ [el])" using d(3) unfolding join_inv_def by auto
    then show ?thesis using d(4) le(1) Cons by auto
  qed (use d(5) in simp)
  then show ?thesis using d t by auto
qed

lemma run_agrees:
  assumes "join_inv a seen F s" "sorted (map el_t_ns (seen @ els))" "\<forall>el \<in> set els. F \<le> el_t_ns el"
    "join_run a els s = ((outs, None), s')"
  shows "\<exists>d G. jn_pending s @ filter (passes a) els = d @ jn_pending s'
    \<and> outs = map (attach a (entries_of a (seen @ els))) d \<and> join_inv a (seen @ els) G s'"
  using assms
proof (induction els arbitrary: seen F s outs)
  case Nil
  then show ?case by (intro exI [of _ "[]"] exI [of _ F]) auto
next
  case (Cons el els)
  obtain o1 s1 where st: "join_step a el s = ((o1, None), s1)"
    using Cons.prems(4) by (auto split: prod.splits option.splits)
  then obtain o2 where rest: "join_run a els s1 = ((o2, None), s')" "outs = o1 @ o2"
    using Cons.prems(4) by (auto simp: Let_def split: prod.splits)
  have le: "\<forall>e \<in> set seen. el_t_ns e \<le> el_t_ns el" "F \<le> el_t_ns el" using Cons.prems(2,3) by (auto simp: sorted_append)
  let ?later = "entries_of a els"
  obtain d G where d: "jn_pending s @ filter (passes a) [el] = d @ jn_pending s1"
    "o1 = map (attach a (\<lambda>cam. entries_of a (seen @ [el]) cam @ ?later cam)) d" "join_inv a (seen @ [el]) G s1" "G \<le> el_t_ns el"
    using step_agrees [OF Cons.prems(1) le st, of ?later] by blast
  have "\<forall>e \<in> set els. G \<le> el_t_ns e" using Cons.prems(2) d(4) by (fastforce simp: sorted_append)
  from Cons.IH [OF d(3) _ this rest(1)] Cons.prems(2) obtain d' G' where
    d': "jn_pending s1 @ filter (passes a) els = d' @ jn_pending s'" "o2 = map (attach a (entries_of a (seen @ el # els))) d'"
    "join_inv a (seen @ el # els) G' s'" by auto
  have tr: "(\<lambda>cam. entries_of a (seen @ [el]) cam @ ?later cam) = entries_of a (seen @ el # els)"
    by (simp add: entries_of_def fun_eq_iff)
  have "jn_pending s @ filter (passes a) (el # els) = (jn_pending s @ filter (passes a) [el]) @ filter (passes a) els" by simp
  also have "\<dots> = (d @ d') @ jn_pending s'" unfolding d(1) using d'(1) by simp
  finally have "jn_pending s @ filter (passes a) (el # els) = (d @ d') @ jn_pending s'" .
  moreover have "outs = map (attach a (entries_of a (seen @ el # els))) (d @ d')"
    using rest(2) d(2) d'(2) unfolding tr by simp
  ultimately show ?case using d'(3) by blast
qed

lemma join_whole:
  assumes "sorted (map el_t_ns els)" and "join_exposure a (els, None :: 'x option) = (outs, None)"
  shows "outs = map (attach a (entries_of a els)) (filter (passes a) els)"
proof -
  obtain o1 s1 where run: "join_run a els init_join = ((o1, None), s1)"
    using assms(2) by (auto simp: join_exposure_def split: prod.splits option.splits)
  then obtain o2 where e: "join_end a s1 = (o2, None)" "outs = o1 @ o2"
    using assms(2) by (auto simp: join_exposure_def Let_def split: prod.splits)
  define F where "F = (if els = [] then 0 else el_t_ns (hd els))"
  have "F \<le> el_t_ns el" if "el \<in> set els" for el using assms(1) that by (cases els) (auto simp: F_def)
  moreover have "join_inv a [] F init_join"
    by (simp add: join_inv_def init_join_def windows_ok_def window_of_def entries_of_def ready_ok_def seen_buffers_def)
  ultimately obtain d G where d: "filter (passes a) els = d @ jn_pending s1" "o1 = map (attach a (entries_of a els)) d" "join_inv a els G s1"
    using run_agrees [of a "[]" F init_join els o1 s1] assms(1) run by (auto simp: init_join_def)
  let ?w = "if jn_pending s1 = [] then 0 else el_t_ns (last (jn_pending s1))"
  obtain s2 where dr: "drain a ?w True s1 = ((o2, None), s2)" using e(1) unfolding join_end_def by (metis prod.collapse)
  have "o2 = map (attach a (entries_of a els)) (jn_pending s1)"
  proof (cases "jn_pending s1 = []")
    case True
    then show ?thesis using dr by (simp add: drain_def)
  next
    case False
    then have "G \<le> el_t_ns (last (jn_pending s1))" using d(3) by (simp add: join_inv_def)
    then have G: "G \<le> ?w" using False by simp
    have fin: "True \<longrightarrow> (\<lambda>_ :: ustr. [] :: track) = (\<lambda>_. [])" by simp
    show ?thesis using drain_agrees [OF d(3) G fin dr] by auto
  qed
  then show ?thesis using d(1,2) e(2) by simp
qed

section \<open>Properties\<close>

definition sample_exposure_info :: frame_info_msg where
  "sample_exposure_info = \<lparr>fi_exposure_us = 10, fi_exposure_mid_offset_us = 5, fi_gain = 1, fi_line_delay_ns = 0, fi_readout_direction = 0\<rparr>"

definition sample_join :: "(unit, frame_info_msg) join_args" where
  "sample_join = \<lparr>ja_cameras = [[99]], ja_emit = [], ja_max_gap = 1000, ja_max_bytes = 100, ja_nbytes = (\<lambda>_. 1), ja_fields = id\<rparr>"

definition sample_feed :: "(unit, frame_info_msg) elem list" where
  "sample_feed = [Record ([99] @ FRAME_INFO_SUFFIX) 10 [] (Msg sample_exposure_info), Frame [99] 10 () [] None, Frame [99] 20 () [] None,
     Record ([99] @ FRAME_INFO_SUFFIX) 30 [] (Msg (sample_exposure_info\<lparr>fi_exposure_us := 20\<rparr>)), ImuSample [105] 40 (0, 0, 0) (0, 0, 0) None]"

lemma sample_feed_joined: "snd (join_exposure sample_join (sample_feed, None :: unit option)) = None"
  by code_simp

text \<open>
  C32. The exposure joined into a stream is the one of the indexed read. On a stream in time order,
  \<open>join_exposure\<close>, which sees every entry once, forgets entries and holds frames back as little as it can,
  either ends with an error or yields every element but the unasked \<open>frame_info\<close> records, in order, each frame
  of a camera with the exposure that the whole track of that camera gives it (\<open>_ExposureTrack.at\<close>): the exact
  entry if there is one, else the interpolated or held one.
\<close>

theorem join_agrees_with_the_track:
  assumes "sorted (map el_t_ns els)" and "join_exposure a (els, None :: 'x option) = (outs, None)"
  shows "outs = map (attach a (entries_of a els)) (filter (passes a) els)"
  using assms by (rule join_whole)

lemma join_agrees_with_the_track_witness:
  "fst (join_exposure sample_join (sample_feed, None :: unit option))
     = map (attach sample_join (entries_of sample_join sample_feed)) (filter (passes sample_join) sample_feed)"
proof (rule join_agrees_with_the_track)
  show "sorted (map el_t_ns sample_feed)" by (simp add: sample_feed_def)
  show "join_exposure sample_join (sample_feed, None :: unit option)
      = (fst (join_exposure sample_join (sample_feed, None :: unit option)), None)"
    using sample_feed_joined by (metis prod.collapse)
qed

section \<open>Two reads that cannot work\<close>

text \<open>
  A \<open>frame_info\<close> topic asked for as passthrough ends the stream: with its camera decoded, the first of its records,
  which carries no parsed message, breaks the join, whatever came before.
\<close>

lemma mapE_Inr_each: "mapE f xs = Inr ys \<Longrightarrow> x \<in> set xs \<Longrightarrow> \<exists>y. f x = Inr y"
  by (induction xs arbitrary: ys) (auto simp: bindE_eq_Inr)

lemma join_run_append:
  "join_run a pre s = ((outs, None), s') \<Longrightarrow> join_run a (pre @ els) s
     = (let ((rest, err), s'') = join_run a els s' in ((outs @ rest, err), s''))"
  by (induction a pre s arbitrary: outs rule: join_run.induct) (auto split: prod.splits option.splits)

lemma raw_frame_info_breaks_the_join:
  assumes "cam \<in> set (ja_cameras a)" "join_run a pre init_join = ((outs, None), s)"
  obtains e where "e \<in> {NoMessage cam, DuplicateInfo cam}"
    "join_exposure a (pre @ Record (cam @ FRAME_INFO_SUFFIX) t schema (Wire data) # els, err :: 'x option)
       = (outs, Some (Inl e))"
proof -
  have "\<exists>e. e \<in> {NoMessage cam, DuplicateInfo cam} \<and> join_take a (Record (cam @ FRAME_INFO_SUFFIX) t schema (Wire data)) s = Inl e"
    using info_camera_own [OF assms(1)] by (auto simp: join_take_def add_info_def Let_def guardE_def)
  then obtain e where e: "e \<in> {NoMessage cam, DuplicateInfo cam}"
    "join_take a (Record (cam @ FRAME_INFO_SUFFIX) t schema (Wire data)) s = Inl e" by blast
  then show ?thesis
    using that [OF e(1)] by (simp add: join_exposure_def join_run_append [OF assms(2)] join_step_def)
qed

text \<open>A session for one device, over a file with a \<open>frame_info\<close> topic of another, has no exposures: the search for its
  cameras ends with an error.\<close>

lemma other_device_stops_the_exposures:
  assumes "m \<in> set (se_members s)" "t \<in> set (frame_info_topics (me_index m))"
    and "topic_device t = Some other" "se_device s = Some d" "d \<noteq> []" "47 \<notin> set d" "other \<noteq> d"
  obtains e where "exposure_cams descriptors s = Inl e"
proof -
  have strip: "strip_device_topic_prefix t (se_device s) = None"
    using device_prefix_stripped [OF assms(5,6), THEN conjunct2, THEN conjunct1, of t other] assms(3,4,7) by simp
  show ?thesis
  proof (cases "exposure_cams descriptors s")
    case (Inr cams)
    then obtain ys where "mapE (\<lambda>m. bindE (frame_info_is_current descriptors (me_index m)) (\<lambda>current.
       bindE (mapE (exposure_cam (se_device s)) (frame_info_topics (me_index m))) (\<lambda>cams.
       Inr (if current then cams else [])))) (se_members s) = Inr ys" by (auto simp: exposure_cams_def bindE_eq_Inr)
    from mapE_Inr_each [OF this assms(1)] obtain zs where "mapE (exposure_cam (se_device s)) (frame_info_topics (me_index m)) = Inr zs"
      by (auto simp: bindE_eq_Inr)
    from mapE_Inr_each [OF this assms(2)] strip show ?thesis by (simp add: exposure_cam_def)
  qed (use that in blast)
qed

end
