(* ===== verification/SessionStream.thy ===== *)
theory SessionStream
  imports Exposure Rows
begin

text \<open>
  The streams of a session (\<open>reader/session.py\<close>, \<open>Session.stream\<close>): which files a window reads, the rows of a
  file through their adapters or untouched, the decoder state that goes from one part of a recording to the
  next, the merge of the streams by arrival, the reorder window and the exposure join. The backend is the
  CPU one. A generator is the list of what it yields and the error that ends it; sets of topics are lists.
\<close>

section \<open>What a file is read for\<close>

definition DECODABLE :: "ustr list" where "DECODABLE = [VIDEO_SCHEMA, IMU_RAW_SCHEMA]"
definition PREBUILT :: "ustr list" where "PREBUILT = [VIDEO_SCHEMA, IMAGE_SCHEMA, IMU_RAW_SCHEMA]"
definition NATIVE_SCHEMAS :: "ustr list" where "NATIVE_SCHEMAS = PREBUILT @ [POSE_SCHEMA, JOINT_STATES_SCHEMA]"

definition canon_of :: "session \<Rightarrow> ustr \<Rightarrow> ustr" where
  "canon_of s topic = (case strip_device_topic_prefix topic (se_device s) of None \<Rightarrow> [] | Some c \<Rightarrow> c)"

definition wanted_prefixed :: "session \<Rightarrow> file_index \<Rightarrow> ustr list option \<Rightarrow> bool \<Rightarrow> ustr list" where
  "wanted_prefixed s ix want raw_all = map fst (filter (\<lambda>(topic, schema, n).
     case strip_device_topic_prefix topic (se_device s) of
       None \<Rightarrow> False
     | Some canon \<Rightarrow> (case want of
           None \<Rightarrow> raw_all \<or> schema \<in> set DECODABLE
         | Some w \<Rightarrow> canon \<in> set w)) (ix_topics ix))"

type_synonym ('img, 'p) stream_triple = "('img, 'p payload) triple"

datatype stream_error = StreamRead read_error | StreamRows rows_error | StreamJoin join_error

definition wire_triple :: "session \<Rightarrow> session_row \<Rightarrow> mcap_schema \<Rightarrow> ('img, 'p) stream_triple" where
  "wire_triple s r schema = (sr_time r, sr_time r,
     Record (canon_of s (sr_topic r)) (sr_time r) (sc_name schema) (Wire (sr_data r)))"

text \<open>\<open>_iter_file_raw\<close>\<close>

definition iter_file_raw :: "session \<Rightarrow> member \<Rightarrow> ustr list \<Rightarrow> int option
    \<Rightarrow> ('img, 'p) stream_triple list \<times> stream_error option" where
  "iter_file_raw s m wanted end_ns =
     (let (rows, err) = read_messages m (Some wanted) None end_ns
      in (List.map_filter (\<lambda>r. map_option (wire_triple s r) (sr_schema r)) rows, map_option StreamRead err))"

section \<open>A file through its adapters\<close>

record 'c decoder_state =
  ds_video :: "'c video_state"
  ds_sequences :: "(ustr \<times> int) list"

definition init_decoders :: "'c decoder_state" where
  "init_decoders = \<lparr>ds_video = init_video, ds_sequences = []\<rparr>"

definition class_for :: "('p payload, 'u, 'img) proto_env \<Rightarrow> file_index \<Rightarrow> ustr \<Rightarrow> rows_error + msg_class" where
  "class_for P ix name =
     (if name \<in> set NATIVE_SCHEMAS then Inr (Generated name)
      else case map_of (ix_schema_rec ix) name of
             None \<Rightarrow> Inl UnknownInDescriptors
           | Some rec \<Rightarrow> resolve_message_class (pe_generated P) (pe_defines P) name (sc_encoding rec) (sc_data rec))"

type_synonym ('c, 'u) adapters = "(ustr \<times> ('c, 'u) adapter) list"

fun add_adapters :: "('p payload, 'u, 'img) proto_env \<Rightarrow> file_index \<Rightarrow> ustr list \<Rightarrow> (ustr \<times> ustr \<times> nat) list
    \<Rightarrow> ('c, 'u) adapters \<Rightarrow> rows_error + ('c, 'u) adapters" where
  "add_adapters P ix wanted [] built = Inr built"
| "add_adapters P ix wanted ((topic, schema, n) # ts) built =
     (if topic \<notin> set wanted \<or> map_of built schema \<noteq> None \<or> schema \<in> set PREBUILT \<or> map_of (ix_schema_rec ix) schema = None
      then add_adapters P ix wanted ts built
      else bindE (build_adapter P True (class_for P ix) schema) (\<lambda>a.
             add_adapters P ix wanted ts (built @ [(schema, a)])))"

definition build_adapters :: "('p payload, 'u, 'img) proto_env \<Rightarrow> file_index \<Rightarrow> ustr list
    \<Rightarrow> rows_error + ('c, 'u) adapters" where
  "build_adapters P ix wanted =
     bindE (mapE (\<lambda>name. bindE (build_adapter P True (class_for P ix) name) (\<lambda>a. Inr (name, a))) PREBUILT) (\<lambda>built.
     add_adapters P ix wanted (ix_topics ix) built)"

text \<open>
  The state that is carried: a gap in the sequence numbers of a camera throws its decoder away, then the
  access unit goes to the shared decoders, whose first one must be a keyframe.
\<close>

definition next_sequence :: "ustr \<Rightarrow> int \<Rightarrow> 'c decoder_state \<Rightarrow> 'c decoder_state" where
  "next_sequence canon n d =
     (let v = ds_video d;
          gap = (case map_of (ds_sequences d) canon of None \<Rightarrow> False | Some previous \<Rightarrow> n \<noteq> (previous + 1) mod 2 ^ 32)
      in \<lparr>ds_video = (if gap then \<lparr>vs_decoders = AList.delete canon (vs_decoders v),
                                   vs_formats = AList.delete canon (vs_formats v)\<rparr> else v),
          ds_sequences = AList.update canon n (ds_sequences d)\<rparr>)"

definition emit_carried :: "('p payload, 'u, 'img) proto_env \<Rightarrow> ('c, 'f, 'img) av_env \<Rightarrow> ustr \<Rightarrow> session_row \<Rightarrow> ustr
    \<Rightarrow> 'c decoder_state \<Rightarrow> (('img, 'p) stream_triple list \<times> rows_error option) \<times> 'c decoder_state" where
  "emit_carried P E pixel_format r canon d =
     (let d = next_sequence canon (sr_sequence r) d
      in case pe_decoded P (Generated VIDEO_SCHEMA) (sr_data r) of
           None \<Rightarrow> (([], Some ProtoDecodeError), d)
         | Some v \<Rightarrow> let (out, vs) = video_emit E True pixel_format (\<lambda>_ _. None) v canon (sr_time r) (ds_video d)
                     in (out, d\<lparr>ds_video := vs\<rparr>))"

text \<open>One row: what it yields, and the adapters and the carried state after it.\<close>

definition carries_video :: "session \<Rightarrow> 'c decoder_state option \<Rightarrow> bool" where
  "carries_video s st \<longleftrightarrow> st \<noteq> None \<and> VIDEO_SCHEMA \<notin> set (se_adapters s)"

definition emit_row :: "('p payload, 'u, 'img) proto_env \<Rightarrow> ('c, 'f, 'img) av_env \<Rightarrow> ustr \<Rightarrow> session \<Rightarrow> ustr list
    \<Rightarrow> session_row \<Rightarrow> ('c, 'u) adapters \<Rightarrow> 'c decoder_state option
    \<Rightarrow> (('img, 'p) stream_triple list \<times> rows_error option) \<times> ('c, 'u) adapters \<times> 'c decoder_state option" where
  "emit_row P E pixel_format s raw_set r built st =
     (case sr_schema r of
        None \<Rightarrow> (([], None), built, st)
      | Some schema \<Rightarrow>
          let canon = canon_of s (sr_topic r); name = sc_name schema
          in if canon \<in> set raw_set then (([wire_triple s r schema], None), built, st)
             else case map_of built name of
                    None \<Rightarrow> (([], None), built, st)
                  | Some a \<Rightarrow>
                      if carries_video s st \<and> name = VIDEO_SCHEMA then
                        let (out, d) = emit_carried P E pixel_format r canon (the st) in (out, built, Some d)
                      else
                        let (out, a) = adapter_emit P E pixel_format (sr_data r) canon (sr_time r) a
                        in (out, AList.update name a built, st))"

fun file_rows :: "('p payload, 'u, 'img) proto_env \<Rightarrow> ('c, 'f, 'img) av_env \<Rightarrow> ustr \<Rightarrow> session \<Rightarrow> ustr list
    \<Rightarrow> session_row list \<Rightarrow> read_error option \<Rightarrow> ('c, 'u) adapters \<Rightarrow> 'c decoder_state option
    \<Rightarrow> (('img, 'p) stream_triple list \<times> stream_error option) \<times> 'c decoder_state option" where
  "file_rows P E pixel_format s raw_set [] (Some e) built st = (([], Some (StreamRead e)), st)"
| "file_rows P E pixel_format s raw_set [] None built st =
     (let (xs, err) = flush_all P (if carries_video s st then filter (\<lambda>x. fst x \<noteq> VIDEO_SCHEMA) built else built)
      in ((xs, map_option StreamRows err), st))"
| "file_rows P E pixel_format s raw_set (r # rows) end_err built st =
     (case emit_row P E pixel_format s raw_set r built st of
        ((xs, Some e), _, st) \<Rightarrow> ((xs, Some (StreamRows e)), st)
      | ((xs, None), built, st) \<Rightarrow>
          let ((ys, err), st) = file_rows P E pixel_format s raw_set rows end_err built st in ((xs @ ys, err), st))"

text \<open>\<open>_iter_file\<close>\<close>

definition iter_file :: "('p payload, 'u, 'img) proto_env \<Rightarrow> ('c, 'f, 'img) av_env \<Rightarrow> ustr \<Rightarrow> session \<Rightarrow> bool
    \<Rightarrow> ustr list \<Rightarrow> int option \<Rightarrow> member \<Rightarrow> ustr list option \<Rightarrow> 'c decoder_state option
    \<Rightarrow> (('img, 'p) stream_triple list \<times> stream_error option) \<times> 'c decoder_state option" where
  "iter_file P E pixel_format s raw_all raw_set end_ns m want st =
     (let wanted = wanted_prefixed s (me_index m) want raw_all
      in if wanted = [] then (([], None), st)
         else if raw_all then (iter_file_raw s m wanted end_ns, st)
         else case build_adapters P (me_index m) (filter (\<lambda>t. canon_of s t \<notin> set raw_set) wanted) of
                Inl e \<Rightarrow> (([], Some (StreamRows e)), st)
              | Inr built \<Rightarrow> let (rows, err) = read_messages m (Some wanted) None end_ns
                             in file_rows P E pixel_format s raw_set rows err built st)"

section \<open>Which files a window reads\<close>

definition member_at :: "session \<Rightarrow> nat \<Rightarrow> member" where
  "member_at s i = se_members s ! i"

text \<open>The next part of the same recording, whose video goes on.\<close>

definition continues :: "rotation option \<Rightarrow> rotation option \<Rightarrow> bool" where
  "continues previous rot \<longleftrightarrow> (case (previous, rot) of
     (Some (ident', part', _), Some (ident, part, continuation)) \<Rightarrow> continuation \<and> ident = ident' \<and> part = part' + 1
   | _ \<Rightarrow> False)"

fun chains_of :: "session \<Rightarrow> nat list \<Rightarrow> nat list list" where
  "chains_of s [] = []"
| "chains_of s (i # is') =
     (let rot = me_rotation (member_at s i); later = chains_of s is'
      in case is' of
           [] \<Rightarrow> [[i]]
         | j # _ \<Rightarrow> if continues rot (me_rotation (member_at s j)) then (i # hd later) # tl later else [i] # later)"

definition selected_video :: "session \<Rightarrow> ustr list option \<Rightarrow> ustr list \<Rightarrow> nat \<Rightarrow> ustr list" where
  "selected_video s want raw_set i =
     (let ix = me_index (member_at s i); selected = wanted_prefixed s ix want False
      in map (\<lambda>(topic, schema, n). canon_of s topic) (filter (\<lambda>(topic, schema, n).
           n \<noteq> 0 \<and> topic \<in> set selected \<and> schema = VIDEO_SCHEMA \<and> canon_of s topic \<notin> set raw_set) (ix_topics ix)))"

definition ends_with :: "ustr \<Rightarrow> ustr \<Rightarrow> bool" where
  "ends_with t suf \<longleftrightarrow> drop (length t - length suf) t = suf"

definition early_topics :: "session \<Rightarrow> ustr list option \<Rightarrow> ustr list \<Rightarrow> int option \<Rightarrow> nat \<Rightarrow> ustr list" where
  "early_topics s want raw_set info_start i =
     (let ix = me_index (member_at s i); selected = wanted_prefixed s ix want False
      in map (\<lambda>(topic, schema, n). canon_of s topic) (filter (\<lambda>(topic, schema, n).
           n \<noteq> 0 \<and> topic \<in> set selected \<and> canon_of s topic \<notin> set raw_set
           \<and> (schema \<in> {IMU_RAW_SCHEMA, IMU_QUAT_SCHEMA} \<or> schema \<in> set (se_adapters s)
              \<or> ends_with topic FRAME_INFO_SUFFIX \<and> spans_window ix info_start None)) (ix_topics ix)))"

text \<open>
  \<open>_preroll_start\<close>: back from the first part of the window to the one that holds a keyframe of every camera
  still needed. \<open>Inr (True, _)\<close>: all were found, the generator is left there.
\<close>

fun preroll_rows :: "('p payload, 'u, 'img) proto_env \<Rightarrow> (ustr \<times> ustr) list \<Rightarrow> session_row list \<Rightarrow> ustr list
    \<Rightarrow> rows_error + bool \<times> ustr list" where
  "preroll_rows P names [] needed = Inr (False, needed)"
| "preroll_rows P names (r # rows) needed =
     (case map_of names (sr_topic r) of
        None \<Rightarrow> preroll_rows P names rows needed
      | Some canon \<Rightarrow>
          if canon \<notin> set needed then preroll_rows P names rows needed
          else case pe_decoded P (Generated VIDEO_SCHEMA) (sr_data r) of
                 None \<Rightarrow> Inl ProtoDecodeError
               | Some v \<Rightarrow>
                   if is_keyframe (vm_format v) (vm_data v) = Some True then
                     let needed = removeAll canon needed
                     in if needed = [] then Inr (True, []) else preroll_rows P names rows needed
                   else preroll_rows P names rows needed)"

fun preroll_scan :: "('p payload, 'u, 'img) proto_env \<Rightarrow> session \<Rightarrow> nat list \<Rightarrow> int \<Rightarrow> nat list \<Rightarrow> ustr list
    \<Rightarrow> stream_error + nat" where
  "preroll_scan P s chain start_ns [] needed = Inr 0"
| "preroll_scan P s chain start_ns (pos # ps) needed =
     (let m = member_at s (chain ! pos);
          names = map (\<lambda>(topic, schema, n). (topic, canon_of s topic)) (filter (\<lambda>(topic, schema, n).
            n \<noteq> 0 \<and> schema = VIDEO_SCHEMA \<and> canon_of s topic \<in> set needed) (ix_topics (me_index m)))
      in if names = [] then preroll_scan P s chain start_ns ps needed
         else let (rows, err) = read_messages m (Some (map fst names)) None (Some (start_ns + 1))
              in case preroll_rows P names rows needed of
                   Inl e \<Rightarrow> Inl (StreamRows e)
                 | Inr (True, _) \<Rightarrow> Inr pos
                 | Inr (False, needed) \<Rightarrow> (case err of
                       Some e \<Rightarrow> Inl (StreamRead e)
                     | None \<Rightarrow> preroll_scan P s chain start_ns ps needed))"

definition preroll_start :: "('p payload, 'u, 'img) proto_env \<Rightarrow> session \<Rightarrow> nat list \<Rightarrow> nat \<Rightarrow> int \<Rightarrow> ustr list
    \<Rightarrow> stream_error + nat" where
  "preroll_start P s chain first start_ns needed =
     (if needed = [] then Inr first else preroll_scan P s chain start_ns (rev [0..<first + 1]) needed)"

definition chain_part :: "('p payload, 'u, 'img) proto_env \<Rightarrow> session \<Rightarrow> int option \<Rightarrow> int option \<Rightarrow> ustr list option
    \<Rightarrow> bool \<Rightarrow> ustr list \<Rightarrow> nat list \<Rightarrow> stream_error + nat list" where
  "chain_part P s start_ns end_ns want raw_all raw_set chain =
     (let overlaps = filter (\<lambda>pos. spans_window (me_index (member_at s (chain ! pos))) start_ns end_ns) [0..<length chain];
          first = hd overlaps; final = last overlaps
      in if overlaps = [] then Inr []
         else bindE (case start_ns of
                 Some t \<Rightarrow>
                   if me_rotation (member_at s (chain ! first)) \<noteq> None \<and> \<not> raw_all \<and> VIDEO_SCHEMA \<notin> set (se_adapters s) then
                     let preceding = concat (map (selected_video s want raw_set) (take first chain));
                         inside = concat (map (selected_video s want raw_set) (drop first (take (final + 1) chain)))
                     in preroll_start P s chain first t (filter (\<lambda>c. c \<in> set inside) preceding)
                   else Inr first
               | None \<Rightarrow> Inr first) (\<lambda>first.
              Inr (drop first (take (final + 1) chain))))"

text \<open>
  \<open>_window_members\<close>: the places of the files that are read, in order, each with what is wanted of it. A file
  before the window is still read for the topics whose messages reach into it.
\<close>

definition early_use :: "session \<Rightarrow> int option \<Rightarrow> int option \<Rightarrow> ustr list option \<Rightarrow> bool \<Rightarrow> ustr list \<Rightarrow> int option
    \<Rightarrow> nat \<Rightarrow> ustr list" where
  "early_use s start_ns end_ns want raw_all raw_set info_start i =
     (let ix = me_index (member_at s i)
      in case (start_ns, ix_end ix) of
           (Some t, Some e) \<Rightarrow>
             if \<not> raw_all \<and> \<not> spans_window ix start_ns end_ns \<and> e < t then early_topics s want raw_set info_start i else []
         | _ \<Rightarrow> [])"

definition window_members :: "('p payload, 'u, 'img) proto_env \<Rightarrow> session \<Rightarrow> nat list \<Rightarrow> int option \<Rightarrow> int option
    \<Rightarrow> ustr list option \<Rightarrow> bool \<Rightarrow> ustr list \<Rightarrow> int option \<Rightarrow> stream_error + (nat \<times> ustr list option) list" where
  "window_members P s members start_ns end_ns want raw_all raw_set info_start =
     bindE (mapE (chain_part P s start_ns end_ns want raw_all raw_set) (chains_of s members)) (\<lambda>parts.
     Inr (concat (map (\<lambda>i. if i \<in> set (concat parts) then [(i, want)]
            else if early_use s start_ns end_ns want raw_all raw_set info_start i \<noteq> []
              then [(i, Some (early_use s start_ns end_ns want raw_all raw_set info_start i))] else []) members)))"

section \<open>A stream, and the merge of the streams\<close>

fun stream_files :: "('p payload, 'u, 'img) proto_env \<Rightarrow> ('c, 'f, 'img) av_env \<Rightarrow> ustr \<Rightarrow> session \<Rightarrow> bool \<Rightarrow> ustr list
    \<Rightarrow> int option \<Rightarrow> (nat \<times> ustr list option) list \<Rightarrow> 'c decoder_state option \<Rightarrow> rotation option
    \<Rightarrow> ('img, 'p) stream_triple list \<times> stream_error option" where
  "stream_files P E pixel_format s raw_all raw_set end_ns [] st previous = ([], None)"
| "stream_files P E pixel_format s raw_all raw_set end_ns ((i, w) # rest) st previous =
     (let m = member_at s i; rot = me_rotation m;
          st = (if continues previous rot then st
                else if rot \<noteq> None \<and> \<not> raw_all then Some init_decoders else None)
      in case iter_file P E pixel_format s raw_all raw_set end_ns m w st of
           ((xs, Some e), _) \<Rightarrow> (xs, Some e)
         | ((xs, None), st) \<Rightarrow>
             let (ys, err) = stream_files P E pixel_format s raw_all raw_set end_ns rest st rot in (xs @ ys, err))"

definition one_stream :: "('p payload, 'u, 'img) proto_env \<Rightarrow> ('c, 'f, 'img) av_env \<Rightarrow> ustr \<Rightarrow> session \<Rightarrow> bool \<Rightarrow> ustr list
    \<Rightarrow> ustr list option \<Rightarrow> int option \<Rightarrow> int option \<Rightarrow> int option \<Rightarrow> nat list
    \<Rightarrow> ('img, 'p) stream_triple list \<times> stream_error option" where
  "one_stream P E pixel_format s raw_all raw_set want start_read end_read info_start members =
     (case window_members P s members start_read end_read want raw_all raw_set info_start of
        Inl e \<Rightarrow> ([], Some e)
      | Inr sel \<Rightarrow> stream_files P E pixel_format s raw_all raw_set end_read sel None None)"

text \<open>
  \<open>heapq.merge\<close> of generators by arrival: each is read one item ahead, the least of those comes out, of equal
  ones that of the first generator; a generator that fails when it is read ends the merge.
\<close>

fun failed_gen :: "('a list \<times> 'x option) list \<Rightarrow> 'x option" where
  "failed_gen [] = None"
| "failed_gen (([], Some e) # gens) = Some e"
| "failed_gen (g # gens) = failed_gen gens"

definition live_gens :: "('a list \<times> 'x option) list \<Rightarrow> nat list" where
  "live_gens gens = filter (\<lambda>i. fst (gens ! i) \<noteq> []) [0..<length gens]"

definition next_gen :: "('a \<Rightarrow> int) \<Rightarrow> ('a list \<times> 'x option) list \<Rightarrow> nat" where
  "next_gen key gens = first_min (\<lambda>i. key (hd (fst (gens ! i)))) (hd (live_gens gens)) (tl (live_gens gens))"

definition pop_gen :: "nat \<Rightarrow> ('a list \<times> 'x option) list \<Rightarrow> ('a list \<times> 'x option) list" where
  "pop_gen i gens = gens[i := (tl (fst (gens ! i)), snd (gens ! i))]"

definition gens_size :: "('a list \<times> 'x option) list \<Rightarrow> nat" where
  "gens_size gens = sum_list (map (length \<circ> fst) gens)"

lemma next_gen_live: "live_gens gens \<noteq> [] \<Longrightarrow> next_gen key gens \<in> set (live_gens gens)"
  using first_min_mem [of "\<lambda>i. key (hd (fst (gens ! i)))" "hd (live_gens gens)" "tl (live_gens gens)"]
  by (cases "live_gens gens") (auto simp: next_gen_def)

lemma live_gen: "i \<in> set (live_gens gens) \<longleftrightarrow> i < length gens \<and> fst (gens ! i) \<noteq> []"
  by (auto simp: live_gens_def)

lemma pop_gen_size:
  assumes "i < length gens" "fst (gens ! i) \<noteq> []"
  shows "gens_size (pop_gen i gens) < gens_size gens"
proof -
  have "map (length \<circ> fst) (pop_gen i gens) = (map (length \<circ> fst) gens)[i := length (fst (gens ! i)) - 1]"
    using assms(1) by (simp add: pop_gen_def map_update)
  moreover have le: "length (fst (gens ! i)) \<le> sum_list (map (length \<circ> fst) gens)"
    using assms(1) by (intro member_le_sum_list) ((simp add: image_iff, metis nth_mem), simp_all)
  moreover have "sum_list ((map (length \<circ> fst) gens)[i := length (fst (gens ! i)) - 1])
      = sum_list (map (length \<circ> fst) gens) - length (fst (gens ! i)) + (length (fst (gens ! i)) - 1)"
    using assms(1) le by (subst sum_list_update) simp_all
  ultimately have "gens_size (pop_gen i gens) = gens_size gens - length (fst (gens ! i)) + (length (fst (gens ! i)) - 1)"
    unfolding gens_size_def by presburger
  moreover have "0 < length (fst (gens ! i))" using assms(2) by simp
  ultimately show ?thesis using le unfolding gens_size_def by linarith
qed

function merge_gens :: "('a \<Rightarrow> int) \<Rightarrow> ('a list \<times> 'x option) list \<Rightarrow> 'a list \<times> 'x option" where
  "merge_gens key gens =
     (case failed_gen gens of
        Some e \<Rightarrow> ([], Some e)
      | None \<Rightarrow> if live_gens gens = [] then ([], None)
               else let i = next_gen key gens; (xs, err) = merge_gens key (pop_gen i gens)
                    in (hd (fst (gens ! i)) # xs, err))"
  by pat_completeness auto
termination
  by (relation "measure (\<lambda>(key, gens). gens_size gens)") (auto simp: live_gen dest!: next_gen_live intro!: pop_gen_size)

declare merge_gens.simps [simp del]

section \<open>The stream\<close>

definition ONE_SECOND :: int where "ONE_SECOND = 1000000000"
definition MAX_FRAME_BYTES :: int where "MAX_FRAME_BYTES = 256 * 1024 * 1024"

record ('img, 'p) exposure_ext =
  xe_descriptors :: "bytes \<Rightarrow> descriptor_set option"
  xe_nbytes :: "'img \<Rightarrow> int"
  xe_fields :: "'p \<Rightarrow> frame_info_msg"

definition widen :: "(int \<Rightarrow> int \<Rightarrow> int) \<Rightarrow> int option \<Rightarrow> int \<Rightarrow> int option" where
  "widen f t n = map_option (\<lambda>t. f t n) t"

definition joined :: "('img, 'p) exposure_ext \<Rightarrow> ustr list \<Rightarrow> ustr list \<Rightarrow> int
    \<Rightarrow> ('img, 'p) elem list \<times> stream_error option \<Rightarrow> ('img, 'p) elem list \<times> stream_error option" where
  "joined X cameras explicit_info reorder_ns gen =
     (if cameras = [] then gen
      else let (els, err) = join_exposure \<lparr>ja_cameras = cameras, ja_emit = explicit_info, ja_max_gap = max ONE_SECOND reorder_ns,
              ja_max_bytes = MAX_FRAME_BYTES, ja_nbytes = xe_nbytes X, ja_fields = xe_fields X\<rparr> gen
           in (els, map_option (\<lambda>e. case e of Inl j \<Rightarrow> StreamJoin j | Inr x \<Rightarrow> x) err))"

definition ordered :: "int \<Rightarrow> ('img, 'p) stream_triple list \<times> stream_error option
    \<Rightarrow> ('img, 'p) elem list \<times> stream_error option" where
  "ordered reorder_ns gen = (let (triples, err) = gen
     in (if err = None then reorder reorder_ns triples else fst (reorder_run reorder_ns triples init_reorder), err))"

text \<open>\<open>_stream_elements\<close>\<close>

definition arrival_of :: "'e item \<Rightarrow> int" where "arrival_of x = fst (snd x)"

definition stream_elements :: "('p payload, 'u, 'img) proto_env \<Rightarrow> ('c, 'f, 'img) av_env \<Rightarrow> ('img, 'p) exposure_ext \<Rightarrow> session
    \<Rightarrow> ustr list option \<Rightarrow> int option \<Rightarrow> int option \<Rightarrow> ustr \<Rightarrow> bool \<Rightarrow> ustr list \<Rightarrow> ustr list \<Rightarrow> ustr list
    \<Rightarrow> ('img, 'p) elem list \<times> stream_error option" where
  "stream_elements P E X s want start_ns end_ns pixel_format raw_all raw_set cameras explicit_info =
     (let reorder_ns = se_reorder_ns s;
          context_ns = (if cameras \<noteq> [] then max ONE_SECOND reorder_ns else reorder_ns);
          gens = map (one_stream P E pixel_format s raw_all raw_set want (widen (-) start_ns reorder_ns)
                   (widen (+) end_ns context_ns) (widen (-) start_ns context_ns)) (filter (\<lambda>m. m \<noteq> []) (se_streams s));
          (els, err) = joined X cameras explicit_info reorder_ns (ordered reorder_ns (merge_gens arrival_of gens))
      in (filter (\<lambda>el. in_window (el_t_ns el) start_ns end_ns) els, err))"

text \<open>\<open>stream\<close>: \<open>raw\<close> is all or a collection, which is empty by default.\<close>

datatype raw_arg = RawAll | RawTopics "ustr list"

datatype stream_refusal = RawNeedsNoDecoder | RawNeedsTopics | RawNotInTopics "ustr list" | NoExposure exposure_error

definition raw_all_of :: "raw_arg \<Rightarrow> bool" where "raw_all_of raw \<longleftrightarrow> raw = RawAll"
definition raw_set_of :: "raw_arg \<Rightarrow> ustr list" where "raw_set_of raw = (case raw of RawAll \<Rightarrow> [] | RawTopics ts \<Rightarrow> ts)"

definition session_stream :: "('p payload, 'u, 'img) proto_env \<Rightarrow> ('c, 'f, 'img) av_env \<Rightarrow> ('img, 'p) exposure_ext \<Rightarrow> session
    \<Rightarrow> ustr list option \<Rightarrow> int option \<Rightarrow> int option \<Rightarrow> bool \<Rightarrow> raw_arg
    \<Rightarrow> stream_refusal + ('img, 'p) elem list \<times> stream_error option" where
  "session_stream P E X s topics start_ns end_ns gray raw =
     (let raw_all = raw_all_of raw; raw_set = raw_set_of raw;
          outside = (case topics of None \<Rightarrow> [] | Some ts \<Rightarrow> filter (\<lambda>t. t \<notin> set ts) raw_set);
          selected = (case topics of Some ts \<Rightarrow> ts
            | None \<Rightarrow> map fst (filter (\<lambda>(t, schema, n). schema \<in> set DECODABLE) (session_topics s)))
      in bindE (guardE (\<not> ((raw_all \<or> raw_set \<noteq> []) \<and> gray)) RawNeedsNoDecoder) (\<lambda>_.
         bindE (guardE (\<not> (raw_set \<noteq> [] \<and> topics = None)) RawNeedsTopics) (\<lambda>_.
         bindE (guardE (outside = []) (RawNotInTopics outside)) (\<lambda>_.
         if raw_all then Inr (stream_elements P E X s topics start_ns end_ns (pixel_format_of gray) True [] [] [])
         else case exposure_cams (xe_descriptors X) s of
                Inl e \<Rightarrow> Inl (NoExposure e)
              | Inr cams \<Rightarrow>
                  let cameras = filter (\<lambda>c. c \<in> set selected \<and> c \<notin> set raw_set) cams;
                      infos = map (\<lambda>c. c @ FRAME_INFO_SUFFIX) cameras
                  in Inr (stream_elements P E X s (if cameras = [] then topics else Some (selected @ infos)) start_ns end_ns
                       (pixel_format_of gray) False raw_set cameras (filter (\<lambda>t. t \<in> set selected) infos))))))"

section \<open>Arrivals\<close>

text \<open>
  \<open>laid_out ns xs\<close>: the triples come, in order, of messages with the stamps \<open>ns\<close>; each carries the stamp of
  its message as arrival and its own time, which is not before it.
\<close>

definition stamped_at :: "int \<Rightarrow> ('img, 'p) triple \<Rightarrow> bool" where
  "stamped_at n x \<longleftrightarrow> arrival_of x = n \<and> n \<le> fst x \<and> el_t_ns (snd (snd x)) = fst x"

fun laid_out :: "int list \<Rightarrow> ('img, 'p) triple list \<Rightarrow> bool" where
  "laid_out [] xs \<longleftrightarrow> xs = []"
| "laid_out (n # ns) xs \<longleftrightarrow> (\<exists>ys zs. xs = ys @ zs \<and> (\<forall>x \<in> set ys. stamped_at n x) \<and> laid_out ns zs)"

lemma laid_out_Nil [simp]: "laid_out ns []"
  by (induction ns) auto

lemma laid_out_one: "\<forall>x \<in> set xs. stamped_at n x \<Longrightarrow> laid_out (n # ns) xs"
  by (simp, intro exI [of _ xs] exI [of _ "[]"]) simp

lemma laid_out_Cons: "\<forall>x \<in> set xs. stamped_at n x \<Longrightarrow> laid_out ns ys \<Longrightarrow> laid_out (n # ns) (xs @ ys)"
  by auto

lemma laid_out_append: "laid_out ns xs \<Longrightarrow> laid_out ms ys \<Longrightarrow> laid_out (ns @ ms) (xs @ ys)"
proof (induction ns arbitrary: xs)
  case (Cons n ns)
  then obtain us vs where "xs = us @ vs" "\<forall>x \<in> set us. stamped_at n x" "laid_out ns vs" by auto
  then show ?case using Cons by (auto intro!: laid_out_Cons simp del: laid_out.simps)
qed simp

lemma laid_out_skip: "laid_out ns xs \<Longrightarrow> laid_out (ms @ ns) xs"
  using laid_out_append [of ms "[]" ns xs] by simp

lemma laid_out_first: "laid_out ns xs \<Longrightarrow> laid_out (ns @ ms) xs"
  using laid_out_append [of ns xs ms "[]"] by simp

lemma laid_out_filter: "laid_out (map f (filter Q rows)) xs \<Longrightarrow> laid_out (map f rows) xs"
proof (induction rows arbitrary: xs)
  case (Cons r rows)
  show ?case
  proof (cases "Q r")
    case False
    then have "laid_out (map f rows) xs" using Cons by simp
    then show ?thesis using laid_out_skip [of _ xs "[f r]"] by simp
  qed (use Cons in auto)
qed simp

definition gen_ok :: "int \<Rightarrow> ('img, 'p) triple list \<Rightarrow> bool" where
  "gen_ok r xs \<longleftrightarrow> sorted_wrt (\<lambda>x y. arrival_of x - r \<le> arrival_of y) xs
     \<and> (\<forall>x \<in> set xs. 0 \<le> arrival_of x \<and> stamped_at (arrival_of x) x)"

lemma laid_out_mem: "laid_out ns xs \<Longrightarrow> x \<in> set xs \<Longrightarrow> arrival_of x \<in> set ns \<and> stamped_at (arrival_of x) x"
proof (induction ns arbitrary: xs)
  case (Cons n ns)
  then obtain us vs where "xs = us @ vs" "\<forall>x \<in> set us. stamped_at n x" "laid_out ns vs" by auto
  then show ?case using Cons by (auto simp: stamped_at_def)
qed simp

lemma laid_out_ok: "laid_out ns xs \<Longrightarrow> stamps_within r ns \<Longrightarrow> 0 \<le> r \<Longrightarrow> gen_ok r xs"
proof (induction ns arbitrary: xs)
  case Nil
  then show ?case by (simp add: gen_ok_def)
next
  case (Cons n ns)
  then obtain us vs where x: "xs = us @ vs" "\<forall>x \<in> set us. stamped_at n x" "laid_out ns vs" by auto
  have ns: "stamps_within r ns" "\<forall>m \<in> set ns. n - r \<le> m" "0 \<le> n" using Cons.prems(2) by (auto simp: stamps_within_def)
  have vs: "gen_ok r vs" by (rule Cons.IH [OF x(3) ns(1) Cons.prems(3)])
  have a: "arrival_of x = n" if "x \<in> set us" for x using x(2) that by (simp add: stamped_at_def)
  have "sorted_wrt (\<lambda>x y. arrival_of x - r \<le> arrival_of y) us"
    using a Cons.prems(3) by (induction us) auto
  then show ?case using vs x a ns laid_out_mem [OF x(3)] unfolding gen_ok_def x(1) sorted_wrt_append by (auto simp: stamped_at_def)
qed

section \<open>What a file yields\<close>

lemma adapter_emit_stamped_at:
  assumes "offsets_forward P" "\<not> is_override a" "x \<in> set (fst (fst (adapter_emit P E pf data topic t a)))"
  shows "stamped_at t x"
proof -
  have "well_stamped topic t x" using adapter_emit_stamped [OF assms(2)] assms(3) by blast
  moreover have "forward x" using adapter_emit_forward [OF assms(1,2)] assms(3) by blast
  ultimately show ?thesis by (auto simp: well_stamped_def forward_def stamped_at_def arrival_of_def split: prod.splits)
qed

lemma video_emit_stamped_at:
  assumes "x \<in> set (fst (fst (video_emit E c pf ex v topic t st)))"
  shows "stamped_at t x"
  using video_emit_stamped [OF assms] video_emit_forward [OF assms]
  by (auto simp: well_stamped_def forward_def stamped_at_def arrival_of_def split: prod.splits)

lemma emit_carried_stamped_at:
  assumes "x \<in> set (fst (fst (emit_carried P E pf r canon d)))"
  shows "stamped_at (sr_time r) x"
proof (cases "pe_decoded P (Generated VIDEO_SCHEMA) (sr_data r)")
  case (Some v)
  then show ?thesis using assms unfolding emit_carried_def Let_def case_prod_beta by simp (rule video_emit_stamped_at)
qed (use assms in \<open>simp add: emit_carried_def Let_def\<close>)

lemma emit_row_stamped:
  assumes "offsets_forward P" "plain_adapters built" "emit_row P E pf s raw_set r built st = ((xs, err), built', st')"
  shows "(\<forall>x \<in> set xs. stamped_at (sr_time r) x) \<and> plain_adapters built'"
proof (cases "sr_schema r")
  case None
  then show ?thesis using assms(2,3) by (simp add: emit_row_def)
next
  case (Some schema)
  let ?canon = "canon_of s (sr_topic r)"
  show ?thesis
  proof (cases "?canon \<in> set raw_set")
    case True
    then show ?thesis using assms(2,3) Some
      by (auto simp: emit_row_def Let_def wire_triple_def stamped_at_def arrival_of_def)
  next
    case False
    show ?thesis
    proof (cases "map_of built (sc_name schema)")
      case None
      then show ?thesis using assms(2,3) Some False by (simp add: emit_row_def Let_def)
    next
      case a: (Some a)
      have plain: "\<not> is_override a" using assms(2) map_of_SomeD [OF a] by (force simp: plain_adapters_def)
      show ?thesis
      proof (cases "carries_video s st \<and> sc_name schema = VIDEO_SCHEMA")
        case True
        then obtain d where "emit_carried P E pf r ?canon (the st) = ((xs, err), d)" "built' = built"
          using assms(3) Some False a by (auto simp: emit_row_def Let_def split: prod.splits)
        then have "\<forall>x \<in> set xs. stamped_at (sr_time r) x"
          using emit_carried_stamped_at [of _ P E pf r ?canon "the st"] by simp
        then show ?thesis using assms(2) \<open>built' = built\<close> by blast
      next
        case no: False
        obtain a' where e: "adapter_emit P E pf (sr_data r) ?canon (sr_time r) a = ((xs, err), a')"
          "built' = AList.update (sc_name schema) a' built"
          using assms(3) Some False a no by (auto simp: emit_row_def Let_def split: prod.splits)
        have "\<not> is_override a'" using adapter_emit_kind [of P E pf "sr_data r" ?canon "sr_time r" a] e(1) plain by simp
        then show ?thesis
          using adapter_emit_stamped_at [OF assms(1) plain, of _ E pf "sr_data r" ?canon "sr_time r"] e
            plain_adapters_update [OF assms(2)] by simp
      qed
    qed
  qed
qed

lemma file_rows_laid:
  assumes "offsets_forward P" "plain_adapters built"
  shows "laid_out (map sr_time rows) (fst (fst (file_rows P E pf s raw_set rows end_err built st)))"
  using assms(2)
proof (induction rows arbitrary: built st)
  case Nil
  have "plain_adapters (filter Q built)" for Q using Nil by (auto simp: plain_adapters_def)
  then show ?case using Nil by (cases end_err) (auto simp: flush_all_plain)
next
  case (Cons r rows)
  obtain xs err built' st' where e: "emit_row P E pf s raw_set r built st = ((xs, err), built', st')" by (metis surj_pair)
  note ok = emit_row_stamped [OF assms(1) Cons.prems e]
  show ?case
  proof (cases err)
    case None
    then show ?thesis using e Cons.IH [of built' st'] ok
      by (auto simp: case_prod_beta Let_def intro!: laid_out_Cons simp del: laid_out.simps)
  next
    case (Some x)
    then show ?thesis using e laid_out_one [OF conjunct1 [OF ok]] by (simp del: laid_out.simps)
  qed
qed

lemma add_adapters_plain:
  "no_overrides P \<Longrightarrow> plain_adapters built \<Longrightarrow> add_adapters P ix wanted ts built = Inr b \<Longrightarrow> plain_adapters b"
proof (induction ts arbitrary: built)
  case (Cons t ts)
  obtain topic schema n where t: "t = (topic, schema, n)" by (cases t) auto
  show ?case
  proof (cases "topic \<notin> set wanted \<or> map_of built schema \<noteq> None \<or> schema \<in> set PREBUILT \<or> map_of (ix_schema_rec ix) schema = None")
    case True
    then have "add_adapters P ix wanted ts built = Inr b" using Cons.prems(3) unfolding t by (auto split: if_splits)
    then show ?thesis by (rule Cons.IH [OF Cons.prems(1,2)])
  next
    case False
    then obtain a where a: "build_adapter P True (class_for P ix) schema = Inr a" "add_adapters P ix wanted ts (built @ [(schema, a)]) = Inr b"
      using Cons.prems(3) unfolding t by (auto simp: bindE_eq_Inr)
    have "plain_adapters (built @ [(schema, a)])"
      using Cons.prems(2) build_adapter_plain [OF Cons.prems(1) a(1)] by (auto simp: plain_adapters_def)
    then show ?thesis by (rule Cons.IH [OF Cons.prems(1) _ a(2)])
  qed
qed simp

lemma build_adapters_plain:
  assumes "no_overrides P" "build_adapters P ix wanted = Inr b"
  shows "plain_adapters b"
proof -
  obtain built where b: "mapE (\<lambda>name. bindE (build_adapter P True (class_for P ix) name) (\<lambda>a. Inr (name, a))) PREBUILT = Inr built"
    "add_adapters P ix wanted (ix_topics ix) built = Inr b" using assms(2) by (auto simp: build_adapters_def bindE_eq_Inr)
  have "plain_adapters built" using b(1)
    by (auto simp: PREBUILT_def bindE_eq_Inr plain_adapters_def dest!: build_adapter_plain [OF assms(1)])
  then show ?thesis by (rule add_adapters_plain [OF assms(1) _ b(2)])
qed

text \<open>
  A file that reads without an error: what the reader gives for topics and a window is the filter of all it has.
\<close>

definition all_rows :: "member \<Rightarrow> session_row list" where
  "all_rows m = fst (read_messages m None None None)"

definition reader_ok :: "member \<Rightarrow> bool" where
  "reader_ok m \<longleftrightarrow> (\<forall>topics start_ns end_ns. read_messages m topics start_ns end_ns =
     (filter (\<lambda>r. (\<forall>ts \<in> set_option topics. sr_topic r \<in> set ts) \<and> in_window (sr_time r) start_ns end_ns) (all_rows m), None))"

lemma raw_laid: "laid_out (map sr_time rows)
    (List.map_filter (\<lambda>r. map_option (wire_triple s r :: mcap_schema \<Rightarrow> ('img, 'p) stream_triple) (sr_schema r)) rows)"
proof (induction rows)
  case (Cons r rows)
  show ?case
  proof (cases "sr_schema r")
    case None
    then show ?thesis using Cons laid_out_skip [of _ _ "[sr_time r]"] by (simp add: map_filter_simps)
  next
    case (Some schema)
    have "stamped_at (sr_time r) (wire_triple s r schema :: ('img, 'p) stream_triple)"
      by (simp add: wire_triple_def stamped_at_def arrival_of_def)
    then show ?thesis using Cons Some laid_out_Cons [of "[wire_triple s r schema]" "sr_time r"] by (simp add: map_filter_simps del: laid_out.simps)
  qed
qed (simp add: map_filter_simps)

lemma iter_file_laid:
  fixes P :: "('p payload, 'u, 'img) proto_env" and E :: "('c, 'f, 'img) av_env"
  assumes "no_overrides P" "offsets_forward P" "reader_ok m"
  shows "laid_out (map sr_time (all_rows m)) (fst (fst (iter_file P E pf s raw_all raw_set end_ns m want st)))"
proof (cases raw_all)
  case True
  then show ?thesis
    using assms(3) by (auto simp: iter_file_def Let_def iter_file_raw_def reader_ok_def intro!: laid_out_filter [OF raw_laid])
next
  case False
  let ?w = "wanted_prefixed s (me_index m) want False"
  obtain Q where rows: "read_messages m (Some ?w) None end_ns = (filter Q (all_rows m), None)"
    using assms(3) unfolding reader_ok_def by blast
  show ?thesis
  proof (cases "build_adapters P (me_index m) (filter (\<lambda>t. canon_of s t \<notin> set raw_set) ?w) ::
      rows_error + ('c, 'u) adapters")
    case (Inr built)
    note plain = build_adapters_plain [OF assms(1) Inr]
    show ?thesis using False
      by (simp add: iter_file_def Let_def rows Inr laid_out_filter [OF file_rows_laid [OF assms(2) plain]])
  qed (use False in \<open>simp add: iter_file_def Let_def\<close>)
qed

lemma stream_files_laid:
  assumes "no_overrides P" "offsets_forward P" "\<forall>i \<in> set members. reader_ok (member_at s i)"
    "\<forall>i \<in> set members. f i = [] \<or> (\<exists>w. f i = [(i, w)])"
  shows "laid_out (concat (map (\<lambda>i. map sr_time (all_rows (member_at s i))) members))
    (fst (stream_files P E pf s raw_all raw_set end_ns (concat (map f members)) st previous))"
  using assms(3,4)
proof (induction members arbitrary: st previous)
  case (Cons i is')
  show ?case
  proof (cases "f i = []")
    case True
    then show ?thesis using Cons by (auto intro!: laid_out_skip)
  next
    case False
    then obtain w where w: "f i = [(i, w)]" using Cons.prems(2) by auto
    let ?st = "if continues previous (me_rotation (member_at s i)) then st
      else if me_rotation (member_at s i) \<noteq> None \<and> \<not> raw_all then Some init_decoders else None"
    obtain xs err st' where e: "iter_file P E pf s raw_all raw_set end_ns (member_at s i) w ?st = ((xs, err), st')" by (metis surj_pair)
    have xs: "laid_out (map sr_time (all_rows (member_at s i))) xs"
      using iter_file_laid [OF assms(1,2), of "member_at s i" E pf s raw_all raw_set end_ns w ?st] e Cons.prems(1) by simp
    show ?thesis
    proof (cases err)
      case None
      then show ?thesis using e w xs Cons by (simp add: Let_def case_prod_beta laid_out_append)
    next
      case (Some x)
      then show ?thesis using e w xs by (simp add: Let_def laid_out_first)
    qed
  qed
qed simp

lemma window_shape:
  assumes "window_members P s members a b want raw_all raw_set c = Inr sel"
  shows "\<exists>f. sel = concat (map f members) \<and> (\<forall>i. f i = [] \<or> (\<exists>w. f i = [(i, w)]))"
proof -
  obtain parts where "mapE (chain_part P s a b want raw_all raw_set) (chains_of s members) = Inr parts"
    using assms unfolding window_members_def bindE_eq_Inr by blast
  then have "sel = concat (map (\<lambda>i. if i \<in> set (concat parts) then [(i, want)]
      else if early_use s a b want raw_all raw_set c i \<noteq> [] then [(i, Some (early_use s a b want raw_all raw_set c i))] else []) members)"
    using assms unfolding window_members_def by (simp only: bindE_simps sum.inject)
  then show ?thesis by (intro exI conjI) (assumption, auto)
qed

lemma one_stream_laid:
  assumes "no_overrides P" "offsets_forward P" "\<forall>i \<in> set members. reader_ok (member_at s i)"
  shows "laid_out (concat (map (\<lambda>i. map sr_time (all_rows (member_at s i))) members))
    (fst (one_stream P E pf s raw_all raw_set want start_read end_read info_start members))"
proof (cases "window_members P s members start_read end_read want raw_all raw_set info_start")
  case (Inr sel)
  then obtain f where f: "sel = concat (map f members)" "\<forall>i. f i = [] \<or> (\<exists>w. f i = [(i, w)])"
    using window_shape [OF Inr] by blast
  show ?thesis unfolding one_stream_def Inr f(1) sum.case by (rule stream_files_laid [OF assms]) (use f(2) in blast)
qed (simp add: one_stream_def)

section \<open>The merge\<close>

lemma failed_none: "failed_gen gens = None \<longleftrightarrow> (\<forall>g \<in> set gens. fst g = [] \<longrightarrow> snd g = None)"
  by (induction gens rule: failed_gen.induct) auto

lemma failed_some: "failed_gen gens = Some e \<Longrightarrow> ([], Some e) \<in> set gens"
  by (induction gens rule: failed_gen.induct) auto

lemma first_min_le: "x \<in> insert k (set xs) \<Longrightarrow> f (first_min f k xs) \<le> f x"
  by (rule first_min_least)

lemma next_gen_least:
  assumes "i \<in> set (live_gens gens)"
  shows "key (hd (fst (gens ! next_gen key gens))) \<le> key (hd (fst (gens ! i)))"
  using first_min_least [of i "hd (live_gens gens)" "tl (live_gens gens)" "\<lambda>i. key (hd (fst (gens ! i)))"] assms
  by (cases "live_gens gens") (auto simp: next_gen_def)

lemma pop_gen_mset:
  assumes "i < length gens" "fst (gens ! i) \<noteq> []"
  shows "mset (concat (map fst gens)) = add_mset (hd (fst (gens ! i))) (mset (concat (map fst (pop_gen i gens))))"
proof -
  have g: "gens = take i gens @ gens ! i # drop (Suc i) gens" using assms(1) by (simp add: id_take_nth_drop)
  have p: "pop_gen i gens = take i gens @ (tl (fst (gens ! i)), snd (gens ! i)) # drop (Suc i) gens"
    using assms(1) by (simp add: pop_gen_def upd_conv_take_nth_drop)
  obtain y ys where y: "fst (gens ! i) = y # ys" using assms(2) by (cases "fst (gens ! i)") auto
  show ?thesis unfolding p by (subst g) (simp add: y)
qed

lemma merge_stop: "failed_gen gens = Some e \<Longrightarrow> merge_gens key gens = ([], Some e)"
  "failed_gen gens = None \<Longrightarrow> live_gens gens = [] \<Longrightarrow> merge_gens key gens = ([], None)"
  by (simp_all add: merge_gens.simps)

lemma merge_next:
  "failed_gen gens = None \<Longrightarrow> live_gens gens \<noteq> [] \<Longrightarrow> merge_gens key gens =
     (let i = next_gen key gens; r = merge_gens key (pop_gen i gens) in (hd (fst (gens ! i)) # fst r, snd r))"
  by (subst merge_gens.simps) (simp add: Let_def case_prod_beta)

lemma merge_cases:
  obtains (failed) e where "failed_gen gens = Some e" "merge_gens key gens = ([], Some e)"
  | (empty) "failed_gen gens = None" "live_gens gens = []" "merge_gens key gens = ([], None)"
  | (more) i where "failed_gen gens = None" "live_gens gens \<noteq> []" "i = next_gen key gens" "i < length gens" "fst (gens ! i) \<noteq> []"
      "merge_gens key gens = (hd (fst (gens ! i)) # fst (merge_gens key (pop_gen i gens)), snd (merge_gens key (pop_gen i gens)))"
proof (cases "failed_gen gens")
  case None
  show ?thesis
  proof (cases "live_gens gens = []")
    case False
    from next_gen_live [OF this] show ?thesis using more None False merge_next [OF None False, of key] by (simp add: live_gen Let_def)
  next
    case True
    show ?thesis by (rule empty [OF None True merge_stop(2) [OF None True]])
  qed
next
  case (Some e)
  show ?thesis by (rule failed [OF Some merge_stop(1) [OF Some]])
qed

lemma merge_mset: "snd (merge_gens key gens) = None \<Longrightarrow> mset (fst (merge_gens key gens)) = mset (concat (map fst gens))"
proof (induction key gens rule: merge_gens.induct)
  case (1 key gens)
  show ?case
  proof (cases rule: merge_cases [of gens key])
    case empty
    then have "fst g = []" if "g \<in> set gens" for g
      using that live_gen [of _ gens] by (metis in_set_conv_nth empty_iff list.set(1))
    then show ?thesis using empty by simp
  next
    case (more i)
    then have "mset (fst (merge_gens key (pop_gen i gens))) = mset (concat (map fst (pop_gen i gens)))"
      using 1 by simp
    then show ?thesis using more pop_gen_mset [OF more(4,5)] by simp
  qed (use "1.prems" in simp)
qed

lemma merge_mem: "x \<in> set (fst (merge_gens key gens)) \<Longrightarrow> x \<in> set (concat (map fst gens))"
proof (induction key gens rule: merge_gens.induct)
  case (1 key gens)
  show ?case
  proof (cases rule: merge_cases [of gens key])
    case (more i)
    have "set (concat (map fst gens)) = insert (hd (fst (gens ! i))) (set (concat (map fst (pop_gen i gens))))"
      by (metis pop_gen_mset [OF more(4,5)] set_mset_add_mset_insert set_mset_mset)
    then show ?thesis using more 1 by (metis fst_conv insert_iff set_ConsD)
  qed (use "1.prems" in simp_all)
qed

lemma gen_ok_tl: "gen_ok r xs \<Longrightarrow> gen_ok r (tl xs)"
  by (cases xs) (auto simp: gen_ok_def)

lemma pop_gen_ok: "\<forall>g \<in> set gens. gen_ok r (fst g) \<Longrightarrow> i < length gens \<Longrightarrow> \<forall>g \<in> set (pop_gen i gens). gen_ok r (fst g)"
  unfolding pop_gen_def using set_update_subset_insert [of gens i] gen_ok_tl by fastforce

lemma merge_ok:
  fixes gens :: "(('img, 'p) triple list \<times> 'x option) list"
  shows "\<forall>g \<in> set gens. gen_ok r (fst g) \<Longrightarrow> 0 \<le> r \<Longrightarrow> gen_ok r (fst (merge_gens arrival_of gens))"
proof (induction "arrival_of :: ('img, 'p) triple \<Rightarrow> int" gens rule: merge_gens.induct)
  case (1 gens)
  let ?key = "arrival_of :: ('img, 'p) triple \<Rightarrow> int"
  show ?case
  proof (cases rule: merge_cases [of gens ?key])
    case (more i)
    define x where "x = hd (fst (gens ! i))"
    have IH: "gen_ok r (fst (merge_gens ?key (pop_gen i gens)))"
      using "1.hyps" more(1-3) pop_gen_ok [OF "1.prems"(1) more(4)] "1.prems"(2) by blast
    have "gen_ok r (fst (gens ! i))" using "1.prems"(1) more(4) by simp
    then have x: "0 \<le> ?key x" "stamped_at (?key x) x" using more(5) hd_in_set unfolding x_def gen_ok_def by blast+
    have "?key x - r \<le> ?key y" if y: "y \<in> set (fst (merge_gens ?key (pop_gen i gens)))" for y
    proof -
      have "set (concat (map fst gens)) = insert x (set (concat (map fst (pop_gen i gens))))"
        unfolding x_def by (metis pop_gen_mset [OF more(4,5)] set_mset_add_mset_insert set_mset_mset)
      then have "y \<in> set (concat (map fst gens))" using merge_mem [OF y] by blast
      then obtain g where "g \<in> set gens" "y \<in> set (fst g)" by auto
      then obtain j where j: "j < length gens" "y \<in> set (fst (gens ! j))" by (metis in_set_conv_nth)
      then have "fst (gens ! j) \<noteq> []" by auto
      then have "j \<in> set (live_gens gens)" using j(1) live_gen by blast
      then have le: "?key x \<le> ?key (hd (fst (gens ! j)))" unfolding x_def more(3) by (rule next_gen_least)
      have "gen_ok r (fst (gens ! j))" using "1.prems"(1) j(1) by simp
      then have "y = hd (fst (gens ! j)) \<or> ?key (hd (fst (gens ! j))) - r \<le> ?key y"
        using j(2) by (cases "fst (gens ! j)") (auto simp: gen_ok_def)
      then show ?thesis using le "1.prems"(2) by auto
    qed
    then show ?thesis using more IH x by (simp add: x_def gen_ok_def)
  qed (simp_all add: gen_ok_def)
qed

section \<open>The order of a stream\<close>

text \<open>
  A session whose files read without error and whose streams are, each, within the reorder window: no message
  of a stream is stamped more than the window before one that comes earlier in it.
\<close>

definition member_stamps :: "session \<Rightarrow> nat list \<Rightarrow> int list" where
  "member_stamps s members = concat (map (\<lambda>i. map sr_time (all_rows (member_at s i))) members)"

definition session_ok :: "session \<Rightarrow> bool" where
  "session_ok s \<longleftrightarrow> 0 \<le> se_reorder_ns s \<and> (\<forall>m \<in> set (se_members s). reader_ok m)
     \<and> (\<forall>members \<in> set (se_streams s). set members \<subseteq> {..<length (se_members s)}
          \<and> stamps_within (se_reorder_ns s) (member_stamps s members))"

lemma session_reader: "session_ok s \<Longrightarrow> members \<in> set (se_streams s) \<Longrightarrow> i \<in> set members \<Longrightarrow> reader_ok (member_at s i)"
  by (auto simp: session_ok_def member_at_def subset_iff)

lemma gen_ok_lateness: "gen_ok r xs \<Longrightarrow> \<forall>x \<in> set xs. w - r \<le> arrival_of x \<Longrightarrow> lateness_ok r w xs"
proof (induction xs arbitrary: w)
  case (Cons x xs)
  obtain t a e where x: "x = (t, a, e)" by (cases x) auto
  have "lateness_ok r (max w a) xs"
    using Cons.prems by (intro Cons.IH) (fastforce simp: gen_ok_def x arrival_of_def max_def)+
  then show ?case using Cons.prems by (auto simp: x gen_ok_def stamped_at_def arrival_of_def)
qed simp

lemma ordered_sorted:
  assumes "gen_ok r xs" "0 \<le> r"
  shows "reorder r xs = sort_key el_t_ns (map item_elem xs)"
proof -
  have "0 - r \<le> arrival_of x" if "x \<in> set xs" for x using assms that by (fastforce simp: gen_ok_def)
  then have "lateness_ok r 0 xs" using gen_ok_lateness [OF assms(1), of 0] by blast
  moreover have "map item_view xs = map (\<lambda>e. (el_t_ns e, e)) (map item_elem xs)"
    using assms by (auto simp: gen_ok_def stamped_at_def item_view_def item_elem_def split: prod.splits)
  ultimately show ?thesis using reorder_sorts [of r xs] by (simp only: sort_key_tagged)
qed

lemma attach_time: "el_t_ns (attach a tracks el) = el_t_ns el"
  by (cases el) (simp_all add: attach_def)

lemma joined_sorted:
  assumes "joined X cameras infos r (els, None) = (outs, None)" "sorted (map el_t_ns els)"
  shows "sorted (map el_t_ns outs)"
proof (cases "cameras = []")
  case False
  define a where "a = \<lparr>ja_cameras = cameras, ja_emit = infos, ja_max_gap = max ONE_SECOND r,
    ja_max_bytes = MAX_FRAME_BYTES, ja_nbytes = xe_nbytes X, ja_fields = xe_fields X\<rparr>"
  have "join_exposure a (els, None :: stream_error option) = (outs, None)"
    using assms(1) False unfolding joined_def a_def [symmetric] by (auto split: prod.splits)
  from join_whole [OF assms(2) this] have "map el_t_ns outs = map el_t_ns (filter (passes a) els)"
    by (simp add: attach_time comp_def)
  then show ?thesis using sorted_filter [OF assms(2)] by simp
qed (use assms in \<open>simp add: joined_def\<close>)

lemma stream_elements_sorted:
  fixes P :: "('p payload, 'u, 'img) proto_env" and E :: "('c, 'f, 'img) av_env"
  assumes "no_overrides P" "offsets_forward P" "session_ok s"
    "stream_elements P E X s want start_ns end_ns pf raw_all raw_set cameras infos = (outs, None)"
  shows "sorted (map el_t_ns outs) \<and> (\<forall>el \<in> set outs. in_window (el_t_ns el) start_ns end_ns)"
proof -
  define gen where "gen = one_stream P E pf s raw_all raw_set want (widen (-) start_ns (se_reorder_ns s))
     (widen (+) end_ns (if cameras \<noteq> [] then max ONE_SECOND (se_reorder_ns s) else se_reorder_ns s))
     (widen (-) start_ns (if cameras \<noteq> [] then max ONE_SECOND (se_reorder_ns s) else se_reorder_ns s))"
  define gens where "gens = map gen (filter (\<lambda>m. m \<noteq> []) (se_streams s))"
  have "gen_ok (se_reorder_ns s) (fst (gen members))" if "members \<in> set (se_streams s)" for members
  proof (rule laid_out_ok)
    show "laid_out (member_stamps s members) (fst (gen members))"
      unfolding gen_def member_stamps_def
      by (rule one_stream_laid [OF assms(1,2)]) (use session_reader [OF assms(3) that] in blast)
  qed (use assms(3) that in \<open>auto simp: session_ok_def\<close>)
  then have "\<forall>g \<in> set gens. gen_ok (se_reorder_ns s) (fst g)" by (auto simp: gens_def)
  then have ok: "gen_ok (se_reorder_ns s) (fst (merge_gens arrival_of gens))"
    using assms(3) by (intro merge_ok) (auto simp: session_ok_def)
  obtain xs err where m: "merge_gens arrival_of gens = (xs, err)" by fastforce
  obtain els where j: "joined X cameras infos (se_reorder_ns s) (ordered (se_reorder_ns s) (xs, err)) = (els, None)"
    "outs = filter (\<lambda>el. in_window (el_t_ns el) start_ns end_ns) els"
    using assms(4) m unfolding stream_elements_def Let_def gens_def gen_def by (auto split: prod.splits)
  have "err = None"
  proof (rule ccontr)
    assume "err \<noteq> None"
    then show False using j(1) by (auto simp: ordered_def joined_def join_exposure_def split: prod.splits if_splits option.splits)
  qed
  then have "ordered (se_reorder_ns s) (xs, err) = (sort_key el_t_ns (map item_elem xs), None)"
    using ordered_sorted [of "se_reorder_ns s" xs] ok m assms(3) by (simp add: ordered_def session_ok_def)
  then have "sorted (map el_t_ns els)" using joined_sorted [of X cameras infos "se_reorder_ns s" _ els] j(1) by simp
  then show ?thesis unfolding j(2) using sorted_filter by auto
qed

section \<open>A passthrough is complete\<close>

text \<open>The records of a file in a window: every message with a schema on a topic of the session.\<close>

definition wire_of :: "session \<Rightarrow> int option \<Rightarrow> int option \<Rightarrow> session_row \<Rightarrow> ('img, 'p) stream_triple option" where
  "wire_of s a b r = (if strip_device_topic_prefix (sr_topic r) (se_device s) \<noteq> None \<and> in_window (sr_time r) a b
     then map_option (wire_triple s r) (sr_schema r) else None)"

definition wire_rows :: "session \<Rightarrow> int option \<Rightarrow> int option \<Rightarrow> member \<Rightarrow> ('img, 'p) elem list" where
  "wire_rows s a b m = map item_elem (List.map_filter (wire_of s a b) (all_rows m))"

text \<open>What the index says of a file is true of its messages.\<close>

definition index_ok :: "member \<Rightarrow> bool" where
  "index_ok m \<longleftrightarrow> (\<forall>r \<in> set (all_rows m). sr_topic r \<in> fst ` set (ix_topics (me_index m))
     \<and> (\<forall>t. ix_start (me_index m) = Some t \<longrightarrow> t \<le> sr_time r) \<and> (\<forall>t. ix_end (me_index m) = Some t \<longrightarrow> sr_time r \<le> t))"

lemma map_filter_filter: "List.map_filter f (filter Q xs) = List.map_filter (\<lambda>x. if Q x then f x else None) xs"
  by (induction xs) (auto simp: map_filter_simps split: option.split)

lemma map_filter_same: "(\<And>x. x \<in> set xs \<Longrightarrow> f x = g x) \<Longrightarrow> List.map_filter f xs = List.map_filter g xs"
  by (induction xs) (auto simp: map_filter_simps split: option.split)

lemma wanted_all: "topic \<in> fst ` set (ix_topics ix) \<Longrightarrow>
    topic \<in> set (wanted_prefixed s ix None True) \<longleftrightarrow> strip_device_topic_prefix topic (se_device s) \<noteq> None"
  by (auto simp: wanted_prefixed_def image_iff split: option.splits) force+

lemma iter_raw:
  assumes "reader_ok m" "index_ok m"
  shows "iter_file P E pf s True raw_set b m None st = ((List.map_filter (wire_of s None b) (all_rows m), None), st)"
proof -
  let ?w = "wanted_prefixed s (me_index m) None True"
  have read: "read_messages m (Some ?w) None b = (filter (\<lambda>r. sr_topic r \<in> set ?w \<and> in_window (sr_time r) None b) (all_rows m), None)"
    using assms(1) by (simp add: reader_ok_def)
  have same: "List.map_filter (\<lambda>r. if sr_topic r \<in> set ?w \<and> in_window (sr_time r) None b then map_option (wire_triple s r) (sr_schema r) else None) (all_rows m)
      = List.map_filter (wire_of s None b) (all_rows m)"
    by (rule map_filter_same) (use assms(2) wanted_all [of _ "me_index m" s] in \<open>simp add: wire_of_def index_ok_def\<close>)
  show ?thesis
  proof (cases "?w = []")
    case True
    then have "List.map_filter (wire_of s None b) (all_rows m) = ([] :: ('a, 'b) stream_triple list)"
      using same by (simp add: map_filter_def)
    then show ?thesis using True by (simp add: iter_file_def Let_def)
  next
    case False
    then show ?thesis using same by (simp add: iter_file_def Let_def iter_file_raw_def read map_filter_filter)
  qed
qed

lemma chains_concat: "concat (chains_of s members) = members"
proof (induction s members rule: chains_of.induct)
  case (2 s i is')
  show ?case
  proof (cases is')
    case (Cons j js)
    then have "chains_of s is' \<noteq> []" by (auto simp: Let_def split: list.split)
    then obtain c cs where "chains_of s is' = c # cs" by (cases "chains_of s is'") auto
    then show ?thesis using 2 Cons by (auto simp: Let_def)
  qed simp
qed simp

lemma sorted_ends: "sorted (xs :: nat list) \<Longrightarrow> x \<in> set xs \<Longrightarrow> hd xs \<le> x \<and> x \<le> last xs"
  by (induction xs) (auto split: if_splits)

lemma chain_part_raw:
  "\<exists>sel. chain_part P s a b want True raw_set chain = Inr sel
     \<and> (\<forall>i \<in> set chain. spans_window (me_index (member_at s i)) a b \<longrightarrow> i \<in> set sel)"
proof -
  let ?spans = "\<lambda>pos. spans_window (me_index (member_at s (chain ! pos))) a b"
  let ?o = "filter ?spans [0..<length chain]"
  show ?thesis
  proof (cases "?o = []")
    case True
    then have "\<not> ?spans pos" if "pos < length chain" for pos using that by (auto simp: filter_empty_conv)
    then show ?thesis using True by (auto simp: chain_part_def Let_def in_set_conv_nth)
  next
    case False
    have r: "chain_part P s a b want True raw_set chain = Inr (drop (hd ?o) (take (last ?o + 1) chain))"
      using False by (simp add: chain_part_def Let_def split: option.split)
    have "i \<in> set (drop (hd ?o) (take (last ?o + 1) chain))" if i: "i \<in> set chain" "spans_window (me_index (member_at s i)) a b" for i
    proof -
      obtain pos where pos: "pos < length chain" "chain ! pos = i" using i(1) by (auto simp: in_set_conv_nth)
      then have mem: "pos \<in> set ?o" using i(2) by simp
      have "sorted ?o" by (simp add: sorted_wrt_filter)
      then have le: "hd ?o \<le> pos" "pos \<le> last ?o"
        using sorted_ends [of ?o pos] mem by blast+
      have "drop (hd ?o) (take (last ?o + 1) chain) ! (pos - hd ?o) = i" using le pos by simp
      moreover have "pos - hd ?o < length (drop (hd ?o) (take (last ?o + 1) chain))" using le pos by simp
      ultimately show ?thesis by (metis nth_mem)
    qed
    then show ?thesis unfolding r by blast
  qed
qed

lemma mapE_exists: "(\<And>x. x \<in> set xs \<Longrightarrow> \<exists>y. f x = Inr y \<and> Q x y) \<Longrightarrow> \<exists>ys. mapE f xs = Inr ys \<and> list_all2 Q xs ys"
  by (induction xs) (fastforce simp: bindE_def)+

lemma one_stream_raw:
  assumes "\<forall>i \<in> set members. reader_ok (member_at s i) \<and> index_ok (member_at s i)"
  shows "\<exists>sel. one_stream P E pf s True raw_set None a b c members =
     (concat (map (\<lambda>i. if i \<in> sel then List.map_filter (wire_of s None b) (all_rows (member_at s i)) else []) members), None)
     \<and> (\<forall>i \<in> set members. spans_window (me_index (member_at s i)) a b \<longrightarrow> i \<in> sel)"
proof -
  let ?Q = "\<lambda>chain sel. \<forall>i \<in> set chain. spans_window (me_index (member_at s i)) a b \<longrightarrow> i \<in> set sel"
  obtain parts where p: "mapE (chain_part P s a b None True raw_set) (chains_of s members) = Inr parts" "list_all2 ?Q (chains_of s members) parts"
    using mapE_exists [of "chains_of s members" "chain_part P s a b None True raw_set" ?Q] chain_part_raw [of P s a b None raw_set] by blast
  let ?S = "set (concat parts)"
  have early: "early_use s a b None True raw_set c i = []" for i by (simp add: early_use_def Let_def split: option.split)
  have w: "window_members P s members a b None True raw_set c = Inr (concat (map (\<lambda>i. if i \<in> ?S then [(i, None)] else []) members))"
    by (simp add: window_members_def p(1) early del: set_concat cong: if_cong)
  have run: "stream_files P E pf s True raw_set b (concat (map (\<lambda>i. if i \<in> ?S then [(i, None)] else []) is')) st previous =
      (concat (map (\<lambda>i. if i \<in> ?S then List.map_filter (wire_of s None b) (all_rows (member_at s i)) else []) is'), None)"
    if "set is' \<subseteq> set members" for is' st previous
    using that
  proof (induction is' arbitrary: st previous)
    case (Cons i is')
    then have "reader_ok (member_at s i)" "index_ok (member_at s i)" using assms by auto
    then show ?case using Cons by (simp add: iter_raw Let_def case_prod_beta del: set_concat)
  qed simp
  have "i \<in> ?S" if i: "i \<in> set members" "spans_window (me_index (member_at s i)) a b" for i
  proof -
    have "i \<in> set (concat (chains_of s members))" using i(1) by (simp add: chains_concat)
    then obtain chain where chain: "chain \<in> set (chains_of s members)" "i \<in> set chain" by auto
    then obtain n where n: "n < length (chains_of s members)" "chains_of s members ! n = chain" by (auto simp: in_set_conv_nth)
    then have "?Q chain (parts ! n)" "n < length parts" using list_all2_nthD [OF p(2) n(1)] list_all2_lengthD [OF p(2)] by auto
    then show ?thesis using chain(2) i(2) by auto
  qed
  then show ?thesis using run [of members] unfolding one_stream_def w sum.case by (intro exI [of _ ?S] conjI) blast+
qed

lemma merge_ends: "\<forall>g \<in> set gens. snd g = None \<Longrightarrow> snd (merge_gens key gens) = None"
proof (induction key gens rule: merge_gens.induct)
  case (1 key gens)
  show ?case
  proof (cases rule: merge_cases [of gens key])
    case (failed e)
    then show ?thesis using failed_some "1.prems" by fastforce
  next
    case (more i)
    have "\<forall>g \<in> set (pop_gen i gens). snd g = None"
      unfolding pop_gen_def using set_update_subset_insert [of gens i] "1.prems" more(4) nth_mem by fastforce
    then show ?thesis using more 1 by simp
  qed simp
qed

lemma wire_of_elem: "wire_of s a b r = Some x \<Longrightarrow> el_t_ns (item_elem x) = sr_time r \<and> (wire_of s a' b' r = (if in_window (sr_time r) a' b' then Some x else None))"
  by (auto simp: wire_of_def wire_triple_def item_elem_def split: if_splits)

lemma in_window_wider: "in_window t a b \<Longrightarrow> 0 \<le> r \<Longrightarrow> in_window t None (widen (+) b r)"
  by (cases b) (auto simp: in_window_def widen_def)

lemma wire_none: "wire_of s a b r = None \<longleftrightarrow>
    strip_device_topic_prefix (sr_topic r) (se_device s) = None \<or> \<not> in_window (sr_time r) a b \<or> sr_schema r = None"
  by (auto simp: wire_of_def)

lemma wire_narrow:
  assumes "0 \<le> r"
  shows "filter (\<lambda>el. in_window (el_t_ns el) a b) (map item_elem (List.map_filter (wire_of s None (widen (+) b r)) rows))
    = map item_elem (List.map_filter (wire_of s a b :: session_row \<Rightarrow> ('img, 'p) stream_triple option) rows)"
proof (induction rows)
  case (Cons row rows)
  show ?case
  proof (cases "wire_of s None (widen (+) b r) row :: ('img, 'p) stream_triple option")
    case None
    then have "wire_of s a b row = (None :: ('img, 'p) stream_triple option)"
      using in_window_wider [OF _ assms, of "sr_time row" a b] by (auto simp: wire_none)
    then show ?thesis using None Cons by (simp add: map_filter_simps)
  next
    case (Some x)
    from wire_of_elem [OF this, of a b] show ?thesis using Some Cons by (simp add: map_filter_simps)
  qed
qed (simp add: map_filter_simps)

lemma wire_outside:
  assumes "index_ok m" "\<not> spans_window (me_index m) (widen (-) a r) (widen (+) b r)" "0 \<le> r"
  shows "wire_rows s a b m = ([] :: ('img, 'p) elem list)"
proof -
  obtain t u where tu: "ix_start (me_index m) = Some t" "ix_end (me_index m) = Some u"
    using assms(2) by (auto simp: spans_window_def split: option.splits)
  have "wire_of s a b row = (None :: ('img, 'p) stream_triple option)" if row: "row \<in> set (all_rows m)" for row
  proof -
    have "t \<le> sr_time row" "sr_time row \<le> u" using assms(1) row tu by (auto simp: index_ok_def)
    then have "\<not> in_window (sr_time row) a b"
      using assms(2,3) tu by (cases a; cases b) (auto simp: spans_window_def in_window_def widen_def)
    then show ?thesis by (simp add: wire_none)
  qed
  then have "List.map_filter (wire_of s a b) (all_rows m) = ([] :: ('img, 'p) stream_triple list)"
    by (simp add: map_filter_def filter_empty_conv del: not_None_eq)
  then show ?thesis by (simp add: wire_rows_def)
qed

lemma mset_concat_cong: "mset xs = mset ys \<Longrightarrow> mset (concat (map f xs)) = mset (concat (map f ys))"
proof -
  assume "mset xs = mset ys"
  then have "image_mset (\<lambda>x. mset (f x)) (mset xs) = image_mset (\<lambda>x. mset (f x)) (mset ys)" by simp
  then show ?thesis by (simp add: mset_concat comp_def flip: sum_mset_sum_list)
qed

lemma raw_stream_mset:
  fixes P :: "('p payload, 'u, 'img) proto_env" and E :: "('c, 'f, 'img) av_env"
  assumes "session_ok s" "\<forall>m \<in> set (se_members s). index_ok m" "mset (concat (se_streams s)) = mset [0..<length (se_members s)]"
  shows "\<exists>outs. stream_elements P E X s None a b pf True [] [] [] = (outs, None)
    \<and> mset outs = mset (concat (map (wire_rows s a b) (se_members s)))"
proof -
  define r where "r = se_reorder_ns s"
  have r: "0 \<le> r" using assms(1) by (simp add: session_ok_def r_def)
  define gen where "gen = one_stream P E pf s True [] None (widen (-) a r) (widen (+) b r) (widen (-) a r)"
  define gens where "gens = map gen (filter (\<lambda>m. m \<noteq> []) (se_streams s))"
  let ?in = "\<lambda>el :: ('img, 'p) elem. in_window (el_t_ns el) a b"
  have one: "snd (gen members) = None \<and> filter ?in (map item_elem (fst (gen members))) = concat (map (\<lambda>i. wire_rows s a b (member_at s i)) members)"
    if members: "members \<in> set (se_streams s)" for members
  proof -
    have ok: "\<forall>i \<in> set members. reader_ok (member_at s i) \<and> index_ok (member_at s i)"
      using assms(1,2) members by (auto simp: session_ok_def member_at_def subset_iff)
    from one_stream_raw [OF ok, of P E pf "[]" "widen (-) a r" "widen (+) b r" "widen (-) a r"] obtain S where
      S: "gen members = (concat (map (\<lambda>i. if i \<in> S then List.map_filter (wire_of s None (widen (+) b r)) (all_rows (member_at s i)) else []) members), None)"
      "\<forall>i \<in> set members. spans_window (me_index (member_at s i)) (widen (-) a r) (widen (+) b r) \<longrightarrow> i \<in> S"
      unfolding gen_def by blast
    have piece: "filter ?in (map item_elem (if i \<in> S then List.map_filter (wire_of s None (widen (+) b r)) (all_rows (member_at s i)) else []))
        = wire_rows s a b (member_at s i)" if "i \<in> set members" for i
    proof (cases "i \<in> S")
      case False
      then have "\<not> spans_window (me_index (member_at s i)) (widen (-) a r) (widen (+) b r)" using S(2) that by blast
      from wire_outside [OF _ this r, where s = s] have "wire_rows s a b (member_at s i) = ([] :: ('img, 'p) elem list)"
        using ok that by blast
      then show ?thesis using False by simp
    qed (simp add: wire_narrow [OF r] wire_rows_def)
    then have "concat (map (\<lambda>i. filter ?in (map item_elem (if i \<in> S then List.map_filter (wire_of s None (widen (+) b r)) (all_rows (member_at s i)) else []))) members)
        = concat (map (\<lambda>i. wire_rows s a b (member_at s i)) members)" by (intro arg_cong [of _ _ concat] map_cong) simp_all
    then show ?thesis unfolding S(1) by (simp add: map_concat filter_concat comp_def)
  qed
  define M where "M = fst (merge_gens arrival_of gens)"
  have none: "snd (merge_gens arrival_of gens) = None" by (rule merge_ends) (use one in \<open>auto simp: gens_def\<close>)
  have "stream_elements P E X s None a b pf True [] [] [] = (filter ?in (reorder r M), None)"
    using none unfolding stream_elements_def Let_def joined_def ordered_def
    by (simp add: gens_def gen_def r_def M_def case_prod_beta)
  moreover have "mset (filter ?in (reorder r M)) = mset (filter ?in (map item_elem (concat (map fst gens))))"
    using merge_mset [OF none] unfolding M_def by (simp add: reorder_mset)
  moreover have "filter ?in (map item_elem (concat (map fst gens))) = concat (map (\<lambda>i. wire_rows s a b (member_at s i)) (concat (se_streams s)))"
  proof -
    have "concat (map (\<lambda>m. filter ?in (map item_elem (fst (gen m)))) (filter (\<lambda>m. m \<noteq> []) ss))
        = concat (map (\<lambda>i. wire_rows s a b (member_at s i)) (concat ss))" if "set ss \<subseteq> set (se_streams s)" for ss
      using that by (induction ss) (auto simp: one)
    from this [of "se_streams s"] show ?thesis by (simp add: gens_def map_concat filter_concat comp_def)
  qed
  moreover have "mset (concat (map (\<lambda>i. wire_rows s a b (member_at s i)) (concat (se_streams s))))
      = mset (concat (map (\<lambda>i. wire_rows s a b (member_at s i) :: ('img, 'p) elem list) [0..<length (se_members s)]))"
    by (rule mset_concat_cong [OF assms(3)])
  moreover have "map (\<lambda>i. wire_rows s a b (member_at s i) :: ('img, 'p) elem list) [0..<length (se_members s)] = map (wire_rows s a b) (se_members s)"
    by (rule nth_equalityI) (simp_all add: member_at_def)
  ultimately show ?thesis by simp
qed

section \<open>A recording in parts\<close>

fun stateless :: "('c, 'u) adapter \<Rightarrow> bool" where
  "stateless (DecodedAdapter _ _) = False" | "stateless (OverrideAdapter _) = False" | "stateless _ = True"

lemma stateless_emit: "stateless a \<Longrightarrow> snd (adapter_emit P E pf data topic t a) = a"
  by (cases a) simp_all

lemma alist_update_same: "map_of xs k = Some v \<Longrightarrow> AList.update k v xs = xs"
  by (induction xs) (auto split: if_splits)

text \<open>The rows that leave the adapters as they are, the carried video apart: no stills.\<close>

definition steady :: "('c, 'u) adapters \<Rightarrow> session_row \<Rightarrow> bool" where
  "steady built r \<longleftrightarrow> (\<forall>schema a. sr_schema r = Some schema \<longrightarrow> sc_name schema \<noteq> VIDEO_SCHEMA \<longrightarrow>
     map_of built (sc_name schema) = Some a \<longrightarrow> stateless a)"

lemma emit_row_steady:
  assumes "VIDEO_SCHEMA \<notin> set (se_adapters s)" "steady built r"
  shows "\<exists>xs err d'. emit_row P E pf s raw_set r built (Some d) = ((xs, err), built, Some d')"
proof (cases "sr_schema r")
  case (Some schema)
  let ?c = "canon_of s (sr_topic r)"
  show ?thesis
  proof (cases "?c \<in> set raw_set \<or> map_of built (sc_name schema) = None")
    case False
    then obtain a where a: "map_of built (sc_name schema) = Some a" by auto
    show ?thesis
    proof (cases "sc_name schema = VIDEO_SCHEMA")
      case True
      then show ?thesis using assms(1) False a Some
        by (simp add: emit_row_def Let_def carries_video_def case_prod_beta)
    next
      case no: False
      then have "stateless a" using assms(2) Some a by (auto simp: steady_def)
      then show ?thesis using False a Some no alist_update_same [OF a]
        by (simp add: emit_row_def Let_def case_prod_beta stateless_emit)
    qed
  qed (auto simp: emit_row_def Let_def Some)
qed (simp add: emit_row_def)

lemma flush_steady:
  assumes "plain_adapters built"
  shows "flush_all P (filter Q built) = ([], None)"
  by (rule flush_all_plain) (use assms in \<open>auto simp: plain_adapters_def\<close>)

lemma file_rows_append:
  assumes "VIDEO_SCHEMA \<notin> set (se_adapters s)" "plain_adapters built" "\<forall>r \<in> set rows. steady built r"
  shows "\<exists>xs err d'. file_rows P E pf s raw_set rows None built (Some d) = ((xs, err), Some d')
    \<and> file_rows P E pf s raw_set (rows @ later) e built (Some d) =
       (if err = None then ((xs @ fst (fst (file_rows P E pf s raw_set later e built (Some d'))),
          snd (fst (file_rows P E pf s raw_set later e built (Some d')))), snd (file_rows P E pf s raw_set later e built (Some d')))
        else ((xs, err), Some d'))"
  using assms(3)
proof (induction rows arbitrary: d)
  case Nil
  show ?case by (simp add: flush_steady [OF assms(2)] carries_video_def assms(1))
next
  case (Cons r rows)
  obtain xs err d1 where e1: "emit_row P E pf s raw_set r built (Some d) = ((xs, err), built, Some d1)"
    using emit_row_steady [OF assms(1), of built r P E pf raw_set d] Cons.prems by auto
  obtain ys err2 d2 where IH: "file_rows P E pf s raw_set rows None built (Some d1) = ((ys, err2), Some d2)"
    "file_rows P E pf s raw_set (rows @ later) e built (Some d1) =
       (if err2 = None then ((ys @ fst (fst (file_rows P E pf s raw_set later e built (Some d2))),
          snd (fst (file_rows P E pf s raw_set later e built (Some d2)))), snd (file_rows P E pf s raw_set later e built (Some d2)))
        else ((ys, err2), Some d2))" using Cons.IH [of d1] Cons.prems by auto
  show ?case
  proof (cases err)
    case None
    then show ?thesis using e1 IH by (cases err2) (simp_all add: case_prod_beta)
  next
    case (Some x)
    then show ?thesis using e1 by simp
  qed
qed

text \<open>What the reading of a file depends on: its topics with their schemas, and the schema records.\<close>

definition topic_schemas :: "file_index \<Rightarrow> (ustr \<times> ustr) list" where
  "topic_schemas ix = map (\<lambda>(topic, schema, n). (topic, schema)) (ix_topics ix)"

lemma wanted_schemas: "wanted_prefixed s ix want raw_all = map fst (filter (\<lambda>(topic, schema).
     case strip_device_topic_prefix topic (se_device s) of None \<Rightarrow> False
     | Some canon \<Rightarrow> (case want of None \<Rightarrow> raw_all \<or> schema \<in> set DECODABLE | Some w \<Rightarrow> canon \<in> set w)) (topic_schemas ix))"
proof -
  have "map fst (filter (\<lambda>(topic, schema, n). Q topic schema) ts)
      = map fst (filter (\<lambda>(topic, schema). Q topic schema) (map (\<lambda>(topic, schema, n). (topic, schema)) ts))"
    for Q and ts :: "(ustr \<times> ustr \<times> nat) list" by (induction ts) auto
  then show ?thesis unfolding wanted_prefixed_def topic_schemas_def .
qed

lemma add_adapters_schemas:
  "\<lbrakk>map (\<lambda>(topic, schema, n). (topic, schema)) ts = map (\<lambda>(topic, schema, n). (topic, schema)) ts';
    ix_schema_rec ix = ix_schema_rec ix'\<rbrakk> \<Longrightarrow> add_adapters P ix wanted ts built = add_adapters P ix' wanted ts' built"
proof (induction ts arbitrary: ts' built)
  case (Cons t ts)
  then obtain topic schema n n' us where t: "t = (topic, schema, n)" "ts' = (topic, schema, n') # us"
    "map (\<lambda>(topic, schema, n). (topic, schema)) ts = map (\<lambda>(topic, schema, n). (topic, schema)) us"
    by (cases t; cases ts') auto
  have "class_for P ix = class_for P ix'" using Cons.prems(2) by (simp add: class_for_def fun_eq_iff)
  then show ?case using Cons.IH [OF t(3) Cons.prems(2)] Cons.prems(2) unfolding t by simp
qed simp

lemma build_schemas:
  assumes "topic_schemas ix = topic_schemas ix'" "ix_schema_rec ix = ix_schema_rec ix'"
  shows "build_adapters P ix wanted = (build_adapters P ix' wanted :: rows_error + ('c, 'u) adapters)"
proof -
  have "class_for P ix = class_for P ix'" using assms(2) by (simp add: class_for_def fun_eq_iff)
  moreover have "add_adapters P ix wanted (ix_topics ix) = (add_adapters P ix' wanted (ix_topics ix') :: ('c, 'u) adapters \<Rightarrow> _)"
    by (rule ext) (rule add_adapters_schemas [OF assms(1) [unfolded topic_schemas_def] assms(2)])
  ultimately show ?thesis unfolding build_adapters_def by simp
qed

definition built_by :: "('p payload, 'u, 'img) proto_env \<Rightarrow> file_index \<Rightarrow> ('c, 'u) adapters \<Rightarrow> bool" where
  "built_by P ix built \<longleftrightarrow> (\<forall>x \<in> set built. build_adapter P True (class_for P ix) (fst x) = Inr (snd x))"

lemma add_adapters_built: "built_by P ix built \<Longrightarrow> add_adapters P ix wanted ts built = Inr b \<Longrightarrow> built_by P ix b"
  by (induction P ix wanted ts built rule: add_adapters.induct) (auto simp: bindE_eq_Inr built_by_def split: if_splits)

lemma mapE_built: "mapE (\<lambda>name. bindE (build_adapter P True (class_for P ix) name) (\<lambda>a. Inr (name, a))) names = Inr built
    \<Longrightarrow> built_by P ix built"
  by (induction names arbitrary: built) (auto simp: bindE_eq_Inr built_by_def, force)

lemma build_adapter_stateless:
  assumes "no_overrides P" "n \<noteq> VIDEO_SCHEMA" "n \<noteq> IMAGE_SCHEMA" "build_adapter P True f n = Inr a"
  shows "stateless a"
proof -
  have "pe_override P n = None" using assms(1) by (simp add: no_overrides_def)
  then consider kind cls where "map_of REGISTRY n = Some kind" "a = adapter_of_kind kind cls" | cls where "a = RecordAdapter n cls"
    using assms(4) by (auto simp: build_adapter_def bindE_eq_Inr split: option.splits)
  then show ?thesis
  proof cases
    case 1
    then show ?thesis using assms(2,3) by (auto simp: REGISTRY_def split: if_splits)
  qed simp
qed

lemma build_adapters_steady:
  assumes "no_overrides P" "build_adapters P ix wanted = Inr built" "\<forall>schema. sr_schema r = Some schema \<longrightarrow> sc_name schema \<noteq> IMAGE_SCHEMA"
  shows "steady built r"
proof -
  have "built_by P ix built"
    using assms(2) mapE_built add_adapters_built unfolding build_adapters_def bindE_eq_Inr by blast
  then show ?thesis unfolding steady_def
    using build_adapter_stateless [OF assms(1)] assms(3) by (fastforce simp: built_by_def dest: map_of_SomeD)
qed

text \<open>Part after part through one carried state is the file of all their rows.\<close>

fun each_continues :: "session \<Rightarrow> rotation option \<Rightarrow> nat list \<Rightarrow> bool" where
  "each_continues s previous [] \<longleftrightarrow> True"
| "each_continues s previous (i # is') \<longleftrightarrow>
     continues previous (me_rotation (member_at s i)) \<and> each_continues s (me_rotation (member_at s i)) is'"

text \<open>The decoders go on from the file before, or start afresh with the first part that is read.\<close>

definition in_parts :: "session \<Rightarrow> rotation option \<Rightarrow> 'c decoder_state \<Rightarrow> nat list \<Rightarrow> bool" where
  "in_parts s previous d parts \<longleftrightarrow> (case parts of [] \<Rightarrow> True | i # later \<Rightarrow>
     (continues previous (me_rotation (member_at s i)) \<or> me_rotation (member_at s i) \<noteq> None \<and> d = init_decoders)
     \<and> each_continues s (me_rotation (member_at s i)) later)"

lemma each_in_parts: "each_continues s previous parts \<Longrightarrow> in_parts s previous d parts"
  by (cases parts) (auto simp: in_parts_def)

definition same_topics :: "member \<Rightarrow> member \<Rightarrow> bool" where
  "same_topics a b \<longleftrightarrow> topic_schemas (me_index a) = topic_schemas (me_index b) \<and> ix_schema_rec (me_index a) = ix_schema_rec (me_index b)"

lemma iter_file_like:
  assumes "same_topics (member_at s i) m" "reader_ok (member_at s i)" "wanted_prefixed s (me_index m) want False = w" "w \<noteq> []"
    "build_adapters P (me_index m) (filter (\<lambda>t. canon_of s t \<notin> set raw_set) w) = Inr built"
  shows "iter_file P E pf s False raw_set b (member_at s i) want st = file_rows P E pf s raw_set
    (filter (\<lambda>r. sr_topic r \<in> set w \<and> in_window (sr_time r) None b) (all_rows (member_at s i))) None built st"
proof -
  have "wanted_prefixed s (me_index (member_at s i)) want False = w"
    using assms(1,3) by (simp add: wanted_schemas same_topics_def)
  moreover have "build_adapters P (me_index (member_at s i)) (filter (\<lambda>t. canon_of s t \<notin> set raw_set) w) = Inr built"
    by (rule trans [OF build_schemas assms(5)]) (use assms(1) in \<open>simp_all add: same_topics_def\<close>)
  moreover have "read_messages (member_at s i) (Some w) None b
      = (filter (\<lambda>r. sr_topic r \<in> set w \<and> in_window (sr_time r) None b) (all_rows (member_at s i)), None)"
    using assms(2) by (simp add: reader_ok_def)
  ultimately show ?thesis using assms(4) by (simp add: iter_file_def Let_def)
qed

lemma files_as_one:
  fixes P :: "('p payload, 'u, 'img) proto_env" and E :: "('c, 'f, 'img) av_env"
  assumes "no_overrides P" "VIDEO_SCHEMA \<notin> set (se_adapters s)" "wanted_prefixed s (me_index m) want False = w" "w \<noteq> []"
    and built: "build_adapters P (me_index m) (filter (\<lambda>t. canon_of s t \<notin> set raw_set) w) = Inr (built :: ('c, 'u) adapters)"
    and "\<forall>i \<in> set parts. same_topics (member_at s i) m \<and> reader_ok (member_at s i)
       \<and> (\<forall>r \<in> set (all_rows (member_at s i)). \<forall>schema. sr_schema r = Some schema \<longrightarrow> sc_name schema \<noteq> IMAGE_SCHEMA)"
    and "in_parts s previous d parts"
  shows "stream_files P E pf s False raw_set b (map (\<lambda>i. (i, want)) parts) (Some d) previous =
    fst (file_rows P E pf s raw_set (filter (\<lambda>r. sr_topic r \<in> set w \<and> in_window (sr_time r) None b)
      (concat (map (\<lambda>i. all_rows (member_at s i)) parts))) None built (Some d))"
  using assms(6,7)
proof (induction parts arbitrary: d previous)
  case Nil
  have "plain_adapters built" by (rule build_adapters_plain [OF assms(1) built])
  then show ?case by (simp add: flush_steady carries_video_def assms(2))
next
  case (Cons i parts)
  let ?R = "\<lambda>rows. filter (\<lambda>r. sr_topic r \<in> set w \<and> in_window (sr_time r) None b) rows"
  have plain: "plain_adapters built" by (rule build_adapters_plain [OF assms(1) built])
  have i: "same_topics (member_at s i) m" "reader_ok (member_at s i)" using Cons.prems(1) by simp_all
  have "\<forall>r \<in> set (?R (all_rows (member_at s i))). steady built r"
    using Cons.prems(1) by (auto intro!: build_adapters_steady [OF assms(1) built])
  from file_rows_append [OF assms(2) plain this, of P E pf raw_set d "?R (concat (map (\<lambda>i. all_rows (member_at s i)) parts))" None]
  obtain xs err d' where f: "file_rows P E pf s raw_set (?R (all_rows (member_at s i))) None built (Some d) = ((xs, err), Some d')"
    "file_rows P E pf s raw_set (?R (all_rows (member_at s i)) @ ?R (concat (map (\<lambda>i. all_rows (member_at s i)) parts))) None built (Some d) =
       (if err = None then ((xs @ fst (fst (file_rows P E pf s raw_set (?R (concat (map (\<lambda>i. all_rows (member_at s i)) parts))) None built (Some d'))),
          snd (fst (file_rows P E pf s raw_set (?R (concat (map (\<lambda>i. all_rows (member_at s i)) parts))) None built (Some d')))),
          snd (file_rows P E pf s raw_set (?R (concat (map (\<lambda>i. all_rows (member_at s i)) parts))) None built (Some d')))
        else ((xs, err), Some d'))" by blast
  have it: "iter_file P E pf s False raw_set b (member_at s i) want (Some d) = ((xs, err), Some d')"
    using iter_file_like [OF i assms(3,4) built, of E pf b "Some d"] f(1) by simp
  have later: "each_continues s (me_rotation (member_at s i)) parts" using Cons.prems(2) by (simp add: in_parts_def)
  have IH: "stream_files P E pf s False raw_set b (map (\<lambda>i. (i, want)) parts) (Some d') (me_rotation (member_at s i)) =
    fst (file_rows P E pf s raw_set (?R (concat (map (\<lambda>i. all_rows (member_at s i)) parts))) None built (Some d'))"
    by (rule Cons.IH) (use Cons.prems(1) each_in_parts [OF later] in simp_all)
  have "(if continues previous (me_rotation (member_at s i)) then Some d
      else if me_rotation (member_at s i) \<noteq> None \<and> \<not> False then Some init_decoders else None) = Some d"
    using Cons.prems(2) by (auto simp: in_parts_def)
  then show ?case using it IH f(2) by (cases err) (simp_all add: Let_def case_prod_beta)
qed

lemma files_nothing:
  assumes "\<forall>i \<in> set parts. wanted_prefixed s (me_index (member_at s i)) want False = []"
  shows "stream_files P E pf s False raw_set b (map (\<lambda>i. (i, want)) parts) st previous = ([], None)"
  using assms by (induction parts arbitrary: st previous) (simp_all add: iter_file_def Let_def)

section \<open>Properties\<close>

text \<open>The sample files of \<open>SessionIndex\<close> and a session of two parts with the recording they make up, for the witnesses.\<close>

lemma sample_rows_all [simp]: "all_rows (sample_member p rows\<lparr>me_rotation := rot\<rparr>) = rows" "all_rows (sample_member p rows) = rows"
  by (simp_all add: all_rows_def read_messages_def sample_member_def sample_index_def sample_file_def in_window_def)

lemma sample_reader [simp]: "reader_ok (sample_member p rows\<lparr>me_rotation := rot\<rparr>)" "reader_ok (sample_member p rows)"
  by (simp_all add: reader_ok_def) (simp_all add: read_messages_def sample_member_def sample_index_def sample_file_def)

lemma sample_session_ok: "session_ok sample_session"
  by (auto simp: session_ok_def sample_session_def member_stamps_def member_at_def stamps_within_def rows_a_def rows_b_def
      sample_srow_def)

lemma sample_index_ok: "\<forall>m \<in> set (se_members sample_session). index_ok m"
  by (auto simp: index_ok_def sample_session_def rows_a_def rows_b_def sample_srow_def)
    (auto simp: sample_member_def sample_index_def sample_srow_def ix_topics_def)

lemma sample_wire: "length (concat (map (wire_rows sample_session None None) (se_members sample_session))) = 5"
  by (simp add: sample_session_def wire_rows_def wire_of_def rows_a_def rows_b_def sample_srow_def map_filter_simps
      strip_device_topic_prefix_def in_window_def)

definition stream_proto :: "(unit payload, unit, unit) proto_env" where
  "stream_proto = \<lparr>pe_generated = \<lambda>n. True, pe_defines = \<lambda>d n. False, pe_decoded = \<lambda>c d. None, pe_imu = \<lambda>c d. None,
     pe_imu_quat = \<lambda>c d. None, pe_pose = \<lambda>c d. None, pe_quaternion = \<lambda>c d. None, pe_joints = \<lambda>c d. None,
     pe_record = \<lambda>c d. Some (Wire d), pe_override = \<lambda>n. None, pe_override_emit = \<lambda>u d t n. (([], None), u),
     pe_override_flush = \<lambda>u. ([], None)\<rparr>"

definition sample_exposure :: "(unit, unit) exposure_ext" where
  "sample_exposure = \<lparr>xe_descriptors = \<lambda>_. None, xe_nbytes = \<lambda>_. 0,
     xe_fields = \<lambda>_. sample_exposure_info\<rparr>"

definition rows_c :: "session_row list" where "rows_c = map sample_srow [1500, 2000]"

definition sample_parts :: session where
  "sample_parts = \<lparr>se_members = [sample_member [97] rows_a\<lparr>me_rotation := Some ([114], 1, False)\<rparr>,
       sample_member [98] rows_c\<lparr>me_rotation := Some ([114], 2, True)\<rparr>,
       sample_member [99] (rows_a @ rows_c)\<lparr>me_rotation := Some ([115], 1, False)\<rparr>],
     se_streams = [[0, 1], [2]], se_origin = [0, 0], se_reorder_ns = 0, se_device = None, se_adapters = []\<rparr>"

text \<open>
  C33. A stream comes in order of time and keeps to its window, whatever the files, the adapters, the
  exposure join and the rows left undecoded: when no file delivers a message later than the session's own
  slack, and every file can be read, a \<open>stream\<close> that ends without an error has yielded elements whose times
  never decrease and all lie between \<open>start_ns\<close> and \<open>end_ns\<close>.
\<close>

theorem stream_in_time_order:
  fixes P :: "('p payload, 'u, 'img) proto_env" and E :: "('c, 'f, 'img) av_env"
  assumes "no_overrides P" "offsets_forward P" "session_ok s"
    and "session_stream P E X s topics start_ns end_ns gray raw = Inr (outs, None)"
  shows "sorted (map el_t_ns outs) \<and> list_all (\<lambda>el. in_window (el_t_ns el) start_ns end_ns) outs"
proof -
  obtain want all raw_set cameras infos where
    "stream_elements P E X s want start_ns end_ns (pixel_format_of gray) all raw_set cameras infos = (outs, None)"
    using assms(4) unfolding session_stream_def Let_def bindE_eq_Inr
    by (auto split: if_splits sum.splits)
  from stream_elements_sorted [OF assms(1-3) this] show ?thesis by (simp add: list_all_iff)
qed

theorem stream_in_time_order_witness:
  "\<exists>outs. session_stream stream_proto sample_av sample_exposure sample_session None None None False RawAll = Inr (outs, None)
     \<and> length outs = 5 \<and> sorted (map el_t_ns outs)"
proof -
  have "mset (concat (se_streams sample_session)) = mset [0..<length (se_members sample_session)]"
    by (simp add: sample_session_def)
  from raw_stream_mset [OF sample_session_ok sample_index_ok this, of stream_proto sample_av sample_exposure None None
      "pixel_format_of False"] obtain outs where o:
    "session_stream stream_proto sample_av sample_exposure sample_session None None None False RawAll = Inr (outs, None)"
    "mset outs = mset (concat (map (wire_rows sample_session None None) (se_members sample_session)))"
    by (auto simp: session_stream_def raw_all_of_def raw_set_of_def guardE_def)
  have "no_overrides stream_proto" "offsets_forward stream_proto"
    by (auto simp: no_overrides_def offsets_forward_def stream_proto_def)
  from stream_in_time_order [OF this sample_session_ok o(1)] mset_eq_length [OF o(2)] o(1) sample_wire
  show ?thesis by (intro exI [of _ outs]) simp
qed

text \<open>
  C34. Nothing is lost on the way of an undecoded stream and nothing is read twice: with \<open>raw="all"\<close> and no
  topics asked for, \<open>stream\<close> succeeds and yields the messages of every file of the session that belong to the
  device and lie in the window, each exactly once, although it opens only the files whose index spans the
  window and merges the streams by arrival.
\<close>

theorem raw_stream_complete:
  fixes P :: "('p payload, 'u, 'img) proto_env" and E :: "('c, 'f, 'img) av_env"
  assumes "session_ok s" and "\<forall>m \<in> set (se_members s). index_ok m"
    and "mset (concat (se_streams s)) = mset [0..<length (se_members s)]"
  shows "\<exists>outs. session_stream P E X s None start_ns end_ns False RawAll = Inr (outs, None)
    \<and> mset outs = mset (concat (map (wire_rows s start_ns end_ns) (se_members s)))"
  using raw_stream_mset [OF assms, of P E X start_ns end_ns "pixel_format_of False"]
  by (simp add: session_stream_def raw_all_of_def raw_set_of_def guardE_def)

theorem raw_stream_complete_witness:
  "\<exists>outs. session_stream stream_proto sample_av sample_exposure sample_session None None None False RawAll = Inr (outs, None)
     \<and> length outs = 5"
proof -
  have "mset (concat (se_streams sample_session)) = mset [0..<length (se_members sample_session)]"
    by (simp add: sample_session_def)
  from raw_stream_complete [OF sample_session_ok sample_index_ok this, of stream_proto sample_av sample_exposure None None]
  show ?thesis using sample_wire by (metis mset_eq_length)
qed

text \<open>
  C35. A recording in parts reads as one recording: the files of a chain, each the next part of the one
  before, give the same elements and the same end as one file with all their rows, whatever is
  wanted and whatever the decoders do. The decoders cross the seams: a part need not begin with a keyframe.
\<close>

theorem recording_parts_read_as_one:
  fixes P :: "('p payload, 'u, 'img) proto_env" and E :: "('c, 'f, 'img) av_env"
  assumes "no_overrides P" and "VIDEO_SCHEMA \<notin> set (se_adapters s)"
    and "each_continues s (me_rotation (member_at s i)) later"
    and "me_rotation (member_at s i) \<noteq> None" and "me_rotation (member_at s k) \<noteq> None"
    and "all_rows (member_at s k) = concat (map (\<lambda>j. all_rows (member_at s j)) (i # later))"
    and "\<forall>j \<in> set (k # i # later). reader_ok (member_at s j) \<and> same_topics (member_at s j) (member_at s k)"
    and "\<forall>r \<in> set (all_rows (member_at s k)). map_option sc_name (sr_schema r) \<noteq> Some IMAGE_SCHEMA"
  shows "stream_files P E pf s False raw_set end_ns (map (\<lambda>j. (j, want)) (i # later)) None None
    = stream_files P E pf s False raw_set end_ns [(k, want)] None None"
proof -
  let ?w = "wanted_prefixed s (me_index (member_at s k)) want False"
  let ?wide = "filter (\<lambda>t. canon_of s t \<notin> set raw_set) ?w"
  have w: "wanted_prefixed s (me_index (member_at s j)) want False = ?w" if "j \<in> set (k # i # later)" for j
  proof -
    have "same_topics (member_at s j) (member_at s k)" using assms(7) that by blast
    then show ?thesis by (simp add: wanted_schemas same_topics_def)
  qed
  show ?thesis
  proof (cases "?w = []")
    case True
    have unwanted: "wanted_prefixed s (me_index (member_at s j)) want False = []" if "j \<in> set (k # i # later)" for j
      using w [OF that] True by (rule trans)
    have "stream_files P E pf s False raw_set end_ns (map (\<lambda>j. (j, want)) (i # later)) None None = ([], None)"
      by (rule files_nothing) (use unwanted in auto)
    moreover have "stream_files P E pf s False raw_set end_ns (map (\<lambda>j. (j, want)) [k]) None None = ([], None)"
      by (rule files_nothing) (use unwanted in auto)
    ultimately show ?thesis by (simp only: list.map)
  next
    case some: False
    show ?thesis
    proof (cases "build_adapters P (me_index (member_at s k)) ?wide :: rows_error + ('c, 'u) adapters")
      case (Inl e)
      have "build_adapters P (me_index (member_at s i)) ?wide = (Inl e :: rows_error + ('c, 'u) adapters)"
        by (rule trans [OF build_schemas Inl]) (use assms(7) in \<open>simp_all add: same_topics_def\<close>)
      moreover have "wanted_prefixed s (me_index (member_at s i)) want False = ?w" by (rule w) simp
      ultimately have "iter_file P E pf s False raw_set end_ns (member_at s j) want (Some init_decoders)
          = (([], Some (StreamRows e)), Some init_decoders)" if "j \<in> {i, k}" for j
        using that Inl some unfolding iter_file_def by auto
      then show ?thesis using assms(4,5) by (simp add: continues_def Let_def)
    next
      case (Inr built)
      have stills: "sc_name schema \<noteq> IMAGE_SCHEMA"
        if "j \<in> set (k # i # later)" "r \<in> set (all_rows (member_at s j))" "sr_schema r = Some schema" for j r schema
      proof -
        have "set (all_rows (member_at s j)) \<subseteq> set (all_rows (member_at s k))" 
          using that(1) assms(6) by (cases "j = k") auto
        then have "map_option sc_name (sr_schema r) \<noteq> Some IMAGE_SCHEMA" using assms(8) that(2) by blast
        then show ?thesis using that(3) by simp
      qed
      note one = files_as_one [OF assms(1,2) refl some Inr, where previous = None and d = init_decoders]
      have "stream_files P E pf s False raw_set end_ns (map (\<lambda>j. (j, want)) (i # later)) (Some init_decoders) None
          = stream_files P E pf s False raw_set end_ns (map (\<lambda>j. (j, want)) [k]) (Some init_decoders) None"
      proof (rule trans [OF one one [symmetric, THEN trans [rotated]]])
        show "in_parts s None init_decoders (i # later)" "in_parts s None init_decoders [k]"
          using assms(3-5) by (simp_all add: in_parts_def)
        show "\<forall>j \<in> set (i # later). same_topics (member_at s j) (member_at s k) \<and> reader_ok (member_at s j)
            \<and> (\<forall>r \<in> set (all_rows (member_at s j)). \<forall>schema. sr_schema r = Some schema \<longrightarrow> sc_name schema \<noteq> IMAGE_SCHEMA)"
          "\<forall>j \<in> set [k]. same_topics (member_at s j) (member_at s k) \<and> reader_ok (member_at s j)
            \<and> (\<forall>r \<in> set (all_rows (member_at s j)). \<forall>schema. sr_schema r = Some schema \<longrightarrow> sc_name schema \<noteq> IMAGE_SCHEMA)"
          using assms(7) stills by auto
      qed (simp only: list.map concat.simps append_Nil2 assms(6))
      then show ?thesis using assms(4,5) by (simp add: continues_def)
    qed
  qed
qed

theorem recording_parts_read_as_one_witness:
  "stream_files stream_proto sample_av (pixel_format_of False) sample_parts False [] None [(0, Some [[47, 116]]), (1, Some [[47, 116]])] None None
   = stream_files stream_proto sample_av (pixel_format_of False) sample_parts False [] None [(2, Some [[47, 116]])] None None"
proof -
  have ok: "no_overrides stream_proto" "VIDEO_SCHEMA \<notin> set (se_adapters sample_parts)"
    by (auto simp: no_overrides_def stream_proto_def sample_parts_def)
  have parts: "each_continues sample_parts (me_rotation (member_at sample_parts 0)) [1]"
    "me_rotation (member_at sample_parts 0) \<noteq> None" "me_rotation (member_at sample_parts 2) \<noteq> None"
    by (simp_all add: sample_parts_def member_at_def continues_def)
  have rows: "all_rows (member_at sample_parts 2) = concat (map (\<lambda>j. all_rows (member_at sample_parts j)) [0, 1])"
    by (simp add: sample_parts_def member_at_def)
  have like: "\<forall>j \<in> set [2, 0, 1]. reader_ok (member_at sample_parts j) \<and> same_topics (member_at sample_parts j) (member_at sample_parts 2)"
    by (simp add: sample_parts_def member_at_def)
      (simp add: same_topics_def sample_member_def sample_index_def topic_schemas_def ix_topics_def)
  have stills: "\<forall>r \<in> set (all_rows (member_at sample_parts 2)). map_option sc_name (sr_schema r) \<noteq> Some IMAGE_SCHEMA"
    by (simp add: sample_parts_def member_at_def rows_a_def rows_c_def sample_srow_def sample_schema_def IMAGE_SCHEMA_def)
  show ?thesis
    using recording_parts_read_as_one [OF ok parts rows like stills, of sample_av "pixel_format_of False" "[]" None "Some [[47, 116]]"] by simp
qed

end
