(* ===== verification/Keyframes.thy ===== *)
theory Keyframes
  imports SessionStream
begin

text \<open>
  Sparse reads of a session (\<open>reader/session.py\<close>): the compressed keyframes of an indexed window
  (\<open>keyframe_records\<close>), the decoded frames of every n-th keyframe of one topic (\<open>keyframe_stream\<close>), and the
  probe that says how often keyframes come (\<open>keyframe_cadence\<close>). No delta frame reaches a decoder here. The
  backend is the CPU one, the byte counters are left out, and floats are reals.
\<close>

section \<open>The topic and its files\<close>

datatype keyframe_error = KeyframeRead read_error | KeyframeRows rows_error | KeyframeExposure exposure_error
  | NoKeyframeParser ustr ustr | NoKeyframeAmong nat | ConflictingKeyframes ustr int

datatype keyframe_refusal = NotVideoTopic ustr | DistinctTopics | WindowOrder | ChunkIndexes ustr | EveryNTooSmall

definition video_topic_in :: "session \<Rightarrow> file_index \<Rightarrow> ustr \<Rightarrow> ustr option" where
  "video_topic_in s ix canon = map_option fst (find (\<lambda>(topic, schema, n).
     schema = VIDEO_SCHEMA \<and> strip_device_topic_prefix topic (se_device s) = Some canon) (ix_topics ix))"

definition require_video_topic :: "session \<Rightarrow> ustr \<Rightarrow> keyframe_refusal + unit" where
  "require_video_topic s topic = guardE (topic \<in> set (topics_of_schema s VIDEO_SCHEMA)) (NotVideoTopic topic)"

definition video_files :: "session \<Rightarrow> ustr \<Rightarrow> int option \<Rightarrow> int option \<Rightarrow> (member \<times> ustr) list" where
  "video_files s topic start_ns end_ns = List.map_filter (\<lambda>m. case video_topic_in s (me_index m) topic of
     Some prefixed \<Rightarrow> if spans_window (me_index m) start_ns end_ns then Some (m, prefixed) else None
   | None \<Rightarrow> None) (se_members s)"

definition require_chunk_indexes :: "session \<Rightarrow> keyframe_refusal + unit" where
  "require_chunk_indexes s = (case find (\<lambda>m. \<not> ix_chunk_indexed (me_index m)) (se_members s) of
     None \<Rightarrow> Inr () | Some m \<Rightarrow> Inl (ChunkIndexes (sf_path (me_file m))))"

text \<open>\<open>_iter_video_aus\<close>: stamp, keyframe or not, and the parsed access unit.\<close>

fun classify :: "('p, 'u, 'img) proto_env \<Rightarrow> ustr \<Rightarrow> session_row list \<Rightarrow> read_error option
    \<Rightarrow> (int \<times> bool \<times> video_msg) list \<times> keyframe_error option" where
  "classify P canon [] end_err = ([], map_option KeyframeRead end_err)"
| "classify P canon (r # rows) end_err =
     (case pe_decoded P (Generated VIDEO_SCHEMA) (sr_data r) of
        None \<Rightarrow> ([], Some (KeyframeRows ProtoDecodeError))
      | Some v \<Rightarrow> (case is_keyframe (vm_format v) (vm_data v) of
            None \<Rightarrow> ([], Some (NoKeyframeParser (vm_format v) canon))
          | Some key \<Rightarrow> let (aus, err) = classify P canon rows end_err in ((sr_time r, key, v) # aus, err)))"

definition iter_video_aus :: "('p, 'u, 'img) proto_env \<Rightarrow> member \<Rightarrow> ustr \<Rightarrow> ustr \<Rightarrow> int option \<Rightarrow> int option
    \<Rightarrow> (int \<times> bool \<times> video_msg) list \<times> keyframe_error option" where
  "iter_video_aus P m prefixed canon start_ns end_ns =
     (let (rows, err) = read_messages m (Some [prefixed]) start_ns end_ns in classify P canon rows err)"

section \<open>How often keyframes come\<close>

definition CADENCE_KEYFRAMES :: nat where "CADENCE_KEYFRAMES = 5"
definition CADENCE_AUS :: nat where "CADENCE_AUS = 3000"

text \<open>The probe stops reading at its bounds, so an error behind them is never met.\<close>

fun probe :: "nat \<Rightarrow> (int \<times> bool \<times> video_msg) list \<Rightarrow> keyframe_error option \<Rightarrow> (int \<times> nat) list
    \<Rightarrow> keyframe_error + (int \<times> nat) list" where
  "probe n [] err found = (case err of Some e \<Rightarrow> Inl e | None \<Rightarrow> Inr found)"
| "probe n ((t, key, v) # aus) err found =
     (let found = (if key then found @ [(t, n)] else found)
      in if CADENCE_KEYFRAMES \<le> length found \<or> CADENCE_AUS \<le> n + 1 then Inr found
         else probe (n + 1) aus err found)"

definition diffs :: "int list \<Rightarrow> int list" where
  "diffs xs = map (\<lambda>(a, b). b - a) (zip xs (tl xs))"

definition median :: "int list \<Rightarrow> real" where
  "median xs = (let ys = sort xs; n = length ys
     in if odd n then of_int (ys ! (n div 2)) else (of_int (ys ! (n div 2 - 1)) + of_int (ys ! (n div 2))) / 2)"

record cadence =
  cd_topic :: ustr
  cd_period_ns :: int
  cd_frames_per_gop :: int
  cd_sampled :: nat

fun cadence_of :: "ustr \<Rightarrow> ((int \<times> bool \<times> video_msg) list \<times> keyframe_error option) list
    \<Rightarrow> keyframe_error + cadence option" where
  "cadence_of topic [] = Inr None"
| "cadence_of topic ((aus, err) # files) =
     bindE (probe 0 aus err []) (\<lambda>found.
       let period_ns = py_round (median (diffs (map fst found)))
       in if length found < 2 \<or> period_ns \<le> 0 then cadence_of topic files
          else Inr (Some \<lparr>cd_topic = topic, cd_period_ns = period_ns,
                 cd_frames_per_gop = py_round (median (diffs (map (int \<circ> snd) found))), cd_sampled = length found\<rparr>))"

definition measure_cadence :: "('p, 'u, 'img) proto_env \<Rightarrow> session \<Rightarrow> ustr \<Rightarrow> keyframe_error + cadence option" where
  "measure_cadence P s topic =
     cadence_of topic (map (\<lambda>(m, prefixed). iter_video_aus P m prefixed topic None None) (video_files s topic None None))"

text \<open>\<open>keyframe_cadence\<close>, with the cache of the session as a state.\<close>

definition keyframe_cadence :: "('p, 'u, 'img) proto_env \<Rightarrow> session \<Rightarrow> (ustr \<times> cadence option) list \<Rightarrow> ustr
    \<Rightarrow> (keyframe_refusal + keyframe_error + cadence option) \<times> (ustr \<times> cadence option) list" where
  "keyframe_cadence P s cache topic =
     (case map_of cache topic of
        Some c \<Rightarrow> (Inr (Inr c), cache)
      | None \<Rightarrow> (case require_video_topic s topic of
            Inl e \<Rightarrow> (Inl e, cache)
          | Inr _ \<Rightarrow> (case measure_cadence P s topic of
                Inl e \<Rightarrow> (Inr (Inl e), cache)
              | Inr c \<Rightarrow> (Inr (Inr c), AList.update topic c cache))))"

definition every_n_for :: "cadence \<Rightarrow> int \<Rightarrow> int \<times> int" where
  "every_n_for c period_ns =
     (let every_n = max 1 (py_round (of_int period_ns / of_int (cd_period_ns c))) in (every_n, every_n * cd_period_ns c))"

section \<open>Compressed keyframes\<close>

text \<open>\<open>_keyframe_records_file\<close>: the indexed reader itself, one file; a record is its topic, stamp and bytes.\<close>

type_synonym key_record = "ustr \<times> int \<times> bytes"

fun keyframe_rows :: "('p, 'u, 'img) proto_env \<Rightarrow> (ustr \<times> ustr) list \<Rightarrow> session_row list \<Rightarrow> read_error option
    \<Rightarrow> key_record list \<times> keyframe_error option" where
  "keyframe_rows P names [] end_err = ([], map_option KeyframeRead end_err)"
| "keyframe_rows P names (r # rows) end_err =
     (let canon = (case map_of names (sr_topic r) of None \<Rightarrow> [] | Some c \<Rightarrow> c)
      in case pe_decoded P (Generated VIDEO_SCHEMA) (sr_data r) of
           None \<Rightarrow> ([], Some (KeyframeRows ProtoDecodeError))
         | Some v \<Rightarrow> (case is_keyframe (vm_format v) (vm_data v) of
               None \<Rightarrow> ([], Some (NoKeyframeParser (vm_format v) canon))
             | Some key \<Rightarrow> let (xs, err) = keyframe_rows P names rows end_err
                           in (if key then (canon, sr_time r, sr_data r) # xs else xs, err)))"

definition keyframe_records_file :: "('p, 'u, 'img) proto_env \<Rightarrow> member \<Rightarrow> (ustr \<times> ustr) list \<Rightarrow> int \<Rightarrow> int
    \<Rightarrow> key_record list \<times> keyframe_error option" where
  "keyframe_records_file P m names start_ns end_ns =
     (let (rows, err) = sf_indexed (me_file m) (Some (map fst names)) (Some start_ns) (Some end_ns)
      in keyframe_rows P names rows err)"

text \<open>\<open>_merge_keyframe_records\<close>\<close>

fun drop_duplicates :: "(ustr \<times> int \<times> bytes) list \<Rightarrow> key_record list \<Rightarrow> keyframe_error option
    \<Rightarrow> key_record list \<times> keyframe_error option" where
  "drop_duplicates previous [] err = ([], err)"
| "drop_duplicates previous ((topic, t, d) # records) err =
     (case map_of previous topic of
        Some (t', d') \<Rightarrow>
          if t' = t then if d' \<noteq> d then ([], Some (ConflictingKeyframes topic t)) else drop_duplicates previous records err
          else let (xs, e) = drop_duplicates (AList.update topic (t, d) previous) records err in ((topic, t, d) # xs, e)
      | None \<Rightarrow> let (xs, e) = drop_duplicates (AList.update topic (t, d) previous) records err in ((topic, t, d) # xs, e))"

definition record_time :: "key_record \<Rightarrow> int" where "record_time x = fst (snd x)"

lemma record_time_triple [simp]: "record_time (topic, t, d) = t"
  by (simp add: record_time_def)

definition merge_keyframe_records :: "(key_record list \<times> keyframe_error option) list
    \<Rightarrow> key_record list \<times> keyframe_error option" where
  "merge_keyframe_records sources = (let (records, err) = merge_gens record_time sources in drop_duplicates [] records err)"

definition video_names :: "session \<Rightarrow> ustr list \<Rightarrow> member \<Rightarrow> (ustr \<times> ustr) list" where
  "video_names s topics m = List.map_filter (\<lambda>t. map_option (\<lambda>p. (p, t)) (video_topic_in s (me_index m) t)) topics"

fun keyframe_sources :: "('p, 'u, 'img) proto_env \<Rightarrow> session \<Rightarrow> ustr list \<Rightarrow> int \<Rightarrow> int \<Rightarrow> member list
    \<Rightarrow> keyframe_refusal + (key_record list \<times> keyframe_error option) list" where
  "keyframe_sources P s topics start_ns end_ns [] = Inr []"
| "keyframe_sources P s topics start_ns end_ns (m # ms) =
     (let names = video_names s topics m
      in if \<not> spans_window (me_index m) (Some start_ns) (Some end_ns) \<or> names = [] then keyframe_sources P s topics start_ns end_ns ms
         else if \<not> ix_chunk_indexed (me_index m) then Inl (ChunkIndexes (sf_path (me_file m)))
         else bindE (keyframe_sources P s topics start_ns end_ns ms) (\<lambda>sources.
                Inr (keyframe_records_file P m names start_ns end_ns # sources)))"

definition keyframe_records :: "('p, 'u, 'img) proto_env \<Rightarrow> session \<Rightarrow> ustr list \<Rightarrow> int \<Rightarrow> int
    \<Rightarrow> keyframe_refusal + (key_record list \<times> keyframe_error option)" where
  "keyframe_records P s topics start_ns end_ns =
     bindE (guardE (topics \<noteq> [] \<and> distinct topics) DistinctTopics) (\<lambda>_.
     bindE (guardE (start_ns < end_ns) WindowOrder) (\<lambda>_.
     bindE (mapE (require_video_topic s) topics) (\<lambda>_.
     bindE (keyframe_sources P s topics start_ns end_ns (se_members s)) (\<lambda>sources.
     Inr (merge_keyframe_records sources)))))"

section \<open>Decoded keyframes\<close>

definition expose :: "(ustr \<Rightarrow> int \<Rightarrow> exposure_error + frame_exposure option) \<Rightarrow> ('img, 'p) element
    \<Rightarrow> exposure_error + ('img, 'p) element" where
  "expose exposure el = (case el of
     Frame topic t img frame_id e \<Rightarrow> bindE (exposure topic t) (\<lambda>e. Inr (Frame topic t img frame_id e))
   | _ \<Rightarrow> Inr el)"

text \<open>One keyframe that is taken: at most one frame, with the exposure at its stamp.\<close>

definition emit_key :: "('c, 'f, 'img) av_env \<Rightarrow> ustr \<Rightarrow> (ustr \<Rightarrow> int \<Rightarrow> exposure_error + frame_exposure option) \<Rightarrow> ustr
    \<Rightarrow> int \<Rightarrow> video_msg \<Rightarrow> 'c video_state \<Rightarrow> (('img, 'p) element list \<times> keyframe_error option) \<times> 'c video_state" where
  "emit_key E pixel_format exposure topic t v st =
     (let ((triples, err), st) = video_emit E False pixel_format (\<lambda>_ _. None) v topic t st
      in (case mapE (expose exposure) (map (\<lambda>x. snd (snd x)) triples) of
            Inl e \<Rightarrow> ([], Some (KeyframeExposure e))
          | Inr els \<Rightarrow> (els, map_option KeyframeRows err), st))"

fun keyframes_in :: "('c, 'f, 'img) av_env \<Rightarrow> ustr \<Rightarrow> (ustr \<Rightarrow> int \<Rightarrow> exposure_error + frame_exposure option) \<Rightarrow> ustr \<Rightarrow> nat
    \<Rightarrow> (int \<times> bool \<times> video_msg) list \<Rightarrow> keyframe_error option \<Rightarrow> 'c video_state \<Rightarrow> nat \<Rightarrow> nat
    \<Rightarrow> (('img, 'p) element list \<times> keyframe_error option) \<times> nat \<times> nat" where
  "keyframes_in E pixel_format exposure topic every_n [] err st seen aus = (([], err), seen, aus)"
| "keyframes_in E pixel_format exposure topic every_n ((t, key, v) # rest) err st seen aus =
     (if \<not> key then keyframes_in E pixel_format exposure topic every_n rest err st seen (aus + 1)
      else if seen mod every_n \<noteq> 0 then keyframes_in E pixel_format exposure topic every_n rest err st (seen + 1) (aus + 1)
      else case emit_key E pixel_format exposure topic t v st of
             ((xs, Some e), _) \<Rightarrow> ((xs, Some e), seen + 1, aus + 1)
           | ((xs, None), st) \<Rightarrow>
               let ((ys, e), n) = keyframes_in E pixel_format exposure topic every_n rest err st (seen + 1) (aus + 1)
               in ((xs @ ys, e), n))"

fun keyframe_frames :: "('c, 'f, 'img) av_env \<Rightarrow> ustr \<Rightarrow> (ustr \<Rightarrow> int \<Rightarrow> exposure_error + frame_exposure option) \<Rightarrow> ustr \<Rightarrow> nat
    \<Rightarrow> ((int \<times> bool \<times> video_msg) list \<times> keyframe_error option) list \<Rightarrow> nat \<Rightarrow> nat
    \<Rightarrow> ('img, 'p) element list \<times> keyframe_error option" where
  "keyframe_frames E pixel_format exposure topic every_n [] seen aus =
     ([], if aus \<noteq> 0 \<and> seen = 0 then Some (NoKeyframeAmong aus) else None)"
| "keyframe_frames E pixel_format exposure topic every_n ((units, err) # files) seen aus =
     (case keyframes_in E pixel_format exposure topic every_n units err init_video seen aus of
        ((xs, Some e), _) \<Rightarrow> (xs, Some e)
      | ((xs, None), seen, aus) \<Rightarrow>
          let (ys, e) = keyframe_frames E pixel_format exposure topic every_n files seen aus in (xs @ ys, e))"

definition keyframe_stream :: "('p, 'u, 'img) proto_env \<Rightarrow> ('c, 'f, 'img) av_env
    \<Rightarrow> (ustr \<Rightarrow> int \<Rightarrow> exposure_error + frame_exposure option) \<Rightarrow> session \<Rightarrow> ustr \<Rightarrow> int \<Rightarrow> int option \<Rightarrow> int option \<Rightarrow> bool
    \<Rightarrow> keyframe_refusal + (('img, 'p) element list \<times> keyframe_error option)" where
  "keyframe_stream P E exposure s topic every_n start_ns end_ns gray =
     bindE (guardE (1 \<le> every_n) EveryNTooSmall) (\<lambda>_.
     bindE (require_video_topic s topic) (\<lambda>_.
     Inr (keyframe_frames E (pixel_format_of gray) exposure topic (nat every_n)
       (map (\<lambda>(m, prefixed). iter_video_aus P m prefixed topic start_ns end_ns) (video_files s topic start_ns end_ns)) 0 0)))"

section \<open>The merge\<close>

lemma pop_gen_sorted: "\<forall>g \<in> set gens. sorted (map key (fst g)) \<Longrightarrow> i < length gens
    \<Longrightarrow> \<forall>g \<in> set (pop_gen i gens). sorted (map key (fst g))"
  unfolding pop_gen_def using set_update_subset_insert [of gens i] by (fastforce simp: sorted_tl map_tl)

lemma merge_sorted: "\<forall>g \<in> set gens. sorted (map key (fst g)) \<Longrightarrow> sorted (map key (fst (merge_gens key gens)))"
proof (induction key gens rule: merge_gens.induct)
  case (1 key gens)
  show ?case
  proof (cases rule: merge_cases [of gens key])
    case (more i)
    have IH: "sorted (map key (fst (merge_gens key (pop_gen i gens))))"
      using "1.IH" more(1-3) pop_gen_sorted [OF "1.prems" more(4)] by blast
    have "key (hd (fst (gens ! i))) \<le> key y" if y: "y \<in> set (fst (merge_gens key (pop_gen i gens)))" for y
    proof -
      have "set (concat (map fst gens)) = insert (hd (fst (gens ! i))) (set (concat (map fst (pop_gen i gens))))"
        by (metis pop_gen_mset [OF more(4,5)] set_mset_add_mset_insert set_mset_mset)
      then have "y \<in> set (concat (map fst gens))" using merge_mem [OF y] by (simp only: insertI2)
      then obtain g where g: "g \<in> set gens" "y \<in> set (fst g)" by auto
      then obtain j where j: "j < length gens" "gens ! j = g" by (metis in_set_conv_nth)
      then have live: "j \<in> set (live_gens gens)" using g(2) by (auto simp: live_gen)
      have "key (hd (fst g)) \<le> key y" using "1.prems" g by (cases "fst g") auto
      then show ?thesis using next_gen_least [OF live, of key] more(3) j(2) by simp
    qed
    then show ?thesis using IH more(6) by simp
  qed simp_all
qed

section \<open>Duplicates\<close>

definition same_place :: "key_record \<Rightarrow> key_record \<Rightarrow> bool" where
  "same_place x y \<longleftrightarrow> fst x = fst y \<and> record_time x = record_time y"

definition agree :: "key_record set \<Rightarrow> bool" where
  "agree A \<longleftrightarrow> (\<forall>x \<in> A. \<forall>y \<in> A. same_place x y \<longrightarrow> x = y)"

lemma agreeD: "agree A \<Longrightarrow> x \<in> A \<Longrightarrow> y \<in> A \<Longrightarrow> same_place x y \<Longrightarrow> x = y"
  by (auto simp: agree_def)

lemma disagree: "\<not> agree A \<Longrightarrow> \<exists>x y. x \<in> A \<and> y \<in> A \<and> same_place x y \<and> x \<noteq> y"
  unfolding agree_def by blast

definition last_of :: "(ustr \<times> int \<times> bytes) list \<Rightarrow> key_record set" where
  "last_of previous = {(topic, x). map_of previous topic = Some x}"

lemma last_of_update: "last_of (AList.update topic x previous) = insert (topic, x) {y \<in> last_of previous. fst y \<noteq> topic}"
  by (auto simp: last_of_def update_conv' split: if_splits)

lemma last_of_empty [simp]: "last_of [] = {}"
  by (simp add: last_of_def)

lemma drop_duplicates_agree:
  assumes "sorted (map record_time records)" "\<forall>x \<in> last_of previous. \<forall>y \<in> set records. record_time x \<le> record_time y"
    "agree (last_of previous \<union> set records)"
  shows "\<exists>out. drop_duplicates previous records err = (out, err) \<and> set out = set records - last_of previous
    \<and> distinct out \<and> sorted (map record_time out)"
  using assms
proof (induction records arbitrary: previous)
  case (Cons y records)
  obtain topic t d where y: "y = (topic, t, d)" by (cases y)
  let ?x = "(topic, t, d)" and ?p = "AList.update topic (t, d) previous"
  have rest: "sorted (map record_time records)" "\<forall>y \<in> set records. t \<le> record_time y"
    using Cons.prems(1) unfolding y by auto
  note prems = Cons.prems [unfolded y]
  show ?case
  proof (cases "?x \<in> last_of previous")
    case True
    then have m: "map_of previous topic = Some (t, d)" by (simp add: last_of_def)
    have "agree (last_of previous \<union> set records)" using prems(3) by (auto simp: agree_def)
    then show ?thesis using Cons.IH [of previous] rest(1) prems(2) m True y by auto
  next
    case False
    have ne: "map_of previous topic \<noteq> Some (t, d')" for d'
    proof
      assume d': "map_of previous topic = Some (t, d')"
      then have "(topic, t, d') \<in> last_of previous" by (simp add: last_of_def)
      then have "(topic, t, d') = ?x" by (intro agreeD [OF prems(3)]) (simp_all add: same_place_def)
      then show False using False d' by (simp add: last_of_def)
    qed
    have "\<exists>out. drop_duplicates ?p records err = (out, err) \<and> set out = set records - last_of ?p
        \<and> distinct out \<and> sorted (map record_time out)"
    proof -
      have "\<forall>x \<in> last_of ?p. \<forall>y \<in> set records. record_time x \<le> record_time y"
        using rest(2) prems(2) by (auto simp: last_of_update record_time_def)
      moreover have "agree (last_of ?p \<union> set records)" using prems(3) by (auto simp: agree_def last_of_update)
      ultimately show ?thesis using Cons.IH [of ?p] rest(1) by blast
    qed
    then obtain out where o: "drop_duplicates ?p records err = (out, err)"
      "set out = set records - last_of ?p" "distinct out" "sorted (map record_time out)" by blast
    have "drop_duplicates previous (?x # records) err = (?x # out, err)"
    proof (cases "map_of previous topic")
      case (Some x)
      then show ?thesis using ne [of "snd x"] o(1) by (cases x) auto
    qed (simp add: o(1))
    note out = this o(2-4)
    have gone: "y \<notin> set records" if "y \<in> last_of previous" "fst y = topic" for y
    proof
      assume y: "y \<in> set records"
      have "record_time y \<le> t" using that prems(2) by (force simp: record_time_def)
      then have "record_time y = t" using rest(2) y by force
      then have "y = ?x" using prems(3) y that by (auto simp: agree_def same_place_def)
      then show False using False that by simp
    qed
    have "set (?x # out) = set (?x # records) - last_of previous"
      using out(2) False gone by (auto simp: last_of_update)
    moreover have "distinct (?x # out)" using out(2,3) by (auto simp: last_of_update)
    moreover have "sorted (map record_time (?x # out))" using out(2,4) rest(2) by (auto simp: record_time_def)
    ultimately show ?thesis using out(1) y by blast
  qed
qed simp

lemma drop_duplicates_conflict:
  assumes "sorted (map record_time records)" "\<forall>x \<in> last_of previous. \<forall>y \<in> set records. record_time x \<le> record_time y"
    "agree (last_of previous)" "\<not> agree (last_of previous \<union> set records)"
  shows "\<exists>topic t. snd (drop_duplicates previous records err) = Some (ConflictingKeyframes topic t)"
  using assms
proof (induction records arbitrary: previous)
  case (Cons y records)
  obtain topic t d where y: "y = (topic, t, d)" by (cases y)
  let ?x = "(topic, t, d)" and ?p = "AList.update topic (t, d) previous"
  have rest: "sorted (map record_time records)" "\<forall>y \<in> set records. t \<le> record_time y"
    using Cons.prems(1) unfolding y by auto
  note prems = Cons.prems [unfolded y]
  show ?case
  proof (cases "\<exists>d'. map_of previous topic = Some (t, d')")
    case True
    then obtain d' where d': "map_of previous topic = Some (t, d')" by blast
    show ?thesis
    proof (cases "d' = d")
      case same: True
      then have "?x \<in> last_of previous" using d' by (simp add: last_of_def)
      then have "\<not> agree (last_of previous \<union> set records)" using prems(4) by (simp add: insert_absorb)
      then show ?thesis using Cons.IH [of previous] rest(1) prems(2,3) d' same y by auto
    qed (simp add: d' y)
  next
    case False
    have later: "\<forall>x \<in> last_of ?p. \<forall>y \<in> set records. record_time x \<le> record_time y"
      using rest(2) prems(2) by (auto simp: last_of_update record_time_def)
    have one: "agree (last_of ?p)" by (auto simp: agree_def last_of_def same_place_def)
    have "\<not> agree (last_of ?p \<union> set records)"
    proof
      assume ok: "agree (last_of ?p \<union> set records)"
      obtain a b where ab: "a \<in> last_of previous \<union> set (?x # records)" "b \<in> last_of previous \<union> set (?x # records)"
        "same_place a b" "a \<noteq> b" using disagree [OF prems(4)] by blast
      have old: "y \<notin> set (?x # records)" if "x \<in> last_of previous" "fst x = topic" "same_place x y" for x y
      proof
        assume y: "y \<in> set (?x # records)"
        have "record_time x \<le> t" using that prems(2) by (force simp: record_time_def)
        moreover have "t \<le> record_time y" using y rest(2) by (auto simp: record_time_def)
        ultimately have "record_time x = t" using that(3) by (simp add: same_place_def)
        then show False using that False by (auto simp: last_of_def record_time_def)
      qed
      have sym: "same_place b a" using ab(3) by (simp add: same_place_def)
      have in_new: "z \<in> last_of ?p \<union> set records"
        if "z \<in> last_of previous \<union> set (?x # records)" "\<not> (z \<in> last_of previous \<and> fst z = topic)" for z
        using that by (auto simp: last_of_update)
      have "\<not> (a \<in> last_of previous \<and> b \<in> last_of previous)"
        using ab(3,4) by (auto simp: last_of_def same_place_def)
      then have "\<not> (a \<in> last_of previous \<and> fst a = topic)" "\<not> (b \<in> last_of previous \<and> fst b = topic)"
        using old [OF _ _ ab(3)] old [OF _ _ sym] ab(1,2) by blast+
      then show False using agreeD [OF ok _ _ ab(3)] ab(1,2,4) in_new by blast
    qed
    then have "\<exists>topic t. snd (drop_duplicates ?p records err) = Some (ConflictingKeyframes topic t)"
      using Cons.IH [of ?p] rest(1) later one False by auto
    then show ?thesis using False y by (auto split: option.split prod.split)
  qed
qed simp

section \<open>The keyframes of a file\<close>

definition is_video :: "session_row \<Rightarrow> bool" where
  "is_video r \<longleftrightarrow> map_option sc_name (sr_schema r) = Some VIDEO_SCHEMA"

definition key_of :: "('p, 'u, 'img) proto_env \<Rightarrow> session_row \<Rightarrow> bool option" where
  "key_of P r = (case pe_decoded P (Generated VIDEO_SCHEMA) (sr_data r) of
     None \<Rightarrow> None | Some v \<Rightarrow> is_keyframe (vm_format v) (vm_data v))"

text \<open>
  What a file has to be for a sparse read: its index is true of its messages and names one channel for each
  video topic, the indexed reader gives the messages asked for, in order of time, and every access unit parses.
\<close>

definition video_channels_ok :: "session \<Rightarrow> member \<Rightarrow> bool" where
  "video_channels_ok s m \<longleftrightarrow> (\<forall>r \<in> set (all_rows m). \<forall>c. strip_device_topic_prefix (sr_topic r) (se_device s) = Some c \<longrightarrow>
     (is_video r \<longleftrightarrow> video_topic_in s (me_index m) c = Some (sr_topic r)))"

definition sparse_ok :: "('p, 'u, 'img) proto_env \<Rightarrow> session \<Rightarrow> member \<Rightarrow> bool" where
  "sparse_ok P s m \<longleftrightarrow> index_ok m \<and> video_channels_ok s m \<and> sorted (map sr_time (all_rows m))
     \<and> (\<forall>topics a b. sf_indexed (me_file m) topics a b =
          (filter (\<lambda>r. (\<forall>ts \<in> set_option topics. sr_topic r \<in> set ts) \<and> in_window (sr_time r) a b) (all_rows m), None))
     \<and> (\<forall>r \<in> set (all_rows m). is_video r \<longrightarrow> key_of P r \<noteq> None)"

definition key_in :: "('p, 'u, 'img) proto_env \<Rightarrow> session \<Rightarrow> ustr list \<Rightarrow> int \<Rightarrow> int \<Rightarrow> session_row \<Rightarrow> key_record option" where
  "key_in P s topics a b r = (case strip_device_topic_prefix (sr_topic r) (se_device s) of
     None \<Rightarrow> None
   | Some c \<Rightarrow> if c \<in> set topics \<and> is_video r \<and> in_window (sr_time r) (Some a) (Some b) \<and> key_of P r = Some True
       then Some (c, sr_time r, sr_data r) else None)"

definition keys_of :: "('p, 'u, 'img) proto_env \<Rightarrow> session \<Rightarrow> ustr list \<Rightarrow> int \<Rightarrow> int \<Rightarrow> member \<Rightarrow> key_record list" where
  "keys_of P s topics a b m = List.map_filter (key_in P s topics a b) (all_rows m)"

lemma mem_map_filter: "x \<in> set (List.map_filter f xs) \<longleftrightarrow> (\<exists>y \<in> set xs. f y = Some x)"
  by (induction xs) (auto simp: map_filter_simps split: option.split)

lemma video_topic_in_name: "video_topic_in s ix c = Some p \<Longrightarrow> strip_device_topic_prefix p (se_device s) = Some c"
  by (auto simp: video_topic_in_def find_Some_iff)

lemma video_names_mem: "(p, c) \<in> set (video_names s topics m) \<longleftrightarrow> c \<in> set topics \<and> video_topic_in s (me_index m) c = Some p"
  by (auto simp: video_names_def mem_map_filter)

lemma video_names_look: "video_topic_in s (me_index m) c = Some p \<Longrightarrow> c \<in> set topics \<Longrightarrow> map_of (video_names s topics m) p = Some c"
proof -
  assume a: "video_topic_in s (me_index m) c = Some p" "c \<in> set topics"
  then have "p \<in> fst ` set (video_names s topics m)" using video_names_mem [of p c s topics m] by force
  then obtain c' where c': "map_of (video_names s topics m) p = Some c'" by (metis domD dom_map_of_conv_image_fst)
  then have "video_topic_in s (me_index m) c' = Some p" using map_of_SomeD video_names_mem by metis
  then show ?thesis using c' video_topic_in_name [OF a(1)] video_topic_in_name [of s "me_index m" c' p] by simp
qed

lemma chosen_row:
  assumes "sparse_ok P s m" "r \<in> set (all_rows m)"
  shows "sr_topic r \<in> set (map fst (video_names s topics m)) \<longleftrightarrow>
    (\<exists>c. strip_device_topic_prefix (sr_topic r) (se_device s) = Some c \<and> c \<in> set topics \<and> is_video r)"
proof
  assume "sr_topic r \<in> set (map fst (video_names s topics m))"
  then obtain c where c: "c \<in> set topics" "video_topic_in s (me_index m) c = Some (sr_topic r)"
    by (auto simp: video_names_mem)
  then show "\<exists>c. strip_device_topic_prefix (sr_topic r) (se_device s) = Some c \<and> c \<in> set topics \<and> is_video r"
    using video_topic_in_name [OF c(2)] assms by (auto simp: sparse_ok_def video_channels_ok_def)
next
  assume "\<exists>c. strip_device_topic_prefix (sr_topic r) (se_device s) = Some c \<and> c \<in> set topics \<and> is_video r"
  then obtain c where c: "strip_device_topic_prefix (sr_topic r) (se_device s) = Some c" "c \<in> set topics" "is_video r" by blast
  then have "video_topic_in s (me_index m) c = Some (sr_topic r)"
    using assms by (auto simp: sparse_ok_def video_channels_ok_def)
  then show "sr_topic r \<in> set (map fst (video_names s topics m))"
    using c(2) video_names_mem [of "sr_topic r" c s topics m] by force
qed

lemma key_row:
  assumes "sparse_ok P s m" "r \<in> set (all_rows m)"
  shows "if sr_topic r \<in> set (map fst (video_names s topics m)) \<and> in_window (sr_time r) (Some a) (Some b)
    then \<exists>c v key. map_of (video_names s topics m) (sr_topic r) = Some c \<and> pe_decoded P (Generated VIDEO_SCHEMA) (sr_data r) = Some v
      \<and> is_keyframe (vm_format v) (vm_data v) = Some key
      \<and> key_in P s topics a b r = (if key then Some (c, sr_time r, sr_data r) else None)
    else key_in P s topics a b r = None"
proof (cases "sr_topic r \<in> set (map fst (video_names s topics m)) \<and> in_window (sr_time r) (Some a) (Some b)")
  case True
  then obtain c where c: "strip_device_topic_prefix (sr_topic r) (se_device s) = Some c" "c \<in> set topics" "is_video r"
    using chosen_row [OF assms] by blast
  then have "video_topic_in s (me_index m) c = Some (sr_topic r)"
    using assms by (auto simp: sparse_ok_def video_channels_ok_def)
  from video_names_look [OF this c(2)] have n: "map_of (video_names s topics m) (sr_topic r) = Some c" .
  have "key_of P r \<noteq> None" using assms c(3) by (auto simp: sparse_ok_def)
  then obtain v key where "pe_decoded P (Generated VIDEO_SCHEMA) (sr_data r) = Some v"
    "is_keyframe (vm_format v) (vm_data v) = Some key" by (auto simp: key_of_def split: option.splits)
  then show ?thesis using True c n by (auto simp: key_in_def key_of_def)
next
  case False
  then show ?thesis using chosen_row [OF assms] by (auto simp: key_in_def split: option.split)
qed

lemma keyframe_rows_keys:
  assumes "sparse_ok P s m" "set rows \<subseteq> set (all_rows m)"
  shows "keyframe_rows P (video_names s topics m) (filter (\<lambda>r. sr_topic r \<in> set (map fst (video_names s topics m))
      \<and> in_window (sr_time r) (Some a) (Some b)) rows) None = (List.map_filter (key_in P s topics a b) rows, None)"
  using assms(2)
proof (induction rows)
  case (Cons r rows)
  then have "r \<in> set (all_rows m)" by simp
  from key_row [OF assms(1) this, of topics a b] show ?case
    using Cons by (auto simp: map_filter_simps split: if_splits option.split)
qed (simp add: map_filter_simps)

lemma file_keys:
  assumes "sparse_ok P s m"
  shows "keyframe_records_file P m (video_names s topics m) a b = (keys_of P s topics a b m, None)"
  using keyframe_rows_keys [OF assms subset_refl, of topics a b] assms
  by (simp add: keyframe_records_file_def sparse_ok_def keys_of_def)

lemma key_in_time: "key_in P s topics a b r = Some x \<Longrightarrow> record_time x = sr_time r"
  by (simp add: key_in_def split: option.splits if_splits) auto

lemma keys_sorted: "sorted (map sr_time rows) \<Longrightarrow> sorted (map record_time (List.map_filter (key_in P s topics a b) rows))"
proof (induction rows)
  case (Cons r rows)
  have mem: "\<exists>r' \<in> set rows. record_time x = sr_time r'" if "x \<in> set (List.map_filter (key_in P s topics a b) rows)" for x
    using that unfolding mem_map_filter by (blast dest: key_in_time)
  show ?case
  proof (cases "key_in P s topics a b r")
    case (Some x)
    from key_in_time [OF this] show ?thesis using Cons Some mem by (fastforce simp: map_filter_simps)
  qed (use Cons in \<open>simp add: map_filter_simps\<close>)
qed (simp add: map_filter_simps)

lemma keys_none:
  assumes "sparse_ok P s m" "\<not> spans_window (me_index m) (Some a) (Some b) \<or> video_names s topics m = []"
  shows "keys_of P s topics a b m = []"
proof -
  have "key_in P s topics a b r = None" if r: "r \<in> set (all_rows m)" for r
  proof (cases "video_names s topics m = []")
    case True
    then show ?thesis using key_row [OF assms(1) r, of topics a b] by simp
  next
    case False
    then obtain t u where "ix_start (me_index m) = Some t" "ix_end (me_index m) = Some u" "\<not> (t < b \<and> u \<ge> a)"
      using assms(2) by (auto simp: spans_window_def split: option.splits)
    moreover have "t \<le> sr_time r" "sr_time r \<le> u" if "ix_start (me_index m) = Some t" "ix_end (me_index m) = Some u" for t u
      using assms(1) r that by (auto simp: sparse_ok_def index_ok_def)
    ultimately have "\<not> in_window (sr_time r) (Some a) (Some b)" by (fastforce simp: in_window_def)
    then show ?thesis by (simp add: key_in_def split: option.split)
  qed
  then show ?thesis by (simp add: keys_of_def map_filter_def filter_empty_conv)
qed

lemma sources_keys:
  assumes "\<forall>m \<in> set ms. sparse_ok P s m" "keyframe_sources P s topics a b ms = Inr sources"
  shows "(\<forall>g \<in> set sources. snd g = None \<and> sorted (map record_time (fst g)))
    \<and> set (concat (map fst sources)) = set (concat (map (keys_of P s topics a b) ms))"
  using assms
proof (induction ms arbitrary: sources)
  case (Cons m ms)
  have m: "sparse_ok P s m" using Cons.prems(1) by simp
  show ?case
  proof (cases "\<not> spans_window (me_index m) (Some a) (Some b) \<or> video_names s topics m = []")
    case True
    then show ?thesis using Cons keys_none [OF m True] by (auto simp: Let_def)
  next
    case False
    then obtain later where l: "keyframe_sources P s topics a b ms = Inr later"
      "sources = (keys_of P s topics a b m, None) # later"
      using Cons.prems(2) by (auto simp: Let_def bindE_eq_Inr file_keys [OF m] split: if_splits)
    have "sorted (map record_time (keys_of P s topics a b m))"
      unfolding keys_of_def by (rule keys_sorted) (use m in \<open>simp add: sparse_ok_def\<close>)
    then show ?thesis using Cons.IH [OF _ l(1)] Cons.prems(1) l(2) by auto
  qed
qed simp

section \<open>The cadence\<close>

lemma py_round_near: "\<bar>of_int (py_round x) - x\<bar> \<le> 1 / 2"
proof -
  have "of_int \<lfloor>x\<rfloor> \<le> x" "x < of_int \<lfloor>x\<rfloor> + 1" by (simp_all add: floor_correct)
  then show ?thesis by (auto simp: py_round_def Let_def)
qed

lemma py_round_ge: "of_int k \<le> x \<Longrightarrow> k \<le> py_round x"
  using py_round_near [of x] by linarith

lemma median_ge:
  assumes "xs \<noteq> []" "\<forall>x \<in> set xs. lo \<le> x"
  shows "of_int lo \<le> median xs"
proof -
  have n: "length (sort xs) = length xs" "0 < length xs" using assms(1) by simp_all
  have "lo \<le> sort xs ! i" if "i < length xs" for i using assms(2) that n(1) by (metis nth_mem set_sort)
  moreover have "length xs div 2 < length xs" "length xs div 2 - 1 < length xs" using n(2) by linarith+
  ultimately have "lo \<le> sort xs ! (length xs div 2)" "lo \<le> sort xs ! (length xs div 2 - 1)" by blast+
  then show ?thesis unfolding median_def Let_def n(1) by simp
qed

lemma diffs_length: "length (diffs xs) = length xs - 1"
  by (simp add: diffs_def)

lemma diffs_steps: "sorted_wrt (<) xs \<Longrightarrow> \<forall>d \<in> set (diffs xs). 1 \<le> d"
proof (induction xs)
  case (Cons x xs)
  then show ?case by (cases xs) (auto simp: diffs_def)
qed (simp add: diffs_def)

lemma probe_found:
  assumes "probe n aus err found = Inr found'" "length found < CADENCE_KEYFRAMES"
    "sorted_wrt (<) (map snd found)" "\<forall>x \<in> set found. snd x < n"
  shows "length found' \<le> CADENCE_KEYFRAMES \<and> sorted_wrt (<) (map snd found')"
  using assms
proof (induction n aus err found rule: probe.induct)
  case (2 n t key v aus err found)
  let ?f = "if key then found @ [(t, n)] else found"
  have f: "length ?f \<le> CADENCE_KEYFRAMES" "sorted_wrt (<) (map snd ?f)" "\<forall>x \<in> set ?f. snd x < n + 1"
    using "2.prems"(2-4) by (auto simp: sorted_wrt_append less_Suc_eq)
  show ?case
  proof (cases "CADENCE_KEYFRAMES \<le> length ?f \<or> CADENCE_AUS \<le> n + 1")
    case True
    then have "found' = ?f" using "2.prems"(1) by (auto simp: Let_def)
    then show ?thesis using f by simp
  next
    case False
    then have "probe (n + 1) aus err ?f = Inr found'" "length ?f < CADENCE_KEYFRAMES"
      using "2.prems"(1) by (auto simp: Let_def)
    from "2.IH" [OF refl False this f(2,3)] show ?thesis .
  qed
qed (auto split: option.splits)

lemma cadence_bounds:
  "cadence_of topic files = Inr (Some c) \<Longrightarrow> cd_topic c = topic \<and> 0 < cd_period_ns c \<and> 2 \<le> cd_sampled c
    \<and> cd_sampled c \<le> CADENCE_KEYFRAMES \<and> 1 \<le> cd_frames_per_gop c"
proof (induction files)
  case (Cons part files)
  obtain aus err where part: "part = (aus, err)" by fastforce
  with Cons.prems obtain found where f: "probe 0 aus err [] = Inr found" by (auto simp: bindE_eq_Inr)
  then have found: "length found \<le> CADENCE_KEYFRAMES" "sorted_wrt (<) (map snd found)"
    using probe_found [OF f] by (simp_all add: CADENCE_KEYFRAMES_def)
  show ?case
  proof (cases "length found < 2 \<or> py_round (median (diffs (map fst found))) \<le> 0")
    case True
    then have "cadence_of topic files = Inr (Some c)" using Cons.prems f part by (simp add: Let_def)
    then show ?thesis by (rule Cons.IH)
  next
    case False
    have "sorted_wrt (<) (map (int \<circ> snd) found)" using found(2) by (simp add: sorted_wrt_map)
    then have "\<forall>d \<in> set (diffs (map (int \<circ> snd) found)). 1 \<le> d" by (rule diffs_steps)
    moreover have "diffs (map (int \<circ> snd) found) \<noteq> []"
    proof -
      have "length (diffs (map (int \<circ> snd) found)) \<noteq> 0" using False diffs_length [of "map (int \<circ> snd) found"] by simp
      then show ?thesis by (simp only: length_0_conv not_False_eq_True)
    qed
    ultimately have "1 \<le> py_round (median (diffs (map (int \<circ> snd) found)))"
      using py_round_ge [OF median_ge, of "diffs (map (int \<circ> snd) found)" 1] by blast
    then show ?thesis using Cons.prems f part False found(1) by auto
  qed
qed simp

lemma every_n_near:
  assumes "0 < cd_period_ns c" "every_n_for c target = (n, actual)"
  shows "1 \<le> n \<and> actual = n * cd_period_ns c \<and> (n = 1 \<and> target \<le> cd_period_ns c \<or> 2 * \<bar>actual - target\<bar> \<le> cd_period_ns c)"
proof -
  let ?p = "cd_period_ns c" and ?x = "real_of_int target / of_int (cd_period_ns c)"
  define k where "k = py_round ?x"
  have n: "n = max 1 k" "actual = n * ?p" using assms(2) by (auto simp: every_n_for_def Let_def k_def)
  have near: "\<bar>real_of_int k - ?x\<bar> \<le> 1 / 2" unfolding k_def by (rule py_round_near)
  show ?thesis
  proof (cases "1 \<le> k")
    case True
    have "real_of_int k * ?p - target = (real_of_int k - ?x) * ?p" using assms(1) by (simp add: field_simps)
    then have "\<bar>real_of_int k * ?p - target\<bar> \<le> 1 / 2 * ?p" using near assms(1) by (simp add: abs_mult mult_right_mono)
    then have "real_of_int (2 * \<bar>k * ?p - target\<bar>) \<le> real_of_int ?p" by simp
    then have "2 * \<bar>k * ?p - target\<bar> \<le> ?p" by (simp only: of_int_le_iff)
    then show ?thesis using n True by simp
  next
    case False
    then have "real_of_int k \<le> 0" by simp
    then have "?x \<le> 1" using near by linarith
    then have "target \<le> ?p" using assms(1) by (simp add: divide_le_eq)
    then show ?thesis using n False by simp
  qed
qed

section \<open>Sparse against full decoding\<close>

text \<open>Every n-th of a list, the count being at \<open>k\<close>.\<close>

fun every :: "nat \<Rightarrow> nat \<Rightarrow> 'a list \<Rightarrow> 'a list" where
  "every n k [] = []"
| "every n k (x # xs) = (if k mod n = 0 then x # every n (k + 1) xs else every n (k + 1) xs)"

lemma every_append: "every n k (xs @ ys) = every n k xs @ every n (k + length xs) ys"
  by (induction n k xs rule: every.induct) auto

lemma every_subset: "set (every n k xs) \<subseteq> set xs"
  by (induction n k xs rule: every.induct) auto

lemma every_map: "every n k (map f xs) = map f (every n k xs)"
  by (induction n k xs rule: every.induct) auto

text \<open>
  What the codecs' documentation says of keyframes, over the access units \<open>U\<close> of a recording: such a unit carries
  its own parameter sets and refers to no other picture, so a decoder that has seen any of the units makes the
  picture of it that a new decoder makes, which may be none.
\<close>

definition picture :: "unit + 'f list \<Rightarrow> 'f option" where
  "picture r = (case r of Inr (f # _) \<Rightarrow> Some f | _ \<Rightarrow> None)"

definition context_after :: "('c, 'f, 'img) av_env \<Rightarrow> codec \<Rightarrow> bytes list \<Rightarrow> 'c" where
  "context_after E codec seen = foldl (\<lambda>c au. snd (av_decode E c au)) (av_create E codec) seen"

definition intra_exact :: "('c, 'f, 'img) av_env \<Rightarrow> video_msg set \<Rightarrow> bool" where
  "intra_exact E U \<longleftrightarrow> (\<forall>v \<in> U. \<forall>codec seen. is_keyframe (vm_format v) (vm_data v) = Some True
     \<longrightarrow> map_of AV (lower (vm_format v)) = Some codec \<longrightarrow> set seen \<subseteq> vm_data ` U
     \<longrightarrow> picture (fst (av_decode E (context_after E codec seen) (vm_data v)))
         = picture (fst (av_decode E (av_create E codec) (vm_data v))))"

text \<open>What a decoder makes of a picture, and so of a keyframe alone.\<close>

definition image_of :: "('c, 'f, 'img) av_env \<Rightarrow> ustr \<Rightarrow> 'f option \<Rightarrow> decode_error + 'img option" where
  "image_of E pf p = (case p of None \<Rightarrow> Inr None
     | Some f \<Rightarrow> if pf = RAW_LUMA16 then bindE (read_luma16 E f) (\<lambda>img. Inr (Some img))
                else (case av_to_ndarray E pf f of None \<Rightarrow> Inl ConvertFailed | Some img \<Rightarrow> Inr (Some img)))"

definition still :: "('c, 'f, 'img) av_env \<Rightarrow> ustr \<Rightarrow> video_msg \<Rightarrow> decode_error + 'img option" where
  "still E pf v = (case map_of AV (lower (vm_format v)) of None \<Rightarrow> Inr None
     | Some codec \<Rightarrow> image_of E pf (picture (fst (av_decode E (av_create E codec) (vm_data v)))))"

lemma decode_au_image: "fst (decode_au E au d) = image_of E (hd_pixel_format d) (picture (fst (av_decode E (hd_ctx d) au)))"
  by (auto simp: decode_au_def image_of_def picture_def Let_def split: prod.splits sum.splits list.splits option.splits)

lemma decode_au_ctx: "hd_ctx (snd (decode_au E au d)) = snd (av_decode E (hd_ctx d) au)"
  by (auto simp: decode_au_def Let_def split: prod.splits sum.splits list.splits)

text \<open>A state that \<open>video_emit\<close> comes to by units of \<open>U\<close>: every decoder has the pixel format and has seen only those.\<close>

definition decoder_reached :: "('c, 'f, 'img) av_env \<Rightarrow> ustr \<Rightarrow> video_msg set \<Rightarrow> ustr \<Rightarrow> 'c hevc_decoder \<Rightarrow> bool" where
  "decoder_reached E pf U fmt d \<longleftrightarrow> hd_pixel_format d = pf \<and> (\<exists>codec seen. map_of AV (lower fmt) = Some codec
     \<and> set seen \<subseteq> vm_data ` U \<and> hd_ctx d = context_after E codec seen)"

definition reached :: "('c, 'f, 'img) av_env \<Rightarrow> ustr \<Rightarrow> video_msg set \<Rightarrow> 'c video_state \<Rightarrow> bool" where
  "reached E pf U st \<longleftrightarrow> (\<forall>topic d fmt. map_of (vs_decoders st) topic = Some d \<longrightarrow> map_of (vs_formats st) topic = Some fmt
     \<longrightarrow> decoder_reached E pf U (fst fmt) d)"

lemma decode_keeps_format: "hd_pixel_format (snd (decode_au E au d)) = hd_pixel_format d"
  by (auto simp: decode_au_def Let_def split: prod.splits sum.splits list.splits)

lemma feed_decoder: "snd (video_feed E ex v topic t d) = snd (decode_au E (vm_data v) d)"
  by (simp add: video_feed_def Let_def case_prod_beta)

lemma feed_reached:
  assumes "decoder_reached E pf U fmt d" "v \<in> U"
  shows "decoder_reached E pf U fmt (snd (video_feed E ex v topic t d))"
proof -
  obtain codec seen where c: "map_of AV (lower fmt) = Some codec" "set seen \<subseteq> vm_data ` U" "hd_ctx d = context_after E codec seen"
    and pf: "hd_pixel_format d = pf" using assms(1) by (auto simp: decoder_reached_def)
  have "hd_ctx (snd (decode_au E (vm_data v) d)) = context_after E codec (seen @ [vm_data v])"
    unfolding decode_au_ctx c(3) by (simp add: context_after_def)
  moreover have "set (seen @ [vm_data v]) \<subseteq> vm_data ` U" using c(2) assms(2) by simp
  ultimately show ?thesis
    unfolding decoder_reached_def feed_decoder decode_keeps_format using c(1) pf by blast
qed

lemma init_reached: "init_decoder E fmt pf = Inr d \<Longrightarrow> decoder_reached E pf U fmt d"
  by (auto simp: init_decoder_def decoder_reached_def context_after_def split: option.splits intro!: exI [of _ "[]"])

lemma put_reached:
  assumes "reached E pf U st" "decoder_reached E pf U (fst fmt) d" "map_of (vs_formats st) topic = Some fmt" "v \<in> U"
  shows "reached E pf U (snd (put_decoder topic (video_feed E ex v topic' t d) st))"
  using assms(1,3) feed_reached [OF assms(2,4), of ex topic' t] by (auto simp: reached_def put_decoder_def update_conv')

lemma init_video_reached: "reached E pf U init_video"
  by (simp add: reached_def init_video_def)

lemma emit_reached:
  assumes "reached E pf U st" "v \<in> U"
  shows "reached E pf U (snd (video_emit E c pf ex v topic t st))"
proof (cases "if map_of (vs_formats st) topic \<noteq> Some (vm_format v, vm_frame_id v) then None else map_of (vs_decoders st) topic")
  case (Some d)
  then have fmt: "map_of (vs_formats st) topic = Some (vm_format v, vm_frame_id v)" "map_of (vs_decoders st) topic = Some d"
    by (auto split: if_splits)
  then have "decoder_reached E pf U (fst (vm_format v, vm_frame_id v)) d" using assms(1) unfolding reached_def by blast
  from put_reached [OF assms(1) this fmt(1) assms(2)] show ?thesis
    using fmt by (simp add: video_emit_def Let_def)
next
  case None
  have gone: "reached E pf U \<lparr>vs_decoders = AList.delete topic (vs_decoders st), vs_formats = fs\<rparr>"
    if "\<And>k. k \<noteq> topic \<Longrightarrow> map_of fs k = map_of (vs_formats st) k" for fs
    using assms(1) that by (auto simp: reached_def delete_conv' split: if_splits)
  note new = gone [of "AList.delete topic (vs_formats st)"]
    gone [of "AList.update topic (vm_format v, vm_frame_id v) (AList.delete topic (vs_formats st))"]
  have fed: "reached E pf U (snd (put_decoder topic (video_feed E ex v topic t d) \<lparr>vs_decoders = AList.delete topic (vs_decoders st),
      vs_formats = AList.update topic (vm_format v, vm_frame_id v) (AList.delete topic (vs_formats st))\<rparr>))"
    if "init_decoder E (vm_format v) pf = Inr d" for d
    using new(2) init_reached [OF that, of U] assms(2) by (intro put_reached) (simp_all add: update_conv' delete_conv')
  show ?thesis using None new fed
    by (auto simp: video_emit_def Let_def update_conv' delete_conv' simp del: if_split split: sum.split)
qed

text \<open>What a keyframe gives alone, and that it gives this wherever it is met.\<close>

definition still_frame :: "('c, 'f, 'img) av_env \<Rightarrow> ustr \<Rightarrow> ustr \<Rightarrow> int \<Rightarrow> video_msg \<Rightarrow> ('img, 'p) element list" where
  "still_frame E pf topic t v = (case still E pf v of
     Inr (Some img) \<Rightarrow> [Frame topic t img (vm_frame_id v) None] | _ \<Rightarrow> [])"

lemma emit_keyframe:
  assumes "intra_exact E U" "reached E pf U st" "v \<in> U" "is_keyframe (vm_format v) (vm_data v) = Some True"
    and "video_emit E c pf (\<lambda>_ _. None) v topic t st = ((xs, None), st')"
  shows "xs = map (\<lambda>el. (t, t, el)) (still_frame E pf topic t v)"
proof -
  have feed: "ys = map (\<lambda>el. (t, t, el)) (still_frame E pf topic t v)"
    if d: "decoder_reached E pf U (vm_format v) d" and "fst (video_feed E (\<lambda>_ _. None) v topic t d) = (ys, None)" for d ys
  proof -
    obtain codec seen where c: "map_of AV (lower (vm_format v)) = Some codec" "set seen \<subseteq> vm_data ` U"
      "hd_ctx d = context_after E codec seen" "hd_pixel_format d = pf" using d by (auto simp: decoder_reached_def)
    have "picture (fst (av_decode E (hd_ctx d) (vm_data v))) = picture (fst (av_decode E (av_create E codec) (vm_data v)))"
      using assms(1,3,4) c(1,2) unfolding intra_exact_def c(3) by blast
    then have "fst (decode_au E (vm_data v) d) = still E pf v" by (simp add: decode_au_image still_def c(1,4))
    then show ?thesis using that(2)
      by (auto simp: video_feed_def still_frame_def Let_def case_prod_beta split: sum.splits option.splits)
  qed
  show ?thesis
  proof (cases "if map_of (vs_formats st) topic \<noteq> Some (vm_format v, vm_frame_id v) then None else map_of (vs_decoders st) topic")
    case None
    then obtain d where "init_decoder E (vm_format v) pf = Inr d" "fst (video_feed E (\<lambda>_ _. None) v topic t d) = (xs, None)"
      using assms(4,5) by (auto simp: video_emit_def Let_def put_decoder_def simp del: if_split split: sum.splits)
    then show ?thesis using feed [OF init_reached] by blast
  next
    case (Some d)
    then have fmt: "map_of (vs_formats st) topic = Some (vm_format v, vm_frame_id v)" "map_of (vs_decoders st) topic = Some d"
      by (auto split: if_splits)
    then have "decoder_reached E pf U (vm_format v) d" using assms(2) unfolding reached_def by fastforce
    moreover have "fst (video_feed E (\<lambda>_ _. None) v topic t d) = (xs, None)"
      using assms(5) fmt by (simp add: video_emit_def Let_def put_decoder_def)
    ultimately show ?thesis by (rule feed)
  qed
qed

definition keys_among :: "(int \<times> bool \<times> video_msg) list \<Rightarrow> (int \<times> bool \<times> video_msg) list" where
  "keys_among units = filter (\<lambda>(t, key, v). key) units"

definition classified :: "(int \<times> bool \<times> video_msg) list \<Rightarrow> bool" where
  "classified units \<longleftrightarrow> (\<forall>(t, key, v) \<in> set units. is_keyframe (vm_format v) (vm_data v) = Some key)"

lemma classify_classified: "classified (fst (classify P canon rows err))"
  by (induction P canon rows err rule: classify.induct)
    (auto simp: classified_def case_prod_beta split: option.split)

definition messages_of :: "('p, 'u, 'img) proto_env \<Rightarrow> session_row list \<Rightarrow> video_msg set" where
  "messages_of P rows = {v. \<exists>r \<in> set rows. pe_decoded P (Generated VIDEO_SCHEMA) (sr_data r) = Some v}"

lemma classify_messages:
  "\<forall>u \<in> set (fst (classify P canon rows err)). snd (snd u) \<in> messages_of P rows"
proof (induction rows)
  case (Cons r rows)
  have "messages_of P rows \<subseteq> messages_of P (r # rows)" by (auto simp: messages_of_def)
  moreover have "pe_decoded P (Generated VIDEO_SCHEMA) (sr_data r) = Some v \<Longrightarrow> v \<in> messages_of P (r # rows)" for v
    by (auto simp: messages_of_def)
  ultimately show ?case using Cons by (auto simp: case_prod_beta split: option.splits)
qed simp

lemma mapE_append: "mapE f (xs @ ys) = bindE (mapE f xs) (\<lambda>us. bindE (mapE f ys) (\<lambda>vs. Inr (us @ vs)))"
proof (induction xs)
  case Nil
  show ?case by (cases "mapE f ys") simp_all
next
  case (Cons x xs)
  then show ?case by (cases "f x"; cases "mapE f xs"; cases "mapE f ys") simp_all
qed

definition shows_alone :: "('c, 'f, 'img) av_env \<Rightarrow> ustr \<Rightarrow> ustr \<Rightarrow> int \<times> bool \<times> video_msg \<Rightarrow> ('img, 'p) element list" where
  "shows_alone E pf topic = (\<lambda>(t, key, v). still_frame E pf topic t v)"

lemma keyframes_in_taken:
  fixes els :: "('img, 'p) element list"
  assumes "intra_exact E U" "classified units" "\<forall>u \<in> set units. snd (snd u) \<in> U" "reached E pf U st"
    and "keyframes_in E pf exposure topic n units err st seen aus = ((els, None), seen', aus')"
  shows "err = None \<and> seen' = seen + length (keys_among units)
    \<and> mapE (expose exposure) (concat (map (shows_alone E pf topic) (every n seen (keys_among units)))) = Inr els"
  using assms(2-5)
proof (induction units arbitrary: st seen aus els)
  case (Cons u units)
  obtain t key v where u: "u = (t, key, v)" by (cases u) auto
  have c: "classified units" "is_keyframe (vm_format v) (vm_data v) = Some key" "v \<in> U"
    "\<forall>u \<in> set units. snd (snd u) \<in> U" using Cons.prems(1,2) by (auto simp: classified_def u)
  show ?case
  proof (cases "key \<and> seen mod n = 0")
    case True
    then have k: "is_keyframe (vm_format v) (vm_data v) = Some True" using c(2) by simp
    obtain r st' where e: "emit_key E pf exposure topic t v st = (r :: ('img, 'p) element list \<times> keyframe_error option, st')"
      by fastforce
    with Cons.prems(4) True obtain xs where xs: "r = (xs, None)" by (cases r; cases "snd r") (auto simp: u)
    obtain ys where ys: "keyframes_in E pf exposure topic n units err st' (seen + 1) (aus + 1) = ((ys, None), seen', aus')"
      "els = xs @ ys" using Cons.prems(4) True e xs by (auto simp: u split: prod.splits)
    obtain triples verr st1 where v: "video_emit E False pf (\<lambda>_ _. None) v topic t st
        = ((triples :: ('img, 'p) element item list, verr), st1)" by (metis surj_pair)
    then have run: "st' = st1" "verr = None" "mapE (expose exposure) (map (\<lambda>x. snd (snd x)) triples) = Inr xs"
      using e xs by (auto simp: emit_key_def split: sum.splits)
    have "reached E pf U st'" using emit_reached [OF Cons.prems(3) c(3), of False "\<lambda>_ _. None" topic t] v run(1)
      by (metis snd_conv)
    note IH = Cons.IH [OF c(1,4) this ys(1)]
    have "triples = map (\<lambda>el. (t, t, el)) (still_frame E pf topic t v)"
      using emit_keyframe [OF assms(1) Cons.prems(3) c(3) k] v run(2) by blast
    then have "mapE (expose exposure) (shows_alone E pf topic u) = Inr xs"
      using run(3) by (simp add: shows_alone_def u comp_def)
    then show ?thesis using IH ys(2) True by (simp add: u keys_among_def mapE_append)
  next
    case False
    then obtain seen1 where k: "keyframes_in E pf exposure topic n units err st seen1 (aus + 1) = ((els, None), seen', aus')"
      "seen1 = (if key then seen + 1 else seen)" using Cons.prems(4) by (cases key) (simp_all add: u)
    from Cons.IH [OF c(1,4) Cons.prems(3) k(1)] show ?thesis using False k(2) by (auto simp: u keys_among_def)
  qed
qed (auto simp: keys_among_def)

lemma keyframe_frames_taken:
  fixes els :: "('img, 'p) element list"
  assumes "\<forall>f \<in> set files. \<exists>U. intra_exact E U \<and> classified (fst f) \<and> (\<forall>u \<in> set (fst f). snd (snd u) \<in> U)"
    and "keyframe_frames E pf exposure topic n files seen aus = (els, None)"
  shows "(\<forall>f \<in> set files. snd f = None)
    \<and> mapE (expose exposure) (concat (map (shows_alone E pf topic) (every n seen (concat (map (keys_among \<circ> fst) files))))) = Inr els"
  using assms
proof (induction files arbitrary: seen aus els)
  case (Cons f files)
  obtain units err where f: "f = (units, err)" by (cases f)
  obtain U where U: "intra_exact E U" "classified units" "\<forall>u \<in> set units. snd (snd u) \<in> U" using Cons.prems(1) by (auto simp: f)
  obtain r seen' aus' where run: "keyframes_in E pf exposure topic n units err init_video seen aus
      = (r :: ('img, 'p) element list \<times> keyframe_error option, seen', aus')"
    by (metis surj_pair)
  with Cons.prems(2) obtain xs where xs: "r = (xs, None)" by (cases r; cases "snd r") (auto simp: f)
  with run Cons.prems(2) obtain ys where ys: "keyframe_frames E pf exposure topic n files seen' aus' = (ys, None)"
      "els = xs @ ys" by (auto simp: f split: prod.splits)
  note one = keyframes_in_taken [OF U init_video_reached run [unfolded xs]]
  then show ?case using Cons.IH [OF _ ys(1)] Cons.prems(1) ys(2) by (simp add: f every_append mapE_append)
qed simp

text \<open>The same keyframes out of a full read of the file, in which every access unit goes through one decoder.\<close>

lemma add_adapters_keeps:
  "map_of built k = Some a \<Longrightarrow> add_adapters P ix wanted ts built = Inr b \<Longrightarrow> map_of b k = Some a"
  by (induction P ix wanted ts built rule: add_adapters.induct) (auto simp: bindE_eq_Inr split: if_splits)

lemma built_video:
  assumes "no_overrides P" "build_adapters P ix wanted = Inr built"
  shows "map_of built VIDEO_SCHEMA = Some (DecodedAdapter (Generated VIDEO_SCHEMA) init_video)"
proof -
  obtain first where b: "mapE (\<lambda>name. bindE (build_adapter P True (class_for P ix) name) (\<lambda>a. Inr (name, a))) PREBUILT = Inr first"
    "add_adapters P ix wanted (ix_topics ix) first = Inr built" using assms(2) by (auto simp: build_adapters_def bindE_eq_Inr)
  have "pe_override P VIDEO_SCHEMA = None" using assms(1) by (simp add: no_overrides_def)
  then have "map_of first VIDEO_SCHEMA = Some (DecodedAdapter (Generated VIDEO_SCHEMA) init_video)"
    using b(1) by (auto simp: PREBUILT_def bindE_eq_Inr build_adapter_def REGISTRY_def class_for_def NATIVE_SCHEMAS_def)
  then show ?thesis by (rule add_adapters_keeps [OF _ b(2)])
qed

definition key_units :: "('p, 'u, 'img) proto_env \<Rightarrow> session_row list \<Rightarrow> (int \<times> bool \<times> video_msg) list" where
  "key_units P rows = List.map_filter (\<lambda>r. case pe_decoded P (Generated VIDEO_SCHEMA) (sr_data r) of
     None \<Rightarrow> None | Some v \<Rightarrow> if is_keyframe (vm_format v) (vm_data v) = Some True then Some (sr_time r, True, v) else None) rows"

lemma classify_keys:
  "snd (classify P canon rows None) = None \<Longrightarrow> keys_among (fst (classify P canon rows None)) = key_units P rows"
proof (induction rows)
  case (Cons r rows)
  then obtain v key where v: "pe_decoded P (Generated VIDEO_SCHEMA) (sr_data r) = Some v"
    "is_keyframe (vm_format v) (vm_data v) = Some key" by (auto split: option.splits)
  then show ?case using Cons by (auto simp: key_units_def keys_among_def map_filter_simps case_prod_beta)
qed (simp add: key_units_def keys_among_def map_filter_simps)

lemma decode_row:
  assumes "is_video r" "canon_of s (sr_topic r) = topic" "map_of built VIDEO_SCHEMA = Some (DecodedAdapter (Generated VIDEO_SCHEMA) st)"
  shows "emit_row P E pf s [] r built None = (case pe_decoded P (Generated VIDEO_SCHEMA) (sr_data r) of
     None \<Rightarrow> (([], Some ProtoDecodeError), AList.update VIDEO_SCHEMA (DecodedAdapter (Generated VIDEO_SCHEMA) st) built, None)
   | Some v \<Rightarrow> (case video_emit E False pf (\<lambda>_ _. None) v topic (sr_time r) st of (out, st') \<Rightarrow>
       (out, AList.update VIDEO_SCHEMA (DecodedAdapter (Generated VIDEO_SCHEMA) st') built, None)))"
  using assms by (auto simp: emit_row_def is_video_def carries_video_def case_prod_beta split: option.split)

lemma video_emit_time: "x \<in> set (fst (fst (video_emit E c pf ex v topic t st))) \<Longrightarrow> el_t_ns (item_elem x) = t"
  by (auto simp: video_emit_def video_feed_def Let_def put_decoder_def case_prod_beta item_elem_def
      split: option.splits sum.splits if_splits)

lemma full_decode_keys:
  fixes P :: "('p payload, 'u, 'img) proto_env" and E :: "('c, 'f, 'img) av_env"
  assumes "intra_exact E U" "plain_adapters built" "messages_of P rows \<subseteq> U"
    and "map_of built VIDEO_SCHEMA = Some (DecodedAdapter (Generated VIDEO_SCHEMA) st)" "reached E pf U st"
    and "\<forall>r \<in> set rows. is_video r \<and> canon_of s (sr_topic r) = topic \<and> (sr_time r \<in> K \<longrightarrow> key_of P r = Some True)"
    and "snd (fst (file_rows P E pf s [] rows None built None)) = None"
  shows "filter (\<lambda>el. el_t_ns el \<in> K) (map item_elem (fst (fst (file_rows P E pf s [] rows None built None))))
    = concat (map (shows_alone E pf topic) (filter (\<lambda>u. fst u \<in> K) (key_units P rows)))"
  using assms(2-7)
proof (induction rows arbitrary: built st)
  case Nil
  then show ?case by (simp add: carries_video_def flush_all_plain key_units_def map_filter_simps)
next
  case (Cons r rows)
  have r: "is_video r" "canon_of s (sr_topic r) = topic" "sr_time r \<in> K \<longrightarrow> key_of P r = Some True"
    using Cons.prems(5) by simp_all
  note row = decode_row [OF r(1,2) Cons.prems(3), of P E pf]
  obtain v where v: "pe_decoded P (Generated VIDEO_SCHEMA) (sr_data r) = Some v"
    using Cons.prems(6) row by (auto split: option.splits)
  have U: "v \<in> U" "messages_of P rows \<subseteq> U" using Cons.prems(2) v by (auto simp: messages_of_def)
  obtain xs err st' where e: "video_emit E False pf (\<lambda>_ _. None) v topic (sr_time r) st = ((xs :: ('img, 'p) stream_triple list, err), st')"
    by (metis surj_pair)
  let ?b = "AList.update VIDEO_SCHEMA (DecodedAdapter (Generated VIDEO_SCHEMA) st') built"
  have run: "emit_row P E pf s [] r built None = ((xs, err), ?b, None)" unfolding row v using e by simp
  then have ok: "err = None" "snd (fst (file_rows P E pf s [] rows None ?b None)) = None"
    using Cons.prems(6) by (auto simp: case_prod_beta split: option.splits)
  have st': "reached E pf U st'"
    using emit_reached [OF Cons.prems(4) U(1), of False "\<lambda>_ _. None" topic "sr_time r"] e by (metis snd_conv)
  have plain: "plain_adapters ?b" by (rule plain_adapters_update [OF Cons.prems(1)]) simp
  have IH: "filter (\<lambda>el. el_t_ns el \<in> K) (map item_elem (fst (fst (file_rows P E pf s [] rows None ?b None))))
      = concat (map (shows_alone E pf topic) (filter (\<lambda>u. fst u \<in> K) (key_units P rows)))"
    by (rule Cons.IH [OF plain U(2) _ st' _ ok(2)]) (use Cons.prems(5) in \<open>simp_all add: update_conv'\<close>)
  have all: "fst (fst (file_rows P E pf s [] (r # rows) None built None)) = xs @ fst (fst (file_rows P E pf s [] rows None ?b None))"
    using run ok(1) by (simp add: case_prod_beta)
  have time: "el_t_ns (item_elem x) = sr_time r" if "x \<in> set xs" for x
    using video_emit_time [of x E False pf "\<lambda>_ _. None" v topic "sr_time r" st] that unfolding e by simp
  show ?case
  proof (cases "sr_time r \<in> K")
    case True
    then have key: "is_keyframe (vm_format v) (vm_data v) = Some True" using r(3) by (simp add: key_of_def v)
    have xs: "xs = map (\<lambda>el. (sr_time r, sr_time r, el)) (still_frame E pf topic (sr_time r) v)"
      using emit_keyframe [OF assms(1) Cons.prems(4) U(1) key] e ok(1) by blast
    have "filter (\<lambda>el. el_t_ns el \<in> K) (map item_elem xs) = map item_elem xs"
      using time True by (intro filter_True) auto
    then have "filter (\<lambda>el. el_t_ns el \<in> K) (map item_elem xs) = still_frame E pf topic (sr_time r) v"
      by (simp add: xs item_elem_def comp_def)
    then show ?thesis unfolding all using IH True key
      by (simp add: key_units_def map_filter_simps v shows_alone_def)
  next
    case False
    then have "filter (\<lambda>el. el_t_ns el \<in> K) (map item_elem xs) = []" using time by (auto simp: filter_empty_conv)
    then show ?thesis unfolding all using IH False by (simp add: key_units_def map_filter_simps v)
  qed
qed

definition rows_of :: "member \<Rightarrow> ustr \<Rightarrow> session_row list" where
  "rows_of m prefixed = filter (\<lambda>r. sr_topic r = prefixed) (all_rows m)"

text \<open>The stamps of the keyframes of a file that lie in a window.\<close>

definition key_times :: "('p, 'u, 'img) proto_env \<Rightarrow> int option \<Rightarrow> int option \<Rightarrow> member \<times> ustr \<Rightarrow> int list" where
  "key_times P start_ns end_ns = (\<lambda>(m, prefixed).
     map sr_time (filter (\<lambda>r. in_window (sr_time r) start_ns end_ns \<and> key_of P r = Some True) (rows_of m prefixed)))"

text \<open>A file whose channel \<open>prefixed\<close>, and no other, is read for the topic, with video of distinct stamps.\<close>

definition camera_file :: "session \<Rightarrow> ustr \<Rightarrow> member \<times> ustr \<Rightarrow> bool" where
  "camera_file s topic = (\<lambda>(m, prefixed). reader_ok m \<and> wanted_prefixed s (me_index m) (Some [topic]) False = [prefixed]
     \<and> (\<forall>r \<in> set (rows_of m prefixed). is_video r) \<and> distinct (map sr_time (rows_of m prefixed)))"

definition full_decode :: "('p payload, 'u, 'img) proto_env \<Rightarrow> ('c, 'f, 'img) av_env \<Rightarrow> ustr \<Rightarrow> session \<Rightarrow> ustr \<Rightarrow> member
    \<Rightarrow> ('img, 'p) stream_triple list \<times> stream_error option" where
  "full_decode P E pf s topic m = fst (iter_file P E pf s False [] None m (Some [topic]) None)"

text \<open>What the full read of a file shows at a stamp.\<close>

definition decoded_at :: "('p payload, 'u, 'img) proto_env \<Rightarrow> ('c, 'f, 'img) av_env \<Rightarrow> ustr \<Rightarrow> session \<Rightarrow> ustr \<Rightarrow> member
    \<Rightarrow> int \<Rightarrow> ('img, 'p) elem list" where
  "decoded_at P E pf s topic m t = filter (\<lambda>el. el_t_ns el = t) (map item_elem (fst (full_decode P E pf s topic m)))"

lemma reader_rows:
  assumes "reader_ok m"
  shows "read_messages m (Some [prefixed]) start_ns end_ns
    = (filter (\<lambda>r. in_window (sr_time r) start_ns end_ns) (rows_of m prefixed), None)"
  using assms by (simp add: reader_ok_def rows_of_def conj_commute)

lemma key_units_times: "map fst (key_units P rows) = map sr_time (filter (\<lambda>r. key_of P r = Some True) rows)"
  by (induction rows) (auto simp: key_units_def map_filter_simps key_of_def split: option.splits)

lemma key_units_window: "key_units P (filter (\<lambda>r. W (sr_time r)) rows) = filter (\<lambda>u. W (fst u)) (key_units P rows)"
  by (induction rows) (auto simp: key_units_def map_filter_simps split: option.splits)

lemma key_units_distinct: "distinct (map sr_time rows) \<Longrightarrow> distinct (map fst (key_units P rows))"
  unfolding key_units_times by (simp add: distinct_map inj_on_def)

lemma filter_one: "distinct (map fst us) \<Longrightarrow> u \<in> set us \<Longrightarrow> filter (\<lambda>x. fst x = fst u) us = [u]"
proof (induction us)
  case (Cons x us)
  then show ?case
  proof (cases "u = x")
    case True
    then have "fst y \<noteq> fst u" if "y \<in> set us" for y
      using Cons.prems(1) that True by (auto simp: image_iff)
    then show ?thesis using True by (simp add: filter_empty_conv)
  next
    case False
    then have "fst x \<noteq> fst u" using Cons.prems by (auto simp: image_iff)
    then show ?thesis using False Cons by simp
  qed
qed simp

lemma decoded_at_keyframe:
  fixes P :: "('p payload, 'u, 'img) proto_env" and E :: "('c, 'f, 'img) av_env"
  assumes "no_overrides P" "intra_exact E (messages_of P (rows_of m prefixed))" "camera_file s topic (m, prefixed)"
    and "snd (full_decode P E pf s topic m) = None" "u \<in> set (key_units P (rows_of m prefixed))"
  shows "decoded_at P E pf s topic m (fst u) = shows_alone E pf topic u"
proof -
  let ?w = "wanted_prefixed s (me_index m) (Some [topic]) False"
  note c = assms(3) [unfolded camera_file_def prod.case]
  have "prefixed \<in> set ?w" using c by simp
  then have canon: "canon_of s prefixed = topic"
    by (auto simp: wanted_prefixed_def canon_of_def split: option.splits)
  obtain built where b: "build_adapters P (me_index m) (filter (\<lambda>t. canon_of s t \<notin> set []) ?w) = Inr (built :: ('c, 'u) adapters)"
    using assms(4) c by (cases "build_adapters P (me_index m) (filter (\<lambda>t. canon_of s t \<notin> set []) ?w) :: rows_error + ('c, 'u) adapters")
      (simp_all add: full_decode_def iter_file_def)
  have all: "filter (\<lambda>r. in_window (sr_time r) None None) (rows_of m prefixed) = rows_of m prefixed"
    by (simp add: in_window_def)
  have full: "full_decode P E pf s topic m = fst (file_rows P E pf s [] (rows_of m prefixed) None built None)"
    using c b reader_rows [of m prefixed None None, unfolded all] by (simp add: full_decode_def iter_file_def)
  have key: "sr_time r \<in> {fst u} \<longrightarrow> key_of P r = Some True" if r: "r \<in> set (rows_of m prefixed)" for r
  proof
    assume "sr_time r \<in> {fst u}"
    then have "sr_time r \<in> fst ` set (key_units P (rows_of m prefixed))" using assms(5) by auto
    then obtain r' where "r' \<in> set (rows_of m prefixed)" "key_of P r' = Some True" "sr_time r' = sr_time r"
      unfolding set_map [symmetric] key_units_times by auto
    moreover have "inj_on sr_time (set (rows_of m prefixed))" using c by (simp add: distinct_map)
    ultimately show "key_of P r = Some True" using r by (metis inj_onD)
  qed
  have "sr_topic r = prefixed" if "r \<in> set (rows_of m prefixed)" for r using that by (simp add: rows_of_def)
  then have rows: "\<forall>r \<in> set (rows_of m prefixed). is_video r \<and> canon_of s (sr_topic r) = topic
      \<and> (sr_time r \<in> {fst u} \<longrightarrow> key_of P r = Some True)" using c key canon by simp
  have ok: "snd (fst (file_rows P E pf s [] (rows_of m prefixed) None built None)) = None" using assms(4) full by simp
  have "filter (\<lambda>x. fst x = fst u) (key_units P (rows_of m prefixed)) = [u]"
    using c assms(5) by (intro filter_one key_units_distinct) simp_all
  with full_decode_keys [OF assms(2) build_adapters_plain [OF assms(1) b] order_refl built_video [OF assms(1) b]
      init_video_reached rows ok]
  show ?thesis unfolding decoded_at_def full by simp
qed

section \<open>Properties\<close>

text \<open>Two files of one camera that share a keyframe at the seam, for the witnesses.\<close>

definition key_proto :: "(unit payload, unit, unit) proto_env" where
  "key_proto = stream_proto\<lparr>pe_decoded := \<lambda>c d. Some \<lparr>vm_format = [104, 50, 54, 52], vm_frame_id = [], vm_data = d\<rparr>\<rparr>"

definition key_schema :: mcap_schema where
  "key_schema = \<lparr>sc_name = VIDEO_SCHEMA, sc_encoding = PROTOBUF, sc_data = []\<rparr>"

definition key_srow :: "int \<times> byte \<Rightarrow> session_row" where
  "key_srow = (\<lambda>(t, nal). \<lparr>sr_schema = Some key_schema, sr_channel = 1, sr_topic = [47, 99], sr_time = t, sr_sequence = 0,
     sr_data = [0, 0, 1, nal, 0]\<rparr>)"

definition key_member :: "session_row list \<Rightarrow> member" where
  "key_member rows = \<lparr>me_owner = 0, me_file = sample_file [97] rows,
     me_index = \<lparr>ix_chan = [(1, [47, 99], VIDEO_SCHEMA)], ix_counts = [(1, length rows)], ix_start = Some (sr_time (hd rows)),
       ix_end = Some (sr_time (last rows)), ix_schema_rec = [(VIDEO_SCHEMA, key_schema)], ix_truncated = False,
       ix_chunk_indexed = True, ix_metadata_names = Some []\<rparr>, me_rotation = None\<rparr>"

definition key_rows_a :: "session_row list" where "key_rows_a = map key_srow [(0, 5), (10, 1), (20, 5)]"
definition key_rows_b :: "session_row list" where "key_rows_b = map key_srow [(20, 5), (30, 5)]"

definition key_session :: session where
  "key_session = \<lparr>se_members = [key_member key_rows_a, key_member key_rows_b], se_streams = [[0, 1]], se_origin = [0],
     se_reorder_ns = 0, se_device = None, se_adapters = []\<rparr>"

lemma h264: "map_of AV (lower ([104, 50, 54, 52])) = Some H264" by code_simp
lemma is_keyframe_h264:
  assumes "h \<in> {1, 5}" shows "is_keyframe ([104, 50, 54, 52]) (0 # 0 # 1 # h # rest) = Some (h = 5)"
proof -
  let ?au = "0 # 0 # 1 # h # rest"
  let ?limit = "min (length ?au) MAX_PREFIX_BYTES"
  have "0 < ?limit - 2" by (simp add: MAX_PREFIX_BYTES_def)
  then have "[0..<?limit - 2] = 0 # [1..<?limit - 2]" by (simp add: upt_conv_Cons)
  moreover have "start_code_at ?au 0" by (simp add: start_code_at_def)
  ultimately have f: "find_code ?au 0 ?limit = Some 0" by (simp add: find_code_def)
  have "keyframe_scan S ?au ?limit 0 = (h = 5)" if "NAL_SYNTAX H264 = Some S" for S
    using assms that unfolding keyframe_scan.simps [of S ?au ?limit 0] f by (auto simp: nal_type_def)
  then show ?thesis unfolding is_keyframe_def h264 by (simp split: option.split)
qed

lemma key_units_are: "is_keyframe ([104, 50, 54, 52]) [0, 0, 1, 5, 0] = Some True" "is_keyframe ([104, 50, 54, 52]) [0, 0, 1, 1, 0] = Some False"
  by (simp_all add: is_keyframe_h264)

lemma key_topic: "require_video_topic key_session [47, 99] = Inr ()"
  by code_simp

abbreviation key_unit :: "int \<Rightarrow> bool \<Rightarrow> int \<times> bool \<times> video_msg" where
  "key_unit t key \<equiv> (t, key, \<lparr>vm_format = [104, 50, 54, 52], vm_frame_id = [], vm_data = [0, 0, 1, if key then 5 else 1, 0]\<rparr>)"

lemma key_members: "se_members key_session = [key_member key_rows_a, key_member key_rows_b]"
  by (simp add: key_session_def)

lemma key_rows_all [simp]: "all_rows (key_member rows) = rows" 
  by (simp add: all_rows_def read_messages_def key_member_def sample_file_def in_window_def)

lemma key_span: "spans_window (me_index (key_member key_rows_a)) None None" "spans_window (me_index (key_member key_rows_b)) None None"
  "spans_window (me_index (key_member key_rows_a)) (Some 0) (Some 25)" "spans_window (me_index (key_member key_rows_b)) (Some 0) (Some 25)"
  by (simp_all add: key_member_def spans_window_def key_rows_a_def key_rows_b_def key_srow_def)

lemma key_indexed: "ix_chunk_indexed (me_index (key_member rows))"
  by (simp add: key_member_def)

lemma key_name: "video_topic_in key_session (me_index (key_member rows)) [47, 99] = Some [47, 99]"
  by (simp add: video_topic_in_def key_member_def key_session_def ix_topics_def strip_device_topic_prefix_def)

lemma key_names: "video_names key_session [[47, 99]] (key_member rows) = [([47, 99], [47, 99])]"
  by (simp add: video_names_def map_filter_simps key_name)

lemma key_file: "keyframe_records_file key_proto (key_member key_rows_a) [([47, 99], [47, 99])] 0 25
    = ([([47, 99], 0, [0, 0, 1, 5, 0]), ([47, 99], 20, [0, 0, 1, 5, 0])], None)"
  "keyframe_records_file key_proto (key_member key_rows_b) [([47, 99], [47, 99])] 0 25 = ([([47, 99], 20, [0, 0, 1, 5, 0])], None)"
  by (simp_all add: keyframe_records_file_def key_member_def sample_file_def key_rows_a_def key_rows_b_def key_srow_def in_window_def
    key_proto_def key_units_are)

lemma key_units_of: "iter_video_aus key_proto (key_member key_rows_a) [47, 99] [47, 99] None None
    = ([key_unit 0 True, key_unit 10 False, key_unit 20 True], None)"
  "iter_video_aus key_proto (key_member key_rows_b) [47, 99] [47, 99] None None = ([key_unit 20 True, key_unit 30 True], None)"
  by (simp_all add: iter_video_aus_def read_messages_def key_member_def sample_file_def key_rows_a_def key_rows_b_def key_srow_def
    in_window_def key_proto_def key_units_are)

lemma key_files: "video_files key_session [47, 99] None None
    = [(key_member key_rows_a, [47, 99]), (key_member key_rows_b, [47, 99])]"
  by (simp add: video_files_def key_members map_filter_simps key_name key_span)

lemma key_records_run: "keyframe_records key_proto key_session [[47, 99]] 0 25
    = Inr ([([47, 99], 0, [0, 0, 1, 5, 0]), ([47, 99], 20, [0, 0, 1, 5, 0])], None)"
  by (simp add: keyframe_records_def guardE_def key_topic key_members key_names key_span key_indexed key_file
    merge_keyframe_records_def merge_gens.simps live_gens_def next_gen_def pop_gen_def)


lemma key_cadence_run: "keyframe_cadence key_proto key_session [] [47, 99]
    = (Inr (Inr (Some \<lparr>cd_topic = [47, 99], cd_period_ns = 20, cd_frames_per_gop = 2, cd_sampled = 2\<rparr>)),
       [([47, 99], Some \<lparr>cd_topic = [47, 99], cd_period_ns = 20, cd_frames_per_gop = 2, cd_sampled = 2\<rparr>)])"
  by (simp add: keyframe_cadence_def key_topic measure_cadence_def key_files key_units_of CADENCE_KEYFRAMES_def CADENCE_AUS_def
    diffs_def median_def py_round_def)
lemma key_srow_key: "key_of key_proto (key_srow (t, 5)) = Some True" "key_of key_proto (key_srow (t, 1)) = Some False"
  by (simp_all add: key_srow_def key_of_def key_proto_def key_units_are)

lemma key_sparse: "\<forall>m \<in> set (se_members key_session). sparse_ok key_proto key_session m"
proof -
  have "sparse_ok key_proto key_session (key_member rows)" if "rows \<in> {key_rows_a, key_rows_b}" for rows
  proof -
    have "index_ok (key_member rows)" "sorted (map sr_time rows)"
      using that unfolding index_ok_def key_rows_all
      by (auto simp: key_member_def ix_topics_def key_rows_a_def key_rows_b_def key_srow_def)
    moreover have "is_video r \<and> strip_device_topic_prefix (sr_topic r) (se_device key_session) = Some [47, 99]
        \<and> sr_topic r = [47, 99]" if "r \<in> set rows" for r
      using that \<open>rows \<in> _\<close> by (auto simp: key_rows_a_def key_rows_b_def key_srow_def is_video_def key_schema_def
          strip_device_topic_prefix_def key_session_def)
    moreover have "key_of key_proto r \<noteq> None" if "r \<in> set rows" for r
    proof -
      have "key_of key_proto r \<in> {Some True, Some False}"
        using that \<open>rows \<in> _\<close> key_srow_key by (auto simp: key_rows_a_def key_rows_b_def)
      then show ?thesis by force
    qed
    moreover have "sf_indexed (me_file (key_member rows)) = (\<lambda>topics a b. (filter (\<lambda>r. (\<forall>ts \<in> set_option topics. sr_topic r \<in> set ts)
        \<and> in_window (sr_time r) a b) rows, None))" by (simp add: key_member_def sample_file_def)
    moreover have "strip_device_topic_prefix [47, 99] (se_device key_session) = Some [47, 99]"
      by (simp add: strip_device_topic_prefix_def key_session_def)
    ultimately show ?thesis by (simp add: sparse_ok_def video_channels_ok_def key_name)
  qed
  then show ?thesis by (simp add: key_members)
qed

lemma key_wanted: "wanted_prefixed key_session (me_index (key_member rows)) (Some [[47, 99]]) False = [[47, 99]]"
  by (simp add: wanted_prefixed_def key_member_def key_session_def ix_topics_def strip_device_topic_prefix_def)

text \<open>
  C36. \<open>keyframe_records\<close> gives exactly the compressed keyframes of its topics and window: over files that
  read as their index says, the records come in order of time, each once although a message may lie in two
  files at a seam, and none is missing; and when two files hold different bytes for one topic and stamp, the
  read ends with the conflict instead of choosing one.
\<close>

theorem keyframe_records_exact:
  assumes "keyframe_records P s topics start_ns end_ns = Inr (records, err)"
    and "\<forall>m \<in> set (se_members s). sparse_ok P s m"
  shows "if agree (set (concat (map (keys_of P s topics start_ns end_ns) (se_members s))))
    then err = None \<and> set records = set (concat (map (keys_of P s topics start_ns end_ns) (se_members s)))
      \<and> distinct records \<and> sorted (map record_time records)
    else \<exists>topic t. err = Some (ConflictingKeyframes topic t)"
proof -
  obtain sources where s: "keyframe_sources P s topics start_ns end_ns (se_members s) = Inr sources"
    "merge_keyframe_records sources = (records, err)"
    using assms(1) by (auto simp: keyframe_records_def bindE_eq_Inr)
  note k = sources_keys [OF assms(2) s(1)]
  let ?all = "set (concat (map (keys_of P s topics start_ns end_ns) (se_members s)))"
  obtain merged e where m: "merge_gens record_time sources = (merged, e)" by fastforce
  have "e = None" using merge_ends [of sources record_time] k m by simp
  have sorted: "sorted (map record_time merged)" using merge_sorted [of sources record_time] k m by simp
  have "mset merged = mset (concat (map fst sources))" using merge_mset [of record_time sources] m \<open>e = None\<close> by simp
  then have all: "set merged = ?all" using k by (metis set_mset_mset)
  have run: "drop_duplicates [] merged None = (records, err)"
    using s(2) m \<open>e = None\<close> by (simp add: merge_keyframe_records_def)
  show ?thesis
  proof (cases "agree ?all")
    case True
    then show ?thesis using drop_duplicates_agree [OF sorted, of "[]" None] run all by auto
  next
    case False
    have "agree (last_of [])" by (simp add: agree_def)
    then show ?thesis using drop_duplicates_conflict [OF sorted, of "[]" None] run all False by auto
  qed
qed

theorem keyframe_records_exact_witness:
  "set [([47, 99], 0, [0, 0, 1, 5, 0]), ([47, 99], 20, [0, 0, 1, 5, 0])]
     = set (concat (map (keys_of key_proto key_session [[47, 99]] 0 25) (se_members key_session)))"
  using keyframe_records_exact [OF key_records_run key_sparse] by (simp split: if_splits)

text \<open>
  C38. A measured cadence can be used without a check of its own: it comes from two to five keyframes, its period
  and its number of access units are positive, so \<open>every_n_for\<close> never divides by zero, and what that proposes for a
  target interval is a positive multiple of the period, at most half a period off the target, or every
  keyframe when the target is shorter than the period; the cache keeps the measurement.
\<close>

theorem cadence_is_usable:
  assumes "keyframe_cadence P s cache topic = (Inr (Inr (Some c)), cache')" and "map_of cache topic = None"
    and "every_n_for c target = (n, actual)"
  shows "cd_topic c = topic \<and> 0 < cd_period_ns c \<and> 2 \<le> cd_sampled c \<and> cd_sampled c \<le> CADENCE_KEYFRAMES
    \<and> 1 \<le> cd_frames_per_gop c \<and> keyframe_cadence P s cache' topic = (Inr (Inr (Some c)), cache')
    \<and> 1 \<le> n \<and> actual = n * cd_period_ns c
    \<and> (n = 1 \<and> target \<le> cd_period_ns c \<or> 2 * \<bar>actual - target\<bar> \<le> cd_period_ns c)"
proof -
  have m: "measure_cadence P s topic = Inr (Some c)" "cache' = AList.update topic (Some c) cache"
    using assms(1,2) by (auto simp: keyframe_cadence_def split: sum.splits)
  have "keyframe_cadence P s cache' topic = (Inr (Inr (Some c)), cache')"
    unfolding m(2) by (simp add: keyframe_cadence_def update_conv')
  then show ?thesis
    using cadence_bounds [OF m(1) [unfolded measure_cadence_def]] every_n_near [OF _ assms(3)] by blast
qed

theorem cadence_is_usable_witness:
  "2 * \<bar>(2::int) * 20 - 47\<bar> \<le> 20"
proof -
  have "every_n_for \<lparr>cd_topic = [47, 99], cd_period_ns = 20, cd_frames_per_gop = 2, cd_sampled = 2\<rparr> 47 = (2, 40)"
    by (simp add: every_n_for_def py_round_def)
  from cadence_is_usable [OF key_cadence_run _ this] show ?thesis by simp
qed

text \<open>
  C37. Sparse sampling shows the pictures that a full decode shows. When the codec keeps what it documents of the
  keyframes in these files (a decoder that has seen some of their access units makes the picture of a keyframe that
  a new decoder makes, be it none), a \<open>keyframe_stream\<close> of any window that ends without an error yields exactly what
  reading all access units of each file, from its first, gives at the stamp of every n-th keyframe of the window: the
  same images, stamps and frame ids in the same order, with nothing for a keyframe that does not decode, and each
  with the camera's exposure at its stamp. The count runs on from file to file.
\<close>

theorem keyframe_stream_is_full_decode:
  fixes P :: "('p payload, 'u, 'img) proto_env" and E :: "('c, 'f, 'img) av_env"
  assumes "no_overrides P" and "keyframe_stream P E exposure s topic every_n start_ns end_ns gray = Inr (els, None)"
    and "\<forall>f \<in> set (video_files s topic start_ns end_ns). camera_file s topic f
      \<and> intra_exact E (messages_of P (rows_of (fst f) (snd f)))
      \<and> snd (full_decode P E (pixel_format_of gray) s topic (fst f)) = None"
  shows "mapE (expose exposure) (concat (map (\<lambda>(f, t). decoded_at P E (pixel_format_of gray) s topic (fst f) t)
    (every (nat every_n) 0 (concat (map (\<lambda>f. map (Pair f) (key_times P start_ns end_ns f))
       (video_files s topic start_ns end_ns)))))) = Inr els"
proof -
  let ?pf = "pixel_format_of gray" and ?files = "video_files s topic start_ns end_ns"
  let ?units = "\<lambda>(m, prefixed). iter_video_aus P m prefixed topic start_ns end_ns"
  let ?keys = "\<lambda>f. filter (\<lambda>u. in_window (fst u) start_ns end_ns) (key_units P (rows_of (fst f) (snd f)))"
  have run: "keyframe_frames E ?pf exposure topic (nat every_n) (map ?units ?files) 0 0 = (els, None)"
    using assms(2) by (auto simp: keyframe_stream_def bindE_eq_Inr)
  have units: "?units f = classify P topic (filter (\<lambda>r. in_window (sr_time r) start_ns end_ns) (rows_of (fst f) (snd f))) None"
    if "f \<in> set ?files" for f
    using that assms(3) reader_rows [of "fst f"] by (cases f) (auto simp: iter_video_aus_def camera_file_def)
  have ok: "\<exists>U. intra_exact E U \<and> classified (fst u) \<and> (\<forall>x \<in> set (fst u). snd (snd x) \<in> U)" if "u \<in> set (map ?units ?files)" for u
  proof -
    from that obtain f where f: "f \<in> set ?files" "u = ?units f" by auto
    have "\<forall>x \<in> set (fst u). snd (snd x) \<in> messages_of P (rows_of (fst f) (snd f))"
      unfolding f(2) units [OF f(1)] using classify_messages by (fastforce simp: messages_of_def)
    then show ?thesis using assms(3) f(1) classify_classified unfolding f(2) units [OF f(1)] by blast
  qed
  then have "\<forall>u \<in> set (map ?units ?files). \<exists>U. intra_exact E U \<and> classified (fst u) \<and> (\<forall>x \<in> set (fst u). snd (snd x) \<in> U)"
    by blast
  from keyframe_frames_taken [OF this run] have none: "\<forall>f \<in> set ?files. snd (?units f) = None" and
    els: "mapE (expose exposure) (concat (map (shows_alone E ?pf topic)
      (every (nat every_n) 0 (concat (map (keys_among \<circ> fst) (map ?units ?files)))))) = Inr els" by auto
  have keys: "(keys_among \<circ> fst \<circ> ?units) f = ?keys f" if "f \<in> set ?files" for f
    using none that classify_keys [of P topic "filter (\<lambda>r. in_window (sr_time r) start_ns end_ns) (rows_of (fst f) (snd f))"]
      key_units_window [of P "\<lambda>t. in_window t start_ns end_ns"] units [OF that] by fastforce
  let ?L = "concat (map (\<lambda>f. map (Pair f) (?keys f)) ?files)"
  have "concat (map (keys_among \<circ> fst) (map ?units ?files)) = concat (map ?keys ?files)"
    unfolding map_map by (intro arg_cong [where f = concat] map_cong) (use keys in \<open>auto simp: comp_def\<close>)
  also have "\<dots> = map snd ?L" by (simp add: map_concat comp_def)
  finally have L: "concat (map (keys_among \<circ> fst) (map ?units ?files)) = map snd ?L" .
  have times: "concat (map (\<lambda>f. map (Pair f) (key_times P start_ns end_ns f)) ?files) = map (\<lambda>(f, u). (f, fst u)) ?L"
  proof -
    have "map (Pair f) (key_times P start_ns end_ns f) = map (\<lambda>(f, u). (f, fst u)) (map (Pair f) (?keys f))" for f :: "member \<times> ustr"
      using key_units_times [of P "filter (\<lambda>r. in_window (sr_time r) start_ns end_ns) (rows_of (fst f) (snd f))"]
        key_units_window [of P "\<lambda>t. in_window t start_ns end_ns" "rows_of (fst f) (snd f)"]
      by (simp add: key_times_def case_prod_beta comp_def conj_commute filter_filter [symmetric] del: filter_filter)
        (metis (no_types, lifting) map_map comp_apply map_eq_conv)
    then show ?thesis by (simp add: map_concat comp_def)
  qed
  have shown: "(\<lambda>(f, t). decoded_at P E ?pf s topic (fst f) t) ((\<lambda>(f, u). (f, fst u)) x) = shows_alone E ?pf topic (snd x)"
    if "x \<in> set (every (nat every_n) 0 ?L)" for x
  proof -
    obtain f u where x: "x = (f, u)" by (cases x)
    with that every_subset have "f \<in> set ?files" "u \<in> set (key_units P (rows_of (fst f) (snd f)))" by fastforce+
    then show ?thesis using decoded_at_keyframe [OF assms(1), of E "fst f" "snd f" s topic ?pf u] assms(3) by (simp add: x)
  qed
  have "map (\<lambda>(f, t). decoded_at P E ?pf s topic (fst f) t) (every (nat every_n) 0 (map (\<lambda>(f, u). (f, fst u)) ?L))
      = map (shows_alone E ?pf topic) (every (nat every_n) 0 (map snd ?L))"
    unfolding every_map map_map by (intro map_cong refl) (use shown in \<open>simp add: comp_def\<close>)
  then show ?thesis using els unfolding L times by simp
qed

text \<open>
  The witness: two files of a camera with keyframes, delta frames and a keyframe that was cut, read by a decoder that
  adds each delta frame to the pictures since the last keyframe, and refuses one with no picture before it.
\<close>

definition delta_av :: "(bytes list, bytes list, bytes list) av_env" where
  "delta_av = \<lparr>av_create = \<lambda>codec. [], av_decode = \<lambda>c au.
       if length au < 5 then (Inl (), c) else if au ! 3 = 5 then (Inr [[au]], [au])
       else if c = [] then (Inl (), c) else (Inr [c @ [au]], c @ [au]),
     av_is_luma16 = \<lambda>f. False, av_plane0 = \<lambda>f. f, av_to_ndarray = \<lambda>p f. Some f\<rparr>"

definition still_proto :: "(unit payload, unit, bytes list) proto_env" where
  "still_proto = \<lparr>pe_generated = \<lambda>n. True, pe_defines = \<lambda>d n. False,
     pe_decoded = \<lambda>c d. Some \<lparr>vm_format = [104, 50, 54, 52], vm_frame_id = [], vm_data = d\<rparr>, pe_imu = \<lambda>c d. None,
     pe_imu_quat = \<lambda>c d. None, pe_pose = \<lambda>c d. None, pe_quaternion = \<lambda>c d. None, pe_joints = \<lambda>c d. None,
     pe_record = \<lambda>c d. Some (Wire d), pe_override = \<lambda>n. None, pe_override_emit = \<lambda>u d t n. (([], None), u),
     pe_override_flush = \<lambda>u. ([], None)\<rparr>"

definition still_row :: "int \<times> bytes \<Rightarrow> session_row" where
  "still_row = (\<lambda>(t, d). (key_srow (t, 5))\<lparr>sr_data := d\<rparr>)"

definition still_a :: "session_row list" where
  "still_a = map still_row [(0, [0, 0, 1, 5, 7]), (10, [0, 0, 1, 1, 8]), (20, [0, 0, 1, 5, 6]), (30, [0, 0, 1, 5]),
     (35, [0, 0, 1, 1, 9])]"

definition still_b :: "session_row list" where
  "still_b = map still_row [(40, [0, 0, 1, 5, 3]), (50, [0, 0, 1, 5, 4])]"

definition still_session :: session where
  "still_session = key_session\<lparr>se_members := [key_member still_a, key_member still_b]\<rparr>"

lemma still_keys: "is_keyframe ([104, 50, 54, 52]) (0 # 0 # 1 # 5 # rest) = Some True"
  "is_keyframe ([104, 50, 54, 52]) (0 # 0 # 1 # 1 # rest) = Some False"
  by (simp_all add: is_keyframe_h264)

lemma still_files: "video_files still_session [47, 99] None None
    = [(key_member still_a, [47, 99]), (key_member still_b, [47, 99])]"
proof -
  have "video_topic_in still_session (me_index (key_member rows)) [47, 99] = Some [47, 99]" for rows
    using key_name [of rows] by (simp add: video_topic_in_def still_session_def key_session_def)
  moreover have "spans_window (me_index m) None None" if "m \<in> {key_member still_a, key_member still_b}" for m
    using that by (auto simp: key_member_def spans_window_def)
  ultimately show ?thesis by (simp add: video_files_def still_session_def map_filter_simps)
qed

lemma still_topic: "require_video_topic still_session [47, 99] = Inr ()"
  by code_simp

lemma still_rows: "r \<in> set still_a \<union> set still_b \<Longrightarrow>
   is_video r \<and> sr_topic r = [47, 99] \<and> canon_of still_session (sr_topic r) = [47, 99]"
  by (auto simp: still_a_def still_b_def still_row_def key_srow_def is_video_def key_schema_def canon_of_def
      strip_device_topic_prefix_def still_session_def key_session_def)

lemma still_emits:
  assumes "reached delta_av (lit ''rgb24'') UNIV st"
  shows "snd (fst (video_emit delta_av c (lit ''rgb24'') ex \<lparr>vm_format = [104, 50, 54, 52], vm_frame_id = [], vm_data = d\<rparr> topic t st)) = None"
proof -
  have "snd (fst (video_feed delta_av ex v topic t d)) = None" if "hd_pixel_format d = lit ''rgb24''" for v and d :: "bytes list hevc_decoder"
    using that by (auto simp: video_feed_def decode_au_def delta_av_def Let_def RAW_LUMA16_def)
  moreover have "init_decoder delta_av [104, 50, 54, 52] (lit ''rgb24'') = Inr d \<Longrightarrow> hd_pixel_format d = lit ''rgb24''" for d
    by (auto simp: init_decoder_def split: option.splits)
  moreover have "\<exists>d. init_decoder delta_av [104, 50, 54, 52] (lit ''rgb24'') = Inr d" by (simp add: init_decoder_def h264)
  moreover have "hd_pixel_format d = lit ''rgb24''"
    if "map_of (vs_decoders st) topic = Some d" "map_of (vs_formats st) topic = Some fmt" for d fmt
    using assms that unfolding reached_def decoder_reached_def by blast
  ultimately show ?thesis
    by (auto simp: video_emit_def put_decoder_def Let_def split: option.splits sum.splits)
qed

lemma still_decodes:
  fixes built :: "(bytes list, unit) adapters"
  assumes "\<forall>r \<in> set rows. is_video r \<and> canon_of still_session (sr_topic r) = [47, 99]" "plain_adapters built"
    "map_of built VIDEO_SCHEMA = Some (DecodedAdapter (Generated VIDEO_SCHEMA) st)" "reached delta_av (lit ''rgb24'') UNIV st"
  shows "snd (fst (file_rows still_proto delta_av (lit ''rgb24'') still_session [] rows None built None)) = None"
  using assms
proof (induction rows arbitrary: built st)
  case (Cons r rows)
  let ?v = "\<lparr>vm_format = [104, 50, 54, 52], vm_frame_id = [], vm_data = sr_data r\<rparr>"
  obtain xs err st' where e: "video_emit delta_av False (lit ''rgb24'') (\<lambda>_ _. None) ?v [47, 99] (sr_time r) st
      = ((xs :: (bytes list, unit) stream_triple list, err), st')" by (metis surj_pair)
  let ?b = "AList.update VIDEO_SCHEMA (DecodedAdapter (Generated VIDEO_SCHEMA) st') built"
  have ok: "err = None" "reached delta_av (lit ''rgb24'') UNIV st'"
    using still_emits [OF Cons.prems(4), of False "\<lambda>_ _. None" "sr_data r" "[47, 99]" "sr_time r"]
      emit_reached [OF Cons.prems(4) UNIV_I, of False "\<lambda>_ _. None" ?v "[47, 99]" "sr_time r"] e
    by (metis fst_conv snd_conv)+
  have r: "is_video r" "canon_of still_session (sr_topic r) = [47, 99]" using Cons.prems(1) by simp_all
  have "pe_decoded still_proto (Generated VIDEO_SCHEMA) (sr_data r) = Some ?v" by (simp add: still_proto_def)
  then have "emit_row still_proto delta_av (lit ''rgb24'') still_session [] r built None = ((xs, None), ?b, None)"
    using e ok(1) unfolding decode_row [OF r Cons.prems(3)] by simp
  moreover have "plain_adapters ?b" by (rule plain_adapters_update [OF Cons.prems(2)]) simp
  moreover have "map_of ?b VIDEO_SCHEMA = Some (DecodedAdapter (Generated VIDEO_SCHEMA) st')" by (simp add: update_conv')
  ultimately show ?case using Cons.IH [OF _ _ _ ok(2), of ?b] Cons.prems(1) by (simp add: case_prod_beta)
qed (simp add: carries_video_def flush_all_plain)

lemma still_camera:
  assumes "rows \<in> {still_a, still_b}"
  shows "camera_file still_session [47, 99] (key_member rows, [47, 99])" "rows_of (key_member rows) [47, 99] = rows"
    "snd (full_decode still_proto delta_av (pixel_format_of False) still_session [47, 99] (key_member rows)) = None"
proof -
  have rows: "\<forall>r \<in> set rows. is_video r \<and> sr_topic r = [47, 99] \<and> canon_of still_session (sr_topic r) = [47, 99]"
    using assms still_rows by blast
  then have topic: "filter (\<lambda>r. sr_topic r = [47, 99]) rows = rows" by (intro filter_True) simp
  then show of: "rows_of (key_member rows) [47, 99] = rows" by (simp add: rows_of_def)
  have wanted: "wanted_prefixed still_session (me_index (key_member rows)) (Some [[47, 99]]) False = [[47, 99]]"
    by (simp add: wanted_prefixed_def key_member_def still_session_def key_session_def ix_topics_def strip_device_topic_prefix_def)
  have "reader_ok (key_member rows)"
    by (auto simp: reader_ok_def read_messages_def all_rows_def key_member_def sample_file_def in_window_def ix_topics_def)
  moreover have "distinct (map sr_time rows)" using assms by (auto simp: still_a_def still_b_def still_row_def key_srow_def)
  ultimately show "camera_file still_session [47, 99] (key_member rows, [47, 99])"
    using wanted rows unfolding camera_file_def prod.case of by blast
  have no: "no_overrides still_proto" by (simp add: no_overrides_def still_proto_def)
  have "\<exists>built. build_adapters still_proto (me_index (key_member rows)) [[47, 99]] = Inr (built :: (bytes list, unit) adapters)"
    by (simp add: build_adapters_def PREBUILT_def build_adapter_def still_proto_def class_for_def NATIVE_SCHEMAS_def
      REGISTRY_def guardE_def IMAGE_SCHEMA_def VIDEO_SCHEMA_def IMU_RAW_SCHEMA_def key_member_def ix_topics_def)
  then obtain built where b: "build_adapters still_proto (me_index (key_member rows)) [[47, 99]] = Inr (built :: (bytes list, unit) adapters)"
    by blast
  have "read_messages (key_member rows) (Some [[47, 99]]) None None = (rows, None)"
    using topic by (simp add: read_messages_def key_member_def sample_file_def in_window_def)
  moreover have "snd (fst (file_rows still_proto delta_av (lit ''rgb24'') still_session [] rows None built None)) = None"
    using rows by (intro still_decodes [OF _ build_adapters_plain [OF no b] built_video [OF no b] init_video_reached]) blast
  ultimately show "snd (full_decode still_proto delta_av (pixel_format_of False) still_session [47, 99] (key_member rows)) = None"
    using b by (simp add: full_decode_def iter_file_def wanted pixel_format_of_def)
qed

lemma still_exact:
  assumes "rows \<in> {still_a, still_b}"
  shows "intra_exact delta_av (messages_of still_proto rows)"
proof -
  have "v \<in> messages_of still_proto rows \<Longrightarrow> is_keyframe (vm_format v) (vm_data v) = Some True
      \<Longrightarrow> length (vm_data v) < 5 \<or> vm_data v ! 3 = 5" for v
    using assms still_keys by (auto simp: messages_of_def still_proto_def still_a_def still_b_def still_row_def key_srow_def)
  moreover have "length au < 5 \<or> au ! 3 = 5 \<Longrightarrow> picture (fst (av_decode delta_av c au)) = picture (fst (av_decode delta_av c' au))"
    for au c c' by (auto simp: delta_av_def picture_def)
  ultimately show ?thesis unfolding intra_exact_def by blast
qed

lemma still_units: "iter_video_aus still_proto (key_member still_a) [47, 99] [47, 99] None None
    = (map (\<lambda>(t, key, d). (t, key, \<lparr>vm_format = [104, 50, 54, 52], vm_frame_id = [], vm_data = d\<rparr>))
        [(0, True, [0, 0, 1, 5, 7]), (10, False, [0, 0, 1, 1, 8]), (20, True, [0, 0, 1, 5, 6]), (30, True, [0, 0, 1, 5]),
         (35, False, [0, 0, 1, 1, 9])], None)"
  "iter_video_aus still_proto (key_member still_b) [47, 99] [47, 99] None None
    = (map (\<lambda>(t, key, d). (t, key, \<lparr>vm_format = [104, 50, 54, 52], vm_frame_id = [], vm_data = d\<rparr>))
        [(40, True, [0, 0, 1, 5, 3]), (50, True, [0, 0, 1, 5, 4])], None)"
  by (simp_all add: iter_video_aus_def read_messages_def key_member_def sample_file_def still_a_def still_b_def still_row_def key_srow_def
    in_window_def still_proto_def still_keys)

lemma still_run: "keyframe_stream still_proto delta_av (\<lambda>_ _. Inr None) still_session [47, 99] 2 None None False
    = Inr ([Frame [47, 99] 0 [[0, 0, 1, 5, 7]] [] None, Frame [47, 99] 50 [[0, 0, 1, 5, 4]] [] None], None)"
  by (simp add: keyframe_stream_def guardE_def still_topic still_files still_units pixel_format_of_def emit_key_def expose_def
   video_emit_def put_decoder_def video_feed_def decode_au_def delta_av_def init_decoder_def h264 RAW_LUMA16_def init_video_def Let_def)

theorem keyframe_stream_is_full_decode_witness:
  "mapE (expose (\<lambda>_ _. Inr None)) (concat (map (\<lambda>(f, t). decoded_at still_proto delta_av (pixel_format_of False)
      still_session [47, 99] (fst f) t)
     (every (nat 2) 0 (concat (map (\<lambda>f. map (Pair f) (key_times still_proto None None f))
        (video_files still_session [47, 99] None None))))))
   = Inr [Frame [47, 99] 0 [[0, 0, 1, 5, 7]] [] None, Frame [47, 99] 50 [[0, 0, 1, 5, 4]] [] None]"
proof (rule keyframe_stream_is_full_decode [OF _ still_run])
  show "no_overrides still_proto" by (simp add: no_overrides_def still_proto_def)
  show "\<forall>f \<in> set (video_files still_session [47, 99] None None). camera_file still_session [47, 99] f
      \<and> intra_exact delta_av (messages_of still_proto (rows_of (fst f) (snd f)))
      \<and> snd (full_decode still_proto delta_av (pixel_format_of False) still_session [47, 99] (fst f)) = None"
    using still_camera still_exact by (simp add: still_files)
qed

end
