(* ===== verification/KeyChange.thy ===== *)
theory KeyChange
  imports SealedBody Vrec Control
begin

text \<open>
  Changing the recording key of a rig from the console (\<open>display/recording_key.py\<close>): the request is checked,
  a new key goes on the keyring of the admin, and only then the change is sealed for the rigs. The keyring is the
  one of \<open>Vrec\<close>, the sealed body the one of \<open>SealedBody\<close>; the key drawn by the operating system is an argument.
\<close>

section \<open>The operations\<close>

definition OP_SET :: ustr where "OP_SET = lit ''set''"
definition OP_ROTATE :: ustr where "OP_ROTATE = lit ''rotate''"
definition OP_CLEAR :: ustr where "OP_CLEAR = lit ''clear''"
definition OPS :: "ustr list" where "OPS = [OP_SET, OP_ROTATE, OP_CLEAR]"

datatype key_change_error = UnknownOp ustr | NewKeyLength nat | KeyNotHex vrec_error | SetWithOldKey
  | ChangeRefused body_error | PlainValueError body_error | RingFailed vrec_error

record sealed_key_change =
  kc_op :: ustr
  kc_blob :: bytes
  kc_fingerprint :: ustr

definition resolve_new_key :: "bytes \<Rightarrow> key_arg \<Rightarrow> key_change_error + bytes" where
  "resolve_new_key minted key = (case key of
       NoKey \<Rightarrow> Inr minted
     | KeyBytes k \<Rightarrow> if length k \<noteq> RECORDING_KEY_BYTES then Inl (NewKeyLength (length k)) else Inr k
     | KeyText t \<Rightarrow> (case parse_hex_key t of Inl e \<Rightarrow> Inl (KeyNotHex e) | Inr k \<Rightarrow> Inr k))"

definition resolve_old_key :: "key_arg \<Rightarrow> key_change_error + bytes option" where
  "resolve_old_key old_key = (case old_key of
       NoKey \<Rightarrow> Inr None
     | KeyBytes k \<Rightarrow> Inr (Some k)
     | KeyText t \<Rightarrow> (case parse_hex_key t of Inl e \<Rightarrow> Inl (KeyNotHex e) | Inr k \<Rightarrow> Inr (Some k)))"

definition change_check :: "sealed_secrets \<Rightarrow> bool \<Rightarrow> key_change_error + unit" where
  "change_check x first_provision = (case validate_recording_key_change x first_provision of
     Inl e \<Rightarrow> Inl (ChangeRefused e) | Inr u \<Rightarrow> Inr u)"

text \<open>What the sealed body's own constructor and sealing raise is no \<open>KeyChangeError\<close>.\<close>

definition plain_error :: "body_error + 'a \<Rightarrow> key_change_error + 'a" where
  "plain_error r = (case r of Inl e \<Rightarrow> Inl (PlainValueError e) | Inr x \<Rightarrow> Inr x)"

definition change_body :: "bytes \<Rightarrow> bytes option \<Rightarrow> ustr list \<Rightarrow> key_change_error + sealed_secrets" where
  "change_body key old devices = plain_error (sealed_init JNull (Some key) old (map JStr devices) JNull)"

text \<open>The checks of \<open>seal_key_change\<close>: the new key, empty for a clear, and the body that says the change.\<close>

definition change_request :: "bytes \<Rightarrow> ustr \<Rightarrow> key_arg \<Rightarrow> key_arg \<Rightarrow> ustr list \<Rightarrow> key_change_error + bytes \<times> sealed_secrets" where
  "change_request minted op key old_key devices =
     bindE (guardE (op \<in> set OPS) (UnknownOp op)) (\<lambda>_.
     bindE (guardE (\<not> (op = OP_SET \<and> old_key \<noteq> NoKey)) SetWithOldKey) (\<lambda>_.
     bindE (resolve_old_key old_key) (\<lambda>old.
     bindE (if op = OP_CLEAR then Inr [] else resolve_new_key minted key) (\<lambda>new_key.
     bindE (change_body new_key old devices) (\<lambda>x.
     bindE (change_check x (op = OP_SET)) (\<lambda>_. Inr (new_key, x)))))))"

text \<open>\<open>seal_key_change\<close>: the change or the error, and the keyring directory in either case.\<close>

definition seal_key_change :: "crypto \<Rightarrow> seal_ext \<Rightarrow> (seal_error + bytes) \<Rightarrow> bytes \<Rightarrow> bytes \<Rightarrow> ustr \<Rightarrow> key_arg \<Rightarrow> key_arg
    \<Rightarrow> ustr list \<Rightarrow> ring_dir \<Rightarrow> (key_change_error + sealed_key_change) \<times> ring_dir" where
  "seal_key_change X S fleet eph minted op key old_key devices d =
     (case change_request minted op key old_key devices of
        Inl e \<Rightarrow> (Inl e, d)
      | Inr (new_key, x) \<Rightarrow>
          if op = OP_CLEAR then
            (bindE (plain_error (seal_secrets S fleet eph x None)) (\<lambda>blob.
               Inr \<lparr>kc_op = op, kc_blob = blob, kc_fingerprint = []\<rparr>), d)
          else case remember_key X new_key d of
                 Inl e \<Rightarrow> (Inl (RingFailed e), d)
               | Inr (_, d') \<Rightarrow>
                   (bindE (plain_error (seal_secrets S fleet eph x None)) (\<lambda>blob.
                      Inr \<lparr>kc_op = op, kc_blob = blob, kc_fingerprint = hex (fingerprint X new_key)\<rparr>), d'))"

section \<open>What is sealed\<close>

lemma seal_to_fleet: "length (se_public S sk) = 32 \<Longrightarrow>
    seal_secrets S (Inr (se_public S sk)) eph x None = seal_secrets S (Inr (se_public S sk)) eph x (Some (se_public S sk))"
  by (simp add: seal_secrets_def seal_def raw_public_def seal_lengths)

lemma change_body_is:
  "change_body key old devices = Inr x \<Longrightarrow> sealed_ok x \<and> ss_storage x = None \<and> ss_key x = Some key \<and> ss_old_key x = old
     \<and> ss_devices x = devices \<and> ss_expires x = None"
  by (auto simp: change_body_def plain_error_def sealed_init_def bindE_eq_Inr require_key_length_def sealed_ok_def comp_def
      RECORDING_KEY_BYTES_def string_value_def split: sum.splits option.splits if_splits)

text \<open>The body that the rig's fleet key gets out of a blob.\<close>

definition body_in :: "seal_ext \<Rightarrow> (ustr \<Rightarrow> pyfloat) \<Rightarrow> bytes \<Rightarrow> bytes \<Rightarrow> body_error + sealed_secrets" where
  "body_in S fl blob privkey = bindE (lift_seal (unseal S blob privkey)) (\<lambda>raw.
     bindE (case utf8_decode raw of None \<Rightarrow> Inl BodyNotUtf8 | Some t \<Rightarrow> Inr t) (\<lambda>t.
     bindE (case loads fl t of None \<Rightarrow> Inl BodyNotJson | Some v \<Rightarrow> Inr v) from_body))"

lemma sealed_body_in:
  assumes "seal_ext_ok S" "length sk = KEY_LEN" "sealed_ok x" "sealed_text_ok x"
    and "seal_secrets S (Inr (se_public S sk)) eph x None = Inr blob"
  shows "body_in S fl blob sk = Inr x"
proof -
  have "length (se_public S sk) = 32" using assms(1) by (simp add: seal_ext_ok_def)
  from assms(5) [unfolded seal_to_fleet [OF this]] obtain raw body where
    "unseal S blob sk = Inr raw" "utf8_decode raw = Some body" "loads fl body = Some (JObj (to_body x))"
    using seal_secrets_opens [OF assms(1-4)] by metis
  then show ?thesis using from_body_to_body [OF assms(3)] by (simp add: body_in_def lift_seal_def)
qed

lemma remembered:
  assumes "remember_key X key d = Inr (fp, d')" "length key = KEY_BYTES"
  shows "fp = hex (fingerprint X key) \<and> find_key (rd_ring d') fp = Inr (Some key)
    \<and> (\<forall>other. other \<noteq> fp \<longrightarrow> find_key (rd_ring d') other = find_key (rd_ring d) other)"
proof -
  obtain ws where ws: "remember_writes X key (rd_ring d) = Inr ws" "fp = hex (fingerprint X key)" "d' = foldl ring_step d ws"
    using assms(1) by (auto simp: remember_key_def bindE_eq_Inr)
  note cs = remember_writes_cases [OF ws(1)]
  let ?m = "(ring_keys (rd_ring d))(hex (fingerprint X key) \<mapsto> hex key)"
  have "rd_ring d' = (if ws = [] then rd_ring d else Ring ?m)" using cs(2) ws(3) by auto
  then show ?thesis using cs parse_hex_key_hex [OF assms(2)] ws(2)
    by (cases "rd_ring d") (auto simp: find_key_def ring_keys_def)
qed

lemma parsed_length: "parse_hex_key t = Inr k \<Longrightarrow> length k = 32"
  by (auto simp: parse_hex_key_def KEY_BYTES_def split: option.splits if_splits)

lemma ops_differ [simp]: "OP_SET \<noteq> OP_CLEAR" "OP_CLEAR \<noteq> OP_SET" "OP_ROTATE \<noteq> OP_CLEAR" "OP_ROTATE \<noteq> OP_SET" "OP_SET \<noteq> OP_ROTATE"
  by (simp_all add: OP_SET_def OP_CLEAR_def OP_ROTATE_def)

text \<open>The key that an argument stands for.\<close>

fun key_meant :: "key_arg \<Rightarrow> bytes option" where
  "key_meant NoKey = None"
| "key_meant (KeyBytes k) = Some k"
| "key_meant (KeyText t) = fromhex (strip t)"

definition new_key_meant :: "bytes \<Rightarrow> ustr \<Rightarrow> key_arg \<Rightarrow> bytes" where
  "new_key_meant minted op key =
     (if op = OP_CLEAR then [] else case key_meant key of None \<Rightarrow> minted | Some k \<Rightarrow> k)"

lemma parsed_is: "parse_hex_key t = Inr k \<Longrightarrow> fromhex (strip t) = Some k"
  by (auto simp: parse_hex_key_def split: option.splits if_splits)

lemma request_ok:
  assumes "change_request minted op key old_key devices = Inr (new, x)" "length minted = 32"
  shows "sealed_ok x \<and> ss_storage x = None \<and> ss_key x = Some new \<and> ss_devices x = devices \<and> ss_expires x = None
    \<and> new = new_key_meant minted op key \<and> ss_old_key x = key_meant old_key
    \<and> (op \<noteq> OP_CLEAR \<longrightarrow> length new = 32)
    \<and> (op = OP_SET \<longrightarrow> ss_old_key x = None) \<and> (op \<noteq> OP_SET \<longrightarrow> ss_old_key x \<noteq> None)"
proof -
  obtain old where o: "op \<in> set OPS" "\<not> (op = OP_SET \<and> old_key \<noteq> NoKey)" "resolve_old_key old_key = Inr old"
    "(if op = OP_CLEAR then Inr [] else resolve_new_key minted key) = Inr new" "change_body new old devices = Inr x"
    "change_check x (op = OP_SET) = Inr ()"
    using assms(1) by (auto simp: change_request_def bindE_eq_Inr)
  note b = change_body_is [OF o(5)]
  have new: "new = new_key_meant minted op key" "op \<noteq> OP_CLEAR \<Longrightarrow> length new = 32"
    using o(4) assms(2) parsed_length parsed_is
    by (auto simp: resolve_new_key_def new_key_meant_def RECORDING_KEY_BYTES_def split: key_arg.splits sum.splits if_splits)
  have "old = key_meant old_key"
    using o(3) parsed_is by (auto simp: resolve_old_key_def split: key_arg.splits sum.splits)
  moreover have "op = OP_SET \<Longrightarrow> old = None" using o(2,3) by (simp add: resolve_old_key_def)
  moreover have "op \<noteq> OP_SET \<Longrightarrow> old \<noteq> None"
    using o(6) b by (auto simp: change_check_def validate_recording_key_change_def touches_recording_key_def split: if_splits)
  ultimately show ?thesis using b new by auto
qed

lemma plain_error_Inr: "plain_error r = Inr x \<longleftrightarrow> r = Inr x"
  by (cases r) (simp_all add: plain_error_def)

text \<open>
  A proof of the old key that is no key at all is refused, but as an error of the sealed body, not of the request.
\<close>

lemma short_old_key_is_no_key_change_error:
  assumes "length old \<noteq> 32" and "length minted = 32"
  shows "fst (seal_key_change X S fleet eph minted OP_ROTATE NoKey (KeyBytes old) devices d)
    = Inl (PlainValueError (body_error.BadKeyLength (lit ''old_recording_key'') (length old)))"
  using assms by (simp add: seal_key_change_def change_request_def OPS_def guardE_def resolve_old_key_def
      resolve_new_key_def change_body_def plain_error_def sealed_init_def require_key_length_def RECORDING_KEY_BYTES_def)

section \<open>Properties\<close>

text \<open>
  C39. No rig ever gets a key that the admin does not hold. Whatever \<open>seal_key_change\<close> is asked, and whether it
  succeeds or fails, no key of the keyring is lost. When it hands out a blob, what the rig opens it to is exactly
  the change that was asked: for the devices that were named, with the new key that was given (the one that the
  operating system drew where none was given, none for a \<open>clear\<close>) and the proof of the old key that was given, of
  which a \<open>set\<close> has none and the others need one. The new key of a \<open>set\<close> or \<open>rotate\<close> is by then on the keyring
  under the fingerprint that is reported, and it is there before the change is sealed: a sealing that fails
  leaves it there. A \<open>clear\<close> leaves the keyring alone.
\<close>

theorem key_is_kept_before_it_is_sealed:
  assumes "seal_ext_ok S" and "length sk = KEY_LEN" and "length minted = 32" and "list_all (list_all scalar) devices"
    and "seal_key_change X S (Inr (se_public S sk)) eph minted op key old_key devices d = (r, d')"
  shows "(\<forall>fp k. find_key (rd_ring d) fp = Inr (Some k) \<longrightarrow> find_key (rd_ring d') fp = Inr (Some k)
          \<or> fp = hex (fingerprint X (new_key_meant minted op key))
             \<and> find_key (rd_ring d') fp = Inr (Some (new_key_meant minted op key)))
    \<and> (\<forall>c. r = Inr c \<longrightarrow> kc_op c = op \<and> (\<exists>x. body_in S fl (kc_blob c) sk = Inr x
          \<and> ss_key x = Some (new_key_meant minted op key) \<and> ss_old_key x = key_meant old_key
          \<and> ss_devices x = devices \<and> ss_storage x = None \<and> ss_expires x = None
          \<and> (op = OP_SET \<longrightarrow> ss_old_key x = None) \<and> (op \<noteq> OP_SET \<longrightarrow> ss_old_key x \<noteq> None))
          \<and> (if op = OP_CLEAR then d' = d \<and> kc_fingerprint c = []
             else length (new_key_meant minted op key) = 32
               \<and> kc_fingerprint c = hex (fingerprint X (new_key_meant minted op key))))
    \<and> (op \<noteq> OP_CLEAR \<and> ((\<exists>c. r = Inr c) \<or> (\<exists>e. r = Inl (PlainValueError e)
            \<and> (\<exists>q. change_request minted op key old_key devices = Inr q)))
         \<longrightarrow> find_key (rd_ring d') (hex (fingerprint X (new_key_meant minted op key)))
               = Inr (Some (new_key_meant minted op key)))"
proof (cases "change_request minted op key old_key devices")
  case (Inl e)
  then show ?thesis using assms(5) by (auto simp: seal_key_change_def)
next
  case (Inr nx)
  then obtain new x where q: "change_request minted op key old_key devices = Inr (new, x)" by (cases nx) simp
  note x = request_ok [OF q assms(3)]
  have texts: "sealed_text_ok x" using x assms(4) by (simp add: sealed_text_ok_def)
  have opens: "body_in S fl blob sk = Inr x" if "seal_secrets S (Inr (se_public S sk)) eph x None = Inr blob" for blob
    by (rule sealed_body_in [OF assms(1,2) _ texts that]) (use x in simp)
  show ?thesis
  proof (cases "op = OP_CLEAR")
    case True
    then have r: "r = bindE (plain_error (seal_secrets S (Inr (se_public S sk)) eph x None)) (\<lambda>blob.
        Inr \<lparr>kc_op = op, kc_blob = blob, kc_fingerprint = []\<rparr>)" "d' = d"
      using assms(5) q by (simp_all add: seal_key_change_def)
    show ?thesis using r x opens True by (auto simp: bindE_eq_Inr plain_error_Inr)
  next
    case False
    show ?thesis
    proof (cases "remember_key X new d")
      case (Inl e)
      then show ?thesis using assms(5) q False by (auto simp: seal_key_change_def)
    next
      case (Inr p)
      then obtain fp where rk: "remember_key X new d = Inr (fp, d')"
        and r: "r = bindE (plain_error (seal_secrets S (Inr (se_public S sk)) eph x None)) (\<lambda>blob.
          Inr \<lparr>kc_op = op, kc_blob = blob, kc_fingerprint = hex (fingerprint X new)\<rparr>)"
        using assms(5) q False by (auto simp: seal_key_change_def split: prod.splits)
      have kept: "fp = hex (fingerprint X new)" "find_key (rd_ring d') fp = Inr (Some new)"
        "\<forall>other. other \<noteq> fp \<longrightarrow> find_key (rd_ring d') other = find_key (rd_ring d) other"
        using remembered [OF rk] x False by (auto simp: KEY_BYTES_def)
      then have "\<forall>f k. find_key (rd_ring d) f = Inr (Some k) \<longrightarrow> find_key (rd_ring d') f = Inr (Some k)
          \<or> f = hex (fingerprint X new) \<and> find_key (rd_ring d') f = Inr (Some new)" by metis
      then show ?thesis using r x opens False kept(1,2) by (auto simp: bindE_eq_Inr plain_error_Inr)
    qed
  qed
qed

lemma sample_change_sealed:
  "\<exists>blob. seal_secrets sample_seal (Inr (se_public sample_seal (replicate 32 9))) (replicate 32 4)
     \<lparr>ss_storage = None, ss_key = Some (replicate 32 5), ss_old_key = None, ss_devices = [], ss_expires = None\<rparr> None = Inr blob"
proof -
  let ?pub = "se_public sample_seal (replicate 32 9)"
  let ?x = "\<lparr>ss_storage = None, ss_key = Some (replicate 32 5), ss_old_key = None, ss_devices = [], ss_expires = None\<rparr>"
  have pub: "length ?pub = 32" by (simp add: sample_seal_def)
  have "b64url_encode (replicate 32 5) = lit ''BQUFBQUFBQUFBQUFBQUFBQUFBQUFBQUFBQUFBQUFBQU''" by code_simp
  then obtain raw where raw: "utf8 (dumps (\<lambda>_. []) True (JObj (to_body ?x))) = Some raw" "length raw = 52"
    by (simp add: to_body_def SEAL_RECORDING_KEY_def json_string_def json_char_def utf8_char_def)
  have "\<exists>blob. seal sample_seal (Inr ?pub) (replicate 32 4) raw None = Inr blob \<and> length blob = 108"
    using seal_parts [OF sample_seal_ok, of ?pub "replicate 32 4"] raw(2) length_fleet_kid [OF sample_seal_ok]
    by (simp add: seal_def pub seal_lengths) (simp add: sample_seal_def length_toy_mac seal_lengths)
  then obtain blob where "seal sample_seal (Inr ?pub) (replicate 32 4) raw None = Inr blob" "length blob = 108" by blast
  then show ?thesis using raw(1) by (simp add: seal_secrets_def lift_seal_def SEALED_MAX_BYTES_def)
qed

theorem key_is_kept_before_it_is_sealed_witness:
  "\<exists>c d' x. seal_key_change sample_crypto sample_seal (Inr (se_public sample_seal (replicate 32 9))) (replicate 32 4)
       (replicate 32 5) OP_SET NoKey NoKey [] (ring_at_rest RingAbsent) = (Inr c, d')
     \<and> find_key (rd_ring d') (kc_fingerprint c) = Inr (Some (replicate 32 5))
     \<and> body_in sample_seal (\<lambda>_. NaN) (kc_blob c) (replicate 32 9) = Inr x \<and> ss_key x = Some (replicate 32 5)"
proof -
  let ?d = "(ring_at_rest RingAbsent)"
  let ?x = "\<lparr>ss_storage = None, ss_key = Some (replicate 32 5), ss_old_key = None, ss_devices = [], ss_expires = None\<rparr>"
  have q: "change_request (replicate 32 5) OP_SET NoKey NoKey [] = Inr (replicate 32 5, ?x)"
    by (simp add: change_request_def OPS_def guardE_def resolve_old_key_def resolve_new_key_def change_body_def plain_error_def
        sealed_init_def require_key_length_def RECORDING_KEY_BYTES_def change_check_def validate_recording_key_change_def
        touches_recording_key_def clears_recording_key_def)
  obtain fp d' where rk: "remember_key sample_crypto (replicate 32 5) ?d = Inr (fp, d')"
    by (simp add: remember_key_def remember_writes_def Let_def ring_at_rest_def split: if_splits)
  obtain blob where blob: "seal_secrets sample_seal (Inr (se_public sample_seal (replicate 32 9))) (replicate 32 4) ?x None = Inr blob"
    using sample_change_sealed by blast
  define c where "c = \<lparr>kc_op = OP_SET, kc_blob = blob, kc_fingerprint = hex (fingerprint sample_crypto (replicate 32 5))\<rparr>"
  have run: "seal_key_change sample_crypto sample_seal (Inr (se_public sample_seal (replicate 32 9))) (replicate 32 4)
       (replicate 32 5) OP_SET NoKey NoKey [] ?d = (Inr c, d')"
    using q rk blob by (simp add: seal_key_change_def plain_error_def c_def)
  have "body_in sample_seal (\<lambda>_. NaN) blob (replicate 32 9) = Inr ?x"
    by (rule sealed_body_in [OF sample_seal_ok _ _ _ blob]) (simp_all add: seal_lengths sealed_ok_def sealed_text_ok_def)
  moreover have "find_key (rd_ring d') (kc_fingerprint c) = Inr (Some (replicate 32 5))"
    using key_is_kept_before_it_is_sealed [OF sample_seal_ok _ _ _ run, of "\<lambda>_. NaN"]
    by (simp add: seal_lengths new_key_meant_def c_def)
  ultimately show ?thesis using run by (auto simp: c_def)
qed

end
