(* ===== verification/Spec2Isabelle.thy ===== *)
theory Spec2Isabelle
  imports Registry RelayRegistry QueueEndpoint FramedFd OtaTermination Recordings DiagPull Vrec Rows IngestSeal SealedBody Replay SessionIndex Sync Exposure SessionStream Keyframes KeyChange
begin

text \<open>
  Verification library of the Python package of \<open>visio-schema\<close>: HEADER
\<close>

section \<open>From a device's registry to a consumer's rows\<close>

lemma resolved_known:
  assumes "\<forall>m \<in> set ms. FIRST_DYNAMIC \<le> m_stream_id m \<and> map_of (r_by_id r) (m_stream_id m) \<noteq> None"
  shows "resolved announce ms r = (map (\<lambda>m. (m, the (map_of (r_by_id r) (m_stream_id m)))) ms, r)"
  using assms
  by (induction ms) (auto simp: accept_def Let_def FIRST_DYNAMIC_def DEVICE_INFO_def)

lemma read_frames_all:
  assumes "wire_ext_ok E" "mapE (frame_bytes E) ms = Inr fs" "concat chunks = concat fs"
  shows "read_frames E chunks = ms"
  using link_codec.split_all [OF frame_link_codec [OF assms(1)] assms(2), of "[]"] assms(3)
  by (simp add: read_frames_split split_frames_partial)

section \<open>Properties\<close>

text \<open>
  C1. The protocol from end to end. A device declares its outputs, announces them and sends data on its
  own channels; the link hands the bytes on in chunks of any sizes. Then a consumer that has just
  started, however its registry was set up, reads back exactly the data messages, in order, each with
  the device's own channel (topic, schema and encoding), and counts none as unmapped.
\<close>

theorem announced_data_reaches_the_consumer:
  assumes "wire_ext_ok E"
    and "init_registry X n fw hw ser boot et entries = Inr d0" and "d = foldl (reg_step X) d0 ops"
    and "distinct (order (r_own_ids d))" and "set (order (r_own_ids d)) = r_own_ids d"
    and "self_info order d = Inr di" and "dinfo_parse X (dinfo_ser X di) = Some di"
    and "init_registry X n' fw' hw' ser' boot' et' [] = Inr consumer"
    and "m_stream_id ann = DEVICE_INFO" and "m_payload ann = dinfo_ser X di"
    and "\<forall>m \<in> set data. m_stream_id m \<in> r_own_ids d"
    and "mapE (frame_bytes E) (ann # data) = Inr fs" and "concat chunks = concat fs"
  shows "\<exists>c. resolved (on_announce X) (read_frames E chunks) consumer
      = (map (\<lambda>m. (m, the (resolve d (m_stream_id m)))) data, c)
      \<and> r_dropped_unmapped c = r_dropped_unmapped consumer"
proof -
  let ?c = "on_announce X (dinfo_ser X di) consumer"
  have d: "reg_inv d" using reg_run_inv [OF init_registry_inv [OF assms(2)]] assms(3) by simp
  obtain chs where own: "own_channels order d = Inr chs" and chs: "di_channels di = chs"
    using assms(6) by (auto simp: self_info_def bindE_eq_Inr)
  have empty: "r_topic_to_id consumer = Map.empty"
    using assms(8) by (auto simp: init_registry_def bindE_eq_Inr)
  have known: "FIRST_DYNAMIC \<le> i \<and> map_of (r_by_id ?c) i = resolve d i \<and> resolve d i \<noteq> None"
    if "i \<in> r_own_ids d" for i
  proof -
    have "\<exists>ch \<in> set chs. ch_id ch = i \<and> map_of (r_by_id d) i = Some ch"
    proof -
      have "i \<in> ch_id ` set chs"
        using own_channels_set(1) [OF d own assms(4)] assms(5) that by (metis set_map)
      then show ?thesis using own_channels_set(4) [OF d own assms(4)] that by auto
    qed
    then obtain ch where ch: "ch \<in> set chs" "ch_id ch = i" "map_of (r_by_id d) i = Some ch" by blast
    have "FIRST_DYNAMIC \<le> i" using d that by (simp add: reg_inv_def)
    moreover from this have "resolve d i = Some ch"
      using ch by (simp add: resolve_def DEVICE_INFO_def FIRST_DYNAMIC_def)
    moreover have "map_of (r_by_id ?c) i = Some ch"
      using announce_fresh [OF d assms(4,6,7) init_registry_inv [OF assms(8)] empty, of ch] ch chs by simp
    ultimately show ?thesis by simp
  qed
  have "resolved (on_announce X) (read_frames E chunks) consumer
      = resolved (on_announce X) (ann # data) consumer"
    using read_frames_all [OF assms(1) assms(12,13)] by simp
  also have "\<dots> = resolved (on_announce X) data ?c"
    using assms(9,10) by (simp add: accept_def split: prod.splits)
  also have "\<dots> = (map (\<lambda>m. (m, the (map_of (r_by_id ?c) (m_stream_id m)))) data, ?c)"
    using known assms(11) by (intro resolved_known) auto
  also have "\<dots> = (map (\<lambda>m. (m, the (resolve d (m_stream_id m)))) data, ?c)"
    using known assms(11) by auto
  finally show ?thesis by (simp add: on_announce_dropped)
qed

definition sample_announce :: message where
  "sample_announce = default_message\<lparr>m_stream_id := 1, m_payload := []\<rparr>"

definition sample_data :: message where
  "sample_data = default_message\<lparr>m_stream_id := 16, m_payload := [0, 7]\<rparr>"

theorem announced_data_reaches_the_consumer_witness:
  "\<exists>fs c. mapE (frame_bytes cpp_ext) [sample_announce, sample_data] = Inr fs
     \<and> resolved (on_announce (sample_ext sample_info)) (read_frames cpp_ext (map (\<lambda>b. [b]) (concat fs)))
         sample_registry = ([(sample_data, sample_channel 16 (lit ''/a''))], c)"
proof -
  have d: "sample_sender = foldl (reg_step (sample_ext sample_info)) sample_registry
      [OpDeclareChannel (lit ''/a'') [] [] PROTOBUF PROTOBUF]"
    by (simp add: sample_sender_def)
  have o: "distinct ((\<lambda>_. [16]) (r_own_ids sample_sender))"
    "set ((\<lambda>_. [16]) (r_own_ids sample_sender)) = r_own_ids sample_sender"
    "self_info (\<lambda>_. [16]) sample_sender = Inr sample_info"
    "dinfo_parse (sample_ext sample_info) (dinfo_ser (sample_ext sample_info) sample_info)
       = Some sample_info"
    by (simp_all add: sample_sender_def sample_registry_def declare_channel_def alloc_def
        self_info_def own_channels_def sample_info_def sample_channel_def sample_ext_def)
  have m: "m_stream_id sample_announce = DEVICE_INFO"
    "m_payload sample_announce = dinfo_ser (sample_ext sample_info) sample_info"
    "\<forall>m \<in> set [sample_data]. m_stream_id m \<in> r_own_ids sample_sender"
    by (simp_all add: sample_announce_def sample_data_def default_message_def DEVICE_INFO_def sample_ext_def
        sample_sender_def sample_registry_def declare_channel_def alloc_def)
  obtain f where f: "frame_bytes cpp_ext sample_announce = Inr f"
    using sample_encodes [of 1 "[]"] by (auto simp: sample_announce_def)
  obtain g where g: "frame_bytes cpp_ext sample_data = Inr g"
    using sample_encodes [of 16 "[0, 7]"] by (auto simp: sample_data_def)
  from f g have fs: "mapE (frame_bytes cpp_ext) [sample_announce, sample_data] = Inr [f, g]" by simp
  have cat: "concat (map (\<lambda>b. [b]) (concat [f, g])) = concat [f, g]" by simp
  have "resolve sample_sender 16 = Some (sample_channel 16 (lit ''/a''))"
    by (simp add: sample_sender_def sample_registry_def declare_channel_def alloc_def resolve_def
        DEVICE_INFO_def sample_channel_def)
  moreover have "m_stream_id sample_data = 16" by (simp add: sample_data_def)
  moreover note announced_data_reaches_the_consumer [OF cpp_ext_ok sample_init d o sample_init m fs cat]
  ultimately show ?thesis using fs by auto
qed

text \<open>
  C6. The byte stream is self-synchronising: whatever garbage comes first, ended by one delimiter, and
  however the stream is cut into chunks, every message sent after it is delivered, in order and
  unchanged; what comes before is what the garbage itself decodes to.
\<close>

theorem stream_resynchronises:
  assumes "wire_ext_ok E" and "mapE (frame_bytes E) ms = Inr fs"
    and "concat chunks = garbage @ 0 # concat fs"
  shows "read_frames E chunks = read_frames E [garbage @ [0]] @ ms"
  using link_codec.split_resync [OF frame_link_codec [OF assms(1)] assms(2), of garbage] assms(3)
  by (simp add: read_frames_split)

theorem stream_resynchronises_witness:
  "\<exists>f. frame_bytes cpp_ext sample_data = Inr f
     \<and> read_frames cpp_ext [[1, 2], 3 # 0 # take 2 f, drop 2 f] = [sample_data]"
proof -
  obtain f where f: "frame_bytes cpp_ext sample_data = Inr f"
    using sample_encodes [of 16 "[0, 7]"] by (auto simp: sample_data_def)
  have "mapE (frame_bytes cpp_ext) [sample_data] = Inr [f]" using f by simp
  from stream_resynchronises [OF cpp_ext_ok this, of "[[1, 2], 3 # 0 # take 2 f, drop 2 f]" "[1, 2, 3]"]
  have "read_frames cpp_ext [[1, 2], 3 # 0 # take 2 f, drop 2 f]
      = read_frames cpp_ext [[1, 2, 3, 0]] @ [sample_data]" by simp
  moreover have "read_frames cpp_ext [[1, 2, 3, 0]] = []" by code_simp
  ultimately show ?thesis using f by simp
qed

text \<open>
  C7. A frame survives its codec unchanged, and a frame in which any one byte was altered is refused,
  never decoded to another message.
\<close>

theorem frames_roundtrip_and_reject_corruption:
  assumes "wire_ext_ok E" and "encode_message E m = Inr f"
  shows "decode_message E f = Inr m
    \<and> (\<forall>k b. k < length f \<and> b \<noteq> f ! k \<longrightarrow> (\<exists>e. decode_message E (f[k := b]) = Inl e))"
  using decode_encode_frame [OF assms(1)] decode_frame_one_byte assms(2)
    decode_encode_message [OF assms]
  unfolding encode_message_def decode_message_def by (metis bindE_simps(1))

theorem frames_roundtrip_and_reject_corruption_witness:
  "\<exists>f. encode_message cpp_ext sample_data = Inr f \<and> decode_message cpp_ext f = Inr sample_data
     \<and> (\<exists>e. decode_message cpp_ext (f[0 := 9]) = Inl e)"
proof -
  let ?f = "(33 # fixed_head 16 @ [0, 7]) @ crc_tail (33 # fixed_head 16 @ [0, 7])"
  have f: "encode_message cpp_ext sample_data = Inr ?f" "0 < length ?f" "9 \<noteq> ?f ! 0"
    unfolding sample_data_def by (rule sample_encodes [of 16 "[0, 7]"], simp, simp, assumption) simp_all
  from frames_roundtrip_and_reject_corruption [OF cpp_ext_ok f(1)] f show ?thesis by blast
qed

text \<open>
  C14. The device's C++ codecs and the host's agree: the table-driven CRC of \<open>crc16.cc\<close> is the bitwise one of
  the host on every input, the C++ COBS encoder gives byte for byte the canonical encoding that the host's
  package has, with no phantom block after a full one, the C++ decoder reads every canonical encoding back,
  which holds no zero byte, and the encoder never writes past the \<open>n + n / 254 + 2\<close> bytes it allocated.
\<close>

theorem device_codecs_agree:
  "crc16_cpp data = crc16 data
   \<and> cobs_encode_cpp data = cobs_reference data
   \<and> cobs_decode_cpp (cobs_reference data) = Some data \<and> 0 \<notin> set (cobs_reference data)
   \<and> cobs_written (foldl cobs_step cobs_init (take k data)) < cobs_buffer_bytes (length data)"
  using cobs_written_bound [of "min k (length data)" data]
  by (cases "k \<le> length data")
     (simp_all add: crc16_cpp_eq cpp_cobs_roundtrip cpp_cobs_no_zero flip: cpp_cobs_reference)

end
